(* ===== verification/Kernel_Prelude.thy ===== *)
theory Kernel_Prelude
  imports Main "HOL-Library.Word" "HOL-Library.Signed_Division"
begin

text \<open>
  Shared vocabulary of the development: the machine integers of the i386 C compiler the
  kernel is built with, the error numbers of \<^verbatim>\<open>include/errno.h\<close>, the outcome of a piece
  of kernel code that may sleep, and the predicates and lemmas on linked structures the
  components share.

  Conventions. A C \<^verbatim>\<open>int\<close> or \<^verbatim>\<open>long\<close> is an \<^typ>\<open>int\<close> with the wrap-around \<open>s32\<close> written out
  where the source computes with it and the result may leave the 32-bit range, or a
  \<^typ>\<open>32 word\<close> where the source works on bits. A pointer is a \<^typ>\<open>nat\<close>; \<open>NULL\<close> is \<open>0\<close>.
  An array is a list read with \<open>!\<close> inside its bounds and written with \<open>xs[i := v]\<close>.
\<close>

section \<open>Machine integers\<close>

unbundle bit_operations_syntax

type_synonym u8 = "8 word"
type_synonym u16 = "16 word"
type_synonym u32 = "32 word"
type_synonym ptr = nat

abbreviation (input) NULL :: ptr where "NULL \<equiv> 0"

definition s32 :: "int \<Rightarrow> int" where
  "s32 x = signed_take_bit 31 x"

definition in_s32 :: "int \<Rightarrow> bool" where
  "in_s32 x \<longleftrightarrow> - (2 ^ 31) \<le> x \<and> x < 2 ^ 31"

definition bit_of :: "int \<Rightarrow> u32" where
  "bit_of nr = push_bit (nat nr) 1"

named_theorems k_simps \<open>rewrite rules of the kernel model shared by the components\<close>
named_theorems k_inv \<open>invariant preservation facts\<close>

lemma s32_id [simp]: "in_s32 x \<Longrightarrow> s32 x = x"
  by (simp add: s32_def in_s32_def signed_take_bit_int_eq_self)

lemma s32_range: "in_s32 (s32 x)"
  unfolding in_s32_def s32_def
  using signed_take_bit_int_greater_eq_minus_exp [of 31 x] signed_take_bit_int_less_exp [of 31 x]
  by simp

lemma s32_s32_add [simp]: "s32 (s32 x + y) = s32 (x + y)"
  unfolding s32_def by (metis signed_take_bit_add signed_take_bit_signed_take_bit min.idem)

lemma s32_add_s32 [simp]: "s32 (x + s32 y) = s32 (x + y)"
  by (metis add.commute s32_s32_add)

lemma s32_s32_diff [simp]: "s32 (s32 x - y) = s32 (x - y)"
  unfolding s32_def by (metis signed_take_bit_diff signed_take_bit_signed_take_bit min.idem)

lemma s32_diff_s32 [simp]: "s32 (x - s32 y) = s32 (x - y)"
  unfolding s32_def by (metis signed_take_bit_diff signed_take_bit_signed_take_bit min.idem)

lemma s32_mult_s32 [simp]: "s32 (x * s32 y) = s32 (x * y)"
  unfolding s32_def by (metis signed_take_bit_mult signed_take_bit_signed_take_bit min.idem)

lemma s32_flat [simp]:
  "s32 (s32 a + b + c) = s32 (a + b + c)"
  "s32 (s32 a + b + c + d) = s32 (a + b + c + d)"
  "s32 (s32 a + b + c + d + e) = s32 (a + b + c + d + e)"
  by (metis add.assoc s32_s32_add)+

lemma s32_sint: "s32 x = sint (word_of_int x :: u32)"
  by (simp add: s32_def signed_of_int)

lemma uint_u32: "0 \<le> x \<Longrightarrow> x < 2 ^ 32 \<Longrightarrow> uint (word_of_int x :: u32) = x"
  by (simp add: uint_word_of_int_eq take_bit_int_eq_self)

section \<open>Error numbers\<close>

text \<open>The values of \<^verbatim>\<open>include/errno.h\<close> the modelled code returns (negated).\<close>

abbreviation (input) ERROR :: int where "ERROR \<equiv> 99"
abbreviation (input) EPERM :: int where "EPERM \<equiv> 1"
abbreviation (input) ENOENT :: int where "ENOENT \<equiv> 2"
abbreviation (input) ESRCH :: int where "ESRCH \<equiv> 3"
abbreviation (input) EINTR :: int where "EINTR \<equiv> 4"
abbreviation (input) EIO :: int where "EIO \<equiv> 5"
abbreviation (input) EBADF :: int where "EBADF \<equiv> 9"
abbreviation (input) ECHILD :: int where "ECHILD \<equiv> 10"
abbreviation (input) EAGAIN :: int where "EAGAIN \<equiv> 11"
abbreviation (input) ENOMEM :: int where "ENOMEM \<equiv> 12"
abbreviation (input) EACCES :: int where "EACCES \<equiv> 13"
abbreviation (input) EBUSY :: int where "EBUSY \<equiv> 16"
abbreviation (input) EEXIST :: int where "EEXIST \<equiv> 17"
abbreviation (input) EINVAL :: int where "EINVAL \<equiv> 22"
abbreviation (input) EMFILE :: int where "EMFILE \<equiv> 24"
abbreviation (input) ENOSPC :: int where "ENOSPC \<equiv> 28"
abbreviation (input) ESPIPE :: int where "ESPIPE \<equiv> 29"
abbreviation (input) ENOSYS :: int where "ENOSYS \<equiv> 38"
abbreviation (input) ERESTARTSYS :: int where "ERESTARTSYS \<equiv> 512"
abbreviation (input) ERESTARTNOINTR :: int where "ERESTARTNOINTR \<equiv> 513"

text \<open>The file type bits of \<^verbatim>\<open>include/sys/stat.h\<close>.\<close>

definition S_ISREG :: "u16 \<Rightarrow> bool" where "S_ISREG m \<longleftrightarrow> m AND 0xF000 = 0x8000"
definition S_ISDIR :: "u16 \<Rightarrow> bool" where "S_ISDIR m \<longleftrightarrow> m AND 0xF000 = 0x4000"
definition S_ISLNK :: "u16 \<Rightarrow> bool" where "S_ISLNK m \<longleftrightarrow> m AND 0xF000 = 0xA000"
definition S_ISCHR :: "u16 \<Rightarrow> bool" where "S_ISCHR m \<longleftrightarrow> m AND 0xF000 = 0x2000"
definition S_ISBLK :: "u16 \<Rightarrow> bool" where "S_ISBLK m \<longleftrightarrow> m AND 0xF000 = 0x6000"

section \<open>Outcomes\<close>

text \<open>
  What a piece of kernel code that may sleep ends with, when what the rest of the system
  does during its sleeps is given as a list of state transformers: it returns, it
  panics, or it is still asleep when the list is used up.
\<close>

datatype 'a outcome = Done 'a | Panicked | Asleep

fun then_do :: "'a outcome \<Rightarrow> ('a \<Rightarrow> 'b outcome) \<Rightarrow> 'b outcome" where
  "then_do (Done a) f = f a"
| "then_do Panicked f = Panicked"
| "then_do Asleep f = Asleep"

lemma then_do_assoc: "then_do (then_do m f) g = then_do m (\<lambda>x. then_do (f x) g)"
  by (cases m) auto

lemma then_do_Done: "then_do m f = Done b \<longleftrightarrow> (\<exists>a. m = Done a \<and> f a = Done b)"
  by (cases m) auto

text \<open>\<open>ensures P r\<close>: the operation does not panic, and when it comes back its result satisfies \<open>P\<close>.\<close>

fun ensures :: "('a \<Rightarrow> bool) \<Rightarrow> 'a outcome \<Rightarrow> bool" where
  "ensures P (Done a) \<longleftrightarrow> P a"
| "ensures P Panicked \<longleftrightarrow> False"
| "ensures P Asleep \<longleftrightarrow> True"

lemma ensures_then: "ensures P r \<Longrightarrow> (\<And>a. P a \<Longrightarrow> ensures Q (f a)) \<Longrightarrow> ensures Q (then_do r f)"
  by (cases r) auto

lemma ensures_if: "(b \<Longrightarrow> ensures P x) \<Longrightarrow> (\<not> b \<Longrightarrow> ensures P y) \<Longrightarrow> ensures P (if b then x else y)"
  by simp

lemma ensures_mono: "ensures P r \<Longrightarrow> (\<And>a. P a \<Longrightarrow> Q a) \<Longrightarrow> ensures Q r"
  by (cases r) auto

text \<open>\<open>on_done P r\<close>: if the operation comes back, its result satisfies \<open>P\<close>.\<close>

fun on_done :: "('a \<Rightarrow> bool) \<Rightarrow> 'a outcome \<Rightarrow> bool" where
  "on_done P (Done a) \<longleftrightarrow> P a"
| "on_done P Panicked \<longleftrightarrow> True"
| "on_done P Asleep \<longleftrightarrow> True"

lemma on_done_then: "on_done P r \<Longrightarrow> (\<And>a. P a \<Longrightarrow> on_done Q (f a)) \<Longrightarrow> on_done Q (then_do r f)"
  by (cases r) auto

lemma on_done_mono: "on_done P r \<Longrightarrow> (\<And>a. P a \<Longrightarrow> Q a) \<Longrightarrow> on_done Q r"
  by (cases r) auto

section \<open>Searches\<close>

lemma find_append: "find P (xs @ ys) = (case find P xs of None \<Rightarrow> find P ys | Some x \<Rightarrow> Some x)"
  by (induction xs) auto

lemma find_SomeD: "find P xs = Some x \<Longrightarrow> x \<in> set xs \<and> P x"
  by (induction xs) (auto split: if_splits)

lemma find_ex_Some: "x \<in> set xs \<Longrightarrow> P x \<Longrightarrow> \<exists>y. find P xs = Some y"
  by (induction xs) auto

section \<open>Linked structures\<close>

text \<open>
  Element \<open>i\<close> of a static array of structures is at pointer \<open>i + 1\<close>.  A singly linked chain
  is a list of non-null pointers: \<open>path nx p xs q\<close> walks the link field \<open>nx\<close> from \<open>p\<close> through
  exactly \<open>xs\<close> to \<open>q\<close>, and \<open>chain\<close> is such a walk to the null pointer.
\<close>

primrec path :: "(ptr \<Rightarrow> ptr) \<Rightarrow> ptr \<Rightarrow> ptr list \<Rightarrow> ptr \<Rightarrow> bool" where
  "path nx p [] q \<longleftrightarrow> p = q"
| "path nx p (x # xs) q \<longleftrightarrow> p = x \<and> x \<noteq> NULL \<and> path nx (nx x) xs q"

definition chain :: "(ptr \<Rightarrow> ptr) \<Rightarrow> ptr \<Rightarrow> ptr list \<Rightarrow> bool" where
  "chain nx p xs \<longleftrightarrow> path nx p xs NULL"

lemma path_append [simp]: "path nx p (xs @ ys) q \<longleftrightarrow> (\<exists>r. path nx p xs r \<and> path nx r ys q)"
  by (induction xs arbitrary: p) auto

lemma path_cong: "(\<And>x. x \<in> set xs \<Longrightarrow> f x = g x) \<Longrightarrow> path f p xs q \<longleftrightarrow> path g p xs q"
  by (induction xs arbitrary: p) auto

lemma path_upd [simp]: "x \<notin> set xs \<Longrightarrow> path (nx(x := y)) p xs q \<longleftrightarrow> path nx p xs q"
  by (rule path_cong) auto

lemma path_nonnull: "path nx p xs q \<Longrightarrow> NULL \<notin> set xs"
  by (induction xs arbitrary: p) auto

lemma path_head: "path nx p xs q \<Longrightarrow> xs \<noteq> [] \<Longrightarrow> p = hd xs"
  by (cases xs) auto

lemma path_unique_end: "path nx p xs q \<Longrightarrow> path nx p xs q' \<Longrightarrow> q = q'"
  by (induction xs arbitrary: p) auto

lemma chain_simps [simp]:
  "chain nx p [] \<longleftrightarrow> p = NULL"
  "chain nx p (x # xs) \<longleftrightarrow> p = x \<and> x \<noteq> NULL \<and> chain nx (nx x) xs"
  by (auto simp: chain_def)

lemma chain_null [simp]: "chain nx NULL xs \<longleftrightarrow> xs = []"
  by (cases xs) auto

lemma chain_append: "chain nx p (xs @ ys) \<longleftrightarrow> (\<exists>r. path nx p xs r \<and> chain nx r ys)"
  by (simp add: chain_def)

lemma chain_upd [simp]: "x \<notin> set xs \<Longrightarrow> chain (nx(x := y)) p xs \<longleftrightarrow> chain nx p xs"
  by (simp add: chain_def)

lemma chain_cong: "(\<And>x. x \<in> set xs \<Longrightarrow> f x = g x) \<Longrightarrow> chain f p xs \<longleftrightarrow> chain g p xs"
  unfolding chain_def by (rule path_cong)

lemma chain_nonnull: "chain nx p xs \<Longrightarrow> NULL \<notin> set xs"
  unfolding chain_def by (rule path_nonnull)

lemma chain_unique: "chain nx p xs \<Longrightarrow> chain nx p ys \<Longrightarrow> xs = ys"
proof (induction xs arbitrary: p ys)
  case Nil
  then show ?case by simp
next
  case (Cons x xs)
  then show ?case by (cases ys) auto
qed

lemma chain_distinct: "chain nx p xs \<Longrightarrow> distinct xs"
proof (induction xs arbitrary: p)
  case Nil
  then show ?case by simp
next
  case (Cons x xs)
  have "x \<notin> set xs"
  proof
    assume "x \<in> set xs"
    then obtain us vs where xs: "xs = us @ x # vs" by (meson split_list)
    with Cons.prems have "chain nx (nx x) (us @ x # vs)" "chain nx (nx x) vs"
      by (auto simp: chain_append)
    then show False using chain_unique by fastforce
  qed
  with Cons show ?case by auto
qed

text \<open>Doubly linked: \<open>dpath nx pv y p xs y' q\<close> also checks the back links, from \<open>y\<close> to \<open>y'\<close>.\<close>

primrec dpath :: "(ptr \<Rightarrow> ptr) \<Rightarrow> (ptr \<Rightarrow> ptr) \<Rightarrow> ptr \<Rightarrow> ptr \<Rightarrow> ptr list \<Rightarrow> ptr \<Rightarrow> ptr \<Rightarrow> bool" where
  "dpath nx pv y p [] y' q \<longleftrightarrow> p = q \<and> y = y'"
| "dpath nx pv y p (x # xs) y' q \<longleftrightarrow> p = x \<and> x \<noteq> NULL \<and> pv x = y \<and> dpath nx pv x (nx x) xs y' q"

lemma dpath_append [simp]:
  "dpath nx pv y p (xs @ ys) y' q \<longleftrightarrow> (\<exists>m r. dpath nx pv y p xs m r \<and> dpath nx pv m r ys y' q)"
  by (induction xs arbitrary: y p) auto

lemma dpath_cong:
  "(\<And>x. x \<in> set xs \<Longrightarrow> nx x = nx' x \<and> pv x = pv' x) \<Longrightarrow> dpath nx pv y p xs y' q = dpath nx' pv' y p xs y' q"
  by (induction xs arbitrary: y p) auto

lemma dpath_path: "dpath nx pv y p xs y' q \<Longrightarrow> path nx p xs q"
  by (induction xs arbitrary: y p) auto

lemma dpath_last: "dpath nx pv y p xs y' q \<Longrightarrow> y' = (if xs = [] then y else last xs)"
  by (induction xs arbitrary: y p) auto

lemma dpath_hd: "dpath nx pv y p xs y' q \<Longrightarrow> p = (if xs = [] then q else hd xs)"
  by (cases xs) auto

lemma dpath_relink:
  assumes "dpath nx pv y p xs y' q" "xs \<noteq> []" "distinct xs" "nx' (last xs) = q'" "pv' (hd xs) = y0"
    and "\<And>x. x \<in> set xs \<Longrightarrow> x \<noteq> last xs \<Longrightarrow> nx' x = nx x" "\<And>x. x \<in> set xs \<Longrightarrow> x \<noteq> hd xs \<Longrightarrow> pv' x = pv x"
  shows "dpath nx' pv' y0 p xs y' q'"
  using assms
proof (induction xs arbitrary: y p pv' y0)
  case Nil
  then show ?case by simp
next
  case (Cons x xs)
  show ?case
  proof (cases "xs = []")
    case True
    then show ?thesis using Cons.prems by auto
  next
    case False
    have x: "x \<notin> set xs" "last (x # xs) = last xs" using Cons.prems(3) False by auto
    moreover from this have "x \<noteq> last xs" using last_in_set [OF False] by metis
    ultimately have "nx' x = nx x" using Cons.prems(6) [of x] by simp
    note x = x this
    have "dpath nx' pv' x (nx x) xs y' q'"
    proof (rule Cons.IH [of x "nx x" pv' x])
      show "dpath nx pv x (nx x) xs y' q" "xs \<noteq> []" "distinct xs" using Cons.prems(1,3) False by auto
      show "pv' (hd xs) = x"
        using Cons.prems(1,7) x(1) False by (cases xs) auto
    qed (use Cons.prems(4,6,7) x False in \<open>auto simp: hd_in_set\<close>)
    then show ?thesis using Cons.prems(1,5) x(3) by auto
  qed
qed

text \<open>Doubly linked lists that start and end with \<open>NULL\<close>: removing an element, pushing one in front.\<close>

lemma dpath_neighbours:
  assumes "dpath nx pv NULL p (us @ b # vs) y NULL"
  shows "pv b = (if us = [] then NULL else last us)" "nx b = (if vs = [] then NULL else hd vs)"
    "p = (if us = [] then b else hd us)"
proof -
  obtain m r where d: "dpath nx pv NULL p us m r" "dpath nx pv m r (b # vs) y NULL" using assms by auto
  show "pv b = (if us = [] then NULL else last us)" using d(2) dpath_last [OF d(1)] by simp
  have "dpath nx pv b (nx b) vs y NULL" using d(2) by simp
  from dpath_hd [OF this] show "nx b = (if vs = [] then NULL else hd vs)" .
  show "p = (if us = [] then b else hd us)" using dpath_hd [OF d(1)] d(2) by simp
qed

lemma dpath_remove:
  assumes d: "dpath nx pv NULL p (us @ b # vs) y NULL"
    and nx': "\<And>x. x \<noteq> b \<Longrightarrow> nx' x = (if x = pv b then nx b else nx x)"
    and pv': "\<And>x. x \<noteq> b \<Longrightarrow> pv' x = (if x = nx b then pv b else pv x)"
  shows "\<exists>y'. dpath nx' pv' NULL (if p = b then nx b else p) (us @ vs) y' NULL"
proof -
  note n = dpath_neighbours [OF d]
  have di: "distinct (us @ b # vs)" by (rule chain_distinct) (unfold chain_def, rule dpath_path [OF d])
  then have bu: "b \<notin> set us" "b \<notin> set vs" "\<And>x. x \<in> set us \<Longrightarrow> x \<notin> set vs" by auto
  obtain m r where e: "dpath nx pv NULL p us m r" "dpath nx pv b (nx b) vs y NULL" using d by auto
  have "dpath nx' pv' NULL p us (last us) (nx b)" if u: "us \<noteq> []"
  proof -
    have "dpath nx' pv' NULL p us m (nx b)"
    proof (rule dpath_relink [OF e(1) u])
      show "nx' (last us) = nx b" using nx' [of "last us"] n(1) u bu last_in_set [OF u] by metis
      have "pv (hd us) = NULL" using e(1) u by (cases us) auto
      moreover have "NULL \<notin> set us" using path_nonnull [OF dpath_path [OF d]] by auto
      then have "hd us \<noteq> NULL" using hd_in_set [OF u] by metis
      then have "hd us \<noteq> nx b" using n(2) bu(3) hd_in_set [OF u] hd_in_set [of vs] by metis
      moreover have "hd us \<noteq> b" using bu hd_in_set [OF u] by metis
      ultimately show "pv' (hd us) = NULL" using pv' [of "hd us"] by auto
    next
      fix x assume x: "x \<in> set us"
      have "x \<noteq> b" using x di by auto
      then show "nx' x = nx x" if "x \<noteq> last us" using that nx' [of x] n(1) u by simp
      have "NULL \<notin> set us" using path_nonnull [OF dpath_path [OF d]] by auto
      then have "x \<noteq> nx b" using x n(2) bu(3) hd_in_set [of vs] by metis
      then show "pv' x = pv x" using pv' [of x] \<open>x \<noteq> b\<close> by simp
    qed (use di in auto)
    then show ?thesis using dpath_last [OF e(1)] u by simp
  qed
  moreover have "dpath nx' pv' (pv b) (nx b) vs y NULL" if v: "vs \<noteq> []"
  proof (rule dpath_relink [OF e(2) v])
    show "pv' (hd vs) = pv b" using pv' [of "hd vs"] n(2) v bu hd_in_set [OF v] by metis
    have nn: "NULL \<notin> set vs" using path_nonnull [OF dpath_path [OF d]] by auto
    have "last vs \<noteq> pv b" using n(1) bu(3) last_in_set [OF v] last_in_set [of us] nn by metis
    moreover have "last vs \<noteq> b" using bu(2) last_in_set [OF v] by metis
    moreover have "nx (last vs) = NULL"
      using e(2) v by (metis append_butlast_last_id dpath.simps dpath_append)
    ultimately show "nx' (last vs) = NULL" using nx' [of "last vs"] by simp
  next
    fix x assume x: "x \<in> set vs"
    have "x \<noteq> b" using x di by auto
    then show "pv' x = pv x" if "x \<noteq> hd vs" using that pv' [of x] n(2) v by simp
    have "NULL \<notin> set vs" using path_nonnull [OF dpath_path [OF d]] by auto
    then have "x \<noteq> pv b" using x n(1) bu(3) last_in_set [of us] by metis
    then show "nx' x = nx x" using nx' [of x] \<open>x \<noteq> b\<close> by simp
  qed (use di in auto)
  moreover have "p = b \<longleftrightarrow> us = []" using n(3) bu(1) hd_in_set [of us] by metis
  ultimately show ?thesis using n e by (cases "us = []"; cases "vs = []") auto
qed

lemma dpath_push:
  assumes d: "dpath nx pv NULL p xs y NULL" and b: "b \<notin> set xs" "b \<noteq> NULL"
    and nx': "\<And>x. nx' x = (if x = b then p else nx x)"
    and pv': "\<And>x. x \<noteq> NULL \<Longrightarrow> pv' x = (if x = b then NULL else if x = p then b else pv x)"
  shows "\<exists>y'. dpath nx' pv' NULL b (b # xs) y' NULL"
proof (cases "xs = []")
  case True
  then show ?thesis using d b(2) nx' pv' by auto
next
  case False
  have di: "distinct xs" using chain_distinct dpath_path [OF d] by (simp add: chain_def)
  have nn: "NULL \<notin> set xs" using path_nonnull [OF dpath_path [OF d]] .
  have p: "p = hd xs" using dpath_hd [OF d] False by simp
  have l: "nx (last xs) = NULL" using d False by (metis append_butlast_last_id dpath.simps dpath_append)
  have "dpath nx' pv' b p xs y NULL"
  proof (rule dpath_relink [OF d False di])
    show "nx' (last xs) = NULL" using nx' l b(1) last_in_set [OF False] by auto
    show "pv' (hd xs) = b" using pv' [of "hd xs"] p b(1) nn hd_in_set [OF False] by metis
    show "nx' x = nx x" if "x \<in> set xs" for x using nx' [of x] b(1) that by auto
    show "pv' x = pv x" if "x \<in> set xs" "x \<noteq> hd xs" for x using pv' [of x] b(1) nn p that by metis
  qed
  then show ?thesis using nx' [of b] pv' [of b] b(2) by auto
qed

text \<open>A ring: the last element links back to the first.\<close>

definition ring :: "(ptr \<Rightarrow> ptr) \<Rightarrow> (ptr \<Rightarrow> ptr) \<Rightarrow> ptr list \<Rightarrow> bool" where
  "ring nx pv xs \<longleftrightarrow> xs \<noteq> [] \<and> distinct xs \<and> dpath nx pv (last xs) (hd xs) xs (last xs) (hd xs)"

lemma ring_rotate: "ring nx pv (us @ vs) \<Longrightarrow> us \<noteq> [] \<Longrightarrow> vs \<noteq> [] \<Longrightarrow> ring nx pv (vs @ us)"
proof -
  assume r: "ring nx pv (us @ vs)" and n: "us \<noteq> []" "vs \<noteq> []"
  then obtain m a where d: "dpath nx pv (last vs) (hd us) us m a" "dpath nx pv m a vs (last vs) (hd us)"
    by (auto simp: ring_def)
  then have "m = last us" "a = hd vs" using dpath_last [OF d(1)] dpath_hd [OF d(2)] n by auto
  then show ?thesis using r n d by (auto simp: ring_def)
qed

lemma ring_cong: "(\<And>x. x \<in> set xs \<Longrightarrow> nx x = nx' x \<and> pv x = pv' x) \<Longrightarrow> ring nx pv xs = ring nx' pv' xs"
  using dpath_cong [of xs nx nx' pv pv'] by (simp add: ring_def)

lemma ring_drop_first:
  assumes "ring nx pv (b # vs)" "vs \<noteq> []" "nx' (last vs) = nx b" "pv' (hd vs) = pv b"
    and "\<And>x. x \<in> set vs \<Longrightarrow> x \<noteq> last vs \<Longrightarrow> nx' x = nx x" "\<And>x. x \<in> set vs \<Longrightarrow> x \<noteq> hd vs \<Longrightarrow> pv' x = pv x"
  shows "ring nx' pv' vs"
proof -
  have d: "dpath nx pv b (nx b) vs (last vs) b" "pv b = last vs" "distinct vs" using assms(1,2) by (auto simp: ring_def)
  have "nx b = hd vs" using dpath_hd [OF d(1)] assms(2) by simp
  moreover have "dpath nx' pv' (pv b) (nx b) vs (last vs) (nx b)"
    by (rule dpath_relink [OF d(1) assms(2) d(3)]) (use assms(3-6) in auto)
  ultimately show ?thesis using d(2,3) assms(2) by (simp add: ring_def)
qed

lemma ring_remove:
  assumes "ring nx pv (us @ b # vs)" "us @ vs \<noteq> []" "nx' (pv b) = nx b" "pv' (nx b) = pv b"
    and "\<And>x. x \<noteq> b \<Longrightarrow> x \<noteq> pv b \<Longrightarrow> nx' x = nx x" "\<And>x. x \<noteq> b \<Longrightarrow> x \<noteq> nx b \<Longrightarrow> pv' x = pv x"
  shows "ring nx' pv' (us @ vs)"
proof -
  have r: "ring nx pv (b # vs @ us)" using ring_rotate [OF assms(1)] assms(1) by (cases us) auto
  have n: "vs @ us \<noteq> []" "b \<notin> set (vs @ us)" using assms(1,2) by (auto simp: ring_def)
  have l: "pv b = last (vs @ us)" using r n by (auto simp: ring_def)
  have h: "nx b = hd (vs @ us)"
  proof -
    have "dpath nx pv b (nx b) (vs @ us) (last (b # vs @ us)) b" using r by (simp add: ring_def)
    from dpath_hd [OF this] n(1) show ?thesis by presburger
  qed
  have "ring nx' pv' (vs @ us)"
  proof (rule ring_drop_first [OF r n(1)])
    show "nx' (last (vs @ us)) = nx b" "pv' (hd (vs @ us)) = pv b" using assms(3,4) l h by metis+
    show "nx' x = nx x" if "x \<in> set (vs @ us)" "x \<noteq> last (vs @ us)" for x using that assms(5) l n(2) by metis
    show "pv' x = pv x" if "x \<in> set (vs @ us)" "x \<noteq> hd (vs @ us)" for x using that assms(6) h n(2) by metis
  qed
  then show ?thesis using ring_rotate [of nx' pv' vs us] by (cases "us = []"; cases "vs = []") auto
qed

lemma ring_insert_last:
  assumes "ring nx pv xs" "b \<notin> set xs" "b \<noteq> NULL" "nx' b = hd xs" "pv' b = last xs" "nx' (last xs) = b" "pv' (hd xs) = b"
    and "\<And>x. x \<noteq> b \<Longrightarrow> x \<noteq> last xs \<Longrightarrow> nx' x = nx x" "\<And>x. x \<noteq> b \<Longrightarrow> x \<noteq> hd xs \<Longrightarrow> pv' x = pv x"
  shows "ring nx' pv' (xs @ [b])"
proof -
  have d: "xs \<noteq> []" "distinct xs" "dpath nx pv (last xs) (hd xs) xs (last xs) (hd xs)" using assms(1) by (auto simp: ring_def)
  have "dpath nx' pv' b (hd xs) xs (last xs) b"
  proof (rule dpath_relink [OF d(3,1,2)])
    show "nx' (last xs) = b" "pv' (hd xs) = b" by (rule assms(6), rule assms(7))
    show "nx' x = nx x" if "x \<in> set xs" "x \<noteq> last xs" for x using that assms(2,8) by metis
    show "pv' x = pv x" if "x \<in> set xs" "x \<noteq> hd xs" for x using that assms(2,9) by metis
  qed
  then have "ring nx' pv' ([b] @ xs)" using d assms by (auto simp: ring_def)
  then show ?thesis using ring_rotate [of nx' pv' "[b]" xs] d(1) by simp
qed

end
