(* ===== verification/Mktime.thy ===== *)
theory Mktime
  imports Kernel_Prelude
begin

text \<open>
  The boot-time clock conversion, \<^verbatim>\<open>kernel/mktime.c\<close>: from the broken-down time read from
  the CMOS to the seconds since the epoch.  The reference is the Gregorian calendar,
  summed year by year and month by month.
\<close>

section \<open>The code\<close>

record tm =
  tm_sec :: int
  tm_min :: int
  tm_hour :: int
  tm_mday :: int
  tm_mon :: int
  tm_year :: int
  tm_wday :: int
  tm_yday :: int
  tm_isdst :: int

abbreviation (input) MINUTE :: int where "MINUTE \<equiv> 60"
abbreviation (input) HOUR :: int where "HOUR \<equiv> 60 * 60"
abbreviation (input) DAY :: int where "DAY \<equiv> 24 * (60 * 60)"
abbreviation (input) YEAR :: int where "YEAR \<equiv> 365 * (24 * (60 * 60))"

definition month :: "int list" where
  "month =
    [0,
     DAY*(31),
     DAY*(31+29),
     DAY*(31+29+31),
     DAY*(31+29+31+30),
     DAY*(31+29+31+30+31),
     DAY*(31+29+31+30+31+30),
     DAY*(31+29+31+30+31+30+31),
     DAY*(31+29+31+30+31+30+31+31),
     DAY*(31+29+31+30+31+30+31+31+30),
     DAY*(31+29+31+30+31+30+31+31+30+31),
     DAY*(31+29+31+30+31+30+31+31+30+31+30)]"

text \<open>
  \<open>kernel_mktime\<close> also writes \<^verbatim>\<open>tm_year\<close> back through its pointer, so the model returns
  the updated structure beside the result.  A \<^verbatim>\<open>tm_mon\<close> outside the array \<^verbatim>\<open>month\<close> is an
  undefined read: no result.
\<close>

definition kernel_mktime :: "tm \<Rightarrow> (int \<times> tm) option" where
  "kernel_mktime t =
    (let t = (if tm_year t < 70 then t\<lparr>tm_year := s32 (tm_year t + 100)\<rparr> else t);
         year = s32 (tm_year t - 70);
         res = s32 (s32 (YEAR * year) + s32 (DAY * (s32 (year + 1) sdiv 4)))
     in if 0 \<le> tm_mon t \<and> tm_mon t < 12 then
          let res = s32 (res + month ! nat (tm_mon t));
              res = (if tm_mon t > 1 \<and> s32 (year + 2) smod 4 \<noteq> 0 then s32 (res - DAY) else res);
              res = s32 (res + s32 (DAY * s32 (tm_mday t - 1)));
              res = s32 (res + s32 (HOUR * tm_hour t));
              res = s32 (res + s32 (MINUTE * tm_min t));
              res = s32 (res + tm_sec t)
          in Some (res, t)
        else None)"

section \<open>The calendar\<close>

definition leap :: "nat \<Rightarrow> bool" where
  "leap y \<longleftrightarrow> y mod 4 = 0 \<and> (y mod 100 \<noteq> 0 \<or> y mod 400 = 0)"

definition year_days :: "nat \<Rightarrow> int" where
  "year_days y = (if leap y then 366 else 365)"

definition month_days :: "nat \<Rightarrow> nat \<Rightarrow> int" where
  "month_days y m =
    (if m = 1 then (if leap y then 29 else 28)
     else if m \<in> {3, 5, 8, 10} then 30 else 31)"

definition days_before :: "nat \<Rightarrow> nat \<Rightarrow> int" where
  "days_before y m = (\<Sum>k = 1970..<y. year_days k) + (\<Sum>k = 0..<m. month_days y k)"

text \<open>The seconds from 1970-01-01 00:00:00 to the given date of year \<open>y\<close>, month \<open>m\<close> (0 = January).\<close>

definition epoch_seconds :: "nat \<Rightarrow> nat \<Rightarrow> int \<Rightarrow> int \<Rightarrow> int \<Rightarrow> int \<Rightarrow> int" where
  "epoch_seconds y m d h mi s = DAY * (days_before y m + (d - 1)) + HOUR * h + MINUTE * mi + s"

section \<open>Correctness\<close>

lemma leap_offset:
  assumes "k < 130"
  shows "leap (1970 + k) \<longleftrightarrow> (k + 2) mod 4 = 0"
proof -
  have "(1970 + k) mod 4 = (k + 2) mod 4" by presburger
  moreover have "k = 30" if "(1970 + k) mod 100 = 0"
  proof -
    from that have "100 dvd 1970 + k" by (rule mod_eq_0_iff_dvd [THEN iffD1])
    then obtain q where q: "1970 + k = 100 * q" by (elim dvdE)
    have "19 < q" using q by linarith
    moreover have "q < 21" using q assms by linarith
    ultimately have "q = 20" by linarith
    with q show "k = 30" by linarith
  qed
  ultimately show ?thesis unfolding leap_def
    by (cases "(1970 + k) mod 100 = 0") (simp_all only: simp_thms, simp)
qed

lemma years_closed: "k \<le> 130 \<Longrightarrow> (\<Sum>j = 1970..<1970 + k. year_days j) = 365 * int k + (int k + 1) div 4"
proof (induction k)
  case 0
  then show ?case by simp
next
  case (Suc k)
  then have IH: "(\<Sum>j = 1970..<1970 + k. year_days j) = 365 * int k + (int k + 1) div 4"
    by simp
  have l: "leap (1970 + k) \<longleftrightarrow> (k + 2) mod 4 = 0"
    using Suc.prems leap_offset [of k] by simp
  have "(\<Sum>j = 1970..<1970 + Suc k. year_days j) = 365 * int k + (int k + 1) div 4 + year_days (1970 + k)"
    unfolding add_Suc_right using IH sum.atLeastLessThan_Suc [of 1970 "1970 + k" year_days] by simp
  also have "\<dots> = 365 * int (Suc k) + (int (Suc k) + 1) div 4"
    unfolding year_days_def l by presburger
  finally show ?case .
qed

lemma months_closed:
  assumes "m < 12"
  shows "DAY * (\<Sum>k = 0..<m. month_days y k) = month ! m - (if m > 1 \<and> \<not> leap y then DAY else 0)"
proof -
  have "m \<in> set [0..<12]" using assms by simp
  then show ?thesis
    by (auto simp: month_def month_days_def upt_rec numeral_nat)
qed

definition full_year :: "tm \<Rightarrow> int" where
  "full_year t = (if tm_year t < 70 then 2000 + tm_year t else 1900 + tm_year t)"

text \<open>
  C22. \<open>kernel_mktime\<close> agrees with the Gregorian calendar for every two-digit or
  offset-1900 year up to 2099: the result is the number of seconds from the epoch to the
  given date, reduced to the 32 bits of a \<^verbatim>\<open>long\<close>, and \<^verbatim>\<open>tm_year\<close> is left at the year minus 1900.
\<close>

theorem kernel_mktime_calendar:
  assumes "0 \<le> tm_year t" "tm_year t < 200" "0 \<le> tm_mon t" "tm_mon t < 12"
  shows "kernel_mktime t =
    Some (s32 (epoch_seconds (nat (full_year t)) (nat (tm_mon t)) (tm_mday t) (tm_hour t) (tm_min t) (tm_sec t)),
          t\<lparr>tm_year := full_year t - 1900\<rparr>)"
proof -
  define k where "k = nat (full_year t - 1970)"
  have k: "full_year t = 1970 + int k" "k < 130"
    using assms by (auto simp: k_def full_year_def)
  have y: "nat (full_year t) = 1970 + k" using k by simp
  have l: "leap (1970 + k) \<longleftrightarrow> (int k + 2) mod 4 = 0"
    unfolding leap_offset [OF k(2)] using zmod_int [of "k + 2" 4]
    by (metis int_ops(2,5) of_nat_eq_0_iff of_nat_numeral)
  have ys: "(\<Sum>j = 1970..<1970 + k. year_days j) = 365 * int k + (int k + 1) div 4"
    using years_closed k(2) by simp
  have ms: "DAY * (\<Sum>j = 0..<nat (tm_mon t). month_days (1970 + k) j) =
      month ! nat (tm_mon t) - (if tm_mon t > 1 \<and> (int k + 2) mod 4 \<noteq> 0 then DAY else 0)"
    using months_closed [of "nat (tm_mon t)" "1970 + k"] assms l by auto
  have t': "(if tm_year t < 70 then t\<lparr>tm_year := s32 (tm_year t + 100)\<rparr> else t) = t\<lparr>tm_year := full_year t - 1900\<rparr>"
    using assms by (auto simp: full_year_def in_s32_def)
  have kr: "s32 (int k) = int k" "s32 (int k + 1) = int k + 1" "s32 (int k + 2) = int k + 2"
    using k by (auto simp: in_s32_def)
  have sd: "(int k + 1) sdiv 4 = (int k + 1) div 4" "(int k + 2) smod 4 = (int k + 2) mod 4"
    by (simp_all add: signed_divide_int_def smod_mod_positive)
  have E: "epoch_seconds (nat (full_year t)) (nat (tm_mon t)) (tm_mday t) (tm_hour t) (tm_min t) (tm_sec t)
     = YEAR * int k + DAY * ((int k + 1) div 4) + month ! nat (tm_mon t)
       - (if tm_mon t > 1 \<and> (int k + 2) mod 4 \<noteq> 0 then DAY else 0)
       + DAY * (tm_mday t - 1) + HOUR * tm_hour t + MINUTE * tm_min t + tm_sec t"
    unfolding epoch_seconds_def days_before_def y ys distrib_left ms by simp
  show ?thesis
    unfolding kernel_mktime_def Let_def t' E unfolding k(1) using assms
    by (cases "tm_mon t > 1 \<and> (int k + 2) mod 4 \<noteq> 0") (auto simp: kr sd)
qed

theorem kernel_mktime_calendar_witness:
  "kernel_mktime \<lparr>tm_sec = 7, tm_min = 14, tm_hour = 3, tm_mday = 19, tm_mon = 0, tm_year = 38,
      tm_wday = 0, tm_yday = 0, tm_isdst = 0\<rparr> =
    Some (s32 (epoch_seconds 2038 0 19 3 14 7),
      \<lparr>tm_sec = 7, tm_min = 14, tm_hour = 3, tm_mday = 19, tm_mon = 0, tm_year = 138,
        tm_wday = 0, tm_yday = 0, tm_isdst = 0\<rparr>)"
  using kernel_mktime_calendar [of "\<lparr>tm_sec = 7, tm_min = 14, tm_hour = 3, tm_mday = 19, tm_mon = 0,
    tm_year = 38, tm_wday = 0, tm_yday = 0, tm_isdst = 0\<rparr>"]
  by (simp add: full_year_def)

end
