(* ===== verification/Task_State.thy ===== *)
theory Task_State
  imports Kernel_Prelude
begin

text \<open>
  The process table of \<^verbatim>\<open>include/linux/sched.h\<close> and \<^verbatim>\<open>kernel/sched.c\<close>: the task structure, the
  array \<^verbatim>\<open>task[NR_TASKS]\<close> of pointers to task structures, the current task and the clock.
  Task structures live in a store from pointers to records.  The store is total: the
  kernel maps address 0, and code that follows a null task pointer reads what lies there,
  which is \<open>tsk s NULL\<close>.
\<close>

section \<open>Signals and limits\<close>

record sigaction =
  sa_handler :: u32
  sa_mask :: u32
  sa_flags :: u32
  sa_restorer :: u32

record rlimit =
  rlim_cur :: int
  rlim_max :: int

abbreviation (input) SIGHUP :: int where "SIGHUP \<equiv> 1"
abbreviation (input) SIGQUIT :: int where "SIGQUIT \<equiv> 3"
abbreviation (input) SIGILL :: int where "SIGILL \<equiv> 4"
abbreviation (input) SIGTRAP :: int where "SIGTRAP \<equiv> 5"
abbreviation (input) SIGIOT :: int where "SIGIOT \<equiv> 6"
abbreviation (input) SIGFPE :: int where "SIGFPE \<equiv> 8"
abbreviation (input) SIGKILL :: int where "SIGKILL \<equiv> 9"
abbreviation (input) SIGSEGV :: int where "SIGSEGV \<equiv> 11"
abbreviation (input) SIGPIPE :: int where "SIGPIPE \<equiv> 13"
abbreviation (input) SIGALRM :: int where "SIGALRM \<equiv> 14"
abbreviation (input) SIGCHLD :: int where "SIGCHLD \<equiv> 17"
abbreviation (input) SIGCONT :: int where "SIGCONT \<equiv> 18"
abbreviation (input) SIGSTOP :: int where "SIGSTOP \<equiv> 19"
abbreviation (input) SIGTSTP :: int where "SIGTSTP \<equiv> 20"
abbreviation (input) SIGTTIN :: int where "SIGTTIN \<equiv> 21"
abbreviation (input) SIGTTOU :: int where "SIGTTOU \<equiv> 22"

abbreviation (input) SA_NOCLDSTOP :: u32 where "SA_NOCLDSTOP \<equiv> 1"
abbreviation (input) SA_INTERRUPT :: u32 where "SA_INTERRUPT \<equiv> 0x20000000"
abbreviation (input) SA_NOMASK :: u32 where "SA_NOMASK \<equiv> 0x40000000"
abbreviation (input) SA_ONESHOT :: u32 where "SA_ONESHOT \<equiv> 0x80000000"

text \<open>The bit of a signal in a signal bitmap: \<^verbatim>\<open>1 << (sig - 1)\<close>.\<close>

definition sigbit :: "int \<Rightarrow> u32" where
  "sigbit sig = push_bit (nat (sig - 1)) 1"

section \<open>Tasks\<close>

datatype task_run_state =
    TASK_RUNNING
  | TASK_INTERRUPTIBLE
  | TASK_UNINTERRUPTIBLE
  | TASK_ZOMBIE
  | TASK_STOPPED

record task_struct =
  state :: task_run_state
  counter :: int
  priority :: int
  signal :: u32
  sigactions :: "sigaction list"
  blocked :: u32
  exit_code :: int
  start_code :: u32
  end_code :: u32
  end_data :: u32
  brk :: u32
  start_stack :: u32
  pid :: int
  pgrp :: int
  session :: int
  leader :: int
  groups :: "int list"
  p_pptr :: ptr
  p_cptr :: ptr
  p_ysptr :: ptr
  p_osptr :: ptr
  next_wait :: ptr
  uid :: u16
  euid :: u16
  suid :: u16
  gid :: u16
  egid :: u16
  sgid :: u16
  timeout :: u32
  alarm :: u32
  utime :: int
  stime :: int
  cutime :: int
  cstime :: int
  start_time :: int
  min_flt :: u32
  maj_flt :: u32
  cmin_flt :: u32
  cmaj_flt :: u32
  rlim :: "rlimit list"
  flags :: u32
  used_math :: u16
  rss :: u16
  tty :: int
  umask :: u16
  pwd :: ptr
  root :: ptr
  executable :: ptr
  library :: ptr
  close_on_exec :: u32
  filp :: "ptr list"

abbreviation (input) NR_TASKS :: nat where "NR_TASKS \<equiv> 64"
abbreviation (input) HZ :: int where "HZ \<equiv> 100"
abbreviation (input) PF_PTRACED :: u32 where "PF_PTRACED \<equiv> 0x10"

record sched_state =
  task :: "ptr list"
  tsk :: "ptr \<Rightarrow> task_struct"
  current :: ptr
  jiffies :: u32
  startup_time :: u32
  jiffies_offset :: int
  last_pid :: int
  wait_queue :: "ptr \<Rightarrow> ptr"

definition upd_task :: "ptr \<Rightarrow> (task_struct \<Rightarrow> task_struct) \<Rightarrow> sched_state \<Rightarrow> sched_state" where
  "upd_task p f s = s\<lparr>tsk := (tsk s)(p := f (tsk s p))\<rparr>"

definition cur :: "sched_state \<Rightarrow> task_struct" where
  "cur s = tsk s (current s)"

abbreviation (input) upd_cur :: "(task_struct \<Rightarrow> task_struct) \<Rightarrow> sched_state \<Rightarrow> sched_state" where
  "upd_cur f s \<equiv> upd_task (current s) f s"

definition suser :: "sched_state \<Rightarrow> bool" where
  "suser s \<longleftrightarrow> euid (cur s) = 0"

definition slots_down :: "nat list" where
  "slots_down = rev [1..<64]"

text \<open>The table has \<open>NR_TASKS\<close> slots, slot 0 holds the idle task, and no task is in two slots.\<close>

definition task_table_ok :: "sched_state \<Rightarrow> bool" where
  "task_table_ok s \<longleftrightarrow> length (task s) = 64 \<and> task s ! 0 \<noteq> NULL \<and>
     (\<forall>i < 64. \<forall>j < 64. task s ! i = task s ! j \<and> task s ! i \<noteq> NULL \<longrightarrow> i = j)"

text \<open>The statically initialised first task, \<^verbatim>\<open>INIT_TASK\<close>, at address \<open>p\<close> (segment descriptors and TSS left out).\<close>

definition init_task :: "ptr \<Rightarrow> task_struct" where
  "init_task p =
    \<lparr>state = TASK_RUNNING, counter = 15, priority = 15,
     signal = 0, sigactions = replicate 32 \<lparr>sa_handler = 0, sa_mask = 0, sa_flags = 0, sa_restorer = 0\<rparr>,
     blocked = 0, exit_code = 0, start_code = 0, end_code = 0, end_data = 0, brk = 0, start_stack = 0,
     pid = 0, pgrp = 0, session = 0, leader = 0,
     groups = -1 # replicate 31 0,
     p_pptr = p, p_cptr = NULL, p_ysptr = NULL, p_osptr = NULL, next_wait = NULL,
     uid = 0, euid = 0, suid = 0, gid = 0, egid = 0, sgid = 0,
     timeout = 0, alarm = 0, utime = 0, stime = 0, cutime = 0, cstime = 0, start_time = 0,
     min_flt = 0, maj_flt = 0, cmin_flt = 0, cmaj_flt = 0,
     rlim = replicate 6 \<lparr>rlim_cur = 0x7fffffff, rlim_max = 0x7fffffff\<rparr>,
     flags = 0, used_math = 0, rss = 2, tty = -1, umask = 0x12,
     pwd = NULL, root = NULL, executable = NULL, library = NULL,
     close_on_exec = 0, filp = replicate 20 NULL\<rparr>"

lemma upd_task_simps [simp]:
  "task (upd_task p f s) = task s"
  "current (upd_task p f s) = current s"
  "jiffies (upd_task p f s) = jiffies s"
  "last_pid (upd_task p f s) = last_pid s"
  "wait_queue (upd_task p f s) = wait_queue s"
  "tsk (upd_task p f s) q = (if q = p then f (tsk s p) else tsk s q)"
  "startup_time (upd_task p f s) = startup_time s"
  "jiffies_offset (upd_task p f s) = jiffies_offset s"
  by (simp_all add: upd_task_def)

lemma set_slots_down [simp]: "set slots_down = {1..<64}"
  by (simp add: slots_down_def)

lemma distinct_slots_down [simp]: "distinct slots_down"
  by (simp add: slots_down_def)

section \<open>A small running system\<close>

text \<open>
  Two processes besides the idle task, the first of them current: the state that the
  concrete instances of the theorems use.
\<close>

definition two_tasks :: sched_state where
  "two_tasks =
    \<lparr>task = (replicate 64 NULL)[0 := 1, 1 := 2, 2 := 3],
     tsk = (\<lambda>p. (init_task 1)\<lparr>pid := int p - 1, p_pptr := (if p = 3 then 2 else 1)\<rparr>),
     current = 2, jiffies = 1000, startup_time = 0, jiffies_offset = 0, last_pid = 2,
     wait_queue = (\<lambda>_. NULL)\<rparr>"

lemma nth_two_tasks:
  "task two_tasks ! i = (if i = 0 then 1 else if i = 1 then 2 else if i = 2 then 3 else 0)" if "i < 64"
  using that by (simp add: two_tasks_def nth_list_update)

lemma two_tasks_simps [simp]:
  "current two_tasks = 2" "jiffies two_tasks = 1000" "length (task two_tasks) = 64"
  "tsk two_tasks p = (init_task 1)\<lparr>pid := int p - 1, p_pptr := (if p = 3 then 2 else 1)\<rparr>"
  "wait_queue two_tasks q = NULL" "last_pid two_tasks = 2"
  by (simp_all add: two_tasks_def)

lemma two_tasks_ok: "task_table_ok two_tasks"
  by (auto simp: task_table_ok_def nth_two_tasks)

end
