(* ===== verification/Timers.thy ===== *)
theory Timers
  imports Task_State
begin

text \<open>
  The timers of \<^verbatim>\<open>kernel/sched.c\<close>: the list of one-shot timers with relative times
  (\<^verbatim>\<open>add_timer\<close>), the table of 32 timers with absolute times, and the clock interrupt
  \<^verbatim>\<open>do_timer\<close>.  A timer function is a code address; what calling it does to the kernel is the
  argument \<open>call\<close> of the operations.
\<close>

section \<open>Model\<close>

record timers =
  tl_jiffies :: "ptr \<Rightarrow> int"
  tl_fn :: "ptr \<Rightarrow> u32"
  tl_next :: "ptr \<Rightarrow> ptr"
  next_timer :: ptr
  timer_active :: u32
  tt_expires :: "nat \<Rightarrow> u32"
  tt_fn :: "nat \<Rightarrow> u32"

type_synonym kstate = "sched_state \<times> timers"
type_synonym timer_call = "u32 \<Rightarrow> kstate \<Rightarrow> kstate"

text \<open>
  The new timer is put in front and moves back by exchanging its contents with its
  successor.  \<open>None\<close> means out of fuel; a list of 64 timers needs at most 64 steps.
\<close>

fun sift_timer :: "nat \<Rightarrow> ptr \<Rightarrow> timers \<Rightarrow> timers option" where
  "sift_timer 0 p ts = None"
| "sift_timer (Suc fuel) p ts =
    (let n = tl_next ts p in
     if n \<noteq> NULL \<and> tl_jiffies ts n < tl_jiffies ts p then
       let rest = tl_jiffies ts p - tl_jiffies ts n;
           ts = ts\<lparr>tl_fn := (tl_fn ts)(p := tl_fn ts n, n := tl_fn ts p),
                   tl_jiffies := (tl_jiffies ts)(p := tl_jiffies ts n, n := rest)\<rparr>
       in sift_timer fuel n ts
     else Some ts)"

datatype timer_result = TimerDone kstate | TimerPanic

definition add_timer :: "timer_call \<Rightarrow> int \<Rightarrow> u32 \<Rightarrow> kstate \<Rightarrow> timer_result option" where
  "add_timer call j fn k =
    (if fn = 0 then Some (TimerDone k)
     else if j \<le> 0 then Some (TimerDone (call fn k))
     else case find (\<lambda>p. tl_fn (snd k) p = 0) [1..<65] of
       None \<Rightarrow> Some TimerPanic
     | Some p \<Rightarrow>
         let ts = snd k;
             ts = ts\<lparr>tl_fn := (tl_fn ts)(p := fn), tl_jiffies := (tl_jiffies ts)(p := j),
                     tl_next := (tl_next ts)(p := next_timer ts), next_timer := p\<rparr>
         in case sift_timer 65 p ts of
              None \<Rightarrow> None
            | Some ts \<Rightarrow> Some (TimerDone (fst k, ts)))"

function timer_table_loop :: "timer_call \<Rightarrow> nat \<Rightarrow> kstate \<Rightarrow> kstate" where
  "timer_table_loop call i k =
    (if i < 32 then
       let m = push_bit i 1 in
       if m > timer_active (snd k) then k
       else if m AND timer_active (snd k) = 0 then timer_table_loop call (i + 1) k
       else if tt_expires (snd k) i > jiffies (fst k) then timer_table_loop call (i + 1) k
       else let ts = (snd k)\<lparr>timer_active := timer_active (snd k) AND NOT m\<rparr>
            in timer_table_loop call (i + 1) (call (tt_fn ts i) (fst k, ts))
     else k)"
  by pat_completeness auto
termination by (relation "measure (\<lambda>(call, i, k). 32 - i)") auto

declare timer_table_loop.simps [simp del]

fun run_expired :: "timer_call \<Rightarrow> nat \<Rightarrow> kstate \<Rightarrow> kstate option" where
  "run_expired call 0 k = None"
| "run_expired call (Suc fuel) k =
    (let ts = snd k; n = next_timer ts in
     if n \<noteq> NULL \<and> tl_jiffies ts n \<le> 0 then
       let fn = tl_fn ts n;
           ts = ts\<lparr>tl_fn := (tl_fn ts)(n := 0), next_timer := tl_next ts n\<rparr>
       in run_expired call fuel (call fn (fst k, ts))
     else Some k)"

definition timer_list_tick :: "timer_call \<Rightarrow> nat \<Rightarrow> kstate \<Rightarrow> kstate option" where
  "timer_list_tick call fuel k =
    (let ts = snd k; n = next_timer ts in
     if n \<noteq> NULL then run_expired call fuel (fst k, ts\<lparr>tl_jiffies := (tl_jiffies ts)(n := tl_jiffies ts n - 1)\<rparr>)
     else Some k)"

text \<open>\<^verbatim>\<open>do_timer\<close>; the flag of the result says whether it ends with a call of \<^verbatim>\<open>schedule()\<close>.\<close>

definition do_timer :: "timer_call \<Rightarrow> nat \<Rightarrow> int \<Rightarrow> kstate \<Rightarrow> (bool \<times> kstate) option" where
  "do_timer call fuel cpl k =
    (let (s, ts) = timer_table_loop call 0 k;
         s = (if cpl \<noteq> 0 then upd_cur (\<lambda>t. t\<lparr>utime := s32 (utime t + 1)\<rparr>) s
              else upd_cur (\<lambda>t. t\<lparr>stime := s32 (stime t + 1)\<rparr>) s)
     in case timer_list_tick call fuel (s, ts) of
          None \<Rightarrow> None
        | Some (s, ts) \<Rightarrow>
            let s = upd_cur (\<lambda>t. t\<lparr>counter := s32 (counter t - 1)\<rparr>) s
            in if counter (cur s) > 0 then Some (False, (s, ts))
               else let s = upd_cur (\<lambda>t. t\<lparr>counter := 0\<rparr>) s in Some (cpl \<noteq> 0, (s, ts)))"

section \<open>The timer list as a list of absolute times\<close>

definition timer_chain :: "timers \<Rightarrow> ptr list \<Rightarrow> bool" where
  "timer_chain ts ps \<longleftrightarrow> chain (tl_next ts) (next_timer ts) ps \<and>
    (\<forall>p \<in> set ps. p \<in> {1..<65} \<and> tl_fn ts p \<noteq> 0 \<and> 0 \<le> tl_jiffies ts p) \<and>
    (\<forall>p \<in> {1..<65} - set ps. tl_fn ts p = 0) \<and>
    (ps \<noteq> [] \<longrightarrow> 0 < tl_jiffies ts (hd ps))"

text \<open>Relative entries and their absolute expiry times.\<close>

definition rel :: "timers \<Rightarrow> ptr list \<Rightarrow> (int \<times> u32) list" where
  "rel ts ps = map (\<lambda>p. (tl_jiffies ts p, tl_fn ts p)) ps"

fun absolute :: "int \<Rightarrow> (int \<times> u32) list \<Rightarrow> (int \<times> u32) list" where
  "absolute t [] = []"
| "absolute t ((d, f) # xs) = (t + d, f) # absolute (t + d) xs"

text \<open>The effect of the loop of \<^verbatim>\<open>add_timer\<close> on the relative list.\<close>

fun insert_timer :: "int \<Rightarrow> u32 \<Rightarrow> (int \<times> u32) list \<Rightarrow> (int \<times> u32) list" where
  "insert_timer j f [] = [(j, f)]"
| "insert_timer j f ((d, g) # xs) =
    (if d < j then (d, g) # insert_timer (j - d) f xs else (j, f) # (d, g) # xs)"

lemma rel_simps [simp]:
  "rel ts [] = []" "rel ts (p # ps) = (tl_jiffies ts p, tl_fn ts p) # rel ts ps"
  by (simp_all add: rel_def)

lemma length_rel [simp]: "length (rel ts ps) = length ps"
  by (simp add: rel_def)

lemma absolute_append:
  "absolute t (xs @ ys) = absolute t xs @ absolute (t + sum_list (map fst xs)) ys"
  by (induction xs arbitrary: t) (auto simp: algebra_simps)

lemma absolute_shift: "absolute (t + c) xs = map (\<lambda>(u, f). (u + c, f)) (absolute t xs)"
proof (induction xs arbitrary: t)
  case (Cons x xs)
  then show ?case using Cons [of "t + fst x"] by (cases x) (simp add: algebra_simps)
qed simp

lemma sift_timer_rel:
  assumes "path (tl_next ts) p (p # ps) NULL" "distinct (p # ps)" "Suc (length ps) \<le> fuel"
  shows "\<exists>ts'. sift_timer fuel p ts = Some ts' \<and>
    rel ts' (p # ps) = insert_timer (tl_jiffies ts p) (tl_fn ts p) (rel ts ps) \<and>
    tl_next ts' = tl_next ts \<and> next_timer ts' = next_timer ts \<and>
    (\<forall>q. q \<notin> set (p # ps) \<longrightarrow> tl_fn ts' q = tl_fn ts q \<and> tl_jiffies ts' q = tl_jiffies ts q)"
  using assms
proof (induction ps arbitrary: p ts fuel)
  case Nil
  then obtain f where "fuel = Suc f" by (cases fuel) auto
  then show ?case using Nil by (simp add: rel_def)
next
  case (Cons n ps)
  obtain f where f: "fuel = Suc f" "Suc (length ps) \<le> f" using Cons.prems(3) by (cases fuel) auto
  have n: "tl_next ts p = n" "n \<noteq> NULL" "p \<noteq> n" using Cons.prems by auto
  show ?case
  proof (cases "tl_jiffies ts n < tl_jiffies ts p")
    case False
    then show ?thesis using n by (simp add: f(1) rel_def)
  next
    case True
    define u where "u = ts\<lparr>tl_fn := (tl_fn ts)(p := tl_fn ts n, n := tl_fn ts p),
        tl_jiffies := (tl_jiffies ts)(p := tl_jiffies ts n, n := tl_jiffies ts p - tl_jiffies ts n)\<rparr>"
    have un: "tl_next u = tl_next ts" "next_timer u = next_timer ts" by (simp_all add: u_def)
    have unj: "tl_jiffies u n = tl_jiffies ts p - tl_jiffies ts n" "tl_fn u n = tl_fn ts p"
      using n(3) by (simp_all add: u_def)
    have run: "sift_timer fuel p ts = sift_timer f n u" using True n by (simp add: f(1) u_def Let_def)
    have "path (tl_next u) n (n # ps) NULL" "distinct (n # ps)" using Cons.prems n by (auto simp: un)
    from Cons.IH [OF this f(2)] obtain ts' where
      ts': "sift_timer f n u = Some ts'" "rel ts' (n # ps) = insert_timer (tl_jiffies u n) (tl_fn u n) (rel u ps)"
        "tl_next ts' = tl_next u" "next_timer ts' = next_timer u"
        "\<forall>q. q \<notin> set (n # ps) \<longrightarrow> tl_fn ts' q = tl_fn u q \<and> tl_jiffies ts' q = tl_jiffies u q" by blast
    have ru: "rel u ps = rel ts ps" using Cons.prems(2) by (auto simp: rel_def u_def)
    have "tl_jiffies ts' p = tl_jiffies ts n" "tl_fn ts' p = tl_fn ts n"
      using ts'(5) Cons.prems(2) by (auto simp: u_def)
    then have "rel ts' (p # n # ps) = insert_timer (tl_jiffies ts p) (tl_fn ts p) (rel ts (n # ps))"
      using ts'(2) True ru unj by simp
    moreover have "\<forall>q. q \<notin> set (p # n # ps) \<longrightarrow> tl_fn ts' q = tl_fn ts q \<and> tl_jiffies ts' q = tl_jiffies ts q"
      using ts'(5) by (auto simp: u_def)
    ultimately show ?thesis using run ts'(1,3,4) un by auto
  qed
qed

lemma insert_timer_split:
  assumes "\<forall>x \<in> set xs. 0 \<le> fst x"
  obtains us vs where "xs = us @ vs" "insert_timer j f xs = us @ (j - sum_list (map fst us), f) # vs"
    "\<And>x. x \<in> set (absolute t us) \<Longrightarrow> fst x < t + j" "\<And>x. x \<in> set (absolute t xs) \<Longrightarrow> x \<in> set (absolute t us) \<or> t + j \<le> fst x"
    "vs \<noteq> [] \<Longrightarrow> j - sum_list (map fst us) \<le> fst (hd vs)"
  using assms
proof (induction xs arbitrary: j t thesis)
  case Nil
  show ?case by (rule Nil(1) [of "[]" "[]"]) simp_all
next
  case (Cons x xs)
  obtain d g where x: "x = (d, g)" by (cases x)
  show ?case
  proof (cases "d < j")
    case False
    have ge: "fst y \<ge> t + d" if "y \<in> set (absolute (t + d) xs)" for y
      using that Cons.prems(2)
    proof (induction xs arbitrary: t d)
      case (Cons z zs)
      then show ?case using Cons(1) [of "t + d" "fst z"] by (cases z) (fastforce simp: algebra_simps)
    qed simp
    show ?thesis
      by (rule Cons.prems(1) [of "[]" "x # xs"]) (use False x ge in \<open>force+\<close>)
  next
    case True
    obtain us vs where i: "xs = us @ vs" "insert_timer (j - d) f xs = us @ (j - d - sum_list (map fst us), f) # vs"
      "\<And>y. y \<in> set (absolute (t + d) us) \<Longrightarrow> fst y < t + d + (j - d)"
      "\<And>y. y \<in> set (absolute (t + d) xs) \<Longrightarrow> y \<in> set (absolute (t + d) us) \<or> t + d + (j - d) \<le> fst y"
      "vs \<noteq> [] \<Longrightarrow> j - d - sum_list (map fst us) \<le> fst (hd vs)"
      using Cons.IH [of "j - d" "t + d"] Cons.prems(2) by auto
    show ?thesis
      by (rule Cons.prems(1) [of "x # us" vs]) (use True x i in \<open>auto simp: algebra_simps\<close>)
  qed
qed

definition last_time :: "(int \<times> u32) list \<Rightarrow> int" where
  "last_time xs = (if xs = [] then 0 else fst (last xs))"

lemma last_time_absolute: "last_time (absolute 0 us) = sum_list (map fst us)"
proof -
  have "us \<noteq> [] \<Longrightarrow> absolute t us \<noteq> [] \<and> fst (last (absolute t us)) = t + sum_list (map fst us)" for t
  proof (induction us arbitrary: t)
    case (Cons x us)
    then show ?case using Cons.IH [of "t + fst x"] by (cases x; cases us) auto
  qed simp
  from this [of 0] show ?thesis by (cases "us = []") (auto simp: last_time_def)
qed

lemma timer_chain_length: "timer_chain ts ps \<Longrightarrow> length ps < 64 \<Longrightarrow> \<exists>p. find (\<lambda>p. tl_fn ts p = 0) [1..<65] = Some p"
proof -
  assume c: "timer_chain ts ps" and l: "length ps < 64"
  have "card (set ps) < card {1..<65::nat}" using l card_length [of ps] by simp
  moreover have "set ps \<subseteq> {1..<65}" using c by (auto simp: timer_chain_def)
  ultimately obtain p where "p \<in> {1..<65} - set ps" by (metis DiffI less_irrefl subsetI subset_antisym)
  then show ?thesis using c find_ex_Some [of p "[1..<65]" "\<lambda>p. tl_fn ts p = 0"] by (auto simp: timer_chain_def)
qed

text \<open>
  \<^verbatim>\<open>add_timer\<close> with a positive delay and room in the table puts the new timer in its
  place: it expires after exactly \<open>j\<close> ticks, and the timers due earlier are not disturbed.
  The timers due at or after \<open>j\<close>, however, are all put off, by the distance of the new timer to its
  predecessor, because the loop does not take the new delay off its successor.
\<close>

theorem add_timer_expiry:
  assumes "timer_chain ts ps" "length ps < 64" "fn \<noteq> 0" "0 < j"
  shows "\<exists>ts' ps' pre post. add_timer call j fn (s, ts) = Some (TimerDone (s, ts')) \<and> timer_chain ts' ps' \<and>
    absolute 0 (rel ts ps) = pre @ post \<and> (\<forall>x \<in> set pre. fst x < j) \<and> (\<forall>x \<in> set post. j \<le> fst x) \<and>
    absolute 0 (rel ts' ps') = pre @ (j, fn) # map (\<lambda>(u, f). (u + (j - last_time pre), f)) post"
proof -
  obtain p where p: "find (\<lambda>p. tl_fn ts p = 0) [1..<65] = Some p" using timer_chain_length [OF assms(1,2)] by blast
  have pf: "tl_fn ts p = 0" "p \<in> {1..<65}" using find_SomeD [OF p] by auto
  have pn: "p \<notin> set ps" "p \<noteq> NULL" using assms(1) pf by (auto simp: timer_chain_def)
  define u where "u = ts\<lparr>tl_fn := (tl_fn ts)(p := fn), tl_jiffies := (tl_jiffies ts)(p := j),
      tl_next := (tl_next ts)(p := next_timer ts), next_timer := p\<rparr>"
  have pd: "distinct (p # ps)" using pn assms(1) chain_distinct by (auto simp: timer_chain_def)
  have "path (tl_next u) p (p # ps) NULL"
    using assms(1) pn by (simp add: u_def timer_chain_def chain_def)
  from sift_timer_rel [OF this pd, of 65] assms(2) obtain ts' where
    ts': "sift_timer 65 p u = Some ts'" "rel ts' (p # ps) = insert_timer (tl_jiffies u p) (tl_fn u p) (rel u ps)"
      "tl_next ts' = tl_next u" "next_timer ts' = next_timer u"
      "\<forall>q. q \<notin> set (p # ps) \<longrightarrow> tl_fn ts' q = tl_fn u q \<and> tl_jiffies ts' q = tl_jiffies u q" by auto
  have ru: "rel u ps = rel ts ps" using pn(1) by (auto simp: rel_def u_def)
  have pos: "\<forall>x \<in> set (rel ts ps). 0 \<le> fst x" "\<forall>x \<in> set (rel ts ps). snd x \<noteq> 0"
    using assms(1) by (auto simp: rel_def timer_chain_def)
  obtain us vs where i: "rel ts ps = us @ vs" "insert_timer j fn (rel ts ps) = us @ (j - sum_list (map fst us), fn) # vs"
    "\<And>x. x \<in> set (absolute 0 us) \<Longrightarrow> fst x < 0 + j"
    "\<And>x. x \<in> set (absolute 0 (rel ts ps)) \<Longrightarrow> x \<in> set (absolute 0 us) \<or> 0 + j \<le> fst x"
    "vs \<noteq> [] \<Longrightarrow> j - sum_list (map fst us) \<le> fst (hd vs)"
    using insert_timer_split [OF pos(1), of j fn 0] by metis
  have r': "rel ts' (p # ps) = us @ (j - sum_list (map fst us), fn) # vs" using ts'(2) i(2) ru by (simp add: u_def)
  define pre where "pre = absolute 0 us"
  define post where "post = absolute (sum_list (map fst us)) vs"
  have lt: "last_time pre = sum_list (map fst us)" by (simp add: pre_def last_time_absolute)
  have sum: "sum_list (map fst us) < j" 
  proof (cases us)
    case Nil
    then show ?thesis using assms(4) by simp
  next
    case (Cons a b)
    then have "last pre \<in> set pre" by (cases a) (simp add: pre_def)
    then show ?thesis using i(3) [of "last pre"] lt Cons by (cases a) (auto simp: last_time_def pre_def)
  qed
  have new: "absolute 0 (rel ts' (p # ps)) = pre @ (j, fn) # map (\<lambda>(u, f). (u + (j - last_time pre), f)) post"
    unfolding r' using absolute_shift [of "sum_list (map fst us)" "j - sum_list (map fst us)" vs]
    by (simp add: absolute_append pre_def post_def lt [unfolded pre_def])
  have old: "absolute 0 (rel ts ps) = pre @ post" by (simp add: i(1) absolute_append pre_def post_def)
  have po: "\<forall>x \<in> set post. j \<le> fst x"
  proof -
    have "fst x \<ge> t + c" if "x \<in> set (absolute t vs)" "\<forall>x \<in> set vs. 0 \<le> fst x" "c \<le> fst (hd vs)" for x t c
      using that
    proof (induction vs arbitrary: t c)
      case (Cons z zs)
      then show ?case using Cons.IH [of "t + fst z" 0] by (cases z; cases zs) fastforce+
    qed simp
    from this [of _ "sum_list (map fst us)" "j - sum_list (map fst us)"] show ?thesis
      using i(1,5) pos(1) by (cases "vs = []") (auto simp: post_def)
  qed
  have "\<forall>x \<in> set (rel ts' (p # ps)). 0 \<le> fst x \<and> snd x \<noteq> 0" "0 < fst (hd (rel ts' (p # ps)))"
  proof -
    show "\<forall>x \<in> set (rel ts' (p # ps)). 0 \<le> fst x \<and> snd x \<noteq> 0"
      unfolding r' using pos i(1) sum assms(3) by auto
    have "ps \<noteq> [] \<Longrightarrow> 0 < fst (hd (rel ts ps))" using assms(1) by (cases ps) (auto simp: timer_chain_def)
    then show "0 < fst (hd (rel ts' (p # ps)))"
      unfolding r' using i(1) sum by (cases us; cases ps) (auto simp: hd_append)
  qed
  then have "timer_chain ts' (p # ps)"
    using assms(1) pf pn ts'(3-5) unfolding timer_chain_def
    by (auto simp: u_def rel_def chain_def)
  moreover have "add_timer call j fn (s, ts) = Some (TimerDone (s, ts'))"
    using assms(3,4) p [simplified] ts'(1) by (simp add: add_timer_def u_def Let_def)
  moreover have "\<forall>x \<in> set pre. fst x < j" using i(3) by (simp add: pre_def)
  ultimately show ?thesis using new old po by blast
qed

definition one_timer :: timers where
  "one_timer = \<lparr>tl_jiffies = (\<lambda>_. 5), tl_fn = (\<lambda>p. if p = 1 then 11 else 0), tl_next = (\<lambda>_. NULL),
      next_timer = 1, timer_active = 0, tt_expires = (\<lambda>_. 0), tt_fn = (\<lambda>_. 0)\<rparr>"

lemma one_timer_chain: "timer_chain one_timer [1]"
  by (auto simp: timer_chain_def one_timer_def)

theorem add_timer_expiry_witness:
  "\<exists>ts ps ts' ps'. absolute 0 (rel ts ps) = [(5, 11)] \<and>
     add_timer (\<lambda>f k. k) 2 22 (two_tasks, ts) = Some (TimerDone (two_tasks, ts')) \<and> timer_chain ts' ps' \<and>
     absolute 0 (rel ts' ps') = [(2, 22), (7, 11)]"
proof -
  define ts where "ts = one_timer"
  have "timer_chain ts [1]" by (simp add: ts_def one_timer_chain del: One_nat_def)
  from add_timer_expiry [OF this, of 22 2 "\<lambda>f k. k" two_tasks] obtain ts' ps' pre post where
    a: "add_timer (\<lambda>f k. k) 2 22 (two_tasks, ts) = Some (TimerDone (two_tasks, ts'))" "timer_chain ts' ps'"
      "absolute 0 (rel ts [1]) = pre @ post" "\<forall>x \<in> set pre. fst x < 2"
      "absolute 0 (rel ts' ps') = pre @ (2, 22) # map (\<lambda>(u, f). (u + (2 - last_time pre), f)) post" by auto
  have r: "absolute 0 (rel ts [1]) = [(5, 11)]" by (simp add: ts_def one_timer_def)
  have pre: "pre = []"
  proof (rule ccontr)
    assume "pre \<noteq> []"
    then have "hd pre \<in> set pre" "hd pre = (5, 11)" using a(3) r by (cases pre; auto)+
    then show False using a(4) by force
  qed
  then have "post = [(5, 11)]" using a(3) r pre by (metis append_Nil)
  then have "absolute 0 (rel ts' ps') = [(2, 22), (7, 11)]" using a(5) pre by (simp add: last_time_def)
  then show ?thesis using a(1,2) r by blast
qed

section \<open>The tick\<close>

text \<open>What one tick does to the absolute times: all come closer by one, those that are due fire.\<close>

definition tick_rest :: "(int \<times> u32) list \<Rightarrow> (int \<times> u32) list" where
  "tick_rest xs = map (\<lambda>(t, f). (t - 1, f)) (filter (\<lambda>(t, f). 1 < t) xs)"

definition tick_due :: "(int \<times> u32) list \<Rightarrow> u32 list" where
  "tick_due xs = map snd (filter (\<lambda>(t, f). t \<le> 1) xs)"

lemma absolute_ge: "\<forall>x \<in> set xs. 0 \<le> fst x \<Longrightarrow> y \<in> set (absolute t xs) \<Longrightarrow> t \<le> fst y"
proof (induction xs arbitrary: t)
  case (Cons z zs)
  then show ?case using Cons.IH [of "t + fst z"] by (cases z) fastforce
qed simp

lemma run_expired_chain:
  assumes "chain (tl_next ts) (next_timer ts) ps" "\<forall>p \<in> set ps. p \<in> {1..<65} \<and> tl_fn ts p \<noteq> 0"
    and "\<forall>p \<in> {1..<65} - set ps. tl_fn ts p = 0" "\<forall>p \<in> set ps. 0 \<le> tl_jiffies ts p"
    and "\<And>f s ts. call f (s, ts) = (eff f s, ts)" "length ps < fuel"
  shows "\<exists>ts' ps'. timer_chain ts' ps' \<and> rel ts' ps' = dropWhile (\<lambda>x. fst x \<le> 0) (rel ts ps) \<and>
    run_expired call fuel (s, ts) = Some (fold eff (map snd (takeWhile (\<lambda>x. fst x \<le> 0) (rel ts ps))) s, ts')"
  using assms
proof (induction ps arbitrary: ts s fuel)
  case Nil
  then obtain f where "fuel = Suc f" by (cases fuel) auto
  then show ?case using Nil by (intro exI [of _ ts] exI [of _ "[]"]) (simp add: timer_chain_def)
next
  case (Cons p ps)
  obtain f where f: "fuel = Suc f" "length ps < f" using Cons.prems(6) by (cases fuel) auto
  have p: "next_timer ts = p" "p \<noteq> NULL" using Cons.prems(1) by auto
  have pd: "p \<notin> set ps" using chain_distinct [OF Cons.prems(1)] by simp
  show ?case
  proof (cases "tl_jiffies ts p \<le> 0")
    case False
    then have "timer_chain ts (p # ps)" using Cons.prems(1-4) by (auto simp: timer_chain_def)
    then show ?thesis using False p by (intro exI [of _ ts] exI [of _ "p # ps"]) (simp add: f(1))
  next
    case True
    define u where "u = ts\<lparr>tl_fn := (tl_fn ts)(p := 0), next_timer := tl_next ts p\<rparr>"
    have ru: "rel u ps = rel ts ps" using pd by (auto simp: rel_def u_def)
    have "\<exists>ts' ps'. timer_chain ts' ps' \<and> rel ts' ps' = dropWhile (\<lambda>x. fst x \<le> 0) (rel u ps) \<and>
      run_expired call f (eff (tl_fn ts p) s, u) =
        Some (fold eff (map snd (takeWhile (\<lambda>x. fst x \<le> 0) (rel u ps))) (eff (tl_fn ts p) s), ts')"
      by (rule Cons.IH) (use Cons.prems pd f(2) in \<open>auto simp: u_def\<close>)
    moreover have "run_expired call fuel (s, ts) = run_expired call f (eff (tl_fn ts p) s, u)"
      using True p Cons.prems(5) by (simp add: f(1) u_def Let_def)
    ultimately show ?thesis using ru True by simp
  qed
qed

lemma dropWhile_absolute:
  assumes "\<forall>x \<in> set xs. 0 \<le> fst x"
  shows "filter (\<lambda>x. t < fst x) (absolute t xs) = absolute t (dropWhile (\<lambda>x. fst x \<le> 0) xs)"
    "map snd (filter (\<lambda>x. \<not> t < fst x) (absolute t xs)) = map snd (takeWhile (\<lambda>x. fst x \<le> 0) xs)"
proof -
  have late: "filter (\<lambda>x. t < fst x) (absolute u ys) = absolute u ys \<and> filter (\<lambda>x. \<not> t < fst x) (absolute u ys) = []"
    if "t < u" "\<forall>x \<in> set ys. 0 \<le> fst x" for u ys
    using absolute_ge [OF that(2)] that(1) by (auto simp: filter_id_conv filter_empty_conv) force+
  have "filter (\<lambda>x. t < fst x) (absolute t xs) = absolute t (dropWhile (\<lambda>x. fst x \<le> 0) xs) \<and>
    map snd (filter (\<lambda>x. \<not> t < fst x) (absolute t xs)) = map snd (takeWhile (\<lambda>x. fst x \<le> 0) xs)"
    using assms
  proof (induction xs)
    case (Cons z zs)
    then show ?case using late [of "t + fst z" zs] by (cases z) auto
  qed simp
  then show "filter (\<lambda>x. t < fst x) (absolute t xs) = absolute t (dropWhile (\<lambda>x. fst x \<le> 0) xs)"
    "map snd (filter (\<lambda>x. \<not> t < fst x) (absolute t xs)) = map snd (takeWhile (\<lambda>x. fst x \<le> 0) xs)" by blast+
qed

lemma timer_list_tick_spec:
  assumes "timer_chain ts ps" "\<And>f s ts. call f (s, ts) = (eff f s, ts)" "length ps < fuel"
  shows "\<exists>ts' ps'. timer_list_tick call fuel (s, ts) = Some (fold eff (tick_due (absolute 0 (rel ts ps))) s, ts') \<and>
    timer_chain ts' ps' \<and> absolute 0 (rel ts' ps') = tick_rest (absolute 0 (rel ts ps))"
proof (cases ps)
  case Nil
  then show ?thesis
    using assms(1) by (intro exI [of _ ts] exI [of _ "[]"]) (simp add: timer_list_tick_def timer_chain_def tick_due_def tick_rest_def)
next
  case (Cons p qs)
  define u where "u = ts\<lparr>tl_jiffies := (tl_jiffies ts)(p := tl_jiffies ts p - 1)\<rparr>"
  have c: "next_timer ts = p" "p \<noteq> NULL" "p \<notin> set qs" "0 < tl_jiffies ts p"
    using assms(1) chain_distinct [of "tl_next ts" "next_timer ts" ps] Cons by (auto simp: timer_chain_def)
  have ru: "rel u ps = (tl_jiffies ts p - 1, tl_fn ts p) # rel ts qs" using c(3) Cons by (auto simp: rel_def u_def)
  have pos: "\<forall>x \<in> set (rel u ps). 0 \<le> fst x" using assms(1) c(4) Cons unfolding ru by (auto simp: timer_chain_def rel_def)
  have "\<exists>ts' ps'. timer_chain ts' ps' \<and> rel ts' ps' = dropWhile (\<lambda>x. fst x \<le> 0) (rel u ps) \<and>
    run_expired call fuel (s, u) = Some (fold eff (map snd (takeWhile (\<lambda>x. fst x \<le> 0) (rel u ps))) s, ts')"
    by (rule run_expired_chain) (use assms c Cons in \<open>auto simp: timer_chain_def u_def\<close>)
  then obtain ts' ps' where r: "timer_chain ts' ps'" "rel ts' ps' = dropWhile (\<lambda>x. fst x \<le> 0) (rel u ps)"
    "run_expired call fuel (s, u) = Some (fold eff (map snd (takeWhile (\<lambda>x. fst x \<le> 0) (rel u ps))) s, ts')" by blast
  have sh: "absolute 0 (rel ts ps) = map (\<lambda>(t, f). (t + 1, f)) (absolute 0 (rel u ps))"
    using absolute_shift [of "tl_jiffies ts p - 1" 1 "rel ts qs"] Cons ru by simp
  have "tick_rest (absolute 0 (rel ts ps)) = filter (\<lambda>x. 0 < fst x) (absolute 0 (rel u ps))"
    unfolding sh tick_rest_def by (simp add: filter_map comp_def case_prod_unfold)
  moreover have "tick_due (absolute 0 (rel ts ps)) = map snd (filter (\<lambda>x. \<not> 0 < fst x) (absolute 0 (rel u ps)))"
    unfolding sh tick_due_def by (simp add: filter_map comp_def case_prod_unfold not_less)
  moreover have "timer_list_tick call fuel (s, ts) = run_expired call fuel (s, u)"
    using c(1,2) by (simp add: timer_list_tick_def u_def)
  ultimately show ?thesis using r dropWhile_absolute [OF pos, of 0] by auto
qed

fun ticks :: "timer_call \<Rightarrow> nat \<Rightarrow> nat \<Rightarrow> kstate \<Rightarrow> kstate option" where
  "ticks call fuel 0 k = Some k"
| "ticks call fuel (Suc n) k =
    (case ticks call fuel n k of None \<Rightarrow> None | Some k \<Rightarrow> timer_list_tick call fuel k)"

lemma absolute_pos:
  assumes "timer_chain ts ps" "x \<in> set (absolute 0 (rel ts ps))"
  shows "0 < fst x"
proof -
  obtain p qs where c: "ps = p # qs" using assms(2) by (cases ps) auto
  have "0 < tl_jiffies ts p" "\<forall>x \<in> set (rel ts qs). 0 \<le> fst x" using assms(1) c by (auto simp: timer_chain_def rel_def)
  then show ?thesis using assms(2) c absolute_ge [of "rel ts qs" x "tl_jiffies ts p"] by auto
qed

lemma ticks_spec:
  assumes "timer_chain ts ps" "\<And>f s ts. call f (s, ts) = (eff f s, ts)" "65 \<le> fuel"
  shows "\<exists>s' ts' ps'. ticks call fuel n (s, ts) = Some (s', ts') \<and> timer_chain ts' ps' \<and>
    absolute 0 (rel ts' ps') =
      map (\<lambda>x. (fst x - int n, snd x)) (filter (\<lambda>x. int n < fst x) (absolute 0 (rel ts ps)))"
proof (induction n)
  case 0
  have "filter (\<lambda>x. 0 < fst x) (absolute 0 (rel ts ps)) = absolute 0 (rel ts ps)"
    using absolute_pos [OF assms(1)] by (simp add: filter_id_conv)
  then show ?case using assms(1) by (intro exI [of _ s] exI [of _ ts] exI [of _ ps]) simp
next
  case (Suc n)
  then obtain s' ts' ps' where i: "ticks call fuel n (s, ts) = Some (s', ts')" "timer_chain ts' ps'"
    "absolute 0 (rel ts' ps') = map (\<lambda>x. (fst x - int n, snd x)) (filter (\<lambda>x. int n < fst x) (absolute 0 (rel ts ps)))"
    by blast
  have "set ps' \<subseteq> {1..<65}" "distinct ps'" using i(2) chain_distinct by (auto simp: timer_chain_def)
  then have "length ps' < fuel" using card_mono [of "{1..<65}" "set ps'"] assms(3) by (simp add: distinct_card)
  from timer_list_tick_spec [OF i(2), of call eff fuel s', OF assms(2) this]
  obtain ts2 ps2 where j: "timer_list_tick call fuel (s', ts') = Some (fold eff (tick_due (absolute 0 (rel ts' ps'))) s', ts2)"
    "timer_chain ts2 ps2" "absolute 0 (rel ts2 ps2) = tick_rest (absolute 0 (rel ts' ps'))" by blast
  have "tick_rest (absolute 0 (rel ts' ps')) =
    map (\<lambda>x. (fst x - int (Suc n), snd x)) (filter (\<lambda>x. int (Suc n) < fst x) (absolute 0 (rel ts ps)))"
    unfolding i(3) tick_rest_def
    by (simp add: filter_map comp_def case_prod_unfold) (rule map_cong, rule filter_cong, auto)
  then show ?case using i(1) j by auto
qed

text \<open>
  C31. Timers fire on time: run the timer list for any number \<open>n\<close> of ticks; the next tick
  calls exactly the functions whose time, counted from the start, is \<open>n + 1\<close>, in the order of the list, and the
  timers left over are those due later.  (The timer functions are assumed not to touch the
  timer list themselves.)
\<close>

theorem timers_fire_on_time:
  assumes "timer_chain ts ps" "\<And>f s ts. call f (s, ts) = (eff f s, ts)" "65 \<le> fuel"
  shows "\<exists>s' ts' ts'' ps''. ticks call fuel n (s, ts) = Some (s', ts') \<and>
    timer_list_tick call fuel (s', ts') =
      Some (fold eff (map snd (filter (\<lambda>x. fst x = int n + 1) (absolute 0 (rel ts ps)))) s', ts'') \<and>
    timer_chain ts'' ps'' \<and>
    map snd (rel ts'' ps'') = map snd (filter (\<lambda>x. int n + 1 < fst x) (absolute 0 (rel ts ps)))"
proof -
  obtain s' ts' ps' where i: "ticks call fuel n (s, ts) = Some (s', ts')" "timer_chain ts' ps'"
    "absolute 0 (rel ts' ps') = map (\<lambda>x. (fst x - int n, snd x)) (filter (\<lambda>x. int n < fst x) (absolute 0 (rel ts ps)))"
    using ticks_spec [OF assms(1), of call eff fuel n s, OF assms(2,3)] by blast
  have "set ps' \<subseteq> {1..<65}" "distinct ps'" using i(2) chain_distinct by (auto simp: timer_chain_def)
  then have "length ps' < fuel" using card_mono [of "{1..<65}" "set ps'"] assms(3) by (simp add: distinct_card)
  from timer_list_tick_spec [OF i(2), of call eff fuel s', OF assms(2) this]
  obtain ts2 ps2 where j: "timer_list_tick call fuel (s', ts') = Some (fold eff (tick_due (absolute 0 (rel ts' ps'))) s', ts2)"
    "timer_chain ts2 ps2" "absolute 0 (rel ts2 ps2) = tick_rest (absolute 0 (rel ts' ps'))" by blast
  have due: "tick_due (absolute 0 (rel ts' ps')) = map snd (filter (\<lambda>x. fst x = int n + 1) (absolute 0 (rel ts ps)))"
    unfolding i(3) tick_due_def
    by (simp add: filter_map comp_def case_prod_unfold) (rule arg_cong [where f = "map snd"], rule filter_cong, auto)
  have ms: "map snd (absolute t xs) = map snd xs" for t xs by (induction xs arbitrary: t) auto
  have "map snd (rel ts2 ps2) = map snd (tick_rest (absolute 0 (rel ts' ps')))" using j(3) ms by metis
  also have "\<dots> = map snd (filter (\<lambda>x. int n + 1 < fst x) (absolute 0 (rel ts ps)))"
    unfolding i(3) tick_rest_def
    by (simp add: filter_map comp_def case_prod_unfold) (rule arg_cong [where f = "map snd"], rule filter_cong, auto)
  finally show ?thesis using i(1) j(1,2) due by auto
qed

theorem timers_fire_on_time_witness:
  "\<exists>s' ts' ts''. ticks (\<lambda>f (s, ts). (s\<lparr>last_pid := uint f\<rparr>, ts)) 65 4 (two_tasks, one_timer) = Some (s', ts') \<and>
     timer_list_tick (\<lambda>f (s, ts). (s\<lparr>last_pid := uint f\<rparr>, ts)) 65 (s', ts') = Some (s'\<lparr>last_pid := 11\<rparr>, ts'')"
  using timers_fire_on_time [OF one_timer_chain, of "\<lambda>f (s, ts). (s\<lparr>last_pid := uint f\<rparr>, ts)"
      "\<lambda>f s. s\<lparr>last_pid := uint f\<rparr>" 65 4 two_tasks]
  by (auto simp: one_timer_def)

end
