(* ===== verification/Vsprintf.thy ===== *)
theory Vsprintf
  imports Kernel_Prelude
begin

text \<open>
  The formatted output of the kernel, \<^verbatim>\<open>kernel/vsprintf.c\<close>: reading a decimal number from the
  format, writing an integer in any base, and the interpreter of the format string.  A C
  string is a HOL string without its terminating null; the variable arguments are a list.
  An argument that is missing or of the wrong kind is undefined behaviour in C: the result is \<open>None\<close>.
\<close>

section \<open>Model\<close>

definition is_digit :: "char \<Rightarrow> bool" where
  "is_digit c \<longleftrightarrow> 48 \<le> (of_char c :: nat) \<and> (of_char c :: nat) \<le> 57"

fun skip_atoi_loop :: "int \<Rightarrow> string \<Rightarrow> int \<times> string" where
  "skip_atoi_loop i [] = (i, [])"
| "skip_atoi_loop i (c # s) =
    (if is_digit c then skip_atoi_loop (s32 (i * 10 + of_char c - 48)) s else (i, c # s))"

definition skip_atoi :: "string \<Rightarrow> int \<times> string" where
  "skip_atoi s = skip_atoi_loop 0 s"

abbreviation (input) ZEROPAD :: u32 where "ZEROPAD \<equiv> 1"
abbreviation (input) SIGN :: u32 where "SIGN \<equiv> 2"
abbreviation (input) PLUS :: u32 where "PLUS \<equiv> 4"
abbreviation (input) SPACE :: u32 where "SPACE \<equiv> 8"
abbreviation (input) LEFT :: u32 where "LEFT \<equiv> 16"
abbreviation (input) SPECIAL :: u32 where "SPECIAL \<equiv> 32"
abbreviation (input) SMALL :: u32 where "SMALL \<equiv> 64"

text \<open>\<^verbatim>\<open>do_div\<close> leaves the quotient in its first argument and returns the remainder (unsigned).\<close>

definition do_div :: "u32 \<Rightarrow> u32 \<Rightarrow> u32 \<times> u32" where
  "do_div n base = (n div base, n mod base)"

lemma div_less_self: "2 \<le> base \<Longrightarrow> n \<noteq> 0 \<Longrightarrow> unat (n div base) < unat n" for n base :: u32
  by (simp add: unat_div word_le_nat_alt unat_gt_0)

function digit_loop :: "u32 \<Rightarrow> u32 \<Rightarrow> nat list" where
  "digit_loop base num =
    (if num = 0 \<or> base < 2 then []
     else case do_div num base of (q, r) \<Rightarrow> unat r # digit_loop base q)"
  by pat_completeness auto
termination
  by (relation "measure (\<lambda>(base, num). unat num)") (auto simp: do_div_def not_less intro: div_less_self)

declare digit_loop.simps [simp del]

definition digits :: "u32 \<Rightarrow> string" where
  "digits typ = (if typ AND SMALL \<noteq> 0 then ''0123456789abcdefghijklmnopqrstuvwxyz''
                 else ''0123456789ABCDEFGHIJKLMNOPQRSTUVWXYZ'')"

text \<open>\<^verbatim>\<open>while (size-- > 0) *str++ = c;\<close> writes the padding and leaves a negative count.\<close>

definition pad :: "char \<Rightarrow> int \<Rightarrow> string \<times> int" where
  "pad c sz = (replicate (nat sz) c, if sz > 0 then -1 else s32 (sz - 1))"

definition sign_of :: "u32 \<Rightarrow> u32 \<Rightarrow> string \<times> u32" where
  "sign_of typ num =
    (if typ AND SIGN \<noteq> 0 \<and> num <s 0 then (''-'', - num)
     else (if typ AND PLUS \<noteq> 0 then ''+'' else if typ AND SPACE \<noteq> 0 then '' '' else [], num))"

definition prefix_of :: "u32 \<Rightarrow> u32 \<Rightarrow> string" where
  "prefix_of typ base =
    (if typ AND SPECIAL = 0 then []
     else if base = 8 then ''0'' else if base = 16 then [CHR ''0'', digits typ ! 33] else [])"

definition number :: "u32 \<Rightarrow> u32 \<Rightarrow> int \<Rightarrow> int \<Rightarrow> u32 \<Rightarrow> string option" where
  "number num base sz precision typ =
    (let ds = digits typ;
         typ = (if typ AND LEFT \<noteq> 0 then typ AND NOT ZEROPAD else typ)
     in if base < 2 \<or> base > 36 then None
        else
          let c = (if typ AND ZEROPAD \<noteq> 0 then CHR ''0'' else CHR '' '');
              (sign, num) = sign_of typ num;
              sz = (if sign \<noteq> [] then s32 (sz - 1) else sz);
              sz = (if typ AND SPECIAL \<noteq> 0 then
                        if base = 16 then s32 (sz - 2) else if base = 8 then s32 (sz - 1) else sz
                      else sz);
              tmp = (if num = 0 then ''0'' else map (\<lambda>d. ds ! d) (digit_loop base num));
              i = int (length tmp);
              precision = (if i > precision then i else precision);
              sz = s32 (sz - precision);
              (front, sz) = (if typ AND (ZEROPAD + LEFT) = 0 then pad (CHR '' '') sz else ([], sz));
              (fill, sz) = (if typ AND LEFT = 0 then pad c sz else ([], sz));
              (back, sz) = pad (CHR '' '') sz
          in Some (front @ sign @ prefix_of typ base @ fill @ replicate (nat (precision - i)) (CHR ''0'') @ rev tmp @ back))"

section \<open>The format interpreter\<close>

datatype varg = VInt u32 | VStr string

fun parse_flags :: "string \<Rightarrow> u32 \<Rightarrow> u32 \<times> string" where
  "parse_flags [] fl = (fl, [])"
| "parse_flags (c # s) fl =
    (if c = CHR ''-'' then parse_flags s (fl OR LEFT)
     else if c = CHR ''+'' then parse_flags s (fl OR PLUS)
     else if c = CHR '' '' then parse_flags s (fl OR SPACE)
     else if c = CHR ''#'' then parse_flags s (fl OR SPECIAL)
     else if c = CHR ''0'' then parse_flags s (fl OR ZEROPAD)
     else (fl, c # s))"

fun starts :: "(char \<Rightarrow> bool) \<Rightarrow> string \<Rightarrow> bool" where
  "starts P [] = False"
| "starts P (c # s) = P c"

text \<open>A \<^verbatim>\<open>*\<close> takes the width (or precision) from the arguments; the source does not advance past it.\<close>

definition parse_width :: "string \<Rightarrow> varg list \<Rightarrow> u32 \<Rightarrow> (int \<times> u32 \<times> string \<times> varg list) option" where
  "parse_width fmt args fl =
    (if starts is_digit fmt then (case skip_atoi fmt of (w, fmt) \<Rightarrow> Some (w, fl, fmt, args))
     else if starts (\<lambda>c. c = CHR ''*'') fmt then
       (case args of
          VInt a # args \<Rightarrow>
            if sint a < 0 then Some (s32 (- sint a), fl OR LEFT, fmt, args) else Some (sint a, fl, fmt, args)
        | _ \<Rightarrow> None)
     else Some (-1, fl, fmt, args))"

definition parse_precision :: "string \<Rightarrow> varg list \<Rightarrow> (int \<times> string \<times> varg list) option" where
  "parse_precision fmt args =
    (if starts (\<lambda>c. c = CHR ''.'') fmt then
       let fmt = tl fmt in
       if starts is_digit fmt then
         (case skip_atoi fmt of (p, fmt) \<Rightarrow> Some (if p < 0 then 0 else p, fmt, args))
       else if starts (\<lambda>c. c = CHR ''*'') fmt then
         (case args of
            VInt a # args \<Rightarrow> Some (if sint a < 0 then 0 else sint a, fmt, args)
          | _ \<Rightarrow> None)
       else Some (0, fmt, args)
     else Some (-1, fmt, args))"

definition parse_qualifier :: "string \<Rightarrow> string" where
  "parse_qualifier fmt = (if starts (\<lambda>c. c \<in> {CHR ''h'', CHR ''l'', CHR ''L''}) fmt then tl fmt else fmt)"

definition conv_char :: "u32 \<Rightarrow> int \<Rightarrow> u32 \<Rightarrow> string" where
  "conv_char fl w a =
    (let sp = replicate (nat (w - 1)) (CHR '' '')
     in if fl AND LEFT = 0 then sp @ [char_of (unat a)] else char_of (unat a) # sp)"

definition conv_string :: "u32 \<Rightarrow> int \<Rightarrow> int \<Rightarrow> string \<Rightarrow> string" where
  "conv_string fl w p s =
    (let len = int (length s);
         len = (if p \<ge> 0 \<and> len > p then p else len);
         sp = replicate (nat (w - len)) (CHR '' '')
     in if fl AND LEFT = 0 then sp @ take (nat len) s else take (nat len) s @ sp)"

definition conv_number :: "u32 \<Rightarrow> int \<Rightarrow> int \<Rightarrow> u32 \<Rightarrow> varg list \<Rightarrow> (string \<times> varg list) option" where
  "conv_number fl w p base args =
    (case args of
       VInt a # args \<Rightarrow> map_option (\<lambda>s. (s, args)) (number a base w p fl)
     | _ \<Rightarrow> None)"

text \<open>One conversion: what is written, the rest of the format and of the arguments, and the store of \<^verbatim>\<open>%n\<close>.\<close>

definition convert ::
  "nat \<Rightarrow> u32 \<Rightarrow> int \<Rightarrow> int \<Rightarrow> string \<Rightarrow> varg list \<Rightarrow> (string \<times> string \<times> varg list \<times> (u32 \<times> int) list) option" where
  "convert pos fl w p fmt args =
    (case fmt of
       [] \<Rightarrow> Some (''%'', [], args, [])
     | c # rest \<Rightarrow>
         if c = CHR ''c'' then (case args of VInt a # args \<Rightarrow> Some (conv_char fl w a, rest, args, []) | _ \<Rightarrow> None)
         else if c = CHR ''s'' then (case args of VStr s # args \<Rightarrow> Some (conv_string fl w p s, rest, args, []) | _ \<Rightarrow> None)
         else if c = CHR ''o'' then map_option (\<lambda>(s, args). (s, rest, args, [])) (conv_number fl w p 8 args)
         else if c = CHR ''p'' then
           map_option (\<lambda>(s, args). (s, rest, args, []))
             (if w = -1 then conv_number (fl OR ZEROPAD) 8 p 16 args else conv_number fl w p 16 args)
         else if c = CHR ''x'' then map_option (\<lambda>(s, args). (s, rest, args, [])) (conv_number (fl OR SMALL) w p 16 args)
         else if c = CHR ''X'' then map_option (\<lambda>(s, args). (s, rest, args, [])) (conv_number fl w p 16 args)
         else if c = CHR ''d'' \<or> c = CHR ''i'' then
           map_option (\<lambda>(s, args). (s, rest, args, [])) (conv_number (fl OR SIGN) w p 10 args)
         else if c = CHR ''u'' then map_option (\<lambda>(s, args). (s, rest, args, [])) (conv_number fl w p 10 args)
         else if c = CHR ''n'' then
           (case args of VInt a # args \<Rightarrow> Some ([], rest, args, [(a, int pos)]) | _ \<Rightarrow> None)
         else Some ((if c \<noteq> CHR ''%'' then ''%'' else []) @ [c], rest, args, []))"

definition conversion ::
  "nat \<Rightarrow> string \<Rightarrow> varg list \<Rightarrow> (string \<times> string \<times> varg list \<times> (u32 \<times> int) list) option" where
  "conversion pos fmt args =
    (case parse_flags fmt 0 of (fl, fmt) \<Rightarrow>
     case parse_width fmt args fl of
       None \<Rightarrow> None
     | Some (w, fl, fmt, args) \<Rightarrow>
         (case parse_precision fmt args of
            None \<Rightarrow> None
          | Some (p, fmt, args) \<Rightarrow> convert pos fl w p (parse_qualifier fmt) args))"

lemma parse_flags_length: "length (snd (parse_flags s fl)) \<le> length s"
  by (induction s fl rule: parse_flags.induct) auto

lemma skip_atoi_length: "length (snd (skip_atoi s)) \<le> length s"
proof -
  have "length (snd (skip_atoi_loop i s)) \<le> length s" for i
    by (induction i s rule: skip_atoi_loop.induct) auto
  then show ?thesis by (simp add: skip_atoi_def)
qed

lemma parse_width_length: "parse_width fmt args fl = Some (w, fl', fmt', args') \<Longrightarrow> length fmt' \<le> length fmt"
  using skip_atoi_length [of fmt]
  by (auto simp: parse_width_def split: if_splits prod.splits list.splits varg.splits)

lemma parse_precision_length: "parse_precision fmt args = Some (p, fmt', args') \<Longrightarrow> length fmt' \<le> length fmt"
  using skip_atoi_length [of "tl fmt"]
  by (auto simp: parse_precision_def Let_def split: if_splits prod.splits list.splits varg.splits)

lemma convert_length: "convert pos fl w p fmt args = Some (out, rest, args', st) \<Longrightarrow> length rest \<le> length fmt"
  by (auto simp: convert_def split: list.splits if_splits varg.splits)

lemma conversion_length: "conversion pos fmt args = Some (out, rest, args', st) \<Longrightarrow> length rest \<le> length fmt"
proof -
  assume "conversion pos fmt args = Some (out, rest, args', st)"
  then obtain fl f1 w fl2 f2 a2 p f3 a3 where
    c: "parse_flags fmt 0 = (fl, f1)" "parse_width f1 args fl = Some (w, fl2, f2, a2)"
      "parse_precision f2 a2 = Some (p, f3, a3)" "convert pos fl2 w p (parse_qualifier f3) a3 = Some (out, rest, args', st)"
    by (auto simp: conversion_def split: prod.splits option.splits)
  have "length (parse_qualifier f3) \<le> length f3" by (simp add: parse_qualifier_def)
  with c parse_flags_length [of fmt 0] parse_width_length [OF c(2)] parse_precision_length [OF c(3)] convert_length [OF c(4)]
  show ?thesis by simp
qed

function vsprintf_loop :: "string \<Rightarrow> varg list \<Rightarrow> string \<Rightarrow> (u32 \<times> int) list \<Rightarrow> (string \<times> (u32 \<times> int) list) option" where
  "vsprintf_loop fmt args out st =
    (case fmt of
       [] \<Rightarrow> Some (out, st)
     | c # fmt' \<Rightarrow>
         if c \<noteq> CHR ''%'' then vsprintf_loop fmt' args (out @ [c]) st
         else case conversion (length out) fmt' args of
           None \<Rightarrow> None
         | Some (s, rest, args', st') \<Rightarrow> vsprintf_loop rest args' (out @ s) (st @ st'))"
  by pat_completeness auto
termination
  by (relation "measure (\<lambda>(fmt, args, out, st). length fmt)") (auto dest!: conversion_length)

declare vsprintf_loop.simps [simp del]

text \<open>The whole call: the number of characters, the buffer, and the words stored by \<^verbatim>\<open>%n\<close>.\<close>

definition vsprintf :: "string \<Rightarrow> varg list \<Rightarrow> (int \<times> string \<times> (u32 \<times> int) list) option" where
  "vsprintf fmt args = map_option (\<lambda>(out, st). (int (length out), out, st)) (vsprintf_loop fmt args [] [])"

section \<open>Digits\<close>

lemma digit_loop_zero [simp]: "digit_loop base 0 = []"
  by (simp add: digit_loop.simps)

lemma digit_loop_step:
  "num \<noteq> 0 \<Longrightarrow> 2 \<le> base \<Longrightarrow> digit_loop base num = unat (num mod base) # digit_loop base (num div base)"
  by (subst digit_loop.simps) (simp add: do_div_def)

lemma digit_loop_less: "2 \<le> base \<Longrightarrow> d \<in> set (digit_loop base num) \<Longrightarrow> d < unat base"
proof (induction base num rule: digit_loop.induct)
  case (1 base num)
  show ?case
  proof (cases "num = 0")
    case False
    have "0 < unat base" using 1(2) by (simp add: word_le_nat_alt)
    then have "unat (num mod base) < unat base" by (simp add: unat_mod)
    moreover have "d \<in> set (digit_loop base (num div base)) \<Longrightarrow> d < unat base"
      using 1 False by (auto simp: do_div_def not_less [symmetric])
    ultimately show ?thesis using 1(2,3) False by (auto simp: digit_loop_step)
  qed (use 1 in simp)
qed

lemma digit_loop_value:
  "2 \<le> base \<Longrightarrow> foldl (\<lambda>a d. a * uint base + int d) 0 (rev (digit_loop base num)) = uint num"
proof (induction base num rule: digit_loop.induct)
  case (1 base num)
  show ?case
  proof (cases "num = 0")
    case False
    have "foldl (\<lambda>a d. a * uint base + int d) 0 (rev (digit_loop base (num div base))) = uint (num div base)"
      using 1 False by (auto simp: do_div_def not_less [symmetric])
    then show ?thesis
      using 1(2) False by (simp add: digit_loop_step uint_div_distrib uint_mod_distrib)
  qed simp
qed

lemma digit_loop_length: "num \<noteq> 0 \<Longrightarrow> 2 ^ length (digit_loop base num) \<le> 2 * unat num"
proof (induction base num rule: digit_loop.induct)
  case (1 base num)
  show ?case
  proof (cases "base < 2")
    case True
    then show ?thesis using 1(2) unat_gt_0 [of num] by (subst digit_loop.simps) simp
  next
    case False
    then have b: "2 \<le> base" by simp
    have n: "0 < unat num" using 1(2) by (simp add: unat_gt_0)
    have half: "2 * unat (num div base) \<le> unat num"
    proof -
      have "unat num div unat base \<le> unat num div 2" using b by (intro div_le_mono2) (auto simp: word_le_nat_alt)
      then show ?thesis by (simp add: unat_div)
    qed
    have "2 ^ length (digit_loop base (num div base)) \<le> unat num"
    proof (cases "num div base = 0")
      case z: True
      show ?thesis unfolding z using n by simp
    next
      case nz: False
      have "2 ^ length (digit_loop base (num div base)) \<le> 2 * unat (num div base)"
        using 1(1) [OF _ _ nz] 1(2) False by (simp add: do_div_def)
      then show ?thesis using half by simp
    qed
    then show ?thesis using digit_loop_step [OF 1(2) b] by simp
  qed
qed

text \<open>
  The digits of any 32-bit number in any base fit the local buffer \<^verbatim>\<open>tmp[36]\<close> of
  \<^verbatim>\<open>number\<close>: the loop writes at most 32 of them.
\<close>

theorem number_fits_buffer: "length (digit_loop base num) \<le> 32"
proof (cases "num = 0")
  case False
  have "unat num < 2 ^ LENGTH(32)" by (rule unsigned_less)
  then have "unat num < 2 ^ 32" by simp
  then have "(2 :: nat) ^ length (digit_loop base num) < 2 ^ 33"
    using digit_loop_length [OF False, of base] by simp
  then have "length (digit_loop base num) < 33"
    by (metis power_strict_increasing_iff one_less_numeral_iff semiring_norm(76))
  then show ?thesis by simp
qed simp

section \<open>Decimal output reads back\<close>

lemma of_char_digit:
  assumes "d < 10"
  shows "of_char (digits typ ! d) = (48 + of_nat d :: int)" "of_char (digits typ ! d) = (48 + d :: nat)"
proof -
  have "d \<in> {0, 1, 2, 3, 4, 5, 6, 7, 8, 9}" using assms by auto
  then show "of_char (digits typ ! d) = (48 + of_nat d :: int)" "of_char (digits typ ! d) = (48 + d :: nat)"
    by (auto simp: digits_def)
qed

lemma s32_step: "s32 (s32 x * 10 + c) = s32 (x * 10 + c)"
  by (metis mult.commute s32_mult_s32 s32_s32_add)

lemma skip_atoi_digits:
  "\<forall>d \<in> set ds. d < 10 \<Longrightarrow>
    skip_atoi_loop (s32 x) (map (\<lambda>d. digits typ ! d) ds) = (s32 (foldl (\<lambda>a d. a * 10 + int d) x ds), [])"
proof (induction ds arbitrary: x)
  case Nil
  then show ?case by simp
next
  case (Cons d ds)
  have "s32 (s32 x * 10 + of_char (digits typ ! d) - 48) = s32 (x * 10 + int d)"
    using s32_step [of x "int d"] Cons.prems by (simp add: of_char_digit)
  moreover have "is_digit (digits typ ! d)" using Cons.prems by (simp add: is_digit_def of_char_digit)
  ultimately show ?case using Cons by simp
qed

definition decimal_digits :: "u32 \<Rightarrow> string" where
  "decimal_digits num = (if num = 0 then ''0'' else map (\<lambda>d. digits SIGN ! d) (rev (digit_loop 10 num)))"

lemma skip_atoi_decimal: "skip_atoi (decimal_digits num) = (s32 (uint num), [])"
proof (cases "num = 0")
  case True
  have "s32 0 = 0" by (simp add: s32_def)
  then show ?thesis using True by (simp add: decimal_digits_def skip_atoi_def is_digit_def s32_def)
next
  case False
  have "\<forall>d \<in> set (rev (digit_loop 10 num)). d < 10" using digit_loop_less [of 10] by force
  from skip_atoi_digits [OF this, of 0 SIGN] digit_loop_value [of 10 num] False show ?thesis
    by (simp add: decimal_digits_def skip_atoi_def s32_def)
qed

lemma pad_done [simp]: "sz \<le> 0 \<Longrightarrow> pad c sz = ([], s32 (sz - 1))"
  by (simp add: pad_def)

lemma s32_pred_neg: "- (2 ^ 30) \<le> sz \<Longrightarrow> sz \<le> 0 \<Longrightarrow> s32 (sz - 1) = sz - 1"
  by (simp add: in_s32_def)

definition number_tmp :: "u32 \<Rightarrow> u32 \<Rightarrow> u32 \<Rightarrow> string" where
  "number_tmp typ base num = (if num = 0 then ''0'' else map (\<lambda>d. digits typ ! d) (digit_loop base num))"

lemma number_tmp_length: "length (number_tmp typ base num) \<le> 32"
proof (cases "num = 0")
  case False
  have "unat num < 2 ^ LENGTH(32)" by (rule unsigned_less)
  then have "(2 :: nat) ^ length (digit_loop base num) < 2 ^ 33"
    using digit_loop_length [OF False, of base] by simp
  then have "length (digit_loop base num) < 33"
    by (metis power_strict_increasing_iff one_less_numeral_iff semiring_norm(76))
  then show ?thesis by (simp add: number_tmp_def)
qed (simp add: number_tmp_def)

lemma sign_length: "length (fst (sign_of typ num)) \<le> 1"
  by (simp add: sign_of_def)

lemma prefix_length:
  "length (prefix_of typ base) =
    (if typ AND SPECIAL \<noteq> 0 then if base = 16 then 2 else if base = 8 then 1 else 0 else 0)"
  by (simp add: prefix_of_def)

lemma no_pad_no_left:
  assumes "typ AND (ZEROPAD + LEFT) = 0"
  shows "typ AND LEFT = 0"
proof -
  have "typ AND LEFT = (typ AND (ZEROPAD + LEFT)) AND LEFT" by (simp add: and.assoc)
  then show ?thesis using assms by simp
qed

lemma number_layout:
  assumes "2 \<le> base" "base \<le> 36" "\<bar>sz\<bar> \<le> 2 ^ 20" "\<bar>precision\<bar> \<le> 2 ^ 20"
    and "typ' = (if typ AND LEFT \<noteq> 0 then typ AND NOT ZEROPAD else typ)"
    and "sign_of typ' num = (sign, n)" "tmp = number_tmp typ base n" "i = int (length tmp)"
    and "prec = (if i > precision then i else precision)"
    and "w = sz - int (length sign) - int (length (prefix_of typ' base)) - prec"
  shows "number num base sz precision typ = Some
    ((if typ' AND (ZEROPAD + LEFT) = 0 then replicate (nat w) (CHR '' '') else []) @ sign @ prefix_of typ' base @
     (if typ' AND (ZEROPAD + LEFT) \<noteq> 0 \<and> typ' AND LEFT = 0
      then replicate (nat w) (if typ' AND ZEROPAD \<noteq> 0 then CHR ''0'' else CHR '' '') else []) @
     replicate (nat (prec - i)) (CHR ''0'') @ rev tmp @
     (if typ' AND LEFT \<noteq> 0 then replicate (nat w) (CHR '' '') else []))"
proof -
  have i: "0 \<le> i" "i \<le> 32" using assms(7,8) number_tmp_length by simp_all
  have sb: "- (2 ^ 20) \<le> sz" "sz \<le> 2 ^ 20" "- (2 ^ 20) \<le> precision" "precision \<le> 2 ^ 20"
    using assms(3,4) by auto
  have sl: "length sign \<le> 1" using sign_length [of typ' num] assms(6) by simp
  have pr: "0 \<le> prec" "prec \<le> 2 ^ 20" using i assms(4,9) by auto
  define s1 where "s1 = (if sign \<noteq> [] then s32 (sz - 1) else sz)"
  have s1: "s1 = sz - int (length sign)" using sb sl by (cases sign) (auto simp: s1_def in_s32_def)
  define s2 where "s2 = (if typ' AND SPECIAL \<noteq> 0 then
      if base = 16 then s32 (s1 - 2) else if base = 8 then s32 (s1 - 1) else s1 else s1)"
  have s2: "s2 = s1 - int (length (prefix_of typ' base))"
    using sb sl s1 by (auto simp: s2_def prefix_length in_s32_def)
  have pl: "length (prefix_of typ' base) \<le> 2" by (simp add: prefix_length)
  have w: "s32 (s2 - prec) = w" using s1 s2 sb assms(10) pr sl pl by (auto simp: in_s32_def)
  have wb: "- (2 ^ 30) \<le> w" using sb assms(10) pr sl pl by simp
  have nb: "\<not> (base < 2 \<or> base > 36)" using assms(1,2) by auto
  note zl = no_pad_no_left [of typ']
  have neg: "nat (s32 (w - 1)) = 0" if "w \<le> 0" using s32_pred_neg [OF wb that] that by simp
  have neg2: "s32 (-2) = -2" "w \<le> 0 \<Longrightarrow> s32 (w - 2) = w - 2" using wb by (simp_all add: in_s32_def)
  have tmp: "(if n = 0 then ''0'' else map (\<lambda>d. digits typ ! d) (digit_loop base n)) = tmp"
    using assms(7) by (simp add: number_tmp_def)
  show ?thesis
    unfolding number_def Let_def if_not_P [OF nb] assms(5) [symmetric] assms(6) prod.case
      s1_def [symmetric] s2_def [symmetric] tmp assms(8) [symmetric] assms(9) [symmetric] w
    using zl neg neg2 by (cases "0 < w") (auto simp: pad_def split: if_splits)
qed

text \<open>
  A number is written in exactly the field width, or in as many characters as its sign,
  prefix, precision and digits need when the width is smaller (widths and precisions up
  to a million characters, every base from 2 to 36).
\<close>

theorem number_field_width:
  assumes "2 \<le> base" "base \<le> 36" "\<bar>sz\<bar> \<le> 2 ^ 20" "\<bar>precision\<bar> \<le> 2 ^ 20"
  shows "\<exists>out sign n typ'. number num base sz precision typ = Some out \<and>
    typ' = (if typ AND LEFT \<noteq> 0 then typ AND NOT ZEROPAD else typ) \<and> sign_of typ' num = (sign, n) \<and>
    int (length out) = max sz (int (length sign) + int (length (prefix_of typ' base)) +
      max precision (int (length (number_tmp typ base n))))"
proof -
  define typ' where "typ' = (if typ AND LEFT \<noteq> 0 then typ AND NOT ZEROPAD else typ)"
  obtain sign n where s: "sign_of typ' num = (sign, n)" by fastforce
  define i where "i = int (length (number_tmp typ base n))"
  define prec where "prec = (if i > precision then i else precision)"
  define w where "w = sz - int (length sign) - int (length (prefix_of typ' base)) - prec"
  note l = number_layout [OF assms typ'_def s refl i_def prec_def w_def]
  note zl = no_pad_no_left [of typ']
  have m: "prec = max precision i" "i \<le> prec" by (auto simp: prec_def)
  define out where "out = the (number num base sz precision typ)"
  have o: "number num base sz precision typ = Some out" by (simp add: out_def l)
  have "int (length out) = int (length sign) + int (length (prefix_of typ' base)) + prec + int (nat w)"
    using zl m i_def by (simp add: out_def l)
  also have "\<dots> = max sz (int (length sign) + int (length (prefix_of typ' base)) + prec)"
    by (simp add: w_def)
  finally show ?thesis using o s m unfolding typ'_def i_def by blast
qed

theorem number_field_width_witness:
  "\<exists>out. number 255 16 8 (-1) (SMALL OR SPECIAL OR ZEROPAD) = Some out \<and> length out = 8"
proof -
  let ?t = "SMALL OR SPECIAL OR ZEROPAD"
  obtain out sign n where o: "number 255 16 8 (-1) ?t = Some out" "sign_of ?t 255 = (sign, n)"
    "int (length out) = max 8 (int (length sign) + int (length (prefix_of ?t 16)) +
        max (-1) (int (length (number_tmp ?t 16 n))))"
    using number_field_width [of 16 8 "-1" 255 ?t] by auto
  have "sign = []" "n = 255" using o(2) by (simp_all add: sign_of_def)
  moreover have "digit_loop 16 255 = [15, 15]" by (simp add: digit_loop.simps do_div_def)
  ultimately show ?thesis using o by (simp add: number_tmp_def prefix_of_def)
qed

lemma number_decimal:
  "number a 10 (-1) (-1) SIGN = Some (if a <s 0 then CHR ''-'' # decimal_digits (- a) else decimal_digits a)"
proof -
  obtain sign n where s: "sign_of SIGN a = (sign, n)" by fastforce
  have s': "sign = (if a <s 0 then ''-'' else [])" "n = (if a <s 0 then - a else a)"
    using s by (auto simp: sign_of_def split: if_splits)
  have d: "rev (number_tmp SIGN 10 n) = decimal_digits n" by (simp add: number_tmp_def decimal_digits_def rev_map)
  have "0 < length (number_tmp SIGN 10 n)" by (simp add: number_tmp_def digit_loop_step)
  then show ?thesis
    using number_layout [of 10 "-1" "-1" SIGN SIGN a sign n "number_tmp SIGN 10 n"] s s' d
    by (simp add: prefix_of_def)
qed

text \<open>
  C33. Printing and reading back: \<^verbatim>\<open>vsprintf\<close> with the format \<^verbatim>\<open>%d\<close> writes any 32-bit
  integer so that \<^verbatim>\<open>skip_atoi\<close> reads its value again (after the minus sign of a negative one, the most
  negative number included).
\<close>

theorem vsprintf_decimal_roundtrip:
  "\<exists>out. vsprintf ''%d'' [VInt a] = Some (int (length out), out, []) \<and>
    (if sint a < 0 then hd out = CHR ''-'' \<and> skip_atoi (tl out) = (s32 (- sint a), [])
     else skip_atoi out = (sint a, []))"
proof -
  define out where "out = (if a <s 0 then CHR ''-'' # decimal_digits (- a) else decimal_digits a)"
  have c: "conversion 0 ''d'' [VInt a] = Some (out, [], [], [])"
    using number_decimal [of a]
    by (simp add: conversion_def parse_width_def parse_precision_def parse_qualifier_def convert_def conv_number_def
        is_digit_def out_def)
  have "vsprintf ''%d'' [VInt a] = Some (int (length out), out, [])"
    unfolding vsprintf_def by (simp add: vsprintf_loop.simps [of "''%d''"] c vsprintf_loop.simps [of "[]"])
  moreover have "a <s 0 \<longleftrightarrow> sint a < 0" by (simp add: word_sless_alt)
  moreover have "s32 (uint (- a)) = s32 (- sint a)"
    by (simp add: s32_sint)
  moreover have "s32 (uint a) = sint a" by (simp add: s32_sint)
  ultimately show ?thesis using skip_atoi_decimal by (auto simp: out_def)
qed

text \<open>
  A width given as \<^verbatim>\<open>*\<close> is taken from the arguments, but the interpreter does not step over the
  star: the conversion \<^verbatim>\<open>%*d\<close> prints itself instead of the number, whatever the arguments are.
\<close>

theorem vsprintf_star_width_prints_format:
  "vsprintf ''%*d'' [VInt w, VInt a] = Some (3, ''%*d'', [])"
proof -
  have c: "conversion 0 ''*d'' [VInt w, VInt a] = Some (''%*'', ''d'', [VInt a], [])"
    by (simp add: conversion_def parse_width_def parse_precision_def parse_qualifier_def convert_def is_digit_def)
  show ?thesis
    unfolding vsprintf_def
    by (simp add: vsprintf_loop.simps [of "''%*d''"] c vsprintf_loop.simps [of "''d''"] vsprintf_loop.simps [of "[]"])
qed

end
