(* ===== verification/Pipe.thy ===== *)
theory Pipe
  imports Kernel_Prelude
begin

text \<open>
  Pipes (\<^verbatim>\<open>fs/pipe.c\<close> and the \<^verbatim>\<open>PIPE_\<close> macros of \<^verbatim>\<open>include/linux/fs.h\<close>): one page used as a ring buffer,
  its head and tail in the inode.  Reading and writing may sleep; what the rest of the
  system does during the \<open>i\<close>-th sleep is the \<open>i\<close>-th element of a list of state
  transformers, and a call that needs more sleeps than the list has is still asleep (\<open>None\<close>).
\<close>

section \<open>Model\<close>

datatype pipe_event = WakeReaders | WakeWriters | SleepRead | SleepWrite

text \<open>
  The page, head and tail, the reference count of the inode, the pending and blocked
  signals of the current task, and the trace of wake-ups and sleeps.
\<close>

record pipe =
  page :: "u8 list"
  pipe_head :: u32
  pipe_tail :: u32
  pipe_count :: u16
  cur_signal :: u32
  cur_blocked :: u32
  trace :: "pipe_event list"

abbreviation (input) PAGE_SIZE :: int where "PAGE_SIZE \<equiv> 4096"

definition PIPE_SIZE :: "pipe \<Rightarrow> int" where
  "PIPE_SIZE p = uint ((pipe_head p - pipe_tail p) AND 4095)"

definition log_event :: "pipe_event \<Rightarrow> pipe \<Rightarrow> pipe" where
  "log_event e p = p\<lparr>trace := trace p @ [e]\<rparr>"

text \<open>One pass of the copying loops: at most to the end of the page.\<close>

definition take_chunk :: "int \<Rightarrow> pipe \<Rightarrow> u8 list \<times> pipe" where
  "take_chunk chars p =
    (map (\<lambda>k. page p ! (unat (pipe_tail p) + k)) [0..<nat chars],
     p\<lparr>pipe_tail := (pipe_tail p + word_of_int chars) AND 4095\<rparr>)"

definition put_chunk :: "u8 list \<Rightarrow> pipe \<Rightarrow> pipe" where
  "put_chunk bs p =
    p\<lparr>page := fold (\<lambda>k pg. pg[unat (pipe_head p) + k := bs ! k]) [0..<length bs] (page p),
      pipe_head := (pipe_head p + of_nat (length bs)) AND 4095\<rparr>"

fun read_loop :: "nat \<Rightarrow> int \<Rightarrow> pipe \<Rightarrow> (u8 list \<times> pipe) option" where
  "read_loop 0 count p = None"
| "read_loop (Suc fuel) count p =
    (if count > 0 \<and> PIPE_SIZE p \<noteq> 0 then
       let sz = PIPE_SIZE p;
           chars = PAGE_SIZE - uint (pipe_tail p);
           chars = (if chars > count then count else chars);
           chars = (if chars > sz then sz else chars)
       in case take_chunk chars p of (bs, p') \<Rightarrow>
            (case read_loop fuel (count - chars) p' of
               None \<Rightarrow> None
             | Some (bs', p'') \<Rightarrow> Some (bs @ bs', p''))
     else Some ([], p))"

datatype pipe_wait = Ready pipe | Give int pipe

fun read_wait :: "(pipe \<Rightarrow> pipe) list \<Rightarrow> pipe \<Rightarrow> pipe_wait option" where
  "read_wait aways p =
    (if PIPE_SIZE p \<noteq> 0 then Some (Ready p)
     else
       let p = log_event WakeWriters p
       in if pipe_count p \<noteq> 2 then Some (Give 0 p)
          else if cur_signal p AND NOT (cur_blocked p) \<noteq> 0 then Some (Give (- ERESTARTSYS) p)
          else case aways of
            [] \<Rightarrow> None
          | away # rest \<Rightarrow> read_wait rest (away (log_event SleepRead p)))"

definition pipe_read :: "(pipe \<Rightarrow> pipe) list \<Rightarrow> bool \<Rightarrow> int \<Rightarrow> pipe \<Rightarrow> (int \<times> u8 list \<times> pipe) option" where
  "pipe_read aways nonblock count p =
    (case (if nonblock then Some (Ready p) else read_wait aways p) of
       None \<Rightarrow> None
     | Some (Give r p) \<Rightarrow> Some (r, [], p)
     | Some (Ready p) \<Rightarrow>
         (case read_loop (Suc (nat count)) count p of
            None \<Rightarrow> None
          | Some (bs, p) \<Rightarrow>
              Some (if bs \<noteq> [] then int (length bs) else - EAGAIN, bs, log_event WakeWriters p)))"

fun write_wait :: "(pipe \<Rightarrow> pipe) list \<Rightarrow> int \<Rightarrow> pipe \<Rightarrow> (pipe_wait \<times> (pipe \<Rightarrow> pipe) list) option" where
  "write_wait aways written p =
    (if PAGE_SIZE - 1 - PIPE_SIZE p \<noteq> 0 then Some (Ready p, aways)
     else
       let p = log_event WakeReaders p
       in if pipe_count p \<noteq> 2 then
            Some (Give (if written \<noteq> 0 then written else - EINTR) (p\<lparr>cur_signal := cur_signal p OR push_bit 12 1\<rparr>), aways)
          else if cur_signal p AND NOT (cur_blocked p) \<noteq> 0 then
            Some (Give (if written \<noteq> 0 then written else - EINTR) p, aways)
          else case aways of
            [] \<Rightarrow> None
          | away # rest \<Rightarrow> write_wait rest written (away (log_event SleepWrite p)))"

fun write_loop :: "nat \<Rightarrow> (pipe \<Rightarrow> pipe) list \<Rightarrow> int \<Rightarrow> u8 list \<Rightarrow> pipe \<Rightarrow> (int \<times> pipe) option" where
  "write_loop 0 aways written buf p = None"
| "write_loop (Suc fuel) aways written buf p =
    (if buf = [] then Some (written, log_event WakeReaders p)
     else case write_wait aways written p of
       None \<Rightarrow> None
     | Some (Give r p, rest) \<Rightarrow> Some (r, p)
     | Some (Ready p, rest) \<Rightarrow>
         let count = int (length buf);
             sz = PAGE_SIZE - 1 - PIPE_SIZE p;
             chars = PAGE_SIZE - uint (pipe_head p);
             chars = (if chars > count then count else chars);
             chars = (if chars > sz then sz else chars)
         in write_loop fuel rest (written + chars) (drop (nat chars) buf) (put_chunk (take (nat chars) buf) p))"

text \<open>\<^verbatim>\<open>pipe_write\<close> of the bytes \<open>buf\<close> (the caller's buffer of \<^verbatim>\<open>count\<close> bytes).\<close>

definition pipe_write :: "(pipe \<Rightarrow> pipe) list \<Rightarrow> u8 list \<Rightarrow> pipe \<Rightarrow> (int \<times> pipe) option" where
  "pipe_write aways buf p = write_loop (Suc (length buf)) aways 0 buf p"

definition pipe_ioctl :: "int \<Rightarrow> pipe \<Rightarrow> int \<times> int option" where
  "pipe_ioctl cmd p = (if cmd = 0x541B then (0, Some (PIPE_SIZE p)) else (- EINVAL, None))"

definition new_pipe :: "u8 list \<Rightarrow> u32 \<Rightarrow> u32 \<Rightarrow> pipe" where
  "new_pipe pg sig blk =
    \<lparr>page = pg, pipe_head = 0, pipe_tail = 0, pipe_count = 2, cur_signal = sig, cur_blocked = blk, trace = []\<rparr>"

declare read_wait.simps [simp del] write_wait.simps [simp del]

section \<open>The ring buffer is a bounded queue\<close>

definition pipe_ok :: "pipe \<Rightarrow> bool" where
  "pipe_ok p \<longleftrightarrow> length (page p) = 4096 \<and> pipe_head p < 4096 \<and> pipe_tail p < 4096"

definition contents :: "pipe \<Rightarrow> u8 list" where
  "contents p = map (\<lambda>k. page p ! ((unat (pipe_tail p) + k) mod 4096)) [0..<nat (PIPE_SIZE p)]"

lemma unat_and_page: "unat (w AND 4095 :: u32) = unat w mod 4096"
proof -
  have "w AND 4095 = take_bit 12 w" by (simp add: take_bit_eq_mask mask_eq_exp_minus_1)
  then show ?thesis by (simp add: unsigned_take_bit_eq take_bit_nat_def)
qed

lemma PIPE_SIZE_nat:
  assumes "pipe_ok p"
  shows "PIPE_SIZE p = int ((unat (pipe_head p) + 4096 - unat (pipe_tail p)) mod 4096)"
proof -
  let ?h = "unat (pipe_head p)" and ?t = "unat (pipe_tail p)"
  have b: "?h < 4096" "?t < 4096" using assms by (auto simp: pipe_ok_def word_less_nat_alt)
  have "unat (pipe_head p - pipe_tail p) = (if ?t \<le> ?h then ?h - ?t else ?h + 2 ^ 32 - ?t)"
    by (simp add: unat_sub_if' word_le_nat_alt)
  then have "unat (pipe_head p - pipe_tail p) mod 4096 = (?h + 4096 - ?t) mod 4096"
  proof (cases "?t \<le> ?h")
    case True
    then show ?thesis using \<open>unat (pipe_head p - pipe_tail p) = _\<close> b by (simp add: le_mod_geq)
  next
    case False
    have "(?h + 2 ^ 32 - ?t) mod 4096 = (?h + 4096 - ?t + 1048575 * 4096) mod 4096" using b by (simp add: add.commute)
    also have "\<dots> = (?h + 4096 - ?t) mod 4096" by (rule mod_mult_self1)
    finally show ?thesis using False \<open>unat (pipe_head p - pipe_tail p) = _\<close> by simp
  qed
  moreover have "uint (x :: u32) = int (unat x)" for x by simp
  ultimately show ?thesis unfolding PIPE_SIZE_def by (simp only: unat_and_page)
qed

lemma ring_size:
  assumes "h < 4096" "t < (4096 :: nat)"
  shows "(h + 4096 - t) mod 4096 = n \<longleftrightarrow> n < 4096 \<and> h = (t + n) mod 4096"
proof (cases "t \<le> h")
  case True
  then have "(h + 4096 - t) mod 4096 = h - t" using assms by (simp add: le_mod_geq)
  moreover have "n < 4096 \<Longrightarrow> h = (t + n) mod 4096 \<longleftrightarrow> h - t = n"
    using True assms by (cases "t + n < 4096") (auto simp: mod_if)
  ultimately show ?thesis using assms by auto
next
  case False
  then have "(h + 4096 - t) mod 4096 = h + 4096 - t" using assms by simp
  moreover have "n < 4096 \<Longrightarrow> h = (t + n) mod 4096 \<longleftrightarrow> h + 4096 - t = n"
    using False assms by (cases "t + n < 4096") (auto simp: mod_if)
  ultimately show ?thesis using assms False by auto
qed

lemma PIPE_SIZE_iff:
  assumes "pipe_ok p"
  shows "PIPE_SIZE p = int n \<longleftrightarrow> n < 4096 \<and> unat (pipe_head p) = (unat (pipe_tail p) + n) mod 4096"
  using assms ring_size [of "unat (pipe_head p)" "unat (pipe_tail p)" n]
  by (simp add: PIPE_SIZE_nat pipe_ok_def word_less_nat_alt)

lemma length_contents: "pipe_ok p \<Longrightarrow> int (length (contents p)) = PIPE_SIZE p"
  using PIPE_SIZE_nat [of p] by (simp add: contents_def)

lemma contents_size: "pipe_ok p \<Longrightarrow> PIPE_SIZE p = int (length (contents p))"
  by (simp add: length_contents)

lemma contents_bound: "pipe_ok p \<Longrightarrow> length (contents p) < 4096"
  using length_contents [of p] PIPE_SIZE_nat [of p] by simp

lemma contents_nth:
  "pipe_ok p \<Longrightarrow> k < length (contents p) \<Longrightarrow> contents p ! k = page p ! ((unat (pipe_tail p) + k) mod 4096)"
  by (simp add: contents_def)

lemma unat_add_page:
  "unat ((w + of_nat n) AND 4095 :: u32) = (unat w + n) mod 4096"
proof -
  have "unat (w + of_nat n) mod 4096 = ((unat w + unat (of_nat n :: u32)) mod 2 ^ 32) mod 4096"
    by (simp add: unat_word_ariths)
  also have "\<dots> = (unat w + n mod 2 ^ 32) mod 4096"
    by (subst mod_mod_cancel) (simp_all add: unat_of_nat)
  also have "\<dots> = (unat w + n) mod 4096"
  proof -
    have "n mod 2 ^ 32 mod 4096 = n mod 4096" by (rule mod_mod_cancel) simp
    then show ?thesis by (metis mod_add_right_eq)
  qed
  finally show ?thesis by (simp add: unat_and_page)
qed

lemma contentsI:
  assumes "pipe_ok p" "PIPE_SIZE p = int (length xs)"
    and "\<And>k. k < length xs \<Longrightarrow> page p ! ((unat (pipe_tail p) + k) mod 4096) = xs ! k"
  shows "contents p = xs"
  using assms by (intro nth_equalityI) (simp_all add: contents_def)

lemma take_chunk_ok:
  assumes "pipe_ok p" "n \<le> length (contents p)" "n \<le> 4096 - unat (pipe_tail p)"
  shows "fst (take_chunk (int n) p) = take n (contents p)" "pipe_ok (snd (take_chunk (int n) p))"
    "contents (snd (take_chunk (int n) p)) = drop n (contents p)"
proof -
  let ?p = "snd (take_chunk (int n) p)" and ?t = "unat (pipe_tail p)" and ?l = "length (contents p)"
  have t: "?t < 4096" "unat (pipe_head p) < 4096" using assms(1) by (auto simp: pipe_ok_def word_less_nat_alt)
  have l: "?l < 4096" by (rule contents_bound [OF assms(1)])
  have h: "unat (pipe_head p) = (?t + ?l) mod 4096" using PIPE_SIZE_iff [OF assms(1)] contents_size [OF assms(1)] by blast
  show "fst (take_chunk (int n) p) = take n (contents p)"
    using assms t by (intro nth_equalityI) (auto simp: take_chunk_def contents_nth)
  have t': "unat (pipe_tail ?p) = (?t + n) mod 4096" using unat_add_page [of "pipe_tail p" n] by (simp add: take_chunk_def)
  show ok: "pipe_ok ?p"
    using assms(1) t' by (simp add: pipe_ok_def word_less_nat_alt take_chunk_def)
  have "unat (pipe_head ?p) = ((?t + n) mod 4096 + (?l - n)) mod 4096"
    using h assms(2) mod_add_left_eq [of "?t + n" 4096 "?l - n"] by (simp add: take_chunk_def)
  then have "PIPE_SIZE ?p = int (?l - n)" using PIPE_SIZE_iff [OF ok] t' l by simp
  then show "contents ?p = drop n (contents p)"
    using assms(1) ok t'
    by (intro contentsI) (auto simp: contents_nth take_chunk_def mod_add_left_eq add.assoc)
qed

lemma fold_page_update:
  assumes "n \<le> length bs" "h + length bs \<le> length pg"
  shows "length (fold (\<lambda>k pg. pg[h + k := bs ! k]) [0..<n] pg) = length pg \<and>
    (\<forall>i < length pg. fold (\<lambda>k pg. pg[h + k := bs ! k]) [0..<n] pg ! i =
       (if h \<le> i \<and> i < h + n then bs ! (i - h) else pg ! i))"
  using assms(1)
proof (induction n)
  case (Suc n)
  then show ?case using assms(2) by (auto simp: nth_list_update)
qed auto

lemma put_chunk_ok:
  assumes "pipe_ok p" "length (contents p) + length bs \<le> 4095" "length bs \<le> 4096 - unat (pipe_head p)"
  shows "pipe_ok (put_chunk bs p)" "contents (put_chunk bs p) = contents p @ bs"
proof -
  let ?p = "put_chunk bs p" and ?t = "unat (pipe_tail p)" and ?l = "length (contents p)" and ?h = "unat (pipe_head p)"
  have t: "?t < 4096" "?h < 4096" "length (page p) = 4096"
    using assms(1) by (auto simp: pipe_ok_def word_less_nat_alt)
  have h: "?h = (?t + ?l) mod 4096" using PIPE_SIZE_iff [OF assms(1)] contents_size [OF assms(1)] by blast
  have h': "unat (pipe_head ?p) = (?h + length bs) mod 4096" using unat_add_page [of "pipe_head p" "length bs"] by (simp add: put_chunk_def)
  have pg: "length (page ?p) = 4096"
    "\<And>i. i < 4096 \<Longrightarrow> page ?p ! i = (if ?h \<le> i \<and> i < ?h + length bs then bs ! (i - ?h) else page p ! i)"
    using fold_page_update [of "length bs" bs ?h "page p"] t assms(3) by (simp_all add: put_chunk_def)
  show ok: "pipe_ok ?p" using assms(1) pg(1) h' by (simp add: pipe_ok_def word_less_nat_alt) (simp add: put_chunk_def)
  have tl: "unat (pipe_tail ?p) = ?t" by (simp add: put_chunk_def)
  have "unat (pipe_head ?p) = (?t + (?l + length bs)) mod 4096" using h h' by (simp add: mod_add_left_eq add.assoc)
  then have sz: "PIPE_SIZE ?p = int (?l + length bs)" using PIPE_SIZE_iff [OF ok, of "?l + length bs"] tl assms(2) by simp
  show "contents ?p = contents p @ bs"
  proof (rule contentsI [OF ok])
    show "PIPE_SIZE ?p = int (length (contents p @ bs))" using sz by simp
    fix k assume k: "k < length (contents p @ bs)"
    let ?i = "(?t + k) mod 4096"
    show "page ?p ! ((unat (pipe_tail ?p) + k) mod 4096) = (contents p @ bs) ! k"
    proof (cases "k < ?l")
      case True
      have "\<not> (?h \<le> ?i \<and> ?i < ?h + length bs)"
        using h True assms(2,3) t by (cases "?t + k < 4096"; cases "?t + ?l < 4096") (auto simp: mod_if)
      then show ?thesis using True pg(2) [of ?i] tl assms(1) by (auto simp: contents_nth nth_append)
    next
      case False
      then have "?i = ?h + (k - ?l)"
        using h k assms(2,3) t by (cases "?t + k < 4096"; cases "?t + ?l < 4096") (auto simp: mod_if)
      moreover have "k - ?l < length bs" using k False by auto
      moreover from this have "page ?p ! (?h + (k - ?l)) = bs ! (k - ?l)"
        using pg(2) [of "?h + (k - ?l)"] assms(3) t by simp
      ultimately show ?thesis using False tl by (simp add: nth_append)
    qed
  qed
qed

section \<open>The contract of a byte channel\<close>

text \<open>
  What a user of a channel relies on: a write within the free room appends, a read within
  the available bytes takes from the front.
\<close>

datatype 'b channel_op = Put "'b list" | Get nat

fun channel_run ::
  "('b list \<Rightarrow> 's \<Rightarrow> 's) \<Rightarrow> (nat \<Rightarrow> 's \<Rightarrow> 'b list \<times> 's) \<Rightarrow> ('b list \<Rightarrow> 's \<Rightarrow> bool) \<Rightarrow> (nat \<Rightarrow> 's \<Rightarrow> bool) \<Rightarrow>
    'b channel_op list \<Rightarrow> 's \<Rightarrow> ('b list \<times> 'b list \<times> 's) option" where
  "channel_run put get room avail [] s = Some ([], [], s)"
| "channel_run put get room avail (Put bs # ops) s =
    (if room bs s then
       (case channel_run put get room avail ops (put bs s) of
          None \<Rightarrow> None | Some (ins, outs, s') \<Rightarrow> Some (bs @ ins, outs, s'))
     else None)"
| "channel_run put get room avail (Get n # ops) s =
    (if avail n s then
       (case channel_run put get room avail ops (snd (get n s)) of
          None \<Rightarrow> None | Some (ins, outs, s') \<Rightarrow> Some (ins, fst (get n s) @ outs, s'))
     else None)"

locale byte_channel =
  fixes content :: "'s \<Rightarrow> 'b list"
    and ok :: "'s \<Rightarrow> bool"
    and put :: "'b list \<Rightarrow> 's \<Rightarrow> 's"
    and get :: "nat \<Rightarrow> 's \<Rightarrow> 'b list \<times> 's"
    and room :: "'b list \<Rightarrow> 's \<Rightarrow> bool"
    and avail :: "nat \<Rightarrow> 's \<Rightarrow> bool"
  assumes put_appends: "ok s \<Longrightarrow> room bs s \<Longrightarrow> ok (put bs s) \<and> content (put bs s) = content s @ bs"
    and get_takes: "ok s \<Longrightarrow> avail n s \<Longrightarrow> ok (snd (get n s)) \<and> fst (get n s) @ content (snd (get n s)) = content s"
begin

lemma no_loss:
  "ok s \<Longrightarrow> channel_run put get room avail ops s = Some (ins, outs, s') \<Longrightarrow>
    ok s' \<and> content s @ ins = outs @ content s'"
proof (induction ops arbitrary: s ins outs)
  case Nil
  then show ?case by simp
next
  case (Cons op ops)
  show ?case
  proof (cases op)
    case (Put bs)
    then obtain ins' where r: "room bs s" "channel_run put get room avail ops (put bs s) = Some (ins', outs, s')" "ins = bs @ ins'"
      using Cons.prems(2) by (auto split: if_splits option.splits)
    then show ?thesis using Cons.IH [OF _ r(2)] put_appends [OF Cons.prems(1) r(1)] by auto
  next
    case (Get n)
    then obtain outs' where r: "avail n s" "channel_run put get room avail ops (snd (get n s)) = Some (ins, outs', s')"
      "outs = fst (get n s) @ outs'"
      using Cons.prems(2) by (auto split: if_splits option.splits)
    then show ?thesis using Cons.IH [OF _ r(2)] get_takes [OF Cons.prems(1) r(1)] by (metis append.assoc)
  qed
qed

end

definition pipe_room :: "u8 list \<Rightarrow> pipe \<Rightarrow> bool" where
  "pipe_room bs p \<longleftrightarrow> PIPE_SIZE p + int (length bs) \<le> 4095 \<and> int (length bs) \<le> PAGE_SIZE - uint (pipe_head p)"

definition pipe_avail :: "nat \<Rightarrow> pipe \<Rightarrow> bool" where
  "pipe_avail n p \<longleftrightarrow> int n \<le> PIPE_SIZE p \<and> int n \<le> PAGE_SIZE - uint (pipe_tail p)"

lemma int_le_page: "int n \<le> PAGE_SIZE - uint (w :: u32) \<longleftrightarrow> n + unat w \<le> 4096"
proof -
  have "uint w = int (unat w)" by simp
  then show ?thesis by (simp only:) linarith
qed

interpretation ring: byte_channel contents pipe_ok put_chunk "\<lambda>n. take_chunk (int n)" pipe_room pipe_avail
proof
  fix s bs assume "pipe_ok s" "pipe_room bs s"
  then show "pipe_ok (put_chunk bs s) \<and> contents (put_chunk bs s) = contents s @ bs"
    using put_chunk_ok [of s bs] by (auto simp: pipe_room_def contents_size int_le_page)
next
  fix s n assume "pipe_ok s" "pipe_avail n s"
  then show "pipe_ok (snd (take_chunk (int n) s)) \<and>
      fst (take_chunk (int n) s) @ contents (snd (take_chunk (int n) s)) = contents s"
    using take_chunk_ok [of s n] by (auto simp: pipe_avail_def contents_size int_le_page)
qed



section \<open>The calls\<close>

lemma if_min: "(if b < a then b else a) = min a b" for a b :: int
  by simp

lemma read_loop_spec:
  assumes "pipe_ok p" "0 \<le> count" "nat count < fuel"
  shows "\<exists>p'. read_loop fuel count p = Some (take (nat count) (contents p), p') \<and> pipe_ok p' \<and>
    contents p' = drop (nat count) (contents p)"
  using assms
proof (induction fuel arbitrary: count p)
  case 0
  then show ?case by simp
next
  case (Suc fuel)
  show ?case
  proof (cases "count > 0 \<and> PIPE_SIZE p \<noteq> 0")
    case False
    then have "nat count = 0 \<or> contents p = []" using contents_size [OF Suc.prems(1)] Suc.prems(2) by auto
    then show ?thesis using False Suc.prems(1) by auto
  next
    case True
    define c where "c = min (min (PAGE_SIZE - uint (pipe_tail p)) count) (PIPE_SIZE p)"
    have "uint (pipe_tail p) < 4096" using Suc.prems(1) by (simp add: pipe_ok_def word_less_def)
    moreover have "0 \<le> PIPE_SIZE p" by (simp add: PIPE_SIZE_def)
    ultimately have c: "0 < c" "c \<le> count" "c \<le> PIPE_SIZE p" "c \<le> PAGE_SIZE - uint (pipe_tail p)"
      using True by (auto simp: c_def)
    obtain n where n: "c = int n" using c(1) by (metis less_imp_le nonneg_int_cases)
    let ?p = "snd (take_chunk c p)"
    note tk = take_chunk_ok [OF Suc.prems(1), of n]
    have le: "n \<le> length (contents p)" "n \<le> 4096 - unat (pipe_tail p)"
      using c(3,4) contents_size [OF Suc.prems(1)] n int_le_page by auto
    have fl: "nat (count - c) < fuel" using Suc.prems(2,3) c(1,2) by linarith
    obtain p' where p': "read_loop fuel (count - c) ?p = Some (take (nat (count - c)) (contents ?p), p')" "pipe_ok p'"
      "contents p' = drop (nat (count - c)) (contents ?p)"
      using Suc.IH [of ?p "count - c"] tk(2) [OF le] fl c(2) n by auto
    have "read_loop (Suc fuel) count p = Some (fst (take_chunk c p) @ take (nat (count - c)) (contents ?p), p')"
      using True p'(1) by (simp add: if_min c_def [symmetric] Let_def split_beta)
    moreover have "nat count = n + nat (count - c)" using n c(2) by simp
    ultimately show ?thesis using p'(2,3) tk(1,3) [OF le] n by (simp add: take_add) (metis add.commute drop_drop)
  qed
qed

lemma write_loop_fits:
  assumes "pipe_ok p" "length (contents p) + length buf \<le> 4095" "length buf < fuel"
  shows "\<exists>p'. write_loop fuel aways written buf p = Some (written + int (length buf), p') \<and> pipe_ok p' \<and>
    contents p' = contents p @ buf \<and> WakeReaders \<in> set (trace p')"
  using assms
proof (induction fuel arbitrary: written buf p)
  case 0
  then show ?case by simp
next
  case (Suc fuel)
  show ?case
  proof (cases "buf = []")
    case True
    moreover have "pipe_ok (log_event WakeReaders p) = pipe_ok p" "contents (log_event WakeReaders p) = contents p"
      by (simp_all add: log_event_def pipe_ok_def contents_def PIPE_SIZE_def)
    ultimately show ?thesis using Suc.prems(1) by (auto simp: log_event_def)
  next
    case False
    define c where "c = min (min (PAGE_SIZE - uint (pipe_head p)) (int (length buf))) (4095 - PIPE_SIZE p)"
    have "uint (pipe_head p) < 4096" using Suc.prems(1) by (simp add: pipe_ok_def word_less_def)
    moreover have sz: "PIPE_SIZE p + int (length buf) \<le> 4095" using Suc.prems(2) contents_size [OF Suc.prems(1)] by simp
    ultimately have c: "0 < c" "c \<le> int (length buf)" "c \<le> 4096 - uint (pipe_head p)"
      using False by (auto simp: c_def)
    obtain n where n: "c = int n" using c(1) by (metis less_imp_le nonneg_int_cases)
    let ?p = "put_chunk (take n buf) p"
    have le: "n \<le> length buf" "n \<le> 4096 - unat (pipe_head p)" using c(2,3) n int_le_page by auto
    have dl: "length (drop n buf) < fuel" using Suc.prems(3) c(1) n le(1) by simp
    have put: "pipe_ok ?p" "contents ?p = contents p @ take n buf"
      using put_chunk_ok [OF Suc.prems(1), of "take n buf"] Suc.prems(2) le by auto
    have rdy: "write_wait aways written p = Some (Ready p, aways)" using sz False by (subst write_wait.simps) auto
    have "write_loop (Suc fuel) aways written buf p = write_loop fuel aways (written + c) (drop n buf) ?p"
      using False rdy n by (simp add: if_min c_def [symmetric] Let_def)
    moreover obtain p' where "write_loop fuel aways (written + c) (drop n buf) ?p = Some (written + c + int (length (drop n buf)), p')"
      "pipe_ok p'" "contents p' = contents ?p @ drop n buf" "WakeReaders \<in> set (trace p')"
      using Suc.IH [OF put(1), of "drop n buf" "written + c"] put(2) Suc.prems(2) le dl n by auto
    ultimately show ?thesis using put(2) n le by simp
  qed
qed

lemma log_event_simps [simp]:
  "pipe_ok (log_event e p) = pipe_ok p" "contents (log_event e p) = contents p" "PIPE_SIZE (log_event e p) = PIPE_SIZE p"
  by (simp_all add: log_event_def pipe_ok_def contents_def PIPE_SIZE_def)

text \<open>
  C34. Write, then read: bytes that fit the free room of the pipe are written without
  sleeping, all of them, and waiting readers are woken; a following read of a positive
  number of bytes returns that many bytes from the front of the queue, or all there are.
\<close>

theorem pipe_write_then_read:
  assumes "pipe_ok p" "length (contents p) + length buf \<le> 4095" "buf \<noteq> []" "0 < count"
  shows "\<exists>p1 p2. pipe_write aways buf p = Some (int (length buf), p1) \<and> WakeReaders \<in> set (trace p1) \<and>
    pipe_read aways' nonblock count p1 =
      Some (int (length (take (nat count) (contents p @ buf))), take (nat count) (contents p @ buf), p2) \<and>
    contents p2 = drop (nat count) (contents p @ buf) \<and> pipe_ok p2"
proof -
  obtain p1 where p1: "pipe_write aways buf p = Some (int (length buf), p1)" "pipe_ok p1" "contents p1 = contents p @ buf"
    "WakeReaders \<in> set (trace p1)"
    using write_loop_fits [OF assms(1,2), of "Suc (length buf)" aways 0] by (auto simp: pipe_write_def)
  have "PIPE_SIZE p1 \<noteq> 0" using contents_size [OF p1(2)] p1(3) assms(3) by (cases buf) auto
  then have rdy: "(if nonblock then Some (Ready p1) else read_wait aways' p1) = Some (Ready p1)"
    by (subst read_wait.simps) simp
  obtain p' where p': "read_loop (Suc (nat count)) count p1 = Some (take (nat count) (contents p1), p')" "pipe_ok p'"
    "contents p' = drop (nat count) (contents p1)"
    using read_loop_spec [OF p1(2), of count "Suc (nat count)"] assms(4) by auto
  have "take (nat count) (contents p1) \<noteq> []" using p1(3) assms(3,4) by simp
  then have "pipe_read aways' nonblock count p1 =
      Some (int (length (take (nat count) (contents p1))), take (nat count) (contents p1), log_event WakeWriters p')"
    unfolding pipe_read_def rdy using p'(1) by simp
  then show ?thesis using p1 p'(2,3) by (auto simp: p1(3))
qed

theorem pipe_write_then_read_witness:
  "\<exists>p1 p2. pipe_write [] [7, 8, 9] (new_pipe (replicate 4096 0) 0 0) = Some (3, p1) \<and>
     pipe_read [] False 2 p1 = Some (2, [7, 8], p2)"
  using pipe_write_then_read [of "new_pipe (replicate 4096 0) 0 0" "[7, 8, 9]" 2 "[]" "[]" False]
  by (auto simp: new_pipe_def pipe_ok_def contents_def PIPE_SIZE_def)

text \<open>
  C40. The ends of a pipe: a writer on a full pipe whose other end is closed gets \<^verbatim>\<open>SIGPIPE\<close> and
  does not sleep; a reader on an empty pipe gets end of file when the other end is closed, \<^verbatim>\<open>-EAGAIN\<close> when it does
  not want to wait, and \<^verbatim>\<open>-ERESTARTSYS\<close> when a signal is pending.
\<close>

theorem pipe_ends:
  assumes "pipe_ok p"
  shows "(length (contents p) = 4095 \<and> pipe_count p \<noteq> 2 \<and> buf \<noteq> [] \<longrightarrow>
      (\<exists>p'. pipe_write aways buf p = Some (- EINTR, p') \<and> bit (cur_signal p') 12 \<and> contents p' = contents p)) \<and>
    (contents p = [] \<longrightarrow>
      (\<exists>p'. pipe_read aways True count p = Some (- EAGAIN, [], p')) \<and>
      (pipe_count p \<noteq> 2 \<longrightarrow> (\<exists>p'. pipe_read aways False count p = Some (0, [], p'))) \<and>
      (pipe_count p = 2 \<and> cur_signal p AND NOT (cur_blocked p) \<noteq> 0 \<longrightarrow>
         (\<exists>p'. pipe_read aways False count p = Some (- ERESTARTSYS, [], p'))))"
proof (intro conjI impI)
  assume a: "length (contents p) = 4095 \<and> pipe_count p \<noteq> 2 \<and> buf \<noteq> []"
  define q where "q = (log_event WakeReaders p)\<lparr>cur_signal := cur_signal p OR push_bit 12 1\<rparr>"
  have "PIPE_SIZE p = 4095" using contents_size [OF assms] a by simp
  then have "write_wait aways 0 p = Some (Give (- EINTR) q, aways)"
    using a by (subst write_wait.simps) (simp add: q_def log_event_def)
  then have "pipe_write aways buf p = Some (- EINTR, q)" using a by (simp add: pipe_write_def)
  moreover have "bit (cur_signal q) 12" by (simp add: q_def bit_simps)
  moreover have "contents q = contents p" by (simp add: q_def contents_def PIPE_SIZE_def log_event_def)
  ultimately show "\<exists>p'. pipe_write aways buf p = Some (- EINTR, p') \<and> bit (cur_signal p') 12 \<and> contents p' = contents p"
    by blast
next
  assume "contents p = []"
  then have sz: "PIPE_SIZE p = 0" using contents_size [OF assms] by simp
  have r: "read_loop (Suc n) count p = Some ([], p)" for n using sz by simp
  show "\<exists>p'. pipe_read aways True count p = Some (- EAGAIN, [], p')"
    by (simp add: pipe_read_def r del: read_loop.simps)
  show "\<exists>p'. pipe_read aways False count p = Some (0, [], p')" if "pipe_count p \<noteq> 2"
    using sz that by (simp add: pipe_read_def read_wait.simps [of aways p] Let_def log_event_def)
  show "\<exists>p'. pipe_read aways False count p = Some (- ERESTARTSYS, [], p')"
    if "pipe_count p = 2 \<and> cur_signal p AND NOT (cur_blocked p) \<noteq> 0"
    using sz that by (simp add: pipe_read_def read_wait.simps [of aways p] Let_def log_event_def)
qed

theorem pipe_ends_witness:
  "\<exists>p'. pipe_read [] False 5 ((new_pipe (replicate 4096 0) 0 0)\<lparr>pipe_count := 1\<rparr>) = Some (0, [], p')"
  using pipe_ends [of "(new_pipe (replicate 4096 0) 0 0)\<lparr>pipe_count := 1\<rparr>" "[]" "[]" 5]
  by (simp add: new_pipe_def pipe_ok_def contents_def PIPE_SIZE_def)

end
