(* ===== verification/Block_Requests.thy ===== *)
theory Block_Requests
  imports Kernel_Prelude "HOL-Library.Product_Lexorder"
begin

text \<open>
  The block device layer: \<^verbatim>\<open>kernel/blk_drv/ll_rw_blk.c\<close> and the request macros of
  \<^verbatim>\<open>kernel/blk_drv/blk.h\<close>.  Requests sit in a static table of 32; each device has a queue that
  starts with the request in service.  The driver entry \<^verbatim>\<open>request_fn\<close> is an argument.
\<close>

section \<open>Buffers and requests\<close>

record buffer_head =
  b_data :: ptr
  b_blocknr :: u32
  b_dev :: u16
  b_uptodate :: u8
  b_dirt :: u8
  b_count :: u8
  b_lock :: u8
  b_prev :: ptr
  b_next :: ptr
  b_prev_free :: ptr
  b_next_free :: ptr

record request =
  rq_dev :: int
  rq_cmd :: int
  rq_errors :: int
  rq_sector :: u32
  rq_nr_sectors :: u32
  rq_buffer :: ptr
  rq_waiting :: ptr
  rq_bh :: ptr
  rq_next :: ptr

text \<open>
  \<open>woken\<close> records the wait queues on which \<^verbatim>\<open>wake_up\<close> was called, latest first: the queue
  \<^verbatim>\<open>b_wait\<close> of a buffer, the task waiting for a request, \<^verbatim>\<open>wait_for_request\<close>, and \<^verbatim>\<open>buffer_wait\<close>.
\<close>

datatype wait_channel = BufferWait ptr | RequestWaiter ptr | WaitForRequest | FreeBufferWait

record blk_state =
  bhs :: "ptr \<Rightarrow> buffer_head"
  requests :: "ptr \<Rightarrow> request"
  current_request :: "nat \<Rightarrow> ptr"
  request_fn :: "nat \<Rightarrow> bool"
  hash_table :: "nat \<Rightarrow> ptr"
  free_list :: ptr
  nr_buffers :: nat
  woken :: "wait_channel list"

type_synonym driver = "nat \<Rightarrow> blk_state \<Rightarrow> blk_state"
type_synonym away = "blk_state \<Rightarrow> blk_state"

abbreviation (input) NR_REQUEST :: nat where "NR_REQUEST \<equiv> 32"
abbreviation (input) NR_BLK_DEV :: nat where "NR_BLK_DEV \<equiv> 7"
abbreviation (input) READ :: int where "READ \<equiv> 0"
abbreviation (input) WRITE :: int where "WRITE \<equiv> 1"
abbreviation (input) READA :: int where "READA \<equiv> 2"
abbreviation (input) WRITEA :: int where "WRITEA \<equiv> 3"

definition upd_bh :: "ptr \<Rightarrow> (buffer_head \<Rightarrow> buffer_head) \<Rightarrow> blk_state \<Rightarrow> blk_state" where
  "upd_bh p f s = s\<lparr>bhs := (bhs s)(p := f (bhs s p))\<rparr>"

definition upd_req :: "ptr \<Rightarrow> (request \<Rightarrow> request) \<Rightarrow> blk_state \<Rightarrow> blk_state" where
  "upd_req p f s = s\<lparr>requests := (requests s)(p := f (requests s p))\<rparr>"

definition wake :: "wait_channel \<Rightarrow> blk_state \<Rightarrow> blk_state" where
  "wake c s = s\<lparr>woken := c # woken s\<rparr>"

definition MAJOR :: "u32 \<Rightarrow> nat" where
  "MAJOR a = unat (drop_bit 8 a)"

section \<open>ll\_rw\_blk.c\<close>

fun lock_buffer :: "away list \<Rightarrow> ptr \<Rightarrow> blk_state \<Rightarrow> (away list \<times> blk_state) outcome" where
  "lock_buffer aways bh s =
    (if b_lock (bhs s bh) \<noteq> 0 then
       (case aways of [] \<Rightarrow> Asleep | away # rest \<Rightarrow> lock_buffer rest bh (away s))
     else Done (aways, upd_bh bh (\<lambda>b. b\<lparr>b_lock := 1\<rparr>) s))"

declare lock_buffer.simps [simp del]

definition unlock_buffer :: "ptr \<Rightarrow> blk_state \<Rightarrow> blk_state" where
  "unlock_buffer bh s = wake (BufferWait bh) (upd_bh bh (\<lambda>b. b\<lparr>b_lock := 0\<rparr>) s)"

definition IN_ORDER :: "request \<Rightarrow> request \<Rightarrow> bool" where
  "IN_ORDER s1 s2 \<longleftrightarrow> rq_cmd s1 < rq_cmd s2 \<or> (rq_cmd s1 = rq_cmd s2 \<and>
     (rq_dev s1 < rq_dev s2 \<or> (rq_dev s1 = rq_dev s2 \<and> rq_sector s1 < rq_sector s2)))"

text \<open>The search for the place of a request: \<open>None\<close> when the queue is longer than the fuel.\<close>

fun request_place :: "nat \<Rightarrow> ptr \<Rightarrow> ptr \<Rightarrow> blk_state \<Rightarrow> ptr option" where
  "request_place 0 req tmp s = None"
| "request_place (Suc fuel) req tmp s =
    (let nx = rq_next (requests s tmp) in
     if nx = NULL then Some tmp
     else if rq_bh (requests s req) = NULL then
       if rq_bh (requests s nx) \<noteq> NULL then Some tmp else request_place fuel req nx s
     else if (IN_ORDER (requests s tmp) (requests s req) \<or> \<not> IN_ORDER (requests s tmp) (requests s nx)) \<and>
             IN_ORDER (requests s req) (requests s nx) then Some tmp
     else request_place fuel req nx s)"

definition add_request :: "driver \<Rightarrow> nat \<Rightarrow> ptr \<Rightarrow> blk_state \<Rightarrow> blk_state option" where
  "add_request fn major req s =
    (let s = upd_req req (\<lambda>r. r\<lparr>rq_next := NULL\<rparr>) s;
         s = (if rq_bh (requests s req) \<noteq> NULL
              then upd_bh (rq_bh (requests s req)) (\<lambda>b. b\<lparr>b_dirt := 0\<rparr>) s else s)
     in if current_request s major = NULL
        then Some (fn major (s\<lparr>current_request := (current_request s)(major := req)\<rparr>))
        else case request_place NR_REQUEST req (current_request s major) s of
          None \<Rightarrow> None
        | Some tmp \<Rightarrow>
            Some (upd_req tmp (\<lambda>r. r\<lparr>rq_next := req\<rparr>)
                   (upd_req req (\<lambda>r. r\<lparr>rq_next := rq_next (requests s tmp)\<rparr>) s)))"

text \<open>Slots are searched from the top: reads from the whole table, writes from the lower two thirds.\<close>

definition free_slot :: "nat \<Rightarrow> blk_state \<Rightarrow> ptr option" where
  "free_slot n s = find (\<lambda>p. rq_dev (requests s p) < 0) (rev [1..<n + 1])"

fun get_slot :: "away list \<Rightarrow> bool \<Rightarrow> nat \<Rightarrow> blk_state \<Rightarrow> (away list \<times> ptr \<times> blk_state) outcome" where
  "get_slot aways rw_ahead n s =
    (case free_slot n s of
       Some p \<Rightarrow> Done (aways, p, s)
     | None \<Rightarrow>
         if rw_ahead then Done (aways, NULL, s)
         else (case aways of [] \<Rightarrow> Asleep | away # rest \<Rightarrow> get_slot rest rw_ahead n (away s)))"

declare get_slot.simps [simp del]

definition bh_request :: "int \<Rightarrow> ptr \<Rightarrow> blk_state \<Rightarrow> request" where
  "bh_request rw bh s =
    \<lparr>rq_dev = uint (b_dev (bhs s bh)), rq_cmd = rw, rq_errors = 0, rq_sector = push_bit 1 (b_blocknr (bhs s bh)),
     rq_nr_sectors = 2, rq_buffer = b_data (bhs s bh), rq_waiting = NULL, rq_bh = bh, rq_next = NULL\<rparr>"

definition make_request :: "driver \<Rightarrow> away list \<Rightarrow> nat \<Rightarrow> int \<Rightarrow> ptr \<Rightarrow> blk_state \<Rightarrow> (away list \<times> blk_state) outcome" where
  "make_request fn aways major rw bh s =
    (let rw_ahead = (rw = READA \<or> rw = WRITEA) in
     if rw_ahead \<and> b_lock (bhs s bh) \<noteq> 0 then Done (aways, s)
     else
       let rw = (if rw_ahead then if rw = READA then READ else WRITE else rw) in
       if rw \<noteq> READ \<and> rw \<noteq> WRITE then Panicked
       else then_do (lock_buffer aways bh s) (\<lambda>(aways, s).
         if rw = WRITE \<and> b_dirt (bhs s bh) = 0 \<or> rw = READ \<and> b_uptodate (bhs s bh) \<noteq> 0
         then Done (aways, unlock_buffer bh s)
         else then_do (get_slot aways rw_ahead (if rw = READ then NR_REQUEST else NR_REQUEST * 2 div 3) s) (\<lambda>(aways, p, s).
           if p = NULL then Done (aways, unlock_buffer bh s)
           else case add_request fn major p (upd_req p (\<lambda>_. bh_request rw bh s) s) of
             None \<Rightarrow> Asleep
           | Some s \<Rightarrow> Done (aways, s))))"

definition ll_rw_block :: "driver \<Rightarrow> away list \<Rightarrow> int \<Rightarrow> ptr \<Rightarrow> blk_state \<Rightarrow> (away list \<times> blk_state) outcome" where
  "ll_rw_block fn aways rw bh s =
    (let major = MAJOR (ucast (b_dev (bhs s bh))) in
     if major \<ge> NR_BLK_DEV \<or> \<not> request_fn s major then Done (aways, s)
     else make_request fn aways major rw bh s)"

text \<open>
  Page transfers (\<^verbatim>\<open>ll_rw_page\<close>, and one block of \<^verbatim>\<open>ll_rw_swap_file\<close>): no buffer head, the caller \<open>me\<close> waits for the
  request itself; \<^verbatim>\<open>schedule()\<close> at the end is one more element of the environment.
\<close>

definition raw_request :: "int \<Rightarrow> int \<Rightarrow> u32 \<Rightarrow> u32 \<Rightarrow> ptr \<Rightarrow> ptr \<Rightarrow> request" where
  "raw_request rw dev sector nr buffer me =
    \<lparr>rq_dev = dev, rq_cmd = rw, rq_errors = 0, rq_sector = sector, rq_nr_sectors = nr, rq_buffer = buffer,
     rq_waiting = me, rq_bh = NULL, rq_next = NULL\<rparr>"

definition wait_for_transfer ::
  "driver \<Rightarrow> away list \<Rightarrow> nat \<Rightarrow> request \<Rightarrow> blk_state \<Rightarrow> (away list \<times> blk_state) outcome" where
  "wait_for_transfer fn aways major r s =
    then_do (get_slot aways False NR_REQUEST s) (\<lambda>(aways, p, s).
      case add_request fn major p (upd_req p (\<lambda>_. r) s) of
        None \<Rightarrow> Asleep
      | Some s \<Rightarrow> (case aways of [] \<Rightarrow> Asleep | away # rest \<Rightarrow> Done (rest, away s)))"

definition ll_rw_page ::
  "driver \<Rightarrow> away list \<Rightarrow> ptr \<Rightarrow> int \<Rightarrow> u32 \<Rightarrow> u32 \<Rightarrow> ptr \<Rightarrow> blk_state \<Rightarrow> (away list \<times> blk_state) outcome" where
  "ll_rw_page fn aways me rw dev page buffer s =
    (if MAJOR dev \<ge> NR_BLK_DEV \<or> \<not> request_fn s (MAJOR dev) then Done (aways, s)
     else if rw \<noteq> READ \<and> rw \<noteq> WRITE then Panicked
     else wait_for_transfer fn aways (MAJOR dev) (raw_request rw (sint dev) (push_bit 3 page) 8 buffer me) s)"

fun swap_file_loop ::
  "driver \<Rightarrow> away list \<Rightarrow> ptr \<Rightarrow> int \<Rightarrow> u32 \<Rightarrow> u32 list \<Rightarrow> ptr \<Rightarrow> blk_state \<Rightarrow> (away list \<times> blk_state) outcome" where
  "swap_file_loop fn aways me rw dev [] buf s = Done (aways, s)"
| "swap_file_loop fn aways me rw dev (b # bs) buf s =
    then_do (wait_for_transfer fn aways (MAJOR dev) (raw_request rw (sint dev) (push_bit 1 b) 2 buf me) s)
      (\<lambda>(aways, s). swap_file_loop fn aways me rw dev bs (buf + 1024) s)"

definition ll_rw_swap_file ::
  "driver \<Rightarrow> away list \<Rightarrow> ptr \<Rightarrow> int \<Rightarrow> u32 \<Rightarrow> u32 list \<Rightarrow> ptr \<Rightarrow> blk_state \<Rightarrow> (away list \<times> blk_state) outcome" where
  "ll_rw_swap_file fn aways me rw dev b buf s =
    (if MAJOR dev \<ge> NR_BLK_DEV \<or> \<not> request_fn s (MAJOR dev) then Done (aways, s)
     else if rw \<noteq> READ \<and> rw \<noteq> WRITE then Done (aways, s)
     else swap_file_loop fn aways me rw dev b buf s)"

definition blk_dev_init :: "blk_state \<Rightarrow> blk_state" where
  "blk_dev_init s = fold (\<lambda>i s. upd_req i (\<lambda>r. r\<lparr>rq_dev := -1, rq_next := NULL\<rparr>) s) [1..<33] s"

text \<open>\<^verbatim>\<open>end_request\<close> of the device with major number \<open>major\<close>.\<close>

definition end_request :: "nat \<Rightarrow> u8 \<Rightarrow> blk_state \<Rightarrow> blk_state" where
  "end_request major uptodate s =
    (let p = current_request s major;
         s = (if rq_bh (requests s p) \<noteq> NULL
              then unlock_buffer (rq_bh (requests s p)) (upd_bh (rq_bh (requests s p)) (\<lambda>b. b\<lparr>b_uptodate := uptodate\<rparr>) s)
              else s);
         s = upd_req p (\<lambda>r. r\<lparr>rq_waiting := NULL\<rparr>) (wake (RequestWaiter (rq_waiting (requests s p))) s);
         s = wake WaitForRequest s;
         s = upd_req p (\<lambda>r. r\<lparr>rq_dev := -1\<rparr>) s
     in s\<lparr>current_request := (current_request s)(major := rq_next (requests s p))\<rparr>)"

section \<open>The queue of a device as a list\<close>

lemma upd_simps [simp]:
  "requests (upd_bh p f s) = requests s" "current_request (upd_bh p f s) = current_request s"
  "bhs (upd_req p g s) = bhs s" "current_request (upd_req p g s) = current_request s"
  "requests (upd_req p g s) q = (if q = p then g (requests s p) else requests s q)"
  "bhs (upd_bh p f s) q = (if q = p then f (bhs s p) else bhs s q)"
  "requests (wake c s) = requests s" "bhs (wake c s) = bhs s" "current_request (wake c s) = current_request s"
  "woken (wake c s) = c # woken s" "woken (upd_bh p f s) = woken s" "woken (upd_req p g s) = woken s"
  by (simp_all add: upd_bh_def upd_req_def wake_def)

definition queue :: "blk_state \<Rightarrow> nat \<Rightarrow> ptr list \<Rightarrow> bool" where
  "queue s major xs \<longleftrightarrow> chain (\<lambda>p. rq_next (requests s p)) (current_request s major) xs"

definition before :: "(ptr \<Rightarrow> request) \<Rightarrow> ptr \<Rightarrow> ptr \<Rightarrow> ptr \<Rightarrow> bool" where
  "before R req x y \<longleftrightarrow>
    (if rq_bh (R req) = NULL then rq_bh (R y) \<noteq> NULL
     else (IN_ORDER (R x) (R req) \<or> \<not> IN_ORDER (R x) (R y)) \<and> IN_ORDER (R req) (R y))"

text \<open>The abstract insertion: the request in service stays first.\<close>

fun elevator :: "(ptr \<Rightarrow> request) \<Rightarrow> ptr \<Rightarrow> ptr list \<Rightarrow> ptr list" where
  "elevator R req [] = [req]"
| "elevator R req [x] = [x, req]"
| "elevator R req (x # y # ys) = (if before R req x y then x # req # y # ys else x # elevator R req (y # ys))"

lemma set_elevator [simp]: "set (elevator R req xs) = insert req (set xs)"
  by (induction R req xs rule: elevator.induct) auto

lemma hd_elevator: "xs \<noteq> [] \<Longrightarrow> hd (elevator R req xs) = hd xs"
  by (induction R req xs rule: elevator.induct) auto

lemma request_place_split:
  assumes "chain (\<lambda>p. rq_next (requests s p)) p (p # ps)" "length ps < fuel"
  shows "\<exists>us tmp vs. request_place fuel req p s = Some tmp \<and> p # ps = us @ tmp # vs \<and>
    elevator (requests s) req (p # ps) = us @ tmp # req # vs"
  using assms
proof (induction ps arbitrary: p fuel)
  case Nil
  then obtain f where f: "fuel = Suc f" by (cases fuel) auto
  show ?case
    by (rule exI [of _ "[]"]) (use Nil in \<open>simp add: f\<close>)
next
  case (Cons y ps)
  obtain f where f: "fuel = Suc f" "length ps < f" using Cons.prems(2) by (cases fuel) auto
  have y: "rq_next (requests s p) = y" "y \<noteq> NULL" "chain (\<lambda>p. rq_next (requests s p)) y (y # ps)"
    using Cons.prems(1) by auto
  show ?case
  proof (cases "before (requests s) req p y")
    case True
    then have "request_place fuel req p s = Some p"
      using y by (auto simp: f(1) before_def Let_def split: if_splits)
    then show ?thesis using True by (intro exI [of _ "[]"] exI [of _ p] exI [of _ "y # ps"]) simp
  next
    case False
    then have st: "request_place fuel req p s = request_place f req y s"
      using y by (auto simp: f(1) before_def Let_def split: if_splits)
    obtain us tmp vs where i: "request_place f req y s = Some tmp" "y # ps = us @ tmp # vs"
      "elevator (requests s) req (y # ps) = us @ tmp # req # vs"
      using Cons.IH [OF y(3) f(2)] by blast
    have "elevator (requests s) req (p # y # ps) = p # elevator (requests s) req (y # ps)" using False by simp
    then have "elevator (requests s) req (p # y # ps) = (p # us) @ tmp # req # vs" unfolding i(3) by simp
    moreover have "p # y # ps = (p # us) @ tmp # vs" using i(2) by simp
    ultimately have "p # y # ps = (p # us) @ tmp # vs \<and> elevator (requests s) req (p # y # ps) = (p # us) @ tmp # req # vs"
      by blast
    then show ?thesis using i(1) st by metis
  qed
qed

lemma chain_insert:
  assumes "chain nx p (us @ t # vs)" "r \<noteq> NULL" "r \<notin> set (us @ t # vs)" "nx' r = nx t" "nx' t = r"
    and "\<And>q. q \<noteq> r \<Longrightarrow> q \<noteq> t \<Longrightarrow> nx' q = nx q"
  shows "chain nx' p (us @ t # r # vs)"
proof -
  have d: "distinct (us @ t # vs)" by (rule chain_distinct [OF assms(1)])
  obtain a where a: "path nx p us a" "chain nx a (t # vs)" using assms(1) by (auto simp: chain_append)
  have e: "nx' x = nx x" if "x \<in> set us \<union> set vs" for x using assms(6) [of x] that d assms(3) by auto
  have "path nx' p us a" using a(1) e by (subst path_cong [of us nx' nx]) auto
  moreover have "chain nx' (nx t) vs" using a(2) e by (subst chain_cong [of vs nx' nx]) auto
  ultimately show ?thesis using a(2) assms(2,4,5) by (auto simp: chain_append)
qed

definition same_request :: "request \<Rightarrow> request \<Rightarrow> bool" where
  "same_request r r' \<longleftrightarrow> rq_cmd r = rq_cmd r' \<and> rq_dev r = rq_dev r' \<and> rq_sector r = rq_sector r' \<and> rq_bh r = rq_bh r'"

lemma before_cong:
  "same_request (R req) (R' req) \<Longrightarrow> same_request (R x) (R' x) \<Longrightarrow> same_request (R y) (R' y) \<Longrightarrow>
    before R req x y = before R' req x y"
  by (simp add: before_def IN_ORDER_def same_request_def)

lemma elevator_cong:
  "(\<And>x. same_request (R x) (R' x)) \<Longrightarrow> elevator R req xs = elevator R' req xs"
proof (induction xs rule: induct_list012)
  case (3 x y zs)
  then show ?case using before_cong [of R req R' x y] by simp
qed simp_all

lemma add_request_queue:
  assumes "queue s major xs" "xs \<noteq> []" "req \<noteq> NULL" "req \<notin> set xs" "length xs \<le> 32"
  shows "\<exists>s'. add_request fn major req s = Some s' \<and> queue s' major (elevator (requests s) req xs) \<and>
    (\<forall>q. \<exists>n. requests s' q = (requests s q)\<lparr>rq_next := n\<rparr>)"
proof -
  obtain p ps where xs: "xs = p # ps" using assms(2) by (cases xs) auto
  define u where "u = upd_req req (\<lambda>r. r\<lparr>rq_next := NULL\<rparr>) s"
  define v where "v = (if rq_bh (requests u req) \<noteq> NULL
      then upd_bh (rq_bh (requests u req)) (\<lambda>b. b\<lparr>b_dirt := 0\<rparr>) u else u)"
  have v: "requests v = requests u" "current_request v = current_request s" by (simp_all add: v_def u_def)
  have p: "current_request s major = p" "p \<noteq> NULL" using assms(1) xs by (auto simp: queue_def)
  have ch: "chain (\<lambda>q. rq_next (requests v q)) p (p # ps)"
    using assms(1,4) xs p(1) unfolding queue_def v(1) u_def
    by (subst chain_cong [where g = "\<lambda>q. rq_next (requests s q)"]) auto
  obtain us tmp vs where pl: "request_place 32 req p v = Some tmp" "p # ps = us @ tmp # vs"
    "elevator (requests v) req (p # ps) = us @ tmp # req # vs"
    using request_place_split [OF ch, of 32 req] assms(5) xs by auto
  define s' where "s' = upd_req tmp (\<lambda>r. r\<lparr>rq_next := req\<rparr>)
      (upd_req req (\<lambda>r. r\<lparr>rq_next := rq_next (requests v tmp)\<rparr>) v)"
  have add: "add_request fn major req s = Some s'"
    unfolding add_request_def Let_def u_def [symmetric] v_def [symmetric] s'_def using p pl(1) v(2) by simp
  have tn: "tmp \<noteq> req" using pl(2) assms(4) xs by auto
  have ev: "elevator (requests v) req xs = elevator (requests s) req xs"
    by (rule elevator_cong) (simp add: v(1) u_def same_request_def)
  have "chain (\<lambda>q. rq_next (requests s' q)) p (us @ tmp # req # vs)"
  proof (rule chain_insert [OF _ assms(3)])
    show "chain (\<lambda>q. rq_next (requests v q)) p (us @ tmp # vs)" using ch pl(2) by simp
    show "req \<notin> set (us @ tmp # vs)" using pl(2) assms(4) xs by metis
  qed (use tn in \<open>simp_all add: s'_def\<close>)
  then have "queue s' major (elevator (requests s) req xs)"
    using pl(3) xs ev p(1) v(2) by (simp add: queue_def s'_def)
  moreover have "\<exists>n. requests s' q = (requests s q)\<lparr>rq_next := n\<rparr>" for q
  proof -
    have "requests s' q = (requests s q)\<lparr>rq_next := rq_next (requests s' q)\<rparr>"
      using v(1) by (simp add: s'_def u_def)
    then show ?thesis by blast
  qed
  ultimately show ?thesis using add by blast
qed

section \<open>The elevator\<close>

definition key :: "request \<Rightarrow> int \<times> int \<times> u32" where
  "key r = (rq_cmd r, rq_dev r, rq_sector r)"

lemma IN_ORDER_key: "IN_ORDER a b \<longleftrightarrow> key a < key b"
  by (auto simp: IN_ORDER_def key_def less_prod_def less_prod_def')

text \<open>The number of places where the head of the disk has to turn back.\<close>

fun descents :: "'a :: linorder list \<Rightarrow> nat" where
  "descents (x # y # ys) = (if x < y then 0 else 1) + descents (y # ys)"
| "descents xs = 0"

fun ins :: "'a :: linorder \<Rightarrow> 'a list \<Rightarrow> 'a list" where
  "ins r [] = [r]"
| "ins r [x] = [x, r]"
| "ins r (x # y # ys) = (if (x < r \<or> \<not> x < y) \<and> r < y then x # r # y # ys else x # ins r (y # ys))"

lemma ins_Cons: "\<exists>zs. ins r (y # ys) = y # zs"
  by (cases ys) auto

lemma descents_ascending:
  "descents xs = 0 \<Longrightarrow> r \<notin> set xs \<Longrightarrow> xs \<noteq> [] \<Longrightarrow>
    descents (ins r xs) \<le> 1 \<and> (hd xs < r \<longrightarrow> descents (ins r xs) = 0)"
proof (induction r xs rule: ins.induct)
  case (3 r x y ys)
  obtain zs where zs: "ins r (y # ys) = y # zs" using ins_Cons by blast
  show ?case using 3 zs by (auto split: if_splits)
qed auto

lemma descents_ins: "descents xs \<le> 1 \<Longrightarrow> r \<notin> set xs \<Longrightarrow> xs \<noteq> [] \<Longrightarrow> descents (ins r xs) \<le> 1"
proof (induction r xs rule: ins.induct)
  case (3 r x y ys)
  obtain zs where zs: "ins r (y # ys) = y # zs" using ins_Cons by blast
  show ?case
  proof (cases "x < y")
    case True
    then show ?thesis using 3 zs by (auto split: if_splits)
  next
    case False
    then have "descents (y # ys) = 0" using 3(2) by simp
    then show ?thesis using False descents_ascending [of "y # ys" r] 3(3) zs by (auto split: if_splits)
  qed
qed auto

lemma map_elevator:
  assumes "rq_bh (R req) \<noteq> NULL"
  shows "map (\<lambda>p. key (R p)) (elevator R req xs) = ins (key (R req)) (map (\<lambda>p. key (R p)) xs)"
  using assms by (induction R req xs rule: elevator.induct) (auto simp: before_def IN_ORDER_key)

lemma elevator_page:
  assumes "rq_bh (R req) = NULL"
  shows "elevator R req (x # xs) = x # takeWhile (\<lambda>p. rq_bh (R p) = NULL) xs @ req # dropWhile (\<lambda>p. rq_bh (R p) = NULL) xs"
  using assms by (induction xs arbitrary: x) (auto simp: before_def)

lemma remove1_elevator: "req \<notin> set xs \<Longrightarrow> remove1 req (elevator R req xs) = xs"
  by (induction R req xs rule: elevator.induct) auto

text \<open>
  C10. \<^verbatim>\<open>add_request\<close> puts a request into the queue of a busy device, behind the request in service, without losing or reordering the
  others.  A request for a buffer, whose command, device and sector together differ from those of every queued request, keeps the
  disk moving in one direction: if the queue has at most one place where the next request does not lie after the previous one (reads
  before writes, then by device, then by sector), so has the new queue.  A request without a buffer, for a page or for the swap file, is not
  placed by its sector: it goes behind the request in service and the requests without buffers that follow it directly, before the first
  request for a buffer.
\<close>

theorem add_request_elevator:
  assumes "queue s major xs" "xs \<noteq> []" "req \<noteq> NULL" "req \<notin> set xs" "length xs \<le> 32"
  shows "\<exists>s' ys. add_request fn major req s = Some s' \<and> queue s' major ys \<and>
    hd ys = hd xs \<and> remove1 req ys = xs \<and>
    (rq_bh (requests s req) \<noteq> NULL \<and> key (requests s req) \<notin> (\<lambda>p. key (requests s p)) ` set xs \<and>
       descents (map (\<lambda>p. key (requests s p)) xs) \<le> 1 \<longrightarrow> descents (map (\<lambda>p. key (requests s' p)) ys) \<le> 1) \<and>
    (rq_bh (requests s req) = NULL \<longrightarrow>
       ys = hd xs # takeWhile (\<lambda>p. rq_bh (requests s p) = NULL) (tl xs) @ req # dropWhile (\<lambda>p. rq_bh (requests s p) = NULL) (tl xs))"
proof -
  let ?ys = "elevator (requests s) req xs"
  obtain s' where s': "add_request fn major req s = Some s'" "queue s' major ?ys"
    "\<forall>q. \<exists>n. requests s' q = (requests s q)\<lparr>rq_next := n\<rparr>"
    using add_request_queue [OF assms(1-5)] by blast
  have k: "key (requests s' q) = key (requests s q)" for q using s'(3) [rule_format, of q] by (auto simp: key_def)
  have "descents (map (\<lambda>p. key (requests s' p)) ?ys) \<le> 1"
    if "rq_bh (requests s req) \<noteq> NULL" "key (requests s req) \<notin> (\<lambda>p. key (requests s p)) ` set xs"
      "descents (map (\<lambda>p. key (requests s p)) xs) \<le> 1"
    unfolding k map_elevator [of "requests s" req, OF that(1)] using assms(2) that(2,3) by (intro descents_ins) auto
  moreover have "?ys = hd xs # takeWhile (\<lambda>p. rq_bh (requests s p) = NULL) (tl xs) @ req # dropWhile (\<lambda>p. rq_bh (requests s p) = NULL) (tl xs)"
    if "rq_bh (requests s req) = NULL"
    using elevator_page [of "requests s" req "hd xs" "tl xs", OF that] assms(2) by simp
  ultimately show ?thesis
    using s'(1,2) hd_elevator [OF assms(2)] remove1_elevator [OF assms(4)] by (intro exI [of _ s'] exI [of _ ?ys]) blast
qed

definition empty_request :: request where
  "empty_request = \<lparr>rq_dev = -1, rq_cmd = 0, rq_errors = 0, rq_sector = 0, rq_nr_sectors = 0, rq_buffer = NULL,
     rq_waiting = NULL, rq_bh = NULL, rq_next = NULL\<rparr>"

definition empty_bh :: buffer_head where
  "empty_bh = \<lparr>b_data = NULL, b_blocknr = 0, b_dev = 0, b_uptodate = 0, b_dirt = 0, b_count = 0, b_lock = 0,
     b_prev = NULL, b_next = NULL, b_prev_free = NULL, b_next_free = NULL\<rparr>"

text \<open>A disk with two requests in its queue (sectors 10 and 40) and a third one (sector 20) to add.\<close>

definition busy_disk :: blk_state where
  "busy_disk = \<lparr>bhs = (\<lambda>_. empty_bh),
     requests = (\<lambda>p. if p = 1 then empty_request\<lparr>rq_dev := 0x301, rq_sector := 10, rq_bh := 1, rq_next := 2\<rparr>
                    else if p = 2 then empty_request\<lparr>rq_dev := 0x301, rq_sector := 40, rq_bh := 2\<rparr>
                    else if p = 3 then empty_request\<lparr>rq_dev := 0x301, rq_sector := 20, rq_bh := 3\<rparr>
                    else empty_request),
     current_request = (\<lambda>m. if m = 3 then 1 else NULL), request_fn = (\<lambda>m. m = 3),
     hash_table = (\<lambda>_. NULL), free_list = NULL, nr_buffers = 0, woken = []\<rparr>"

lemma busy_disk_queue: "queue busy_disk 3 [1, 2]"
  by (simp add: queue_def busy_disk_def empty_request_def)

theorem add_request_elevator_witness:
  "\<exists>s' ys. add_request (\<lambda>m s. s) 3 3 busy_disk = Some s' \<and> queue s' 3 ys \<and> remove1 3 ys = [1, 2] \<and> hd ys = 1 \<and>
     descents (map (\<lambda>p. key (requests s' p)) ys) \<le> 1"
proof -
  have "rq_bh (requests busy_disk 3) \<noteq> NULL" "key (requests busy_disk 3) \<notin> (\<lambda>p. key (requests busy_disk p)) ` set [1, 2]"
    "descents (map (\<lambda>p. key (requests busy_disk p)) [1, 2]) \<le> 1"
    by (simp_all add: busy_disk_def empty_request_def key_def less_prod_def)
  then show ?thesis
    using add_request_elevator [OF busy_disk_queue, of 3 "\<lambda>m s. s"] by auto
qed

text \<open>
  C38. \<^verbatim>\<open>end_request\<close> takes the request in service off the queue, frees its slot, unlocks its
  buffer with the result of the transfer and wakes the processes that wait for the buffer, the request
  and a free slot; the rest of the queue follows in order.
\<close>

theorem end_request_pops:
  assumes "queue s major (p # ps)" "rq_bh (requests s p) = bh" "bh \<noteq> NULL"
  shows "let s' = end_request major up s in
    queue s' major ps \<and> rq_dev (requests s' p) = -1 \<and> b_lock (bhs s' bh) = 0 \<and> b_uptodate (bhs s' bh) = up \<and>
    {BufferWait bh, RequestWaiter (rq_waiting (requests s p)), WaitForRequest} \<subseteq> set (woken s')"
proof -
  have p: "current_request s major = p" "p \<notin> set ps" "chain (\<lambda>q. rq_next (requests s q)) (rq_next (requests s p)) ps"
    using assms(1) chain_distinct [of "\<lambda>q. rq_next (requests s q)" "current_request s major" "p # ps"]
    by (auto simp: queue_def)
  let ?s = "end_request major up s"
  have "queue ?s major ps"
    unfolding queue_def using p
    by (subst chain_cong [where g = "\<lambda>q. rq_next (requests s q)"]) (auto simp: end_request_def Let_def unlock_buffer_def)
  then show ?thesis using p(1) assms(2,3) by (simp add: end_request_def Let_def unlock_buffer_def)
qed

theorem end_request_pops_witness:
  "queue (end_request 3 1 busy_disk) 3 [2] \<and> b_uptodate (bhs (end_request 3 1 busy_disk) 1) = 1"
  using end_request_pops [OF busy_disk_queue, of 1 1] by (simp add: busy_disk_def empty_request_def Let_def)

end
