(* ===== verification/Buffer_Cache.thy ===== *)
theory Buffer_Cache
  imports Block_Requests
begin

text \<open>
  The buffer cache, \<^verbatim>\<open>fs/buffer.c\<close>: buffer heads \<open>1..n\<close> on a circular free list in order of last
  use, the ones that hold a block also in a hash chain.  Everything here may sleep: the
  operations take the list of what the rest of the system does during the sleeps and return what is left
  of it.  \<open>fn\<close> is the driver entry and \<open>si\<close> the effect of \<^verbatim>\<open>sync_inodes\<close>.
\<close>

section \<open>Model\<close>

abbreviation (input) NR_HASH :: u32 where "NR_HASH \<equiv> 307"

fun wait_on_buffer :: "away list \<Rightarrow> ptr \<Rightarrow> blk_state \<Rightarrow> (away list \<times> blk_state) outcome" where
  "wait_on_buffer aways bh s =
    (if b_lock (bhs s bh) \<noteq> 0 then
       (case aways of [] \<Rightarrow> Asleep | away # rest \<Rightarrow> wait_on_buffer rest bh (away s))
     else Done (aways, s))"

declare wait_on_buffer.simps [simp del]

fun sync_buffers_loop :: "driver \<Rightarrow> nat \<Rightarrow> away list \<Rightarrow> ptr \<Rightarrow> blk_state \<Rightarrow> (away list \<times> blk_state) outcome" where
  "sync_buffers_loop fn 0 aways bh s = Done (aways, s)"
| "sync_buffers_loop fn (Suc n) aways bh s =
    then_do (wait_on_buffer aways bh s) (\<lambda>(aways, s).
    then_do (if b_dirt (bhs s bh) \<noteq> 0 then ll_rw_block fn aways WRITE bh s else Done (aways, s)) (\<lambda>(aways, s).
      sync_buffers_loop fn n aways (b_next_free (bhs s bh)) s))"

text \<open>\<^verbatim>\<open>sync_buffers\<close> has a device parameter that it does not look at.\<close>

definition sync_buffers :: "driver \<Rightarrow> u16 \<Rightarrow> away list \<Rightarrow> blk_state \<Rightarrow> (away list \<times> blk_state) outcome" where
  "sync_buffers fn dev aways s = sync_buffers_loop fn (nr_buffers s) aways (free_list s) s"

definition sys_sync :: "driver \<Rightarrow> away \<Rightarrow> away list \<Rightarrow> blk_state \<Rightarrow> (away list \<times> blk_state) outcome" where
  "sys_sync fn si aways s = sync_buffers fn 0 aways (si s)"

definition sync_dev :: "driver \<Rightarrow> away \<Rightarrow> u16 \<Rightarrow> away list \<Rightarrow> blk_state \<Rightarrow> (away list \<times> blk_state) outcome" where
  "sync_dev fn si dev aways s =
    then_do (sync_buffers fn dev aways s) (\<lambda>(aways, s). sync_buffers fn dev aways (si s))"

fun invalidate_loop :: "u16 \<Rightarrow> nat list \<Rightarrow> away list \<Rightarrow> blk_state \<Rightarrow> (away list \<times> blk_state) outcome" where
  "invalidate_loop dev [] aways s = Done (aways, s)"
| "invalidate_loop dev (bh # rest) aways s =
    (if b_dev (bhs s bh) \<noteq> dev then invalidate_loop dev rest aways s
     else then_do (wait_on_buffer aways bh s) (\<lambda>(aways, s).
       invalidate_loop dev rest aways
         (if b_dev (bhs s bh) = dev then upd_bh bh (\<lambda>b. b\<lparr>b_uptodate := 0, b_dirt := 0\<rparr>) s else s)))"

definition invalidate_buffers :: "u16 \<Rightarrow> away list \<Rightarrow> blk_state \<Rightarrow> (away list \<times> blk_state) outcome" where
  "invalidate_buffers dev aways s = invalidate_loop dev [1..<nr_buffers s + 1] aways s"

definition hashfn :: "u32 \<Rightarrow> u32 \<Rightarrow> nat" where
  "hashfn dev block = unat ((dev XOR block) mod NR_HASH)"

definition bh_hash :: "ptr \<Rightarrow> blk_state \<Rightarrow> nat" where
  "bh_hash bh s = hashfn (ucast (b_dev (bhs s bh))) (b_blocknr (bhs s bh))"

definition remove_from_hash_queue :: "ptr \<Rightarrow> blk_state \<Rightarrow> blk_state" where
  "remove_from_hash_queue bh s =
    (let s = (if b_next (bhs s bh) \<noteq> NULL
              then upd_bh (b_next (bhs s bh)) (\<lambda>b. b\<lparr>b_prev := b_prev (bhs s bh)\<rparr>) s else s);
         s = (if b_prev (bhs s bh) \<noteq> NULL
              then upd_bh (b_prev (bhs s bh)) (\<lambda>b. b\<lparr>b_next := b_next (bhs s bh)\<rparr>) s else s);
         s = (if hash_table s (bh_hash bh s) = bh
              then s\<lparr>hash_table := (hash_table s)(bh_hash bh s := b_next (bhs s bh))\<rparr> else s)
     in upd_bh bh (\<lambda>b. b\<lparr>b_next := NULL, b_prev := NULL\<rparr>) s)"

text \<open>\<open>None\<close> is the panic for a corrupted free list.\<close>

definition remove_from_free_list :: "ptr \<Rightarrow> blk_state \<Rightarrow> blk_state option" where
  "remove_from_free_list bh s =
    (if b_prev_free (bhs s bh) = NULL \<or> b_next_free (bhs s bh) = NULL then None
     else
       let s = upd_bh (b_prev_free (bhs s bh)) (\<lambda>b. b\<lparr>b_next_free := b_next_free (bhs s bh)\<rparr>) s;
           s = upd_bh (b_next_free (bhs s bh)) (\<lambda>b. b\<lparr>b_prev_free := b_prev_free (bhs s bh)\<rparr>) s;
           s = (if free_list s = bh then s\<lparr>free_list := b_next_free (bhs s bh)\<rparr> else s)
       in Some (upd_bh bh (\<lambda>b. b\<lparr>b_next_free := NULL, b_prev_free := NULL\<rparr>) s))"

definition remove_from_queues :: "ptr \<Rightarrow> blk_state \<Rightarrow> blk_state option" where
  "remove_from_queues bh s = remove_from_free_list bh (remove_from_hash_queue bh s)"

text \<open>The four assignments that link a buffer between the last and the first of the free list.\<close>

definition link_last :: "ptr \<Rightarrow> blk_state \<Rightarrow> blk_state" where
  "link_last bh s =
    (let s = upd_bh bh (\<lambda>b. b\<lparr>b_next_free := free_list s\<rparr>) s;
         s = upd_bh bh (\<lambda>b. b\<lparr>b_prev_free := b_prev_free (bhs s (free_list s))\<rparr>) s;
         s = upd_bh (b_prev_free (bhs s (free_list s))) (\<lambda>b. b\<lparr>b_next_free := bh\<rparr>) s
     in upd_bh (free_list s) (\<lambda>b. b\<lparr>b_prev_free := bh\<rparr>) s)"

definition put_first_free :: "ptr \<Rightarrow> blk_state \<Rightarrow> blk_state option" where
  "put_first_free bh s =
    (if bh = NULL \<or> bh = free_list s then Some s
     else map_option (\<lambda>s. (link_last bh s)\<lparr>free_list := bh\<rparr>) (remove_from_free_list bh s))"

definition put_last_free :: "ptr \<Rightarrow> blk_state \<Rightarrow> blk_state option" where
  "put_last_free bh s =
    (if bh = NULL then Some s
     else if bh = free_list s then Some (s\<lparr>free_list := b_next_free (bhs s bh)\<rparr>)
     else map_option (link_last bh) (remove_from_free_list bh s))"

definition insert_into_queues :: "ptr \<Rightarrow> blk_state \<Rightarrow> blk_state" where
  "insert_into_queues bh s =
    (let s = link_last bh s;
         s = upd_bh bh (\<lambda>b. b\<lparr>b_prev := NULL, b_next := NULL\<rparr>) s
     in if b_dev (bhs s bh) = 0 then s
        else
          let h = bh_hash bh s;
              s = upd_bh bh (\<lambda>b. b\<lparr>b_next := hash_table s h\<rparr>) s;
              s = s\<lparr>hash_table := (hash_table s)(h := bh)\<rparr>
          in if b_next (bhs s bh) \<noteq> NULL then upd_bh (b_next (bhs s bh)) (\<lambda>b. b\<lparr>b_prev := bh\<rparr>) s else s)"

definition holds :: "u32 \<Rightarrow> u32 \<Rightarrow> buffer_head \<Rightarrow> bool" where
  "holds dev block b \<longleftrightarrow> ucast (b_dev b) = dev \<and> b_blocknr b = block"

text \<open>The walk along a hash chain; \<open>None\<close> when it visits more buffers than there are.\<close>

fun find_chain :: "nat \<Rightarrow> ptr \<Rightarrow> u32 \<Rightarrow> u32 \<Rightarrow> blk_state \<Rightarrow> ptr option" where
  "find_chain 0 tmp dev block s = None"
| "find_chain (Suc fuel) tmp dev block s =
    (if tmp = NULL then Some NULL
     else if holds dev block (bhs s tmp) then Some tmp
     else find_chain fuel (b_next (bhs s tmp)) dev block s)"

definition find_buffer :: "u32 \<Rightarrow> u32 \<Rightarrow> blk_state \<Rightarrow> ptr option" where
  "find_buffer dev block s = find_chain (Suc (nr_buffers s)) (hash_table s (hashfn dev block)) dev block s"

fun get_hash_table :: "nat \<Rightarrow> u32 \<Rightarrow> u32 \<Rightarrow> away list \<Rightarrow> blk_state \<Rightarrow> (away list \<times> ptr \<times> blk_state) outcome" where
  "get_hash_table 0 dev block aways s = Asleep"
| "get_hash_table (Suc fuel) dev block aways s =
    (case find_buffer dev block s of
       None \<Rightarrow> Asleep
     | Some bh \<Rightarrow>
         if bh = NULL then Done (aways, NULL, s)
         else then_do (wait_on_buffer aways bh (upd_bh bh (\<lambda>b. b\<lparr>b_count := b_count b + 1\<rparr>) s)) (\<lambda>(aways, s).
           if holds dev block (bhs s bh) then
             (case put_last_free bh s of None \<Rightarrow> Panicked | Some s \<Rightarrow> Done (aways, bh, s))
           else get_hash_table fuel dev block aways (upd_bh bh (\<lambda>b. b\<lparr>b_count := b_count b - 1\<rparr>) s)))"

definition BADNESS :: "buffer_head \<Rightarrow> nat" where
  "BADNESS b = 2 * unat (b_dirt b) + unat (b_lock b)"

fun getblk_scan :: "driver \<Rightarrow> nat \<Rightarrow> away list \<Rightarrow> ptr \<Rightarrow> ptr \<Rightarrow> blk_state \<Rightarrow> (away list \<times> ptr \<times> blk_state) outcome" where
  "getblk_scan fn n aways tmp bh s =
    (let tmp = b_next_free (bhs s tmp) in
     if b_count (bhs s tmp) \<noteq> 0 then
       (case n of 0 \<Rightarrow> Done (aways, bh, s) | Suc m \<Rightarrow> getblk_scan fn m aways tmp bh s)
     else
       let better = (bh = NULL \<or> BADNESS (bhs s tmp) < BADNESS (bhs s bh));
           bh = (if better then tmp else bh)
       in if better \<and> BADNESS (bhs s tmp) = 0 then Done (aways, bh, s)
          else then_do (if b_dirt (bhs s tmp) \<noteq> 0 then ll_rw_block fn aways WRITEA tmp s else Done (aways, s)) (\<lambda>(aways, s).
            case n of 0 \<Rightarrow> Done (aways, bh, s) | Suc m \<Rightarrow> getblk_scan fn m aways tmp bh s))"

declare getblk_scan.simps [simp del]

text \<open>The loop that writes a dirty victim; the flag says whether somebody took the buffer meanwhile.\<close>

fun clean_victim :: "driver \<Rightarrow> away \<Rightarrow> nat \<Rightarrow> away list \<Rightarrow> ptr \<Rightarrow> blk_state \<Rightarrow> (away list \<times> bool \<times> blk_state) outcome" where
  "clean_victim fn si 0 aways bh s = Asleep"
| "clean_victim fn si (Suc fuel) aways bh s =
    (if b_dirt (bhs s bh) = 0 then Done (aways, False, s)
     else then_do (sync_dev fn si (b_dev (bhs s bh)) aways s) (\<lambda>(aways, s).
       then_do (wait_on_buffer aways bh s) (\<lambda>(aways, s).
         if b_count (bhs s bh) \<noteq> 0 then Done (aways, True, s) else clean_victim fn si fuel aways bh s)))"

definition take_victim :: "u32 \<Rightarrow> u32 \<Rightarrow> ptr \<Rightarrow> blk_state \<Rightarrow> blk_state option" where
  "take_victim dev block bh s =
    (let s = upd_bh bh (\<lambda>b. b\<lparr>b_count := 1, b_dirt := 0, b_uptodate := 0\<rparr>) s
     in case remove_from_queues bh s of
          None \<Rightarrow> None
        | Some s \<Rightarrow> Some (insert_into_queues bh (upd_bh bh (\<lambda>b. b\<lparr>b_dev := ucast dev, b_blocknr := block\<rparr>) s)))"

text \<open>
  \<open>again\<close> stands for \<^verbatim>\<open>goto repeat\<close>.  \<^verbatim>\<open>claim_victim\<close> is the part of \<^verbatim>\<open>getblk\<close> from the chosen victim
  on: wait for it, write it if it is dirty, and take it unless the block has been entered by somebody else.
\<close>

type_synonym found = "(away list \<times> ptr \<times> blk_state) outcome"

definition claim_fresh :: "u32 \<Rightarrow> u32 \<Rightarrow> (away list \<Rightarrow> blk_state \<Rightarrow> found) \<Rightarrow> ptr \<Rightarrow> away list \<Rightarrow> blk_state \<Rightarrow> found" where
  "claim_fresh dev block again bh aways s =
    (case find_buffer dev block s of
       None \<Rightarrow> Asleep
     | Some q \<Rightarrow>
         if q \<noteq> NULL then again aways s
         else (case take_victim dev block bh s of None \<Rightarrow> Panicked | Some s \<Rightarrow> Done (aways, bh, s)))"

definition claim_victim ::
  "driver \<Rightarrow> away \<Rightarrow> nat \<Rightarrow> u32 \<Rightarrow> u32 \<Rightarrow> (away list \<Rightarrow> blk_state \<Rightarrow> found) \<Rightarrow> ptr \<Rightarrow> away list \<Rightarrow> blk_state \<Rightarrow> found" where
  "claim_victim fn si fuel dev block again bh aways s =
    then_do (wait_on_buffer aways bh s) (\<lambda>(aways, s).
      if b_count (bhs s bh) \<noteq> 0 then again aways s
      else then_do (clean_victim fn si fuel aways bh s) (\<lambda>(aways, taken, s).
        if taken then again aways s else claim_fresh dev block again bh aways s))"

fun getblk :: "driver \<Rightarrow> away \<Rightarrow> nat \<Rightarrow> u32 \<Rightarrow> u32 \<Rightarrow> away list \<Rightarrow> blk_state \<Rightarrow> found" where
  "getblk fn si 0 dev block aways s = Asleep"
| "getblk fn si (Suc fuel) dev block aways s =
    then_do (get_hash_table (Suc fuel) dev block aways s) (\<lambda>(aways, bh, s).
      if bh \<noteq> NULL then Done (aways, bh, s)
      else then_do (getblk_scan fn (nr_buffers s) aways (free_list s) NULL s) (\<lambda>(aways, bh, s).
        if bh = NULL then
          (case aways of [] \<Rightarrow> Asleep | away # rest \<Rightarrow> getblk fn si fuel dev block rest (away s))
        else claim_victim fn si (Suc fuel) dev block (\<lambda>aways s. getblk fn si fuel dev block aways s) bh aways s))"

definition brelse :: "away list \<Rightarrow> ptr \<Rightarrow> blk_state \<Rightarrow> (away list \<times> blk_state) outcome" where
  "brelse aways bh s =
    (if bh = NULL then Done (aways, s)
     else then_do (wait_on_buffer aways bh s) (\<lambda>(aways, s).
       if b_count (bhs s bh) = 0 then Panicked
       else Done (aways, wake FreeBufferWait (upd_bh bh (\<lambda>b. b\<lparr>b_count := b_count b - 1\<rparr>) s))))"

definition bread :: "driver \<Rightarrow> away \<Rightarrow> nat \<Rightarrow> u32 \<Rightarrow> u32 \<Rightarrow> away list \<Rightarrow> blk_state \<Rightarrow> (away list \<times> ptr \<times> blk_state) outcome" where
  "bread fn si fuel dev block aways s =
    then_do (getblk fn si fuel dev block aways s) (\<lambda>(aways, bh, s).
      if bh = NULL then Panicked
      else if b_uptodate (bhs s bh) \<noteq> 0 then Done (aways, bh, s)
      else then_do (ll_rw_block fn aways READ bh s) (\<lambda>(aways, s).
        then_do (wait_on_buffer aways bh s) (\<lambda>(aways, s).
          if b_uptodate (bhs s bh) \<noteq> 0 then Done (aways, bh, s)
          else then_do (brelse aways bh s) (\<lambda>(aways, s). Done (aways, NULL, s)))))"

text \<open>
  \<^verbatim>\<open>bread_page\<close>: first all reads are started, then each block that arrived is copied to the page;
  the result lists the copies as pairs of a buffer's data and an offset in the page.
\<close>

fun page_start :: "driver \<Rightarrow> away \<Rightarrow> nat \<Rightarrow> u32 \<Rightarrow> u32 list \<Rightarrow> away list \<Rightarrow> blk_state \<Rightarrow> (away list \<times> ptr list \<times> blk_state) outcome" where
  "page_start fn si fuel dev [] aways s = Done (aways, [], s)"
| "page_start fn si fuel dev (b # bs) aways s =
    (if b = 0 then then_do (page_start fn si fuel dev bs aways s) (\<lambda>(aways, hs, s). Done (aways, NULL # hs, s))
     else then_do (getblk fn si fuel dev b aways s) (\<lambda>(aways, bh, s).
       then_do (if bh \<noteq> NULL \<and> b_uptodate (bhs s bh) = 0 then ll_rw_block fn aways READ bh s else Done (aways, s)) (\<lambda>(aways, s).
         then_do (page_start fn si fuel dev bs aways s) (\<lambda>(aways, hs, s). Done (aways, bh # hs, s)))))"

fun page_finish :: "nat \<Rightarrow> ptr list \<Rightarrow> away list \<Rightarrow> blk_state \<Rightarrow> (away list \<times> (ptr \<times> nat) list \<times> blk_state) outcome" where
  "page_finish off [] aways s = Done (aways, [], s)"
| "page_finish off (bh # hs) aways s =
    (if bh = NULL then page_finish (off + 1024) hs aways s
     else then_do (wait_on_buffer aways bh s) (\<lambda>(aways, s).
       let copy = (if b_uptodate (bhs s bh) \<noteq> 0 then [(b_data (bhs s bh), off)] else []) in
       then_do (brelse aways bh s) (\<lambda>(aways, s).
         then_do (page_finish (off + 1024) hs aways s) (\<lambda>(aways, cs, s). Done (aways, copy @ cs, s)))))"

definition bread_page ::
  "driver \<Rightarrow> away \<Rightarrow> nat \<Rightarrow> u32 \<Rightarrow> u32 list \<Rightarrow> away list \<Rightarrow> blk_state \<Rightarrow> (away list \<times> (ptr \<times> nat) list \<times> blk_state) outcome" where
  "bread_page fn si fuel dev b aways s =
    then_do (page_start fn si fuel dev b aways s) (\<lambda>(aways, hs, s). page_finish 0 hs aways s)"

text \<open>\<^verbatim>\<open>breada\<close> reads one block and starts reading the others.\<close>

fun read_ahead :: "driver \<Rightarrow> away \<Rightarrow> nat \<Rightarrow> u32 \<Rightarrow> u32 list \<Rightarrow> away list \<Rightarrow> blk_state \<Rightarrow> (away list \<times> blk_state) outcome" where
  "read_ahead fn si fuel dev [] aways s = Done (aways, s)"
| "read_ahead fn si fuel dev (b # bs) aways s =
    (if b <s 0 then Done (aways, s)
     else then_do (getblk fn si fuel dev b aways s) (\<lambda>(aways, tmp, s).
       if tmp = NULL then read_ahead fn si fuel dev bs aways s
       else then_do (if b_uptodate (bhs s tmp) = 0 then ll_rw_block fn aways READA tmp s else Done (aways, s)) (\<lambda>(aways, s).
         read_ahead fn si fuel dev bs aways (upd_bh tmp (\<lambda>b. b\<lparr>b_count := b_count b - 1\<rparr>) s))))"

definition breada ::
  "driver \<Rightarrow> away \<Rightarrow> nat \<Rightarrow> u32 \<Rightarrow> u32 \<Rightarrow> u32 list \<Rightarrow> away list \<Rightarrow> blk_state \<Rightarrow> (away list \<times> ptr \<times> blk_state) outcome" where
  "breada fn si fuel dev first rest aways s =
    then_do (getblk fn si fuel dev first aways s) (\<lambda>(aways, bh, s).
      if bh = NULL then Panicked
      else then_do (if b_uptodate (bhs s bh) = 0 then ll_rw_block fn aways READ bh s else Done (aways, s)) (\<lambda>(aways, s).
        then_do (read_ahead fn si fuel dev rest aways s) (\<lambda>(aways, s).
          then_do (wait_on_buffer aways bh s) (\<lambda>(aways, s).
            if b_uptodate (bhs s bh) \<noteq> 0 then Done (aways, bh, s)
            else then_do (brelse aways bh s) (\<lambda>(aways, s). Done (aways, NULL, s))))))"

text \<open>
  \<^verbatim>\<open>buffer_init\<close>: how many buffers fit (heads of 36 bytes grow up from \<open>h\<close>, blocks of 1024 bytes down from
  \<open>b\<close>, skipping the hole from 640 K to 1 M), and the free list that is built.
\<close>

function buffer_data :: "nat \<Rightarrow> nat \<Rightarrow> nat list" where
  "buffer_data h b =
    (if b < 1024 \<or> b - 1024 < h + 36 \<or> h + 36 > 0xA0000 then []
     else (b - 1024) # buffer_data (h + 36) (if b - 1024 = 0x100000 then 0xA0000 else b - 1024))"
  by pat_completeness auto
termination by (relation "measure snd") auto

declare buffer_data.simps [simp del]

definition buffer_init :: "nat \<Rightarrow> nat \<Rightarrow> blk_state \<Rightarrow> blk_state" where
  "buffer_init start buffer_end s =
    (let ds = buffer_data start (if buffer_end = 0x100000 then 0xA0000 else buffer_end);
         n = length ds
     in s\<lparr>bhs := (\<lambda>p. if p \<in> {1..n}
              then (bhs s p)\<lparr>b_dev := 0, b_dirt := 0, b_count := 0, b_lock := 0, b_uptodate := 0, b_next := NULL, b_prev := NULL,
                     b_data := ds ! (p - 1), b_prev_free := (if p = 1 then n else p - 1),
                     b_next_free := (if p = n then 1 else p + 1)\<rparr>
              else bhs s p),
          nr_buffers := n, free_list := 1, hash_table := (\<lambda>_. NULL)\<rparr>)"

section \<open>The invariant of the cache\<close>

abbreviation (input) nf :: "blk_state \<Rightarrow> ptr \<Rightarrow> ptr" where "nf s \<equiv> \<lambda>p. b_next_free (bhs s p)"
abbreviation (input) pf :: "blk_state \<Rightarrow> ptr \<Rightarrow> ptr" where "pf s \<equiv> \<lambda>p. b_prev_free (bhs s p)"
abbreviation (input) nh :: "blk_state \<Rightarrow> ptr \<Rightarrow> ptr" where "nh s \<equiv> \<lambda>p. b_next (bhs s p)"
abbreviation (input) ph :: "blk_state \<Rightarrow> ptr \<Rightarrow> ptr" where "ph s \<equiv> \<lambda>p. b_prev (bhs s p)"

definition free_ok :: "blk_state \<Rightarrow> ptr list \<Rightarrow> bool" where
  "free_ok s xs \<longleftrightarrow> ring (nf s) (pf s) xs \<and> free_list s = hd xs"

definition hash_ok :: "blk_state \<Rightarrow> ptr set \<Rightarrow> (nat \<Rightarrow> ptr list) \<Rightarrow> bool" where
  "hash_ok s B ch \<longleftrightarrow>
    (\<forall>h. (\<exists>y. dpath (nh s) (ph s) NULL (hash_table s h) (ch h) y NULL) \<and>
         set (ch h) = {b \<in> B. b_dev (bhs s b) \<noteq> 0 \<and> bh_hash b s = h}) \<and>
    (\<forall>b \<in> B. b_dev (bhs s b) = 0 \<longrightarrow> b_next (bhs s b) = NULL \<and> b_prev (bhs s b) = NULL) \<and>
    (\<forall>a \<in> B. \<forall>b \<in> B. b_dev (bhs s a) \<noteq> 0 \<and> b_dev (bhs s a) = b_dev (bhs s b) \<and>
       b_blocknr (bhs s a) = b_blocknr (bhs s b) \<longrightarrow> a = b)"

definition buffers :: "blk_state \<Rightarrow> ptr set" where
  "buffers s = {1..nr_buffers s}"

definition cache_inv :: "blk_state \<Rightarrow> bool" where
  "cache_inv s \<longleftrightarrow> 2 \<le> nr_buffers s \<and> (\<exists>xs. free_ok s xs \<and> set xs = buffers s) \<and> (\<exists>ch. hash_ok s (buffers s) ch)"

lemma upd_bh_simps [simp]:
  "hash_table (upd_bh p f s) = hash_table s" "free_list (upd_bh p f s) = free_list s"
  "nr_buffers (upd_bh p f s) = nr_buffers s" "request_fn (upd_bh p f s) = request_fn s"
  "hash_table (upd_req p g s) = hash_table s" "free_list (upd_req p g s) = free_list s"
  "nr_buffers (upd_req p g s) = nr_buffers s"
  "hash_table (wake c s) = hash_table s" "free_list (wake c s) = free_list s" "nr_buffers (wake c s) = nr_buffers s"
  by (simp_all add: upd_bh_def upd_req_def wake_def)

text \<open>What the free list and what the hash chains depend on.\<close>

definition same_free :: "blk_state \<Rightarrow> blk_state \<Rightarrow> bool" where
  "same_free s s' \<longleftrightarrow> free_list s' = free_list s \<and> nr_buffers s' = nr_buffers s \<and>
    (\<forall>p. b_next_free (bhs s' p) = b_next_free (bhs s p) \<and> b_prev_free (bhs s' p) = b_prev_free (bhs s p))"

definition same_hash :: "blk_state \<Rightarrow> blk_state \<Rightarrow> bool" where
  "same_hash s s' \<longleftrightarrow> hash_table s' = hash_table s \<and> nr_buffers s' = nr_buffers s \<and>
    (\<forall>p. b_next (bhs s' p) = b_next (bhs s p) \<and> b_prev (bhs s' p) = b_prev (bhs s p) \<and>
         b_dev (bhs s' p) = b_dev (bhs s p) \<and> b_blocknr (bhs s' p) = b_blocknr (bhs s p))"

lemma same_free_ok: "same_free s s' \<Longrightarrow> free_ok s' xs = free_ok s xs"
  using ring_cong [of xs "nf s'" "nf s" "pf s'" "pf s"] by (simp add: same_free_def free_ok_def)

lemma same_hash_ok: "same_hash s s' \<Longrightarrow> hash_ok s' B ch = hash_ok s B ch"
  by (simp add: same_hash_def hash_ok_def bh_hash_def)

lemma same_refl [simp]: "same_free s s" "same_hash s s"
  by (simp_all add: same_free_def same_hash_def)

lemma same_trans:
  "same_free s t \<Longrightarrow> same_free t u \<Longrightarrow> same_free s u" "same_hash s t \<Longrightarrow> same_hash t u \<Longrightarrow> same_hash s u"
  by (simp_all add: same_free_def same_hash_def)

lemma cache_inv_same: "same_free s s' \<Longrightarrow> same_hash s s' \<Longrightarrow> cache_inv s' = cache_inv s"
  using same_free_ok same_hash_ok by (simp add: cache_inv_def buffers_def) (simp add: same_free_def)

subsection \<open>Lookup\<close>

lemma find_chain_spec:
  assumes "path (nh s) p cs NULL" "length cs < fuel"
  shows "find_chain fuel p dev block s =
    Some (case find (\<lambda>b. holds dev block (bhs s b)) cs of None \<Rightarrow> NULL | Some b \<Rightarrow> b)"
  using assms
proof (induction cs arbitrary: p fuel)
  case Nil
  then obtain f where "fuel = Suc f" by (cases fuel) auto
  with Nil show ?case by simp
next
  case (Cons c cs)
  obtain f where "fuel = Suc f" "length cs < f" using Cons.prems(2) by (cases fuel) auto
  then show ?case using Cons by auto
qed

lemma hash_ok_chain:
  assumes "hash_ok s B ch"
  shows "path (nh s) (hash_table s h) (ch h) NULL" "distinct (ch h)" "set (ch h) \<subseteq> B"
proof -
  obtain y where "dpath (nh s) (ph s) NULL (hash_table s h) (ch h) y NULL" using assms unfolding hash_ok_def by metis
  then show p: "path (nh s) (hash_table s h) (ch h) NULL" by (rule dpath_path)
  then show "distinct (ch h)" using chain_distinct by (simp add: chain_def)
  show "set (ch h) \<subseteq> B" using assms by (auto simp: hash_ok_def)
qed

lemma holds_dev: "holds (ucast d) block b \<longleftrightarrow> b_dev b = d \<and> b_blocknr b = block" for d :: u16
proof -
  have "uint (ucast x :: u32) = uint x" for x :: u16
  proof -
    have "uint x < 2 ^ LENGTH(16)" by (rule unsigned_less)
    then show ?thesis by (simp add: unsigned_ucast_eq unsigned_take_bit_eq take_bit_int_eq_self)
  qed
  then have "(ucast x :: u32) = ucast y \<longleftrightarrow> x = y" for x y :: u16
    by (metis word_uint_eq_iff)
  then show ?thesis by (simp add: holds_def)
qed

lemma find_buffer_spec:
  assumes "cache_inv s" "d \<noteq> (0 :: u16)"
  shows "\<exists>p. find_buffer (ucast d) block s = Some p \<and>
    (if p = NULL then \<forall>b \<in> buffers s. \<not> (b_dev (bhs s b) = d \<and> b_blocknr (bhs s b) = block)
     else p \<in> buffers s \<and> b_dev (bhs s p) = d \<and> b_blocknr (bhs s p) = block)"
proof -
  obtain ch where ch: "hash_ok s (buffers s) ch" using assms(1) by (auto simp: cache_inv_def)
  let ?h = "hashfn (ucast d) block"
  note c = hash_ok_chain [OF ch, of ?h]
  have "length (ch ?h) \<le> nr_buffers s"
    using card_mono [OF _ c(3)] distinct_card [OF c(2)] by (simp add: buffers_def)
  then have f: "find_buffer (ucast d) block s =
      Some (case find (\<lambda>b. holds (ucast d) block (bhs s b)) (ch ?h) of None \<Rightarrow> NULL | Some b \<Rightarrow> b)"
    unfolding find_buffer_def by (intro find_chain_spec [OF c(1)]) simp
  have m: "b \<in> set (ch ?h)" if "b \<in> buffers s" "b_dev (bhs s b) = d" "b_blocknr (bhs s b) = block" for b
    using ch that assms(2) by (simp add: hash_ok_def bh_hash_def)
  show ?thesis
  proof (cases "find (\<lambda>b. holds (ucast d) block (bhs s b)) (ch ?h)")
    case None
    then have "\<not> (b_dev (bhs s b) = d \<and> b_blocknr (bhs s b) = block)" if "b \<in> buffers s" for b
      using m that by (auto simp: find_None_iff holds_dev)
    then show ?thesis using f None by simp
  next
    case (Some b)
    then have "b \<in> set (ch ?h)" "holds (ucast d) block (bhs s b)" using find_SomeD by fast+
    moreover from this have "b \<in> buffers s" using c(3) by auto
    ultimately show ?thesis using f Some by (auto simp: holds_dev buffers_def)
  qed
qed

subsection \<open>The free list\<close>

lemma free_ok_split:
  assumes "free_ok s (us @ bh # vs)" "us @ vs \<noteq> []"
  shows "pf s bh \<noteq> NULL" "nf s bh \<noteq> NULL" "pf s bh \<noteq> bh" "nf s bh \<noteq> bh" "bh \<notin> set (us @ vs)"
    "nf s bh = hd (vs @ us)" "free_list s = hd (us @ bh # vs)"
proof -
  have r: "ring (nf s) (pf s) (us @ bh # vs)" using assms by (simp add: free_ok_def)
  then have r': "ring (nf s) (pf s) (bh # vs @ us)" using ring_rotate [of "nf s" "pf s" us "bh # vs"] by (cases us) auto
  have d: "dpath (nf s) (pf s) bh (nf s bh) (vs @ us) (last (vs @ us)) bh" "pf s bh = last (vs @ us)"
    using r' assms(2) by (auto simp: ring_def)
  show b: "bh \<notin> set (us @ vs)" using r by (auto simp: ring_def)
  show n: "nf s bh = hd (vs @ us)" using dpath_hd [OF d(1)] assms(2) by auto
  have nn: "NULL \<notin> set (vs @ us)" using dpath_path [OF d(1)] path_nonnull by blast
  have "hd (vs @ us) \<in> set (vs @ us)" "last (vs @ us) \<in> set (vs @ us)" using assms(2) by (intro hd_in_set last_in_set; auto)+
  moreover have "bh \<notin> set (vs @ us)" using b by auto
  ultimately show "pf s bh \<noteq> NULL" "nf s bh \<noteq> NULL" "pf s bh \<noteq> bh" "nf s bh \<noteq> bh" using n d(2) nn by metis+
  show "free_list s = hd (us @ bh # vs)" using assms(1) by (simp add: free_ok_def)
qed

lemma remove_from_free_list_ok:
  assumes "free_ok s (us @ bh # vs)" "us @ vs \<noteq> []"
  shows "\<exists>s'. remove_from_free_list bh s = Some s' \<and> free_ok s' (us @ vs) \<and> same_hash s s' \<and>
    (\<forall>p. b_count (bhs s' p) = b_count (bhs s p))"
proof -
  note f = free_ok_split [OF assms]
  define s' where "s' = (the (remove_from_free_list bh s))"
  have e: "remove_from_free_list bh s = Some s'" using f(1,2) by (simp add: remove_from_free_list_def s'_def Let_def)
  have nf': "nf s' p = (if p = bh then NULL else if p = pf s bh then nf s bh else nf s p)" for p
    using f(1-4) unfolding s'_def remove_from_free_list_def Let_def by simp
  have pf': "pf s' p = (if p = bh then NULL else if p = nf s bh then pf s bh else pf s p)" for p
    using f(1-4) unfolding s'_def remove_from_free_list_def Let_def by simp
  have fl: "free_list s' = (if free_list s = bh then nf s bh else free_list s)"
    using f(1-4) unfolding s'_def remove_from_free_list_def Let_def by simp
  have "ring (nf s') (pf s') (us @ vs)"
  proof (rule ring_remove [where nx = "nf s" and pv = "pf s" and b = bh])
    show "ring (nf s) (pf s) (us @ bh # vs)" using assms(1) by (simp add: free_ok_def)
  qed (use assms(2) f nf' pf' in auto)
  moreover have "free_list s' = hd (us @ vs)" using f(5-7) fl by (cases us) auto
  moreover have "same_hash s s'" "\<forall>p. b_count (bhs s' p) = b_count (bhs s p)"
    using f(1,2) unfolding s'_def remove_from_free_list_def Let_def by (simp_all add: same_hash_def)
  ultimately show ?thesis using e by (simp add: free_ok_def)
qed

lemma link_last_ok:
  assumes "free_ok s xs" "bh \<notin> set xs" "bh \<noteq> NULL"
  shows "free_ok (link_last bh s) (xs @ [bh])" "same_hash s (link_last bh s)"
    "b_count (bhs (link_last bh s) p) = b_count (bhs s p)"
proof -
  have r: "ring (nf s) (pf s) xs" "free_list s = hd xs" "xs \<noteq> []" using assms(1) by (auto simp: free_ok_def ring_def)
  then have l: "pf s (hd xs) = last xs" by (cases xs) (auto simp: ring_def)
  have m: "hd xs \<in> set xs" "last xs \<in> set xs" using r(3) by auto
  then have n: "hd xs \<noteq> bh" "last xs \<noteq> bh" using assms(2) by metis+
  let ?s = "link_last bh s"
  have nf': "nf ?s p = (if p = last xs then bh else if p = bh then hd xs else nf s p)" for p
    using n l r(2) by (simp add: link_last_def Let_def)
  have pf': "pf ?s p = (if p = hd xs then bh else if p = bh then last xs else pf s p)" for p
    using n l r(2) by (simp add: link_last_def Let_def)
  have "ring (nf ?s) (pf ?s) (xs @ [bh])"
    by (rule ring_insert_last [OF r(1) assms(2,3)]) (use n nf' pf' in auto)
  then show "free_ok ?s (xs @ [bh])" using r(2,3) by (simp add: free_ok_def link_last_def Let_def)
  show "same_hash s ?s" "b_count (bhs ?s p) = b_count (bhs s p)"
    by (simp_all add: link_last_def Let_def same_hash_def)
qed

lemma put_last_free_ok:
  assumes "cache_inv s" "bh \<in> buffers s"
  shows "\<exists>s'. put_last_free bh s = Some s' \<and> cache_inv s' \<and> same_hash s s' \<and>
    (\<forall>p. b_count (bhs s' p) = b_count (bhs s p))"
proof -
  obtain xs ch where x: "free_ok s xs" "set xs = buffers s" "hash_ok s (buffers s) ch" "2 \<le> nr_buffers s"
    using assms(1) by (auto simp: cache_inv_def)
  obtain us vs where xs: "xs = us @ bh # vs" using x(2) assms(2) by (metis split_list)
  have "distinct xs" using x(1) by (simp add: free_ok_def ring_def)
  then have "length xs = nr_buffers s" using x(2) distinct_card [of xs] by (simp add: buffers_def)
  then have ne: "us @ vs \<noteq> []" using xs x(4) by auto
  have bn: "bh \<noteq> NULL" using assms(2) by (simp add: buffers_def)
  note f = free_ok_split [OF x(1) [unfolded xs] ne]
  show ?thesis
  proof (cases "bh = free_list s")
    case True
    then have us: "us = []" using f(5,7) by (cases us) auto
    define s' where "s' = s\<lparr>free_list := nf s bh\<rparr>"
    have "ring (nf s) (pf s) (vs @ [bh])" using x(1) ring_rotate [of "nf s" "pf s" "[bh]" vs] ne us xs by (simp add: free_ok_def)
    then have "free_ok s' (vs @ [bh])" using f(6) us ne by (simp add: free_ok_def s'_def)
    moreover have "set (vs @ [bh]) = buffers s'" using x(2) xs us by (auto simp: buffers_def s'_def)
    moreover have "same_hash s s'" by (simp add: same_hash_def s'_def)
    ultimately show ?thesis
      using True bn x(3,4) same_hash_ok [of s s' "buffers s" ch]
      by (intro exI [of _ s']) (auto simp: put_last_free_def s'_def cache_inv_def buffers_def)
  next
    case False
    obtain t where t: "remove_from_free_list bh s = Some t" "free_ok t (us @ vs)" "same_hash s t"
      "\<forall>p. b_count (bhs t p) = b_count (bhs s p)"
      using remove_from_free_list_ok [OF x(1) [unfolded xs] ne] by blast
    note l = link_last_ok [OF t(2) f(5) bn]
    have sh: "same_hash s (link_last bh t)" using t(3) l(2) same_trans(2) by blast
    have nr: "nr_buffers (link_last bh t) = nr_buffers s" using sh by (simp add: same_hash_def)
    have "set ((us @ vs) @ [bh]) = buffers (link_last bh t)" using x(2) xs nr by (auto simp: buffers_def)
    then have "cache_inv (link_last bh t)"
      unfolding cache_inv_def using l(1) x(3,4) same_hash_ok [OF sh, of "buffers s" ch] nr by (auto simp: buffers_def)
    then show ?thesis using t(1,4) l(3) sh False bn by (auto simp: put_last_free_def)
  qed
qed

subsection \<open>The hash chains\<close>

lemma bh_hash_same: "b_dev (bhs s' p) = b_dev (bhs s p) \<Longrightarrow> b_blocknr (bhs s' p) = b_blocknr (bhs s p) \<Longrightarrow>
    bh_hash p s' = bh_hash p s"
  by (simp add: bh_hash_def)

lemma remove_from_hash_queue_ok:
  assumes ok: "hash_ok s B ch" and bh: "bh \<in> B" and nB: "NULL \<notin> B"
  defines "s' \<equiv> remove_from_hash_queue bh s"
  shows "\<exists>ch'. hash_ok s' (B - {bh}) ch'" "same_free s s'"
    "b_dev (bhs s' p) = b_dev (bhs s p)" "b_blocknr (bhs s' p) = b_blocknr (bhs s p)" "b_count (bhs s' p) = b_count (bhs s p)"
proof -
  let ?h = "bh_hash bh s"
  have b0: "bh \<noteq> NULL" using bh nB by metis
  have ex: "\<exists>y. dpath (nh s) (ph s) NULL (hash_table s h) (ch h) y NULL" for h using ok unfolding hash_ok_def by metis
  have mem: "x \<in> set (ch h) \<longleftrightarrow> x \<in> B \<and> b_dev (bhs s x) \<noteq> 0 \<and> bh_hash x s = h" for x h using ok unfolding hash_ok_def by auto
  have free0: "nh s x = NULL \<and> ph s x = NULL" if "x \<in> B" "b_dev (bhs s x) = 0" for x using ok that unfolding hash_ok_def by metis
  have uniq: "a = b" if "a \<in> B" "b \<in> B" "b_dev (bhs s a) \<noteq> 0" "b_dev (bhs s a) = b_dev (bhs s b)" "b_blocknr (bhs s a) = b_blocknr (bhs s b)" for a b
    using ok that unfolding hash_ok_def by blast
  have dd: "distinct (ch h)" "NULL \<notin> set (ch h)" for h using hash_ok_chain [OF ok, of h] nB by auto
  have split: "\<exists>us vs. ch ?h = us @ bh # vs" if "b_dev (bhs s bh) \<noteq> 0" using mem [of bh ?h] bh that by (metis split_list)
  have nb: "(nh s bh = NULL \<or> nh s bh \<in> set (ch ?h)) \<and> (ph s bh = NULL \<or> ph s bh \<in> set (ch ?h)) \<and> nh s bh \<noteq> bh \<and> ph s bh \<noteq> bh"
  proof (cases "b_dev (bhs s bh) = 0")
    case True
    then show ?thesis using free0 [OF bh] b0 by auto
  next
    case False
    obtain us vs y where u: "ch ?h = us @ bh # vs" "dpath (nh s) (ph s) NULL (hash_table s ?h) (us @ bh # vs) y NULL"
      using split [OF False] ex [of ?h] by auto
    note n = dpath_neighbours [OF u(2)]
    have "nh s bh = NULL \<or> nh s bh \<in> set vs" using n(2) hd_in_set by (cases "vs = []") auto
    moreover have "ph s bh = NULL \<or> ph s bh \<in> set us" using n(1) last_in_set by (cases "us = []") auto
    ultimately show ?thesis using u(1) dd(1) [of ?h] b0 by auto
  qed
  have nh': "nh s' x = (if x = bh then NULL else if x = ph s bh \<and> x \<noteq> NULL then nh s bh else nh s x)"
    and ph': "ph s' x = (if x = bh then NULL else if x = nh s bh \<and> x \<noteq> NULL then ph s bh else ph s x)" for x
    using nb b0 unfolding s'_def remove_from_hash_queue_def Let_def by auto
  have same: "b_dev (bhs s' x) = b_dev (bhs s x)" "b_blocknr (bhs s' x) = b_blocknr (bhs s x)"
    "b_count (bhs s' x) = b_count (bhs s x)" for x
    unfolding s'_def remove_from_hash_queue_def Let_def by auto
  then show "b_dev (bhs s' p) = b_dev (bhs s p)" "b_blocknr (bhs s' p) = b_blocknr (bhs s p)" "b_count (bhs s' p) = b_count (bhs s p)" .
  show "same_free s s'" unfolding s'_def remove_from_hash_queue_def Let_def same_free_def by auto
  have hs: "bh_hash x s' = bh_hash x s" for x using same by (intro bh_hash_same)
  have ht: "hash_table s' h = (if hash_table s h = bh \<and> h = ?h then nh s bh else hash_table s h)" for h
    using nb b0 unfolding s'_def remove_from_hash_queue_def Let_def by (auto simp: bh_hash_def)
  define ch' where "ch' = (\<lambda>h. filter (\<lambda>x. x \<noteq> bh) (ch h))"
  have c: "\<exists>y. dpath (nh s') (ph s') NULL (hash_table s' h) (ch' h) y NULL" for h
  proof (cases "bh \<in> set (ch h)")
    case True
    then have h: "h = ?h" and dv: "b_dev (bhs s bh) \<noteq> 0" using mem by auto
    obtain us vs y where u: "ch h = us @ bh # vs" "dpath (nh s) (ph s) NULL (hash_table s h) (us @ bh # vs) y NULL"
      using split [OF dv] ex [of h] h by auto
    have "filter (\<lambda>x. x \<noteq> bh) us = us" "filter (\<lambda>x. x \<noteq> bh) vs = vs" using u(1) dd(1) [of h] by (auto simp: filter_id_conv)
    then have c': "ch' h = us @ vs" using u(1) by (simp add: ch'_def)
    have "NULL \<notin> set (us @ vs)" using u(1) dd(2) [of h] by auto
    then have nn: "x \<in> set (us @ vs) \<Longrightarrow> x \<noteq> NULL" for x by metis
    have "\<exists>y'. dpath (\<lambda>x. if x = NULL \<and> ph s bh = NULL then nh s bh else nh s' x)
        (\<lambda>x. if x = NULL \<and> nh s bh = NULL then ph s bh else ph s' x) NULL (if hash_table s h = bh then nh s bh else hash_table s h) (us @ vs) y' NULL"
      by (rule dpath_remove [OF u(2)]) (use nh' ph' nb in \<open>auto split: if_splits\<close>)
    moreover have "dpath (\<lambda>x. if x = NULL \<and> ph s bh = NULL then nh s bh else nh s' x)
        (\<lambda>x. if x = NULL \<and> nh s bh = NULL then ph s bh else ph s' x) a q (us @ vs) y' z =
        dpath (nh s') (ph s') a q (us @ vs) y' z" for a q y' z
      by (rule dpath_cong) (use nn in auto)
    ultimately show ?thesis using ht [of h] h c' by (auto split: if_splits)
  next
    case False
    have "x \<noteq> bh \<and> x \<noteq> NULL \<and> x \<noteq> ph s bh \<and> x \<noteq> nh s bh" if x: "x \<in> set (ch h)" for x
    proof -
      have "x \<noteq> NULL" "x \<noteq> bh" using x False dd(2) [of h] by metis+
      moreover have "x \<notin> set (ch ?h) \<or> b_dev (bhs s bh) = 0"
        using x False mem [of x h] mem [of x ?h] mem [of bh h] bh by auto
      ultimately show ?thesis using nb free0 [OF bh] by auto
    qed
    then have "dpath (nh s') (ph s') a q (ch h) y z = dpath (nh s) (ph s) a q (ch h) y z" for a q y z
      by (intro dpath_cong) (use nh' ph' in auto)
    moreover have "ch' h = ch h" using False by (auto simp: ch'_def intro!: filter_True)
    moreover have "hash_table s h \<noteq> bh"
    proof
      assume e: "hash_table s h = bh"
      obtain y where "dpath (nh s) (ph s) NULL bh (ch h) y NULL" using ex [of h] e by auto
      then have "bh = (if ch h = [] then NULL else hd (ch h))" by (rule dpath_hd)
      then show False using b0 False hd_in_set by (cases "ch h = []") auto
    qed
    ultimately show ?thesis using ex [of h] ht [of h] by auto
  qed
  have st: "set (ch' h) = {b \<in> B - {bh}. b_dev (bhs s' b) \<noteq> 0 \<and> bh_hash b s' = h}" for h
    using mem [of _ h] by (auto simp: ch'_def hs same(1))
  have f0: "nh s' b = NULL \<and> ph s' b = NULL" if b: "b \<in> B - {bh}" "b_dev (bhs s' b) = 0" for b
  proof -
    have "b \<notin> set (ch ?h)" using b mem [of b ?h] same(1) [of b] by auto
    moreover have "b \<noteq> NULL" using b nB by (metis DiffD1)
    ultimately show ?thesis using nh' [of b] ph' [of b] free0 [of b] b nb same(1) [of b] by auto
  qed
  have "hash_ok s' (B - {bh}) ch'"
    unfolding hash_ok_def using c st f0 uniq unfolding same by (auto simp: same)
  then show "\<exists>ch'. hash_ok s' (B - {bh}) ch'" by blast
qed

lemma hash_ok_cong:
  assumes "hash_ok s B ch" "hash_table s' = hash_table s"
    and "\<And>p. p \<in> B \<Longrightarrow> nh s' p = nh s p \<and> ph s' p = ph s p \<and> b_dev (bhs s' p) = b_dev (bhs s p) \<and> b_blocknr (bhs s' p) = b_blocknr (bhs s p)"
  shows "hash_ok s' B ch"
proof -
  have hs: "bh_hash p s' = bh_hash p s" if "p \<in> B" for p using assms(3) that by (intro bh_hash_same) auto
  have "dpath (nh s') (ph s') a p (ch h) y q = dpath (nh s) (ph s) a p (ch h) y q" for a p h y q
    by (rule dpath_cong) (use assms(3) hash_ok_chain(3) [OF assms(1)] in blast)
  moreover have "{b \<in> B. b_dev (bhs s' b) \<noteq> 0 \<and> bh_hash b s' = h} = {b \<in> B. b_dev (bhs s b) \<noteq> 0 \<and> bh_hash b s = h}" for h
    using assms(3) hs by auto
  ultimately show ?thesis using assms unfolding hash_ok_def by simp blast
qed

text \<open>A buffer that is in no chain: entered under its device and block, or left alone without a device.\<close>

lemma hash_ok_unhashed:
  assumes "hash_ok s B ch" "b_dev (bhs s bh) = 0" "nh s bh = NULL" "ph s bh = NULL"
  shows "hash_ok s (insert bh B) ch"
proof -
  have "{b \<in> insert bh B. b_dev (bhs s b) \<noteq> 0 \<and> bh_hash b s = h} = {b \<in> B. b_dev (bhs s b) \<noteq> 0 \<and> bh_hash b s = h}" for h
    using assms(2) by auto
  then show ?thesis using assms unfolding hash_ok_def by auto
qed

lemma hash_ok_push:
  assumes ok: "hash_ok s B ch" and b: "bh \<notin> B" "bh \<noteq> NULL" "NULL \<notin> B" and dev: "b_dev (bhs s bh) \<noteq> 0"
    and new: "\<And>b. b \<in> B \<Longrightarrow> \<not> (b_dev (bhs s b) = b_dev (bhs s bh) \<and> b_blocknr (bhs s b) = b_blocknr (bhs s bh))"
    and ht: "hash_table s' = (hash_table s)(bh_hash bh s := bh)"
    and nh': "\<And>p. nh s' p = (if p = bh then hash_table s (bh_hash bh s) else nh s p)"
    and ph': "\<And>p. p \<noteq> NULL \<Longrightarrow> ph s' p = (if p = bh then NULL else if p = hash_table s (bh_hash bh s) then bh else ph s p)"
    and same: "\<And>p. b_dev (bhs s' p) = b_dev (bhs s p) \<and> b_blocknr (bhs s' p) = b_blocknr (bhs s p)"
  shows "hash_ok s' (insert bh B) (ch(bh_hash bh s := bh # ch (bh_hash bh s)))"
proof -
  let ?h = "bh_hash bh s" and ?ch = "ch(bh_hash bh s := bh # ch (bh_hash bh s))"
  have hs: "bh_hash x s' = bh_hash x s" for x using same by (intro bh_hash_same) auto
  have ex: "\<exists>y. dpath (nh s) (ph s) NULL (hash_table s h) (ch h) y NULL" for h using ok unfolding hash_ok_def by metis
  have mem: "x \<in> set (ch h) \<longleftrightarrow> x \<in> B \<and> b_dev (bhs s x) \<noteq> 0 \<and> bh_hash x s = h" for x h using ok unfolding hash_ok_def by auto
  have nn: "x \<noteq> NULL \<and> x \<noteq> bh" if "x \<in> B" for x using that b by metis
  have hd: "hash_table s h = (if ch h = [] then NULL else hd (ch h))" for h using ex [of h] dpath_hd by blast
  have head: "x = hash_table s ?h \<Longrightarrow> x \<in> B \<Longrightarrow> x \<in> set (ch ?h)" for x
    using hd [of ?h] hd_in_set [of "ch ?h"] b(3) by metis
  have c: "\<exists>y. dpath (nh s') (ph s') NULL (hash_table s' h) (?ch h) y NULL" for h
  proof (cases "h = ?h")
    case True
    obtain y where "dpath (nh s) (ph s) NULL (hash_table s ?h) (ch ?h) y NULL" using ex by blast
    then have "\<exists>y'. dpath (nh s') (ph s') NULL bh (bh # ch ?h) y' NULL"
      by (rule dpath_push) (use mem b nh' ph' in auto)
    then show ?thesis unfolding ht True by (metis fun_upd_same)
  next
    case False
    have "dpath (nh s') (ph s') a q (ch h) y z = dpath (nh s) (ph s) a q (ch h) y z" for a q y z
    proof (rule dpath_cong)
      fix x assume "x \<in> set (ch h)"
      then have x: "x \<in> B" "x \<notin> set (ch ?h)" using mem [of x h] mem [of x ?h] False by simp_all
      then have "x \<noteq> hash_table s ?h" using head [of x] by blast
      then show "nh s' x = nh s x \<and> ph s' x = ph s x" using x(1) nh' ph' nn by simp
    qed
    then show ?thesis using ex [of h] ht False by simp
  qed
  have st: "set (?ch h) = {b \<in> insert bh B. b_dev (bhs s' b) \<noteq> 0 \<and> bh_hash b s' = h}" for h
    using mem [of _ h] dev same hs by auto
  have f0: "nh s' x = NULL \<and> ph s' x = NULL" if x: "x \<in> insert bh B" "b_dev (bhs s' x) = 0" for x
  proof -
    have "x \<in> B" "b_dev (bhs s x) = 0" using x dev same by auto
    moreover from this have "nh s x = NULL" "ph s x = NULL" using ok unfolding hash_ok_def by metis+
    moreover have "x \<noteq> hash_table s ?h" using calculation(1,2) head [of x] mem [of x ?h] by metis
    ultimately show ?thesis using nh' ph' nn by simp
  qed
  have u: "a = c" if "a \<in> insert bh B" "c \<in> insert bh B" "b_dev (bhs s' a) \<noteq> 0" "b_dev (bhs s' a) = b_dev (bhs s' c)"
      "b_blocknr (bhs s' a) = b_blocknr (bhs s' c)" for a c
  proof (cases "a \<in> B \<and> c \<in> B")
    case True
    then show ?thesis using that same ok unfolding hash_ok_def by metis
  next
    case False
    then have "(a = bh \<or> c = bh) \<and> (a \<in> B \<or> a = bh) \<and> (c \<in> B \<or> c = bh)" using that(1,2) by blast
    moreover have "b_dev (bhs s a) = b_dev (bhs s c)" "b_blocknr (bhs s a) = b_blocknr (bhs s c)" using that(4,5) same by simp_all
    ultimately show ?thesis using new [of a] new [of c] by metis
  qed
  show ?thesis unfolding hash_ok_def
    by (intro conjI allI ballI impI; (rule c st | simp only: f0 | (elim conjE; rule u; assumption)))
qed

lemma insert_into_queues_ok:
  assumes f: "free_ok s xs" "bh \<notin> set xs" "bh \<noteq> NULL" and h: "hash_ok s B ch" "bh \<notin> B" "NULL \<notin> B"
    and new: "\<And>b. b \<in> B \<Longrightarrow> b_dev (bhs s bh) \<noteq> 0 \<Longrightarrow>
      \<not> (b_dev (bhs s b) = b_dev (bhs s bh) \<and> b_blocknr (bhs s b) = b_blocknr (bhs s bh))"
  defines "s' \<equiv> insert_into_queues bh s"
  shows "free_ok s' (xs @ [bh]) \<and> (\<exists>ch'. hash_ok s' (insert bh B) ch')"
    "nr_buffers s' = nr_buffers s" "b_dev (bhs s' p) = b_dev (bhs s p)" "b_blocknr (bhs s' p) = b_blocknr (bhs s p)"
    "b_count (bhs s' p) = b_count (bhs s p)"
proof -
  note l = link_last_ok [OF f]
  define t where "t = upd_bh bh (\<lambda>b. b\<lparr>b_prev := NULL, b_next := NULL\<rparr>) (link_last bh s)"
  have tf: "same_free (link_last bh s) t" unfolding t_def by (simp add: same_free_def)
  have th: "hash_ok t B ch"
    by (rule hash_ok_cong [OF h(1)]) (use l(2) h(2) in \<open>auto simp: t_def same_hash_def\<close>)
  have td: "b_dev (bhs t p) = b_dev (bhs s p)" "b_blocknr (bhs t p) = b_blocknr (bhs s p)" "b_count (bhs t p) = b_count (bhs s p)"
    "nr_buffers t = nr_buffers s" for p using l(2,3) by (auto simp: t_def same_hash_def)
  have tn: "nh t bh = NULL" "ph t bh = NULL" by (simp_all add: t_def)
  have free: "free_ok t (xs @ [bh])" using l(1) same_free_ok [OF tf] by simp
  let ?h = "bh_hash bh t"
  have e: "s' = (if b_dev (bhs t bh) = 0 then t
      else let u = (upd_bh bh (\<lambda>b. b\<lparr>b_next := hash_table t ?h\<rparr>) t)\<lparr>hash_table := (hash_table t)(?h := bh)\<rparr>
           in if hash_table t ?h \<noteq> NULL then upd_bh (hash_table t ?h) (\<lambda>b. b\<lparr>b_prev := bh\<rparr>) u else u)"
    unfolding s'_def insert_into_queues_def Let_def t_def [symmetric] by (simp add: upd_bh_def)
  have k: "nr_buffers s' = nr_buffers t \<and> b_dev (bhs s' p) = b_dev (bhs t p) \<and> b_blocknr (bhs s' p) = b_blocknr (bhs t p) \<and>
      b_count (bhs s' p) = b_count (bhs t p)" for p
    unfolding e by (auto simp: Let_def upd_bh_def)
  then show "nr_buffers s' = nr_buffers s" "b_dev (bhs s' p) = b_dev (bhs s p)" "b_blocknr (bhs s' p) = b_blocknr (bhs s p)"
    "b_count (bhs s' p) = b_count (bhs s p)" using td by auto
  have "same_free t s'" unfolding e by (auto simp: Let_def upd_bh_def same_free_def)
  then have fs: "free_ok s' (xs @ [bh])" using free same_free_ok by simp
  show "free_ok s' (xs @ [bh]) \<and> (\<exists>ch'. hash_ok s' (insert bh B) ch')"
  proof (cases "b_dev (bhs t bh) = 0")
    case True
    then show ?thesis using fs e hash_ok_unhashed [OF th True tn] by auto
  next
    case False
    have hb: "hash_table t ?h \<noteq> bh"
    proof -
      have "hash_table t ?h = NULL \<or> hash_table t ?h \<in> B"
        using hash_ok_chain [OF th, of ?h] path_head by (cases "ch ?h") auto
      then show ?thesis using h(2) f(3) by metis
    qed
    have "hash_ok s' (insert bh B) (ch(?h := bh # ch ?h))"
    proof (rule hash_ok_push [OF th h(2) f(3) h(3) False])
      show "\<not> (b_dev (bhs t b) = b_dev (bhs t bh) \<and> b_blocknr (bhs t b) = b_blocknr (bhs t bh))" if "b \<in> B" for b
        using new [OF that] False td by simp
      show "hash_table s' = (hash_table t)(?h := bh)" unfolding e using False by (simp add: Let_def upd_bh_def)
      show "nh s' p = (if p = bh then hash_table t ?h else nh t p)" for p
        unfolding e using False hb by (simp add: Let_def upd_bh_def)
      show "ph s' p = (if p = bh then NULL else if p = hash_table t ?h then bh else ph t p)" if "p \<noteq> NULL" for p
        unfolding e using False hb tn that by (auto simp: Let_def upd_bh_def)
      show "b_dev (bhs s' p) = b_dev (bhs t p) \<and> b_blocknr (bhs s' p) = b_blocknr (bhs t p)" for p using k by blast
    qed
    then show ?thesis using fs by blast
  qed
qed

lemma ucast_ucast_u16: "ucast (ucast d :: u32) = d" for d :: u16
  by (rule bit_word_eqI) (auto simp: bit_ucast_iff)

lemma take_victim_ok:
  assumes "cache_inv s" "bh \<in> buffers s"
    and new: "\<And>b. b \<in> buffers s \<Longrightarrow> \<not> (b_dev (bhs s b) = d \<and> b_blocknr (bhs s b) = block)"
  shows "\<exists>s'. take_victim (ucast d) block bh s = Some s' \<and> cache_inv s' \<and> nr_buffers s' = nr_buffers s \<and>
    b_dev (bhs s' bh) = d \<and> b_blocknr (bhs s' bh) = block \<and> b_count (bhs s' bh) = 1 \<and>
    (\<forall>p. p \<noteq> bh \<longrightarrow> b_dev (bhs s' p) = b_dev (bhs s p) \<and> b_blocknr (bhs s' p) = b_blocknr (bhs s p) \<and> b_count (bhs s' p) = b_count (bhs s p))"
proof -
  obtain xs ch where x: "free_ok s xs" "set xs = buffers s" "hash_ok s (buffers s) ch" "2 \<le> nr_buffers s"
    using assms(1) by (auto simp: cache_inv_def)
  have nB: "NULL \<notin> buffers s" by (simp add: buffers_def)
  have bn: "bh \<noteq> NULL" using assms(2) nB by metis
  define t where "t = upd_bh bh (\<lambda>b. b\<lparr>b_count := 1, b_dirt := 0, b_uptodate := 0\<rparr>) s"
  have ts: "same_free s t" "same_hash s t" by (simp_all add: t_def same_free_def same_hash_def)
  have xt: "free_ok t xs" "hash_ok t (buffers s) ch" using x ts same_free_ok same_hash_ok by simp_all
  obtain us vs where xs: "xs = us @ bh # vs" using x(2) assms(2) by (metis split_list)
  have di: "distinct xs" using x(1) by (simp add: free_ok_def ring_def)
  then have "length xs = nr_buffers s" using x(2) distinct_card [of xs] by (simp add: buffers_def)
  then have ne: "us @ vs \<noteq> []" using xs x(4) by auto
  have nin: "bh \<notin> set (us @ vs)" using di xs by auto
  define v where "v = remove_from_hash_queue bh t"
  note r = remove_from_hash_queue_ok [OF xt(2) assms(2) nB, folded v_def]
  obtain ch' where ch': "hash_ok v (buffers s - {bh}) ch'" using r(1) by blast
  have fv: "free_ok v (us @ bh # vs)" using same_free_ok [OF r(2)] xt(1) xs by simp
  obtain w where w: "remove_from_free_list bh v = Some w" "free_ok w (us @ vs)" "same_hash v w"
      "\<And>p. b_count (bhs w p) = b_count (bhs v p)"
    using remove_from_free_list_ok [OF fv ne] by blast
  define y where "y = upd_bh bh (\<lambda>b. b\<lparr>b_dev := ucast (ucast d :: u32), b_blocknr := block\<rparr>) w"
  have yd: "b_dev (bhs y p) = (if p = bh then d else b_dev (bhs s p))" "b_blocknr (bhs y p) = (if p = bh then block else b_blocknr (bhs s p))"
    "b_count (bhs y p) = (if p = bh then 1 else b_count (bhs s p))" "nr_buffers y = nr_buffers s" for p
    using w(3,4) r(2-5) by (auto simp: y_def t_def same_hash_def same_free_def ucast_ucast_u16)
  have "same_free w y" by (simp add: y_def same_free_def)
  then have fy: "free_ok y (us @ vs)" using same_free_ok w(2) by simp
  have hy: "hash_ok y (buffers s - {bh}) ch'"
    by (rule hash_ok_cong [OF ch']) (use w(3) in \<open>auto simp: y_def same_hash_def\<close>)
  note i = insert_into_queues_ok [OF fy nin bn hy]
  have new': "\<not> (b_dev (bhs y b) = b_dev (bhs y bh) \<and> b_blocknr (bhs y b) = b_blocknr (bhs y bh))" if "b \<in> buffers s - {bh}" for b
    using new [of b] yd(1,2) that by auto
  have i: "free_ok (insert_into_queues bh y) ((us @ vs) @ [bh]) \<and> (\<exists>ch'. hash_ok (insert_into_queues bh y) (insert bh (buffers s - {bh})) ch')"
    "nr_buffers (insert_into_queues bh y) = nr_buffers s" "b_dev (bhs (insert_into_queues bh y) p) = b_dev (bhs y p)"
    "b_blocknr (bhs (insert_into_queues bh y) p) = b_blocknr (bhs y p)" "b_count (bhs (insert_into_queues bh y) p) = b_count (bhs y p)" for p
    using insert_into_queues_ok [OF fy nin bn hy] new' nB yd(4) by auto
  have "insert bh (buffers s - {bh}) = buffers s" "set ((us @ vs) @ [bh]) = buffers s" using assms(2) x(2) xs by auto
  then have "cache_inv (insert_into_queues bh y)" using i(1,2) x(4) unfolding cache_inv_def buffers_def by auto
  moreover have "take_victim (ucast d) block bh s = Some (insert_into_queues bh y)"
    unfolding take_victim_def Let_def remove_from_queues_def t_def [symmetric] v_def [symmetric] w(1) by (simp add: y_def)
  ultimately show ?thesis using i(2-5) yd by simp
qed

section \<open>The cache among other processes\<close>

text \<open>
  What the cache relies on: the driver, \<^verbatim>\<open>sync_inodes\<close> and everything that may run while a process
  sleeps leave a correct cache behind.
\<close>

lemma free_list_in_buffers: "cache_inv s \<Longrightarrow> free_list s \<in> buffers s"
proof -
  assume "cache_inv s"
  then obtain xs where "free_ok s xs" "set xs = buffers s" by (auto simp: cache_inv_def)
  moreover from this have "hd xs \<in> set xs" unfolding free_ok_def ring_def by (metis hd_in_set)
  ultimately show ?thesis by (simp add: free_ok_def)
qed

lemma next_in_buffers:
  assumes "cache_inv s" "p \<in> buffers s"
  shows "nf s p \<in> buffers s"
proof -
  obtain xs where xs: "free_ok s xs" "set xs = buffers s" "2 \<le> nr_buffers s" using assms(1) by (auto simp: cache_inv_def)
  obtain us vs where e: "xs = us @ p # vs" using xs(2) assms(2) by (metis split_list)
  have "distinct xs" using xs(1) by (simp add: free_ok_def ring_def)
  then have "length xs = nr_buffers s" using xs(2) distinct_card [of xs] by (simp add: buffers_def)
  then have ne: "us @ vs \<noteq> []" using e xs(3) by auto
  have "nf s p = hd (vs @ us)" using free_ok_split(6) [OF xs(1) [unfolded e] ne] .
  then have "nf s p \<in> set (vs @ us)" using ne hd_in_set [of "vs @ us"] by auto
  then show ?thesis using xs(2) e by auto
qed

definition sane :: "away set \<Rightarrow> nat \<Rightarrow> away list \<Rightarrow> blk_state \<Rightarrow> bool" where
  "sane rely N aways s \<longleftrightarrow> set aways \<subseteq> rely \<and> cache_inv s \<and> nr_buffers s = N"

definition keeps_cache :: "away \<Rightarrow> bool" where
  "keeps_cache f \<longleftrightarrow> (\<forall>s. cache_inv s \<longrightarrow> cache_inv (f s) \<and> nr_buffers (f s) = nr_buffers s)"

lemma sane_upd:
  assumes "sane rely N aways s" "\<And>b. b_next (f b) = b_next b" "\<And>b. b_prev (f b) = b_prev b" "\<And>b. b_dev (f b) = b_dev b"
    "\<And>b. b_blocknr (f b) = b_blocknr b" "\<And>b. b_next_free (f b) = b_next_free b" "\<And>b. b_prev_free (f b) = b_prev_free b"
  shows "sane rely N aways (upd_bh p f s)"
proof -
  have "cache_inv (upd_bh p f s) = cache_inv s"
    by (rule cache_inv_same) (use assms in \<open>simp_all add: same_free_def same_hash_def\<close>)
  then show ?thesis using assms(1) by (simp add: sane_def)
qed

lemma sane_same: "sane rely N aways s \<Longrightarrow> same_free s s' \<Longrightarrow> same_hash s s' \<Longrightarrow> sane rely N aways s'"
  using cache_inv_same by (simp add: sane_def) (simp add: same_free_def)

locale cache_env =
  fixes fn :: driver and si :: away and rely :: "away set"
  assumes fn_inv: "keeps_cache (fn major)"
    and si_inv: "keeps_cache si"
    and rely_inv: "a \<in> rely \<Longrightarrow> keeps_cache a"
begin

lemma sane_sleep: "sane rely N (a # rest) s \<Longrightarrow> sane rely N rest (a s)"
  using rely_inv [of a] by (simp add: sane_def keeps_cache_def)

lemma wait_on_buffer_sane:
  "sane rely N aways s \<Longrightarrow> ensures (\<lambda>(aways, s). sane rely N aways s \<and> b_lock (bhs s bh) = 0) (wait_on_buffer aways bh s)"
proof (induction aways arbitrary: s)
  case Nil
  then show ?case by (subst wait_on_buffer.simps) simp
next
  case (Cons a rest)
  then show ?case using sane_sleep by (subst wait_on_buffer.simps) simp
qed

lemma lock_buffer_sane:
  "sane rely N aways s \<Longrightarrow> ensures (\<lambda>(aways, s). sane rely N aways s) (lock_buffer aways bh s)"
proof (induction aways arbitrary: s)
  case Nil
  then show ?case by (subst lock_buffer.simps) (simp add: sane_upd)
next
  case (Cons a rest)
  then show ?case using sane_sleep by (subst lock_buffer.simps) (simp add: sane_upd)
qed

lemma unlock_buffer_sane: "sane rely N aways s \<Longrightarrow> sane rely N aways (unlock_buffer bh s)"
  unfolding unlock_buffer_def
  by (rule sane_same [of _ _ _ "upd_bh bh (\<lambda>b. b\<lparr>b_lock := 0\<rparr>) s"]) (simp_all add: sane_upd same_free_def same_hash_def)

lemma get_slot_sane:
  "sane rely N aways s \<Longrightarrow> ensures (\<lambda>(aways, p, s). sane rely N aways s) (get_slot aways rw_ahead n s)"
proof (induction aways arbitrary: s)
  case Nil
  then show ?case by (subst get_slot.simps) (simp split: option.split)
next
  case (Cons a rest)
  then show ?case using sane_sleep by (subst get_slot.simps) (cases rw_ahead; simp split: option.split)
qed

lemma add_request_sane:
  assumes "sane rely N aways s" "add_request fn major req s = Some s'"
  shows "sane rely N aways s'"
proof -
  define t where "t = upd_req req (\<lambda>r. r\<lparr>rq_next := NULL\<rparr>) s"
  define u where "u = (if rq_bh (requests t req) \<noteq> NULL then upd_bh (rq_bh (requests t req)) (\<lambda>b. b\<lparr>b_dirt := 0\<rparr>) t else t)"
  have "sane rely N aways u"
    by (rule sane_same [OF assms(1)]) (simp_all add: u_def t_def same_free_def same_hash_def)
  moreover have "s' = fn major (u\<lparr>current_request := (current_request u)(major := req)\<rparr>) \<or> (same_free u s' \<and> same_hash u s')"
    using assms(2) unfolding add_request_def Let_def t_def [symmetric] u_def [symmetric]
    by (auto simp: same_free_def same_hash_def split: if_splits option.splits)
  moreover have "sane rely N aways (fn major (u\<lparr>current_request := (current_request u)(major := req)\<rparr>))"
  proof -
    have "sane rely N aways (u\<lparr>current_request := (current_request u)(major := req)\<rparr>)"
      by (rule sane_same [OF calculation(1)]) (simp_all add: same_free_def same_hash_def)
    then show ?thesis using fn_inv by (simp add: sane_def keeps_cache_def)
  qed
  ultimately show ?thesis using sane_same by metis
qed

lemma make_request_sane:
  assumes "sane rely N aways s" "rw \<in> {READ, WRITE, READA, WRITEA}"
  shows "ensures (\<lambda>(aways, s). sane rely N aways s) (make_request fn aways major rw bh s)"
proof -
  define ra where "ra \<longleftrightarrow> rw = READA \<or> rw = WRITEA"
  define rw' where "rw' = (if ra then if rw = READA then READ else WRITE else rw)"
  have rw': "rw' = READ \<or> rw' = WRITE" using assms(2) by (auto simp: rw'_def ra_def)
  have add: "ensures (\<lambda>(aways, s). sane rely N aways s)
      (case add_request fn major p (upd_req p (\<lambda>_. bh_request rw' bh s) s) of None \<Rightarrow> Asleep | Some s \<Rightarrow> Done (aways, s))"
    if "sane rely N aways s" for aways p s
  proof -
    have "sane rely N aways (upd_req p (\<lambda>_. bh_request rw' bh s) s)"
      by (rule sane_same [OF that]) (simp_all add: same_free_def same_hash_def)
    then show ?thesis using add_request_sane by (auto split: option.split)
  qed
  show ?thesis
    unfolding make_request_def Let_def ra_def [symmetric] rw'_def [symmetric]
    using assms(1) rw' add unlock_buffer_sane
    by (auto intro!: ensures_then [OF lock_buffer_sane] ensures_then [OF get_slot_sane] split: prod.split)
qed

lemma ll_rw_block_sane:
  assumes "sane rely N aways s" "rw \<in> {READ, WRITE, READA, WRITEA}"
  shows "ensures (\<lambda>(aways, s). sane rely N aways s) (ll_rw_block fn aways rw bh s)"
  using assms make_request_sane by (simp add: ll_rw_block_def Let_def)

lemma write_dirty_sane:
  assumes "sane rely N aways s" "rw \<in> {READ, WRITE, READA, WRITEA}"
  shows "ensures (\<lambda>(aways, s). sane rely N aways s) (if b then ll_rw_block fn aways rw bh s else Done (aways, s))"
  using assms ll_rw_block_sane by simp

lemma sync_buffers_loop_sane:
  "sane rely N aways s \<Longrightarrow> ensures (\<lambda>(aways, s). sane rely N aways s) (sync_buffers_loop fn n aways bh s)"
proof (induction n arbitrary: aways bh s)
  case (Suc n)
  show ?case
    by (auto intro!: ensures_then [OF wait_on_buffer_sane [OF Suc.prems]] ensures_then [OF write_dirty_sane] Suc.IH)
qed simp

lemma sync_dev_sane:
  assumes "sane rely N aways s"
  shows "ensures (\<lambda>(aways, s). sane rely N aways s) (sync_dev fn si dev aways s)"
proof -
  have "sane rely N aw (si t)" if "sane rely N aw t" for aw t using that si_inv by (simp add: sane_def keeps_cache_def)
  then show ?thesis unfolding sync_dev_def sync_buffers_def
    by (auto intro!: ensures_then [OF sync_buffers_loop_sane [OF assms]] sync_buffers_loop_sane)
qed

lemma getblk_scan_step:
  assumes "sane rely N aways s" "tmp \<in> {1..N}" "bh = NULL \<or> bh \<in> {1..N}"
    and rest: "\<And>aways tmp bh s. sane rely N aways s \<Longrightarrow> tmp \<in> {1..N} \<Longrightarrow> bh = NULL \<or> bh \<in> {1..N} \<Longrightarrow>
      ensures (\<lambda>(aways, bh, s). sane rely N aways s \<and> (bh = NULL \<or> bh \<in> {1..N}))
        (case n of 0 \<Rightarrow> Done (aways, bh, s) | Suc m \<Rightarrow> getblk_scan fn m aways tmp bh s)"
  shows "ensures (\<lambda>(aways, bh, s). sane rely N aways s \<and> (bh = NULL \<or> bh \<in> {1..N})) (getblk_scan fn n aways tmp bh s)"
proof -
  define tmp' where "tmp' = nf s tmp"
  have tm: "tmp' \<in> {1..N}" using assms(1,2) next_in_buffers [of s tmp] by (simp add: sane_def buffers_def tmp'_def)
  show ?thesis
  proof (cases "b_count (bhs s tmp') \<noteq> 0")
    case True
    then show ?thesis using rest [OF assms(1) tm assms(3)] unfolding tmp'_def by (subst getblk_scan.simps) (simp add: Let_def)
  next
    case False
    define better where "better \<longleftrightarrow> bh = NULL \<or> BADNESS (bhs s tmp') < BADNESS (bhs s bh)"
    define bh' where "bh' = (if better then tmp' else bh)"
    have b': "bh' = NULL \<or> bh' \<in> {1..N}" using assms(3) tm by (simp add: bh'_def)
    have e: "getblk_scan fn n aways tmp bh s =
        (if better \<and> BADNESS (bhs s tmp') = 0 then Done (aways, bh', s)
         else then_do (if b_dirt (bhs s tmp') \<noteq> 0 then ll_rw_block fn aways WRITEA tmp' s else Done (aways, s))
           (\<lambda>(aways, s). case n of 0 \<Rightarrow> Done (aways, bh', s) | Suc m \<Rightarrow> getblk_scan fn m aways tmp' bh' s))"
      using False unfolding better_def bh'_def tmp'_def by (subst getblk_scan.simps) (simp only: Let_def if_False)
    have "ensures (\<lambda>(aways, bh, s). sane rely N aways s \<and> (bh = NULL \<or> bh \<in> {1..N}))
        (then_do (if b_dirt (bhs s tmp') \<noteq> 0 then ll_rw_block fn aways WRITEA tmp' s else Done (aways, s))
           (\<lambda>(aways, s). case n of 0 \<Rightarrow> Done (aways, bh', s) | Suc m \<Rightarrow> getblk_scan fn m aways tmp' bh' s))"
      by (rule ensures_then [OF write_dirty_sane [OF assms(1)]]) (use rest tm b' in auto)
    then show ?thesis using e assms(1) b' by simp
  qed
qed

lemma getblk_scan_sane:
  assumes "sane rely N aways s" "tmp \<in> {1..N}" "bh = NULL \<or> bh \<in> {1..N}"
  shows "ensures (\<lambda>(aways, bh, s). sane rely N aways s \<and> (bh = NULL \<or> bh \<in> {1..N})) (getblk_scan fn n aways tmp bh s)"
  using assms
proof (induction n arbitrary: aways tmp bh s)
  case 0
  then show ?case by (rule getblk_scan_step) simp
next
  case (Suc n)
  show ?case by (rule getblk_scan_step [OF Suc.prems]) (simp only: nat.case, rule Suc.IH)
qed

lemma clean_victim_sane:
  "sane rely N aways s \<Longrightarrow> ensures (\<lambda>(aways, taken, s). sane rely N aways s) (clean_victim fn si fuel aways bh s)"
proof (induction fuel arbitrary: aways s)
  case (Suc fuel)
  show ?case
    by (auto simp: Suc.prems intro!: ensures_then [OF sync_dev_sane [OF Suc.prems]] ensures_then [OF wait_on_buffer_sane] Suc.IH)
qed simp

lemma get_hash_table_sane:
  assumes "sane rely N aways s" "d \<noteq> (0 :: u16)"
  shows "ensures (\<lambda>(aways, bh, s). sane rely N aways s \<and>
      (bh = NULL \<or> bh \<in> {1..N} \<and> b_dev (bhs s bh) = d \<and> b_blocknr (bhs s bh) = block)) (get_hash_table fuel (ucast d) block aways s)"
  using assms(1)
proof (induction fuel arbitrary: aways s)
  case (Suc fuel)
  obtain p where p: "find_buffer (ucast d) block s = Some p" "p \<noteq> NULL \<Longrightarrow> p \<in> {1..N}"
    using find_buffer_spec [of s d block] Suc.prems assms(2) by (auto simp: sane_def buffers_def split: if_splits)
  define t where "t = upd_bh p (\<lambda>b. b\<lparr>b_count := b_count b + 1\<rparr>) s"
  have t: "sane rely N aways t" using Suc.prems by (simp add: t_def sane_upd)
  have "ensures (\<lambda>(aways, bh, s). sane rely N aways s \<and> (bh = NULL \<or> bh \<in> {1..N} \<and> b_dev (bhs s bh) = d \<and> b_blocknr (bhs s bh) = block))
      (if holds (ucast d) block (bhs u p) then (case put_last_free p u of None \<Rightarrow> Panicked | Some s \<Rightarrow> Done (aw, p, s))
       else get_hash_table fuel (ucast d) block aw (upd_bh p (\<lambda>b. b\<lparr>b_count := b_count b - 1\<rparr>) u))"
    if u: "sane rely N aw u" and "p \<noteq> NULL" for aw u
  proof (cases "holds (ucast d) block (bhs u p)")
    case True
    have "cache_inv u" "p \<in> buffers u" using u p(2) \<open>p \<noteq> NULL\<close> by (auto simp: sane_def buffers_def)
    then obtain v where "put_last_free p u = Some v" "cache_inv v" "same_hash u v" using put_last_free_ok by blast
    then show ?thesis using True u p(2) \<open>p \<noteq> NULL\<close> by (auto simp: holds_dev sane_def same_hash_def)
  next
    case False
    have "sane rely N aw (upd_bh p (\<lambda>b. b\<lparr>b_count := b_count b - 1\<rparr>) u)" using u by (simp add: sane_upd)
    then show ?thesis using False Suc.IH by simp
  qed
  then show ?case using Suc.prems p(1)
    by (auto simp: t_def [symmetric] intro!: ensures_then [OF wait_on_buffer_sane [OF t]])
qed simp

lemma getblk_sane:
  assumes "sane rely N aways s" "d \<noteq> (0 :: u16)"
  shows "ensures (\<lambda>(aways, bh, s). sane rely N aways s \<and>
      bh \<in> {1..N} \<and> b_dev (bhs s bh) = d \<and> b_blocknr (bhs s bh) = block) (getblk fn si fuel (ucast d) block aways s)"
  using assms(1)
proof (induction fuel arbitrary: aways s)
  case (Suc fuel)
  let ?P = "\<lambda>(aways, bh, s). sane rely N aways s \<and> bh \<in> {1..N} \<and> b_dev (bhs s bh) = d \<and> b_blocknr (bhs s bh) = block"
  have take: "ensures ?P (claim_fresh (ucast d) block (getblk fn si fuel (ucast d) block) bh aways s)"
    if s: "sane rely N aways s" and bh: "bh \<in> {1..N}" for aways s bh
  proof -
    have c: "cache_inv s" "bh \<in> buffers s" "nr_buffers s = N" using s bh by (auto simp: sane_def buffers_def)
    obtain p where p: "find_buffer (ucast d) block s = Some p"
        "p = NULL \<Longrightarrow> b \<in> buffers s \<Longrightarrow> \<not> (b_dev (bhs s b) = d \<and> b_blocknr (bhs s b) = block)" for b
      using find_buffer_spec [OF c(1) assms(2), of block] by (auto split: if_splits)
    show ?thesis
    proof (cases "p = NULL")
      case True
      obtain s' where "take_victim (ucast d) block bh s = Some s'" "cache_inv s'" "nr_buffers s' = nr_buffers s"
          "b_dev (bhs s' bh) = d" "b_blocknr (bhs s' bh) = block"
        using take_victim_ok [OF c(1,2), of d block] p(2) True by blast
      then show ?thesis using s bh p(1) True c(3) by (simp add: claim_fresh_def sane_def)
    next
      case False
      then show ?thesis using p(1) Suc.IH [OF s] by (simp add: claim_fresh_def)
    qed
  qed
  have victim: "ensures ?P (claim_victim fn si n (ucast d) block (getblk fn si fuel (ucast d) block) bh aways s)"
    if s: "sane rely N aways s" and bh: "bh \<in> {1..N}" for aways s bh n
    unfolding claim_victim_def
  proof (rule ensures_then [OF wait_on_buffer_sane [OF s, of bh]], clarify, rule ensures_if)
    fix aw t assume t: "sane rely N aw t"
    show "ensures ?P (getblk fn si fuel (ucast d) block aw t)" by (rule Suc.IH [OF t])
    show "ensures ?P (then_do (clean_victim fn si n aw bh t) (\<lambda>(aways, taken, s).
        if taken then getblk fn si fuel (ucast d) block aways s
        else claim_fresh (ucast d) block (getblk fn si fuel (ucast d) block) bh aways s))"
      by (rule ensures_then [OF clean_victim_sane [OF t, of n bh]], clarify, rule ensures_if) (use take bh Suc.IH in blast)+
  qed
  show ?case
  proof (subst getblk.simps, rule ensures_then [OF get_hash_table_sane [OF Suc.prems assms(2), of block "Suc fuel"]], clarify)
    fix aw bh t assume t: "sane rely N aw t" and bh: "bh = NULL \<or> bh \<in> {1..N} \<and> b_dev (bhs t bh) = d \<and> b_blocknr (bhs t bh) = block"
    have fl: "free_list t \<in> {1..N}" using t free_list_in_buffers [of t] by (simp add: sane_def buffers_def)
    have "ensures ?P (then_do (getblk_scan fn (nr_buffers t) aw (free_list t) NULL t) (\<lambda>(aways, bh, s).
        if bh = NULL then
          (case aways of [] \<Rightarrow> Asleep | away # rest \<Rightarrow> getblk fn si fuel (ucast d) block rest (away s))
        else claim_victim fn si (Suc fuel) (ucast d) block (getblk fn si fuel (ucast d) block) bh aways s))"
    proof (rule ensures_then [OF getblk_scan_sane [OF t fl disjI1 [OF refl]]], clarify, rule ensures_if)
      fix aw' p u assume u: "sane rely N aw' u" and p: "p = NULL \<or> p \<in> {1..N}"
      show "ensures ?P (case aw' of [] \<Rightarrow> Asleep | away # rest \<Rightarrow> getblk fn si fuel (ucast d) block rest (away u))"
        using Suc.IH sane_sleep u by (cases aw') auto
      show "ensures ?P (claim_victim fn si (Suc fuel) (ucast d) block (getblk fn si fuel (ucast d) block) p aw' u)" if "p \<noteq> NULL"
        using victim [OF u] p that by blast
    qed
    then show "ensures ?P (if bh \<noteq> NULL then Done (aw, bh, t)
      else then_do (getblk_scan fn (nr_buffers t) aw (free_list t) NULL t) (\<lambda>(aways, bh, s).
        if bh = NULL then
          (case aways of [] \<Rightarrow> Asleep | away # rest \<Rightarrow> getblk fn si fuel (ucast d) block rest (away s))
        else claim_victim fn si (Suc fuel) (ucast d) block (getblk fn si fuel (ucast d) block) bh aways s))"
      by (rule ensures_if [rotated]) (use t bh in auto)
  qed
qed simp

end

section \<open>Without contention\<close>

lemma BADNESS_0: "BADNESS b = 0 \<longleftrightarrow> b_dirt b = 0 \<and> b_lock b = 0"
  by (simp add: BADNESS_def unat_eq_0)

lemma getblk_scan_quiet:
  assumes "path (nf s) (nf s tmp) ys q" "length ys \<le> Suc n" "find (\<lambda>b. b_count (bhs s b) = 0) ys = Some bh"
    and "BADNESS (bhs s bh) = 0"
  shows "getblk_scan fn n aways tmp NULL s = Done (aways, bh, s)"
  using assms(1-3)
proof (induction ys arbitrary: tmp n)
  case (Cons y ys)
  have y: "nf s tmp = y" "path (nf s) (nf s y) ys q" using Cons.prems(1) by auto
  show ?case
  proof (cases "b_count (bhs s y) = 0")
    case True
    then show ?thesis using Cons.prems(3) y(1) assms(4) by (subst getblk_scan.simps) (simp add: Let_def)
  next
    case False
    then have f: "find (\<lambda>b. b_count (bhs s b) = 0) ys = Some bh" using Cons.prems(3) by simp
    then obtain m where m: "n = Suc m" using Cons.prems(2) by (cases n; cases ys) auto
    have "getblk_scan fn m aways y NULL s = Done (aways, bh, s)"
      by (rule Cons.IH) (use y f Cons.prems(2) m in auto)
    then show ?thesis using False y(1) m by (subst getblk_scan.simps) (simp add: Let_def)
  qed
qed simp

lemma free_ok_round:
  assumes "free_ok s (x # xs)" "xs \<noteq> []"
  shows "path (nf s) (nf s x) (xs @ [x]) (hd xs)"
proof -
  have "ring (nf s) (pf s) (xs @ [x])" using assms ring_rotate [of "nf s" "pf s" "[x]" xs] by (simp add: free_ok_def)
  then have "path (nf s) (hd (xs @ [x])) (xs @ [x]) (hd (xs @ [x]))" unfolding ring_def using dpath_path by blast
  moreover have "nf s x = hd xs" using free_ok_split(6) [of s "[]" x xs] assms by simp
  ultimately show ?thesis using assms(2) by simp
qed

lemma wait_unlocked: "b_lock (bhs s bh) = 0 \<Longrightarrow> wait_on_buffer aways bh s = Done (aways, s)"
  by (subst wait_on_buffer.simps) simp

text \<open>The driver \<^verbatim>\<open>do_rd_request\<close> does nothing; a disk interrupt ends the request in service.\<close>

lemma keeps_cache_same: "(\<And>s. same_free s (f s) \<and> same_hash s (f s)) \<Longrightarrow> keeps_cache f"
  unfolding keeps_cache_def using cache_inv_same by (metis same_free_def)

lemma end_request_keeps_cache: "keeps_cache (end_request major uptodate)"
  by (rule keeps_cache_same)
    (simp add: end_request_def Let_def unlock_buffer_def same_free_def same_hash_def)

interpretation disk: cache_env "\<lambda>major s. s" "\<lambda>s. s" "{end_request major uptodate | major uptodate. True}"
  by unfold_locales (auto simp: end_request_keeps_cache intro: keeps_cache_same)

section \<open>Initialisation\<close>

lemma dpath_upt:
  assumes "a \<noteq> NULL" "a \<le> b" "\<And>p. a \<le> p \<Longrightarrow> p < b \<Longrightarrow> nx p = p + 1" "\<And>p. a < p \<Longrightarrow> p \<le> b \<Longrightarrow> pv p = p - 1" "pv a = y" "nx b = q"
  shows "dpath nx pv y a [a..<Suc b] b q"
  using assms(1,2,3,4,5)
proof (induction "b - a" arbitrary: a y)
  case 0
  then have "a = b" by simp
  then show ?case using 0 assms(6) by simp
next
  case (Suc n)
  have "dpath nx pv a (Suc a) [Suc a..<Suc b] b q" by (rule Suc.hyps(1)) (use Suc in auto)
  moreover have "[a..<Suc b] = a # [Suc a..<Suc b]" using Suc(2) by (subst upt_conv_Cons) auto
  moreover have "nx a = Suc a" using Suc by auto
  ultimately show ?case using Suc.prems by simp
qed

lemma buffer_init_cache_inv:
  assumes "ds = buffer_data start (if buffer_end = 0x100000 then 0xA0000 else buffer_end)" "2 \<le> length ds"
  shows "cache_inv (buffer_init start buffer_end s)"
proof -
  define n where "n = length ds"
  define s' where "s' = buffer_init start buffer_end s"
  have nr: "nr_buffers s' = n" "free_list s' = 1" "hash_table s' = (\<lambda>_. NULL)"
    by (simp_all add: s'_def buffer_init_def Let_def n_def assms(1))
  have b: "nf s' p = (if p = n then 1 else p + 1)" "pf s' p = (if p = 1 then n else p - 1)" "nh s' p = NULL" "ph s' p = NULL"
      "b_dev (bhs s' p) = 0" if "p \<in> {1..n}" for p
    using that by (simp_all add: s'_def buffer_init_def Let_def n_def assms(1))
  have n2: "2 \<le> n" using assms(2) by (simp add: n_def)
  have "dpath (nf s') (pf s') n 1 [1..<Suc n] n 1" by (rule dpath_upt) (use b n2 in auto)
  then have "ring (nf s') (pf s') [1..<Suc n]" using n2 by (simp add: ring_def del: upt_Suc)
  then have "free_ok s' [1..<Suc n]" using nr n2 by (simp add: free_ok_def del: upt_Suc)
  moreover have "set [1..<Suc n] = buffers s'" using nr by (auto simp: buffers_def)
  moreover have "hash_ok s' (buffers s') (\<lambda>_. [])" using b nr by (auto simp: hash_ok_def buffers_def)
  ultimately show ?thesis using nr n2 unfolding cache_inv_def s'_def [symmetric] by (auto simp del: upt_Suc)
qed

section \<open>Properties\<close>

text \<open>
  C1. Whatever correct processes, interrupts and drivers do in between, \<^verbatim>\<open>getblk\<close> on a correct cache never
  panics, and when it returns the cache is correct and the result is the only buffer of the block, the one a
  lookup finds.
\<close>

theorem getblk_correct:
  assumes "cache_env fn si rely" "set aways \<subseteq> rely" "cache_inv s" "d \<noteq> (0 :: u16)"
  shows "getblk fn si fuel (ucast d) block aways s \<noteq> Panicked \<and>
    (\<forall>aways' bh s'. getblk fn si fuel (ucast d) block aways s = Done (aways', bh, s') \<longrightarrow>
      cache_inv s' \<and> bh \<noteq> NULL \<and> find_buffer (ucast d) block s' = Some bh \<and>
      {b \<in> buffers s'. b_dev (bhs s' b) = d \<and> b_blocknr (bhs s' b) = block} = {bh})"
proof -
  have e: "ensures (\<lambda>(aways, bh, t). sane rely (nr_buffers s) aways t \<and> bh \<in> {1..nr_buffers s} \<and> b_dev (bhs t bh) = d \<and> b_blocknr (bhs t bh) = block)
      (getblk fn si fuel (ucast d) block aways s)"
    by (rule cache_env.getblk_sane [OF assms(1) _ assms(4)]) (use assms in \<open>simp add: sane_def\<close>)
  then have np: "getblk fn si fuel (ucast d) block aways s \<noteq> Panicked" by auto
  have "cache_inv s' \<and> bh \<noteq> NULL \<and> find_buffer (ucast d) block s' = Some bh \<and>
      {b \<in> buffers s'. b_dev (bhs s' b) = d \<and> b_blocknr (bhs s' b) = block} = {bh}"
    if "getblk fn si fuel (ucast d) block aways s = Done (aways', bh, s')" for aways' bh s'
  proof -
  from that have c: "cache_inv s'" "bh \<in> buffers s'" "b_dev (bhs s' bh) = d" "b_blocknr (bhs s' bh) = block"
    using e by (auto simp: sane_def buffers_def)
  have u: "b = bh" if "b \<in> buffers s'" "b_dev (bhs s' b) = d" "b_blocknr (bhs s' b) = block" for b
  proof -
    obtain ch where "hash_ok s' (buffers s') ch" using c(1) by (auto simp: cache_inv_def)
    then show ?thesis using c that assms(4) unfolding hash_ok_def by metis
  qed
  obtain p where p: "find_buffer (ucast d) block s' = Some p"
    "if p = NULL then \<forall>b \<in> buffers s'. \<not> (b_dev (bhs s' b) = d \<and> b_blocknr (bhs s' b) = block)
     else p \<in> buffers s' \<and> b_dev (bhs s' p) = d \<and> b_blocknr (bhs s' p) = block"
    using find_buffer_spec [OF c(1) assms(4), of block] by blast
  have "p \<noteq> NULL" using p(2) c(2-4) by metis
  then have "p = bh" using p(2) u by metis
  then have "find_buffer (ucast d) block s' = Some bh" using p(1) by simp
  moreover have "bh \<noteq> NULL" using c(2) by (auto simp: buffers_def)
  ultimately show ?thesis using c u by blast
  qed
  then show ?thesis using np by blast
qed

text \<open>
  C25. Without contention \<^verbatim>\<open>getblk\<close> returns without sleeping: a cached block that is not locked comes back with one more
  reference; otherwise, when the unreferenced buffers are clean and unlocked, the first unreferenced buffer after the
  head of the free list is given to the block, and no other buffer changes its block or its references.
\<close>

theorem getblk_uncontended:
  assumes "cache_inv s" "d \<noteq> (0 :: u16)" "free_ok s (x # xs)"
    and "\<And>b. b \<in> set (x # xs) \<Longrightarrow> b_count (bhs s b) = 0 \<or> (b_dev (bhs s b) = d \<and> b_blocknr (bhs s b) = block) \<Longrightarrow>
      b_lock (bhs s b) = 0"
    and "\<And>b. b \<in> set (x # xs) \<Longrightarrow> b_count (bhs s b) = 0 \<Longrightarrow> b_dirt (bhs s b) = 0"
    and "set (x # xs) = buffers s" "find (\<lambda>b. b_count (bhs s b) = 0) (xs @ [x]) = Some victim"
  shows "\<exists>bh s'. getblk fn si (Suc fuel) (ucast d) block aways s = Done (aways, bh, s') \<and> cache_inv s' \<and>
    (if \<exists>b \<in> buffers s. b_dev (bhs s b) = d \<and> b_blocknr (bhs s b) = block
     then b_dev (bhs s bh) = d \<and> b_blocknr (bhs s bh) = block \<and> b_count (bhs s' bh) = b_count (bhs s bh) + 1
     else bh = victim \<and> b_count (bhs s' bh) = 1) \<and>
    b_dev (bhs s' bh) = d \<and> b_blocknr (bhs s' bh) = block \<and>
    (\<forall>p. p \<noteq> bh \<longrightarrow> b_dev (bhs s' p) = b_dev (bhs s p) \<and> b_blocknr (bhs s' p) = b_blocknr (bhs s p) \<and> b_count (bhs s' p) = b_count (bhs s p))"
proof -
  obtain p where p: "find_buffer (ucast d) block s = Some p"
    "if p = NULL then \<forall>b \<in> buffers s. \<not> (b_dev (bhs s b) = d \<and> b_blocknr (bhs s b) = block)
     else p \<in> buffers s \<and> b_dev (bhs s p) = d \<and> b_blocknr (bhs s p) = block"
    using find_buffer_spec [OF assms(1,2), of block] by blast
  show ?thesis
  proof (cases "p = NULL")
    case False
    define t where "t = upd_bh p (\<lambda>b. b\<lparr>b_count := b_count b + 1\<rparr>) s"
    have ps: "p \<in> buffers s" "b_dev (bhs s p) = d" "b_blocknr (bhs s p) = block" using p(2) False by auto
    have "b_lock (bhs s p) = 0" by (rule assms(4)) (use ps assms(6) in blast)+
    then have t: "cache_inv t" "p \<in> buffers t" "b_lock (bhs t p) = 0" "holds (ucast d) block (bhs t p)"
      using ps assms(1) sane_upd [of UNIV "nr_buffers s" "[]" s] by (auto simp: t_def sane_def buffers_def holds_dev)
    obtain s' where s': "put_last_free p t = Some s'" "cache_inv s'" "same_hash t s'" "\<And>q. b_count (bhs s' q) = b_count (bhs t q)"
      using put_last_free_ok [OF t(1,2)] by blast
    have "getblk fn si (Suc fuel) (ucast d) block aways s = Done (aways, p, s')"
      using p(1) False t(3,4) s'(1) by (simp add: t_def [symmetric] wait_unlocked)
    then show ?thesis using s' ps by (intro exI [of _ p] exI [of _ s']) (auto simp: t_def same_hash_def)
  next
    case True
    have nb: "\<And>b. b \<in> buffers s \<Longrightarrow> \<not> (b_dev (bhs s b) = d \<and> b_blocknr (bhs s b) = block)" using p(2) True by simp
    have "distinct (x # xs)" using assms(3) unfolding free_ok_def ring_def by blast
    then have l: "length (x # xs) = nr_buffers s" using assms(6) distinct_card [of "x # xs"] by (simp add: buffers_def)
    then have ne: "xs \<noteq> []" using assms(1) by (auto simp: cache_inv_def)
    have "victim \<in> set (xs @ [x]) \<and> b_count (bhs s victim) = 0" using find_SomeD [OF assms(7)] by blast
    then have v: "victim \<in> buffers s" "b_count (bhs s victim) = 0" "b_lock (bhs s victim) = 0" "b_dirt (bhs s victim) = 0"
      using assms(4,5) [of victim] assms(6) by auto
    have "free_list s = x" using assms(3) by (simp add: free_ok_def)
    then have sc: "getblk_scan fn (nr_buffers s) aways (free_list s) NULL s = Done (aways, victim, s)"
      using getblk_scan_quiet [OF free_ok_round [OF assms(3) ne] _ assms(7)] l v by (simp add: BADNESS_0)
    obtain s' where s': "take_victim (ucast d) block victim s = Some s'" "cache_inv s'"
      "b_dev (bhs s' victim) = d" "b_blocknr (bhs s' victim) = block" "b_count (bhs s' victim) = 1"
      "\<And>p. p \<noteq> victim \<Longrightarrow> b_dev (bhs s' p) = b_dev (bhs s p) \<and> b_blocknr (bhs s' p) = b_blocknr (bhs s p) \<and> b_count (bhs s' p) = b_count (bhs s p)"
      using take_victim_ok [OF assms(1) v(1) nb] by blast
    have "victim \<noteq> NULL" using v(1) by (auto simp: buffers_def)
    then have "getblk fn si (Suc fuel) (ucast d) block aways s = Done (aways, victim, s')"
      using p(1) True sc v s'(1) by (simp add: claim_victim_def claim_fresh_def wait_unlocked)
    then show ?thesis using s' nb by (intro exI [of _ victim] exI [of _ s']) auto
  qed
qed

text \<open>
  \<^verbatim>\<open>buffer_init\<close> leaves a correct empty cache: a free list of all buffers, none of which belongs to a device, and empty hash chains.  The data
  blocks the heads point to do not overlap, lie above the last buffer head and end below \<open>buffer_end\<close>.
\<close>

lemma buffer_data_layout:
  "sorted_wrt (\<lambda>a b. b + 1024 \<le> a) (buffer_data h b) \<and>
    (\<forall>d \<in> set (buffer_data h b). h + 36 * length (buffer_data h b) \<le> d \<and> d + 1024 \<le> b)"
proof (induction h b rule: buffer_data.induct)
  case (1 h b)
  show ?case
  proof (cases "b < 1024 \<or> b - 1024 < h + 36 \<or> h + 36 > 0xA0000")
    case True
    then show ?thesis by (subst (1 2 3) buffer_data.simps) simp
  next
    case False
    define b' where "b' = (if b - 1024 = 0x100000 then 0xA0000 else b - 1024)"
    define r where "r = buffer_data (h + 36) b'"
    have e: "buffer_data h b = (b - 1024) # r" using False by (subst buffer_data.simps) (simp add: r_def b'_def)
    have i: "sorted_wrt (\<lambda>a b. b + 1024 \<le> a) r" "\<And>d. d \<in> set r \<Longrightarrow> h + 36 + 36 * length r \<le> d \<and> d + 1024 \<le> b'"
      using 1 [OF False] by (auto simp: r_def b'_def)
    have b': "b' \<le> b - 1024" by (simp add: b'_def)
    have "h + 36 + 36 * length r \<le> b - 1024"
    proof (cases r)
      case Nil
      then show ?thesis using False by simp
    next
      case (Cons a l)
      then show ?thesis using i(2) [of a] b' by simp
    qed
    then show ?thesis using i b' False unfolding e by (fastforce simp: algebra_simps)
  qed
qed

theorem buffer_init_layout:
  fixes start buffer_end :: nat
  defines "limit \<equiv> (if buffer_end = 0x100000 then 0xA0000 else buffer_end)"
  assumes t: "t = buffer_init start buffer_end s" and two: "2 \<le> nr_buffers t"
  shows "cache_inv t \<and> (\<forall>h. hash_table t h = NULL) \<and>
    (\<forall>p \<in> buffers t. b_dev (bhs t p) = 0 \<and> b_count (bhs t p) = 0 \<and> b_lock (bhs t p) = 0 \<and> b_dirt (bhs t p) = 0 \<and> b_uptodate (bhs t p) = 0 \<and>
       start + 36 * nr_buffers t \<le> b_data (bhs t p) \<and> b_data (bhs t p) + 1024 \<le> limit) \<and>
    (\<forall>p \<in> buffers t. \<forall>q \<in> buffers t. p < q \<longrightarrow> b_data (bhs t q) + 1024 \<le> b_data (bhs t p))"
proof -
  define ds where "ds = buffer_data start limit"
  note l = buffer_data_layout [of start limit, folded ds_def]
  have nr: "nr_buffers t = length ds" by (simp add: t buffer_init_def ds_def limit_def Let_def)
  have data: "b_dev (bhs t p) = 0" "b_count (bhs t p) = 0" "b_lock (bhs t p) = 0" "b_dirt (bhs t p) = 0" "b_uptodate (bhs t p) = 0" "b_data (bhs t p) = ds ! (p - 1)"
    if "p \<in> buffers t" for p using that by (simp_all add: t buffer_init_def ds_def limit_def Let_def buffers_def)
  have "cache_inv t" using buffer_init_cache_inv [OF refl, of start buffer_end s] two unfolding nr by (simp add: t ds_def limit_def)
  moreover have "\<forall>h. hash_table t h = NULL" by (simp add: t buffer_init_def Let_def)
  moreover have "start + 36 * nr_buffers t \<le> b_data (bhs t p) \<and> b_data (bhs t p) + 1024 \<le> limit" if "p \<in> buffers t" for p
    using that l data(6) [OF that] nr by (auto simp: buffers_def)
  moreover have "b_data (bhs t q) + 1024 \<le> b_data (bhs t p)" if "p \<in> buffers t" "q \<in> buffers t" "p < q" for p q
    using that data(6) [OF that(1)] data(6) [OF that(2)] sorted_wrt_nth_less [OF conjunct1 [OF l], of "p - 1" "q - 1"] nr by (auto simp: buffers_def)
  ultimately show ?thesis using data by auto
qed

section \<open>Witnesses\<close>

definition blank_bh :: buffer_head where
  "blank_bh = \<lparr>b_data = 0, b_blocknr = 0, b_dev = 0, b_uptodate = 0, b_dirt = 0, b_count = 0, b_lock = 0,
     b_prev = 0, b_next = 0, b_prev_free = 0, b_next_free = 0\<rparr>"

definition blank_request :: request where
  "blank_request = \<lparr>rq_dev = -1, rq_cmd = 0, rq_errors = 0, rq_sector = 0, rq_nr_sectors = 0, rq_buffer = 0,
     rq_waiting = 0, rq_bh = 0, rq_next = 0\<rparr>"

definition small_cache :: blk_state where
  "small_cache = buffer_init 0 4096
     \<lparr>bhs = (\<lambda>_. blank_bh), requests = (\<lambda>_. blank_request), current_request = (\<lambda>_. 0), request_fn = (\<lambda>m. m = 3),
      hash_table = (\<lambda>_. 0), free_list = 0, nr_buffers = 0, woken = []\<rparr>"

lemma small_data: "buffer_data 0 4096 = [3072, 2048, 1024]"
  by (simp add: buffer_data.simps)

lemma small_cache_inv: "cache_inv small_cache"
  unfolding small_cache_def by (rule buffer_init_cache_inv [OF refl]) (simp add: small_data)

lemma small_cache_simps:
  "nr_buffers small_cache = 3" "free_list small_cache = 1" "hash_table small_cache = (\<lambda>_. 0)"
  "bhs small_cache = (\<lambda>p. if p \<in> {1..3} then blank_bh\<lparr>b_data := [3072, 2048, 1024] ! (p - 1),
      b_prev_free := (if p = 1 then 3 else p - 1), b_next_free := (if p = 3 then 1 else p + 1)\<rparr> else blank_bh)"
  by (simp_all add: small_cache_def buffer_init_def small_data Let_def fun_eq_iff blank_bh_def)

lemma small_cache_free: "free_ok small_cache [1, 2, 3]"
  by (simp add: free_ok_def ring_def small_cache_simps)

theorem getblk_correct_witness:
  "getblk (\<lambda>major s. s) (\<lambda>s. s) 5 (ucast (0x301 :: u16)) 7 [end_request 3 1] small_cache \<noteq> Panicked"
  using getblk_correct [OF disk.cache_env_axioms, of "[end_request 3 1]" small_cache "0x301" 5 7] small_cache_inv by auto

theorem getblk_uncontended_witness:
  "\<exists>s'. getblk (\<lambda>major s. s) (\<lambda>s. s) (Suc 0) (ucast (0x301 :: u16)) 7 [] small_cache = Done ([], 2, s') \<and> b_count (bhs s' 2) = 1 \<and> cache_inv s'"
proof -
  have n: "\<not> (\<exists>b \<in> buffers small_cache. b_dev (bhs small_cache b) = 0x301 \<and> b_blocknr (bhs small_cache b) = 7)"
    by (simp add: small_cache_simps blank_bh_def)
  have v: "find (\<lambda>b. b_count (bhs small_cache b) = 0) ([2, 3] @ [1]) = Some 2"
    by (simp add: small_cache_simps blank_bh_def)
  have b: "set [1, 2, 3] = buffers small_cache" by (auto simp: buffers_def small_cache_simps)
  have l: "b_lock (bhs small_cache b) = 0" "b_dirt (bhs small_cache b) = 0" for b by (simp_all add: small_cache_simps blank_bh_def)
  have d: "(0x301 :: u16) \<noteq> 0" by simp
  show ?thesis
    using getblk_uncontended [OF small_cache_inv d small_cache_free l b v, of "\<lambda>major s. s" "\<lambda>s. s" 0 7 "[]"]
    unfolding if_not_P [OF n] by blast
qed

theorem buffer_init_layout_witness:
  "\<exists>t. t = buffer_init 0 4096 small_cache \<and> cache_inv t \<and> b_data (bhs t 2) + 1024 \<le> b_data (bhs t 1)"
  using buffer_init_layout [OF refl, of 0 4096 small_cache] by (simp add: buffer_init_def small_data Let_def buffers_def)

end
