(* ===== verification/Swap.thy ===== *)
theory Swap
  imports Task_State
begin

text \<open>
  Physical pages and swapping, \<^verbatim>\<open>mm/swap.c\<close>: the page allocator over \<^verbatim>\<open>mem_map\<close>, the bitmap of
  the swap space, swapping a page in and out, and the clock hand that looks for a victim.

  Physical memory is a function from (word aligned) addresses to 32-bit words; the page directory
  is at address 0 and page tables are pages like any other.  A disk is a function from device, block and
  index to a word; the transfers of the block layer take place at once.  Messages of \<^verbatim>\<open>printk\<close> and the flush of
  the translation buffer are left out.
\<close>

section \<open>State\<close>

record mm =
  phys :: "u32 \<Rightarrow> u32"
  mem_map :: "nat \<Rightarrow> u8"
  HIGH_MEMORY :: u32
  last_pages :: "u32 list"
  last_checked :: nat
  swap_bitmap :: u32
  swap_device :: u32
  swap_file :: ptr
  swap_file_dev :: u32
  swap_zone :: "u32 \<Rightarrow> u32"
  disk :: "u32 \<Rightarrow> u32 \<Rightarrow> nat \<Rightarrow> u32"
  dir_entry :: int
  page_entry :: int
  sched :: sched_state

text \<open>
  The ways a routine ends: it returns, the process is killed by \<^verbatim>\<open>do_exit(SIGSEGV)\<close>, the kernel panics, or a loop
  is still running when its fuel is used up.
\<close>

datatype 'a vm = Ok 'a mm | Killed mm | Panic | Running

fun vm_then :: "'a vm \<Rightarrow> ('a \<Rightarrow> mm \<Rightarrow> 'b vm) \<Rightarrow> 'b vm" where
  "vm_then (Ok a s) f = f a s"
| "vm_then (Killed s) f = Killed s"
| "vm_then Panic f = Panic"
| "vm_then Running f = Running"

definition oom :: "mm \<Rightarrow> 'a vm" where
  "oom s = Killed s"

abbreviation (input) LOW_MEM :: u32 where "LOW_MEM \<equiv> 0x100000"
abbreviation (input) PAGING_MEMORY :: u32 where "PAGING_MEMORY \<equiv> 0xF00000"
abbreviation (input) PAGING_PAGES :: nat where "PAGING_PAGES \<equiv> 3840"
abbreviation (input) USED :: u8 where "USED \<equiv> 100"
abbreviation (input) PAGE_DIRTY :: u32 where "PAGE_DIRTY \<equiv> 0x40"
abbreviation (input) TASK_SIZE :: u32 where "TASK_SIZE \<equiv> 0x4000000"
abbreviation (input) SWAP_BITS :: nat where "SWAP_BITS \<equiv> 32768"
abbreviation (input) VM_PAGES :: int where "VM_PAGES \<equiv> 1032192"
abbreviation (input) FRAME :: u32 where "FRAME \<equiv> 0xfffff000"

definition MAP_NR :: "u32 \<Rightarrow> nat" where
  "MAP_NR addr = unat (drop_bit 12 (addr - LOW_MEM))"

definition store :: "u32 \<Rightarrow> u32 \<Rightarrow> mm \<Rightarrow> mm" where
  "store a v s = s\<lparr>phys := (phys s)(a := v)\<rparr>"

definition set_map :: "nat \<Rightarrow> u8 \<Rightarrow> mm \<Rightarrow> mm" where
  "set_map i c s = s\<lparr>mem_map := (mem_map s)(i := c)\<rparr>"

text \<open>All words of a page, by index.\<close>

definition page_word :: "mm \<Rightarrow> u32 \<Rightarrow> nat \<Rightarrow> u32" where
  "page_word s page i = phys s (page + of_nat (4 * i))"

definition fill_page :: "u32 \<Rightarrow> (nat \<Rightarrow> u32) \<Rightarrow> mm \<Rightarrow> mm" where
  "fill_page page f s =
    s\<lparr>phys := (\<lambda>a. if a AND FRAME = page then f (unat (drop_bit 2 (a AND 0xfff))) else phys s a)\<rparr>"

definition copy_page :: "u32 \<Rightarrow> u32 \<Rightarrow> mm \<Rightarrow> mm" where
  "copy_page from to s = fill_page to (page_word s from) s"

text \<open>Bytes within words.\<close>

definition load_byte :: "mm \<Rightarrow> u32 \<Rightarrow> u8" where
  "load_byte s a = ucast (drop_bit (8 * unat (a AND 3)) (phys s (a AND NOT 3)))"

definition store_byte :: "u32 \<Rightarrow> u8 \<Rightarrow> mm \<Rightarrow> mm" where
  "store_byte a v s =
    (let w = a AND NOT 3; n = 8 * unat (a AND 3)
     in store w ((phys s w AND NOT (push_bit n 0xff)) OR push_bit n (ucast v)) s)"

section \<open>The swap bitmap\<close>

definition bit_word :: "u32 \<Rightarrow> nat \<Rightarrow> u32" where
  "bit_word addr nr = addr + of_nat (4 * (nr div 32))"

definition test_bit :: "u32 \<Rightarrow> nat \<Rightarrow> mm \<Rightarrow> bool" where
  "test_bit addr nr s \<longleftrightarrow> bit (phys s (bit_word addr nr)) (nr mod 32)"

definition setbit :: "u32 \<Rightarrow> nat \<Rightarrow> mm \<Rightarrow> bool \<times> mm" where
  "setbit addr nr s = (test_bit addr nr s, store (bit_word addr nr) (set_bit (nr mod 32) (phys s (bit_word addr nr))) s)"

definition clrbit :: "u32 \<Rightarrow> nat \<Rightarrow> mm \<Rightarrow> bool \<times> mm" where
  "clrbit addr nr s = (test_bit addr nr s, store (bit_word addr nr) (unset_bit (nr mod 32) (phys s (bit_word addr nr))) s)"

text \<open>The first set bit is cleared; \<^verbatim>\<open>clrbit\<close> on a clear bit changes nothing.  Bit 0 is never used.\<close>

definition get_swap_page :: "mm \<Rightarrow> nat \<times> mm" where
  "get_swap_page s =
    (if swap_bitmap s = 0 then (0, s)
     else case find (\<lambda>nr. test_bit (swap_bitmap s) nr s) [1..<SWAP_BITS] of
       None \<Rightarrow> (0, s)
     | Some nr \<Rightarrow> (nr, snd (clrbit (swap_bitmap s) nr s)))"

text \<open>The flag says whether the message about a bad bitmap was printed.\<close>

definition swap_free :: "u32 \<Rightarrow> mm \<Rightarrow> bool \<times> mm" where
  "swap_free swap_nr s =
    (if swap_nr = 0 then (False, s)
     else if swap_bitmap s \<noteq> 0 \<and> swap_nr <s 0x8000 then setbit (swap_bitmap s) (unat swap_nr) s
     else (True, s))"

section \<open>Transfers\<close>

definition READ :: int where "READ = 0"
definition WRITE :: int where "WRITE = 1"

definition read_zones :: "u32 \<Rightarrow> u32 list \<Rightarrow> u32 \<Rightarrow> mm \<Rightarrow> mm" where
  "read_zones dev zones buf s = fill_page buf (\<lambda>i. disk s dev (zones ! (i div 256)) (i mod 256)) s"

definition write_zones :: "u32 \<Rightarrow> u32 list \<Rightarrow> u32 \<Rightarrow> mm \<Rightarrow> mm" where
  "write_zones dev zones buf s =
    fold (\<lambda>k s. s\<lparr>disk := (disk s)(dev := (disk s dev)(zones ! k := (\<lambda>i. page_word s buf (256 * k + i))))\<rparr>) [0..<4] s"

definition transfer :: "int \<Rightarrow> u32 \<Rightarrow> u32 list \<Rightarrow> u32 \<Rightarrow> mm \<Rightarrow> mm" where
  "transfer rw dev zones buf s =
    (if rw = READ then read_zones dev zones buf s else if rw = WRITE then write_zones dev zones buf s else s)"

definition four_blocks :: "u32 \<Rightarrow> u32 list" where
  "four_blocks nr = map (\<lambda>i. push_bit 2 nr + of_nat i) [0..<4]"

definition rw_swap_page :: "int \<Rightarrow> u32 \<Rightarrow> u32 \<Rightarrow> mm \<Rightarrow> mm" where
  "rw_swap_page rw nr buf s =
    (if swap_device s \<noteq> 0 then transfer rw (swap_device s) (four_blocks nr) buf s
     else if swap_file s \<noteq> NULL then
       let zones = map (swap_zone s) (four_blocks nr)
       in if 0 \<in> set zones then s else transfer rw (swap_file_dev s) zones buf s
     else s)"

abbreviation (input) read_swap_page where "read_swap_page \<equiv> rw_swap_page READ"
abbreviation (input) write_swap_page where "write_swap_page \<equiv> rw_swap_page WRITE"

section \<open>Pages\<close>

text \<open>\<^verbatim>\<open>free_page\<close> of \<^verbatim>\<open>mm/memory.c\<close>; the flag says whether it complained.\<close>

definition free_page :: "u32 \<Rightarrow> mm \<Rightarrow> bool \<times> mm" where
  "free_page addr s =
    (if addr < LOW_MEM then (False, s)
     else if addr < HIGH_MEMORY s then
       let i = MAP_NR addr; old = mem_map s i
       in if old \<noteq> 0 then (False, set_map i (old - 1) s) else (True, set_map i 0 s)
     else (True, s))"

definition try_to_swap_out :: "u32 \<Rightarrow> mm \<Rightarrow> bool \<times> mm" where
  "try_to_swap_out table_ptr s =
    (let page = phys s table_ptr in
     if page AND 1 = 0 then (False, s)
     else if page - LOW_MEM > PAGING_MEMORY then (False, s)
     else if page AND PAGE_DIRTY \<noteq> 0 then
       let page = page AND FRAME in
       if mem_map s (MAP_NR page) \<noteq> 1 then (False, s)
       else case get_swap_page s of (swap_nr, s) \<Rightarrow>
         if swap_nr = 0 then (False, s)
         else
           let s = store table_ptr (push_bit 1 (of_nat swap_nr)) s;
               s = write_swap_page (of_nat swap_nr) page s
           in (True, snd (free_page page s))
     else
       let page = page AND FRAME
       in (True, snd (free_page page (store table_ptr 0 s))))"

text \<open>
  The clock hand: \<open>None\<close> is the label \<^verbatim>\<open>check_dir\<close>, \<open>Some t\<close> the label \<^verbatim>\<open>check_table\<close> with the page table at \<open>t\<close>.
\<close>

definition dec_rss :: "mm \<Rightarrow> mm" where
  "dec_rss s =
    (let t = task (sched s) ! nat (dir_entry s div 16)
     in if t = NULL then s else s\<lparr>sched := upd_task t (\<lambda>p. p\<lparr>rss := rss p - 1\<rparr>) (sched s)\<rparr>)"

function swap_scan :: "u32 option \<Rightarrow> int \<Rightarrow> mm \<Rightarrow> bool \<times> mm" where
  "swap_scan at n s =
    (if n < 0 then (False, s)
     else case at of
       None \<Rightarrow>
         let s = (if dir_entry s \<ge> 1024 then s\<lparr>dir_entry := 16\<rparr> else s);
             pde = of_int (4 * dir_entry s);
             pg_table = phys s pde
         in if pg_table AND 1 = 0 then
              let s = (if pg_table \<noteq> 0 then store pde 0 s else s)
              in swap_scan None (n - 1024) (s\<lparr>dir_entry := dir_entry s + 1\<rparr>)
            else swap_scan (Some (pg_table AND FRAME)) n s
     | Some pg_table \<Rightarrow>
         let s = s\<lparr>page_entry := page_entry s + 1\<rparr>
         in if page_entry s \<ge> 1024 then
              swap_scan None (n - 1) (s\<lparr>page_entry := -1, dir_entry := dir_entry s + 1\<rparr>)
            else case try_to_swap_out (pg_table + of_int (4 * page_entry s)) s of (swapped, s) \<Rightarrow>
              if swapped then (True, dec_rss s) else swap_scan at (n - 1) s)"
  by pat_completeness auto
termination by (relation "measure (\<lambda>(at, n, s). 2 * nat (n + 1) + (if at = None then 1 else 0))") auto

declare swap_scan.simps [simp del]

definition swap_out :: "mm \<Rightarrow> bool \<times> mm" where
  "swap_out s = swap_scan None VM_PAGES s"

text \<open>The scan of \<^verbatim>\<open>mem_map\<close> from the top, in assembly: the page found is marked and cleared.\<close>

definition grab_page :: "mm \<Rightarrow> u32 \<times> mm" where
  "grab_page s =
    (case find (\<lambda>i. mem_map s i = 0) (rev [0..<PAGING_PAGES]) of
       None \<Rightarrow> (0, s)
     | Some i \<Rightarrow>
         let page = push_bit 12 (of_nat i) + LOW_MEM
         in (page, fill_page page (\<lambda>_. 0) (set_map i 1 s)))"

text \<open>\<open>None\<close> when the loop is still running after \<open>fuel\<close> rounds.\<close>

fun get_free_page :: "nat \<Rightarrow> mm \<Rightarrow> (u32 \<times> mm) option" where
  "get_free_page 0 s = None"
| "get_free_page (Suc fuel) s =
    (case grab_page s of (result, s) \<Rightarrow>
      if result \<ge> HIGH_MEMORY s then get_free_page fuel s
      else
        let result = (if result \<noteq> 0 \<and> result < LOW_MEM \<or> result AND 0xfff \<noteq> 0 then 0 else result)
        in if result = 0 then
             (case swap_out s of (True, s) \<Rightarrow> get_free_page fuel s | (False, s) \<Rightarrow> Some (0, s))
           else Some (result, s))"

definition new_page :: "nat \<Rightarrow> mm \<Rightarrow> u32 vm" where
  "new_page fuel s = (case get_free_page fuel s of None \<Rightarrow> Running | Some (page, s) \<Rightarrow> Ok page s)"

definition swap_in :: "nat \<Rightarrow> u32 \<Rightarrow> mm \<Rightarrow> unit vm" where
  "swap_in fuel table_ptr s =
    (if swap_bitmap s = 0 then Ok () s
     else if phys s table_ptr AND 1 \<noteq> 0 then Ok () s
     else
       let swap_nr = drop_bit 1 (phys s table_ptr) in
       if swap_nr = 0 then Ok () s
       else vm_then (new_page fuel s) (\<lambda>page s.
         if page = 0 then oom s
         else
           let s = read_swap_page swap_nr page s;
               s = snd (setbit (swap_bitmap s) (unat swap_nr) s)
           in Ok () (store table_ptr (page OR (PAGE_DIRTY OR 7)) s)))"

section \<open>sys\_swapon\<close>

text \<open>
  \<^verbatim>\<open>inode\<close> is what \<^verbatim>\<open>namei\<close> found: its number, mode, device and \<^verbatim>\<open>i_rdev\<close>, with the block map a
  regular file would get.  \<open>super\<close> is the result of the call \<^verbatim>\<open>super()\<close>, a function the tree does not define.
\<close>

record swap_inode =
  si_ptr :: ptr
  si_mode :: u16
  si_dev :: u32
  si_rdev :: u32
  si_zones :: "u32 \<Rightarrow> u32"

definition no_swap :: "mm \<Rightarrow> mm" where
  "no_swap s = s\<lparr>swap_device := 0, swap_file := NULL, swap_bitmap := 0\<rparr>"

definition sys_swapon :: "nat \<Rightarrow> bool \<Rightarrow> swap_inode option \<Rightarrow> mm \<Rightarrow> int vm" where
  "sys_swapon fuel super inode s =
    (if \<not> super then Ok (- EPERM) s
     else case inode of
       None \<Rightarrow> Ok (- ENOENT) s
     | Some ino \<Rightarrow>
         if swap_file s \<noteq> NULL \<or> swap_device s \<noteq> 0 \<or> swap_bitmap s \<noteq> 0 then Ok (- EBUSY) s
         else if si_mode ino AND 0xF000 \<noteq> 0x6000 \<and> si_mode ino AND 0xF000 \<noteq> 0x8000 then Ok (- EINVAL) s
         else
           let s = (if si_mode ino AND 0xF000 = 0x6000 then s\<lparr>swap_device := si_rdev ino\<rparr>
                    else s\<lparr>swap_file := si_ptr ino, swap_file_dev := si_dev ino, swap_zone := si_zones ino\<rparr>)
           in vm_then (new_page fuel s) (\<lambda>bitmap s.
                  if bitmap = 0 then Ok (- ENOMEM) (no_swap s)
                  else
                    let s = read_swap_page 0 bitmap (s\<lparr>swap_bitmap := bitmap\<rparr>) in
                    if map (\<lambda>i. load_byte s (bitmap + 4086 + of_nat i)) [0..<10] \<noteq>
                       [0x53, 0x57, 0x41, 0x50, 0x2D, 0x53, 0x50, 0x41, 0x43, 0x45]
                    then Ok (- EINVAL) (no_swap (snd (free_page bitmap s)))
                    else
                      let s = fold (\<lambda>i. store_byte (bitmap + 4086 + of_nat i) 0) [0..<10] s
                      in if find (\<lambda>i. test_bit bitmap i s) [1..<SWAP_BITS] = None
                         then Ok (- EINVAL) (no_swap (snd (free_page bitmap s)))
                         else Ok 0 s))"

section \<open>Addresses, pages and bits\<close>

declare upt_rec_numeral [simp del]

lemma upt_4: "[0..<4] = [0, 1, 2, 3 :: nat]"
  by (simp add: upt_conv_Cons eval_nat_numeral)

definition page_aligned :: "u32 \<Rightarrow> bool" where
  "page_aligned p \<longleftrightarrow> p AND 0xfff = 0"

lemma low_mask: "(0xfff :: u32) = mask 12" "(FRAME :: u32) = NOT (mask 12)"
  by (simp_all add: mask_eq_exp_minus_1)

lemma low_bits: "x < 0x1000 \<Longrightarrow> bit x n \<Longrightarrow> n < 12" for x :: u32
proof -
  assume x: "x < 0x1000" "bit x n"
  have "x = take_bit 12 x" using less_mask_eq [of x 12] x(1) by (simp add: take_bit_eq_mask)
  then show "n < 12" using x(2) by (metis bit_take_bit_iff)
qed

lemma aligned_bits: "page_aligned p \<Longrightarrow> bit p n \<Longrightarrow> 12 \<le> n"
  unfolding page_aligned_def low_mask(1)
  by (metis bit_0_eq bit_and_iff bit_imp_le_length bit_mask_iff bot_apply bot_bool_def linorder_not_le possible_bit_word)

lemma page_offset:
  assumes "page_aligned p" "x < 0x1000"
  shows "(p + x) AND FRAME = p" "(p + x) AND 0xfff = x"
proof -
  have "p AND x = 0"
    by (rule bit_eqI) (use aligned_bits [OF assms(1)] low_bits [OF assms(2)] in \<open>auto simp: bit_simps not_le [symmetric]\<close>)
  then have e: "p + x = p OR x" by (rule disjunctive_add_eq_or)
  show "(p + x) AND FRAME = p" "(p + x) AND 0xfff = x" unfolding e low_mask
    by (rule bit_eqI; use aligned_bits [OF assms(1)] low_bits [OF assms(2)] in \<open>fastforce simp: bit_simps\<close>)+
qed

lemma frame_aligned [simp]: "page_aligned (a AND FRAME)"
  unfolding page_aligned_def low_mask by (rule bit_eqI) (auto simp: bit_simps)

lemma frame_of_aligned: "page_aligned p \<Longrightarrow> p AND FRAME = p"
  using page_offset(1) [of p 0] by simp

lemma of_nat_u32: "n < 2 ^ 32 \<Longrightarrow> unat (of_nat n :: u32) = n"
  by (simp add: unat_of_nat take_bit_nat_eq_self)

lemma word_index: "i < 1024 \<Longrightarrow> (of_nat (4 * i) :: u32) < 0x1000"
proof -
  assume "i < 1024"
  then have "unat (of_nat (4 * i) :: u32) = 4 * i" by (intro of_nat_u32) simp
  then show ?thesis using \<open>i < 1024\<close> by (simp add: word_less_nat_alt del: of_nat_mult)
qed

lemma page_index:
  assumes "page_aligned p" "i < 1024"
  shows "(p + of_nat (4 * i)) AND FRAME = p" "unat (drop_bit 2 ((p + of_nat (4 * i)) AND 0xfff)) = i"
proof -
  note o = page_offset [OF assms(1) word_index [OF assms(2)]]
  show "(p + of_nat (4 * i)) AND FRAME = p" by (rule o(1))
  have "unat (of_nat (4 * i) :: u32) = 4 * i" using assms(2) by (intro of_nat_u32) simp
  then show "unat (drop_bit 2 ((p + of_nat (4 * i)) AND 0xfff)) = i"
    unfolding o(2) unat_drop_bit_eq by (simp add: drop_bit_eq_div del: of_nat_mult)
qed

lemma store_simps [simp]:
  "phys (store a v s) b = (if b = a then v else phys s b)" "mem_map (store a v s) = mem_map s"
  "HIGH_MEMORY (store a v s) = HIGH_MEMORY s" "swap_bitmap (store a v s) = swap_bitmap s"
  "swap_device (store a v s) = swap_device s" "swap_file (store a v s) = swap_file s" "disk (store a v s) = disk s"
  "swap_zone (store a v s) = swap_zone s" "swap_file_dev (store a v s) = swap_file_dev s"
  by (simp_all add: store_def)

lemma set_map_simps [simp]:
  "mem_map (set_map i c s) j = (if j = i then c else mem_map s j)" "phys (set_map i c s) = phys s"
  "HIGH_MEMORY (set_map i c s) = HIGH_MEMORY s" "swap_bitmap (set_map i c s) = swap_bitmap s"
  "swap_device (set_map i c s) = swap_device s" "swap_file (set_map i c s) = swap_file s" "disk (set_map i c s) = disk s"
  "swap_zone (set_map i c s) = swap_zone s" "swap_file_dev (set_map i c s) = swap_file_dev s"
  by (simp_all add: set_map_def)

lemma fill_page_simps [simp]:
  "mem_map (fill_page p f s) = mem_map s" "HIGH_MEMORY (fill_page p f s) = HIGH_MEMORY s" "swap_bitmap (fill_page p f s) = swap_bitmap s"
  "swap_device (fill_page p f s) = swap_device s" "swap_file (fill_page p f s) = swap_file s" "disk (fill_page p f s) = disk s"
  "swap_zone (fill_page p f s) = swap_zone s" "swap_file_dev (fill_page p f s) = swap_file_dev s"
  by (simp_all add: fill_page_def)

lemma fill_page_other: "a AND FRAME \<noteq> p \<Longrightarrow> phys (fill_page p f s) a = phys s a"
  by (simp add: fill_page_def)

lemma fill_page_same: "page_aligned p \<Longrightarrow> i < 1024 \<Longrightarrow> page_word (fill_page p f s) p i = f i"
  using page_index by (simp add: fill_page_def page_word_def)

lemma page_word_cong:
  assumes "page_aligned p" "i < 1024" "\<And>a. a AND FRAME = p \<Longrightarrow> phys s' a = phys s a"
  shows "page_word s' p i = page_word s p i"
  using assms(3) page_index(1) [OF assms(1,2)] by (simp add: page_word_def)

lemma fill_page_elsewhere:
  "page_aligned q \<Longrightarrow> i < 1024 \<Longrightarrow> q \<noteq> p \<Longrightarrow> page_word (fill_page p f s) q i = page_word s q i"
  by (rule page_word_cong) (auto simp: fill_page_other)

section \<open>The allocator\<close>

lemma page_of_index:
  assumes "k < 3840"
  defines "page \<equiv> (push_bit 12 (of_nat k) + LOW_MEM :: u32)"
  shows "MAP_NR page = k" "page_aligned page" "LOW_MEM \<le> page" "unat page = 4096 * k + 0x100000"
proof -
  have k: "unat (of_nat k :: u32) = k" using assms(1) by (intro of_nat_u32) simp
  have p: "unat (push_bit 12 (of_nat k) :: u32) = 4096 * k"
    using assms(1) k by (simp add: push_bit_eq_mult unat_word_ariths)
  then show u: "unat page = 4096 * k + 0x100000" using assms(1) by (simp add: page_def unat_word_ariths)
  have "page - LOW_MEM = push_bit 12 (of_nat k)" by (simp add: page_def)
  then show "MAP_NR page = k" using p unfolding MAP_NR_def unat_drop_bit_eq by (simp add: drop_bit_eq_div)
  show "LOW_MEM \<le> page" using u by (simp add: word_le_nat_alt)
  have "unat (page AND 0xfff) = 0"
    unfolding low_mask(1) take_bit_eq_mask [symmetric] unsigned_take_bit_eq u
    by (simp add: take_bit_eq_mod)
  then show "page_aligned page" by (simp add: page_aligned_def unat_eq_0)
qed

lemma grab_page_top:
  assumes "i < 3840" "mem_map s i = 0"
  shows "\<exists>k. i \<le> k \<and> k < 3840 \<and> mem_map s k = 0 \<and> (\<forall>j. k < j \<and> j < 3840 \<longrightarrow> mem_map s j \<noteq> 0) \<and>
    grab_page s = (let page = push_bit 12 (of_nat k) + LOW_MEM in (page, fill_page page (\<lambda>_. 0) (set_map k 1 s)))"
proof -
  define P where "P j \<longleftrightarrow> j < 3840 \<and> mem_map s j = 0" for j
  obtain k where k: "P k" "\<And>j. P j \<Longrightarrow> j \<le> k"
    using ex_has_greatest_nat [of P i id 3840] assms by (auto simp: P_def)
  have split: "rev [0..<3840] = rev [Suc k..<3840] @ k # rev [0..<k]"
  proof -
    have "[0..<3840] = [0..<k] @ [k..<3840]" using k(1) upt_add_eq_append [of 0 k "3840 - k"] by (simp add: P_def)
    also have "[k..<3840] = k # [Suc k..<3840]" using k(1) by (simp add: P_def upt_conv_Cons)
    finally show ?thesis by simp
  qed
  have n: "mem_map s j \<noteq> 0" if "k < j" "j < 3840" for j using k(2) [of j] that by (auto simp: P_def)
  then have "find (\<lambda>i. mem_map s i = 0) (rev [Suc k..<3840]) = None" by (auto simp: find_None_iff)
  then have "find (\<lambda>i. mem_map s i = 0) (rev [0..<3840]) = Some k"
    unfolding split using k(1) by (simp add: find_append P_def)
  then show ?thesis using k n assms by (intro exI [of _ k]) (auto simp: grab_page_def P_def Let_def)
qed

text \<open>What taking the free page \<open>k\<close> does to the state.\<close>

definition taken :: "nat \<Rightarrow> mm \<Rightarrow> mm" where
  "taken k s = fill_page (push_bit 12 (of_nat k) + LOW_MEM) (\<lambda>_. 0) (set_map k 1 s)"

definition free_below :: "mm \<Rightarrow> bool" where
  "free_below s \<longleftrightarrow> (\<forall>j < 3840. mem_map s j = 0 \<longrightarrow> push_bit 12 (of_nat j) + LOW_MEM < HIGH_MEMORY s)"

lemma get_free_page_taken:
  assumes "i < 3840" "mem_map s i = 0" "free_below s"
  shows "\<exists>k. i \<le> k \<and> k < 3840 \<and> mem_map s k = 0 \<and> (\<forall>j. k < j \<and> j < 3840 \<longrightarrow> mem_map s j \<noteq> 0) \<and>
    get_free_page (Suc fuel) s = Some (push_bit 12 (of_nat k) + LOW_MEM, taken k s)"
proof -
  obtain k where k: "i \<le> k" "k < 3840" "mem_map s k = 0" "\<forall>j. k < j \<and> j < 3840 \<longrightarrow> mem_map s j \<noteq> 0"
    "grab_page s = (push_bit 12 (of_nat k) + LOW_MEM, taken k s)"
    using grab_page_top [OF assms(1,2)] by (auto simp: Let_def taken_def)
  note p = page_of_index [OF k(2)]
  define page where "page = (push_bit 12 (of_nat k) + LOW_MEM :: u32)"
  have lt: "page < HIGH_MEMORY (taken k s)" using assms(3) k(2,3) by (simp add: free_below_def taken_def page_def)
  have nz: "page \<noteq> 0" "\<not> page < LOW_MEM" "page AND 0xfff = 0" using p(2,3) unfolding page_def page_aligned_def by auto
  have "get_free_page (Suc fuel) s = Some (page, taken k s)"
    using k(5) lt nz unfolding page_def [symmetric] by (simp add: Let_def not_le [symmetric])
  then show ?thesis using k(1-4) unfolding page_def by blast
qed

lemma taken_simps:
  assumes "k < 3840"
  defines "page \<equiv> push_bit 12 (of_nat k) + LOW_MEM"
  shows "mem_map (taken k s) = (mem_map s)(k := 1)" "i < 1024 \<Longrightarrow> page_word (taken k s) page i = 0"
    "a AND FRAME \<noteq> page \<Longrightarrow> phys (taken k s) a = phys s a" "HIGH_MEMORY (taken k s) = HIGH_MEMORY s"
    "swap_bitmap (taken k s) = swap_bitmap s" "swap_device (taken k s) = swap_device s" "disk (taken k s) = disk s"
    "swap_file (taken k s) = swap_file s" "swap_zone (taken k s) = swap_zone s" "swap_file_dev (taken k s) = swap_file_dev s"
  using page_of_index [OF assms(1)] fill_page_same [of page i "\<lambda>_. 0" "set_map k 1 s"]
  by (auto simp: taken_def page_def fill_page_other fun_eq_iff)

section \<open>Swap space\<close>

lemma get_swap_page_spec:
  assumes "get_swap_page s = (nr, s')" "nr \<noteq> 0"
  shows "0 < nr" "nr < 32768" "swap_bitmap s \<noteq> 0" "test_bit (swap_bitmap s) nr s"
    "s' = snd (clrbit (swap_bitmap s) nr s)"
proof -
  have f: "swap_bitmap s \<noteq> 0" "find (\<lambda>nr. test_bit (swap_bitmap s) nr s) [1..<32768] = Some nr"
    "s' = snd (clrbit (swap_bitmap s) nr s)"
    using assms by (auto simp: get_swap_page_def split: if_splits option.splits)
  then show "swap_bitmap s \<noteq> 0" "s' = snd (clrbit (swap_bitmap s) nr s)" by auto
  have "nr \<in> set [1..<32768] \<and> test_bit (swap_bitmap s) nr s" by (rule find_SomeD [OF f(2)])
  then show "0 < nr" "nr < 32768" "test_bit (swap_bitmap s) nr s" unfolding set_upt atLeastLessThan_iff by linarith+
qed

lemma bit_word_page:
  assumes "page_aligned b" "nr < 32768"
  shows "bit_word b nr AND FRAME = b"
  using page_index(1) [OF assms(1), of "nr div 32"] assms(2) by (simp add: bit_word_def)

lemma bit_word_inj:
  assumes "page_aligned b" "m < 32768" "n < 32768" "bit_word b m = bit_word b n"
  shows "m div 32 = n div 32"
proof -
  have "m div 32 < 1024" "n div 32 < 1024" using assms(2,3) by linarith+
  then show ?thesis
    using page_index(2) [OF assms(1)] assms(4) unfolding bit_word_def by metis
qed

lemma test_bit_set:
  assumes "page_aligned b" "m < 32768" "n < 32768"
  shows "test_bit b m (snd (setbit b n s)) \<longleftrightarrow> m = n \<or> test_bit b m s"
    "test_bit b m (snd (clrbit b n s)) \<longleftrightarrow> m \<noteq> n \<and> test_bit b m s"
proof -
  have m: "m mod 32 < 32" "n mod 32 < 32" by simp_all
  have e: "m = n \<longleftrightarrow> m div 32 = n div 32 \<and> m mod 32 = n mod 32" by (metis div_mult_mod_eq)
  show "test_bit b m (snd (setbit b n s)) \<longleftrightarrow> m = n \<or> test_bit b m s"
    "test_bit b m (snd (clrbit b n s)) \<longleftrightarrow> m \<noteq> n \<and> test_bit b m s"
    using bit_word_inj [OF assms] m e
    by (auto simp: test_bit_def setbit_def clrbit_def bit_set_bit_iff bit_unset_bit_iff bit_word_def)
qed

lemma setbit_other:
  assumes "page_aligned b" "nr < 32768" "a AND FRAME \<noteq> b"
  shows "phys (snd (setbit b nr s)) a = phys s a" "phys (snd (clrbit b nr s)) a = phys s a"
  using bit_word_page [OF assms(1,2)] assms(3) by (auto simp: setbit_def clrbit_def)

lemma setbit_simps [simp]:
  "mem_map (snd (setbit b n s)) = mem_map s" "HIGH_MEMORY (snd (setbit b n s)) = HIGH_MEMORY s"
  "swap_bitmap (snd (setbit b n s)) = swap_bitmap s" "swap_device (snd (setbit b n s)) = swap_device s" "disk (snd (setbit b n s)) = disk s"
  "mem_map (snd (clrbit b n s)) = mem_map s" "HIGH_MEMORY (snd (clrbit b n s)) = HIGH_MEMORY s"
  "swap_bitmap (snd (clrbit b n s)) = swap_bitmap s" "swap_device (snd (clrbit b n s)) = swap_device s" "disk (snd (clrbit b n s)) = disk s"
  by (simp_all add: setbit_def clrbit_def)

lemma four_blocks: "length (four_blocks nr) = 4" "distinct (four_blocks nr)"
  by (simp_all add: four_blocks_def upt_4)

lemma write_zones_disk:
  assumes "distinct zs" "length zs = 4" "k < 4"
  shows "disk (write_zones dev zs buf s) dev (zs ! k) i = page_word s buf (256 * k + i)"
proof -
  obtain a b c d where zs: "zs = [a, b, c, d]"
    using assms(2) by (auto simp: numeral_eq_Suc length_Suc_conv)
  have "k = 0 \<or> k = 1 \<or> k = 2 \<or> k = 3" using assms(3) by auto
  then show ?thesis using assms(1) by (auto simp: zs write_zones_def upt_4 page_word_def)
qed

lemma write_zones_simps [simp]:
  "phys (write_zones dev zs buf s) = phys s" "mem_map (write_zones dev zs buf s) = mem_map s"
  "HIGH_MEMORY (write_zones dev zs buf s) = HIGH_MEMORY s" "swap_bitmap (write_zones dev zs buf s) = swap_bitmap s"
  "swap_device (write_zones dev zs buf s) = swap_device s"
  by (simp_all add: write_zones_def upt_4)

lemma swap_device_round_trip:
  assumes "swap_device s \<noteq> 0" "page_aligned q" "swap_device t = swap_device s" "disk t = disk (rw_swap_page WRITE nr p s)" "i < 1024"
  shows "page_word (rw_swap_page READ nr q t) q i = page_word s p i"
proof -
  have "256 * (i div 256) + i mod 256 = i" "i div 256 < 4" using assms(5) by auto
  then show ?thesis
    using assms write_zones_disk [OF four_blocks(2,1), of "i div 256" "swap_device s" nr p s "i mod 256"]
    by (simp add: rw_swap_page_def transfer_def READ_def WRITE_def read_zones_def fill_page_same)
qed

lemma test_bit_cong:
  assumes "page_aligned b" "m < 32768" "\<And>a. a AND FRAME = b \<Longrightarrow> phys s' a = phys s a"
  shows "test_bit b m s' = test_bit b m s"
  using assms(3) bit_word_page [OF assms(1,2)] by (simp add: test_bit_def)

lemma aligned_or:
  assumes "page_aligned p" "x < 0x1000"
  shows "(p OR x) AND FRAME = p" "(p OR x) AND 0xfff = x"
proof -
  have "p AND x = 0"
    by (rule bit_eqI) (use aligned_bits [OF assms(1)] low_bits [OF assms(2)] in \<open>auto simp: bit_simps not_le [symmetric]\<close>)
  then have "p + x = p OR x" by (rule disjunctive_add_eq_or)
  then show "(p OR x) AND FRAME = p" "(p OR x) AND 0xfff = x" using page_offset [OF assms] by simp_all
qed

definition managed :: "u32 \<Rightarrow> bool" where
  "managed p \<longleftrightarrow> page_aligned p \<and> LOW_MEM \<le> p \<and> MAP_NR p < 3840"

lemma managed_page: "managed p \<Longrightarrow> push_bit 12 (of_nat (MAP_NR p)) + LOW_MEM = p"
proof -
  assume m: "managed p"
  define x where "x = p - LOW_MEM"
  have al: "unat p mod 4096 = 0"
  proof -
    have "unat (p AND mask 12) = 0" using m unfolding managed_def page_aligned_def low_mask(1) by simp
    then show ?thesis unfolding take_bit_eq_mask [symmetric] unsigned_take_bit_eq by (simp add: take_bit_eq_mod)
  qed
  have u: "unat x = unat p - 0x100000" "0x100000 \<le> unat p"
    using m by (simp_all add: x_def managed_def unat_sub word_le_nat_alt)
  have "4096 dvd unat x" unfolding u(1) by (rule dvd_diff_nat) (use al in \<open>simp_all add: dvd_eq_mod_eq_0\<close>)
  then have m4: "4096 * (unat x div 4096) = unat x" by simp
  have "x = of_nat (unat x)" by simp
  also have "\<dots> = of_nat (4096 * (unat x div 4096))" unfolding m4 ..
  also have "\<dots> = push_bit 12 (of_nat (unat x div 4096))" by (simp add: push_bit_eq_mult mult.commute)
  also have "unat x div 4096 = MAP_NR p" unfolding MAP_NR_def unat_drop_bit_eq x_def by (simp add: drop_bit_eq_div)
  finally show ?thesis unfolding x_def by (metis diff_add_cancel)
qed

lemma managed_inj: "managed p \<Longrightarrow> managed q \<Longrightarrow> MAP_NR p = MAP_NR q \<Longrightarrow> p = q"
  using managed_page by metis

lemma managed_index: "k < 3840 \<Longrightarrow> managed (push_bit 12 (of_nat k) + LOW_MEM)"
  using page_of_index by (simp add: managed_def)

text \<open>A page table entry whose dirty page can go to the swap device.\<close>

definition swappable :: "u32 \<Rightarrow> mm \<Rightarrow> bool" where
  "swappable tbl s \<longleftrightarrow>
    (let e = phys s tbl; f = e AND FRAME; t = tbl AND FRAME; b = swap_bitmap s in
     swap_device s \<noteq> 0 \<and> b \<noteq> 0 \<and> e AND 1 \<noteq> 0 \<and> e AND PAGE_DIRTY \<noteq> 0 \<and> e - LOW_MEM \<le> PAGING_MEMORY \<and>
     managed f \<and> managed t \<and> managed b \<and> f < HIGH_MEMORY s \<and> distinct [f, t, b] \<and>
     mem_map s (MAP_NR f) = 1 \<and> mem_map s (MAP_NR t) \<noteq> 0 \<and> mem_map s (MAP_NR b) \<noteq> 0 \<and>
     free_below s \<and> fst (get_swap_page s) \<noteq> 0)"

lemma try_to_swap_out_dirty:
  assumes "swappable tbl s"
  defines "f \<equiv> phys s tbl AND FRAME" and "b \<equiv> swap_bitmap s"
  shows "\<exists>nr s1. try_to_swap_out tbl s = (True, s1) \<and> 0 < nr \<and> nr < 32768 \<and> test_bit b nr s \<and>
    phys s1 tbl = push_bit 1 (of_nat nr) \<and>
    (\<forall>a. a \<noteq> tbl \<longrightarrow> phys s1 a = phys (snd (clrbit b nr s)) a) \<and>
    mem_map s1 = (mem_map s)(MAP_NR f := 0) \<and> HIGH_MEMORY s1 = HIGH_MEMORY s \<and> swap_bitmap s1 = b \<and> swap_device s1 = swap_device s \<and>
    (\<exists>u. swap_device u = swap_device s \<and> disk s1 = disk (write_swap_page (of_nat nr) f u) \<and> (\<forall>i < 1024. page_word u f i = page_word s f i))"
proof -
  obtain nr a where g: "get_swap_page s = (nr, a)" "nr \<noteq> 0" using assms(1) by (cases "get_swap_page s") (auto simp: swappable_def Let_def)
  note gs = get_swap_page_spec [OF g]
  define u where "u = store tbl (push_bit 1 (of_nat nr)) a"
  define c where "c = write_swap_page (of_nat nr) f u"
  have sw: "swap_device s \<noteq> 0" "f \<noteq> tbl AND FRAME" "f \<noteq> b" "tbl AND FRAME \<noteq> b" "managed f" "managed b" "f < HIGH_MEMORY s" "mem_map s (MAP_NR f) = 1"
    using assms(1) by (auto simp: swappable_def Let_def f_def b_def)
  have al: "page_aligned b" using sw(6) by (simp add: managed_def)
  have c: "phys c = phys u" "mem_map c = mem_map s" "HIGH_MEMORY c = HIGH_MEMORY s" "swap_bitmap c = b" "swap_device c = swap_device s"
    using gs(5) sw(1) by (simp_all add: c_def u_def rw_swap_page_def transfer_def READ_def WRITE_def b_def)
  have fr: "free_page f c = (False, set_map (MAP_NR f) 0 c)"
  proof -
    have "\<not> f < LOW_MEM" using sw(5) by (simp add: managed_def linorder_not_less)
    then show ?thesis using sw(7,8) c by (simp add: free_page_def Let_def)
  qed
  have t: "try_to_swap_out tbl s = (True, set_map (MAP_NR f) 0 c)"
    using assms(1) g fr unfolding try_to_swap_out_def swappable_def Let_def f_def [symmetric] u_def c_def
    by (auto simp: not_less)
  have pw: "page_word u f i = page_word s f i" if "i < 1024" for i
  proof (rule page_word_cong)
    show "page_aligned f" "i < 1024" using sw(5) that by (simp_all add: managed_def)
    fix x assume x: "x AND FRAME = f"
    then have "x \<noteq> tbl" "x AND FRAME \<noteq> b" using sw(2,3) by auto
    then show "phys u x = phys s x" using setbit_other(2) [OF al gs(2)] by (simp add: u_def gs(5) b_def)
  qed
  define s1 where "s1 = set_map (MAP_NR f) 0 c"
  have "disk s1 = disk (write_swap_page (of_nat nr) f u)" "swap_device u = swap_device s" by (simp_all add: s1_def c_def u_def gs(5))
  then have ex: "\<exists>u. swap_device u = swap_device s \<and> disk s1 = disk (write_swap_page (of_nat nr) f u) \<and> (\<forall>i < 1024. page_word u f i = page_word s f i)"
    using pw by blast
  have ph: "phys s1 tbl = push_bit 1 (of_nat nr)" "\<forall>a. a \<noteq> tbl \<longrightarrow> phys s1 a = phys (snd (clrbit b nr s)) a"
    by (simp_all add: s1_def c(1)) (simp_all add: u_def gs(5) b_def)
  have "mem_map s1 = (mem_map s)(MAP_NR f := 0)" "HIGH_MEMORY s1 = HIGH_MEMORY s" "swap_bitmap s1 = b" "swap_device s1 = swap_device s"
    using c by (simp_all add: s1_def fun_eq_iff)
  then show ?thesis using t ex ph gs(1,2,4) unfolding s1_def [symmetric] b_def by blast
qed

section \<open>Properties\<close>

text \<open>
  C37. The page allocator: when some page is free and free pages lie below \<^verbatim>\<open>HIGH_MEMORY\<close>, \<^verbatim>\<open>get_free_page\<close> returns at
  once with the highest free page, marked used once, filled with zeros, and changes no other word of memory.
\<close>

theorem get_free_page_fresh:
  assumes "i < 3840" "mem_map s i = 0" "free_below s"
  shows "\<exists>page s'. get_free_page (Suc fuel) s = Some (page, s') \<and> LOW_MEM \<le> page \<and> page < HIGH_MEMORY s \<and> page AND 0xfff = 0 \<and>
    mem_map s (MAP_NR page) = 0 \<and> (\<forall>j. MAP_NR page < j \<and> j < 3840 \<longrightarrow> mem_map s j \<noteq> 0) \<and>
    mem_map s' = (mem_map s)(MAP_NR page := 1) \<and> (\<forall>w < 1024. page_word s' page w = 0) \<and>
    (\<forall>a. a AND FRAME \<noteq> page \<longrightarrow> phys s' a = phys s a)"
proof -
  obtain k where k: "k < 3840" "mem_map s k = 0" "\<forall>j. k < j \<and> j < 3840 \<longrightarrow> mem_map s j \<noteq> 0"
    "get_free_page (Suc fuel) s = Some (push_bit 12 (of_nat k) + LOW_MEM, taken k s)"
    using get_free_page_taken [OF assms, of fuel] by blast
  note p = page_of_index [OF k(1)]
  have "push_bit 12 (of_nat k) + LOW_MEM < HIGH_MEMORY s" using assms(3) k(1,2) by (simp add: free_below_def)
  then show ?thesis
    by (intro exI [of _ "push_bit 12 (of_nat k) + LOW_MEM"] exI [of _ "taken k s"])
      (use k p taken_simps [OF k(1), where s = s] in \<open>simp add: page_aligned_def\<close>)
qed

text \<open>
  C16. Swapping round trip: a dirty page that \<^verbatim>\<open>try_to_swap_out\<close> wrote to the swap device and \<^verbatim>\<open>swap_in\<close> brings back has its
  old contents, behind an entry that is present, writable and dirty; in between the entry is not present and the frame
  is free; at the end the swap bitmap is what it was.
\<close>

theorem swap_out_in_round_trip:
  assumes "swappable tbl s"
  shows "\<exists>s1 s2. try_to_swap_out tbl s = (True, s1) \<and> phys s1 tbl AND 1 = 0 \<and> mem_map s1 (MAP_NR (phys s tbl AND FRAME)) = 0 \<and>
    swap_in (Suc fuel) tbl s1 = Ok () s2 \<and> phys s2 tbl AND 0xfff = PAGE_DIRTY OR 7 \<and>
    (\<forall>i < 1024. page_word s2 (phys s2 tbl AND FRAME) i = page_word s (phys s tbl AND FRAME) i) \<and>
    (\<forall>m < 32768. test_bit (swap_bitmap s) m s2 = test_bit (swap_bitmap s) m s)"
proof -
  define f where "f = phys s tbl AND FRAME"
  define b where "b = swap_bitmap s"
  define t where "t = tbl AND FRAME"
  have sw: "swap_device s \<noteq> 0" "f \<noteq> t" "f \<noteq> b" "t \<noteq> b" "managed f" "managed t" "managed b" "f < HIGH_MEMORY s" "b \<noteq> 0"
      "mem_map s (MAP_NR t) \<noteq> 0" "mem_map s (MAP_NR b) \<noteq> 0" "free_below s"
    using assms by (auto simp: swappable_def Let_def f_def b_def t_def)
  obtain nr s1 u where o: "try_to_swap_out tbl s = (True, s1)" "0 < nr" "nr < 32768" "test_bit b nr s" "phys s1 tbl = push_bit 1 (of_nat nr)"
      "\<forall>a. a \<noteq> tbl \<longrightarrow> phys s1 a = phys (snd (clrbit b nr s)) a" "mem_map s1 = (mem_map s)(MAP_NR f := 0)"
      "HIGH_MEMORY s1 = HIGH_MEMORY s" "swap_bitmap s1 = b" "swap_device s1 = swap_device s"
    and u: "swap_device u = swap_device s" "disk s1 = disk (write_swap_page (of_nat nr) f u)" "\<forall>i < 1024. page_word u f i = page_word s f i"
    using try_to_swap_out_dirty [OF assms, folded f_def b_def] by blast
  have un: "unat (of_nat nr :: u32) = nr" using o(3) by (intro of_nat_u32) simp
  have nr: "drop_bit 1 (phys s1 tbl) = of_nat nr" "(of_nat nr :: u32) \<noteq> 0" "phys s1 tbl AND 1 = 0"
  proof -
    have *: "unat (push_bit 1 (of_nat nr) :: u32) = 2 * nr" using o(3) un by (simp add: push_bit_eq_mult unat_word_ariths)
    then have "unat (drop_bit 1 (push_bit 1 (of_nat nr) :: u32)) = nr" unfolding unat_drop_bit_eq by (simp add: drop_bit_eq_div)
    then show "drop_bit 1 (phys s1 tbl) = of_nat nr" using un o(5) by (metis word_unat_eq_iff)
    show "(of_nat nr :: u32) \<noteq> 0" using un o(2) by auto
    show "phys s1 tbl AND 1 = 0" unfolding o(5) by (rule bit_eqI) (simp only: bit_and_iff bit_push_bit_iff bit_1_iff, auto)
  qed
  have fb: "free_below s1" using sw(8,12) o(7,8) managed_page [OF sw(5)] by (auto simp: free_below_def)
  obtain k where k: "k < 3840" "mem_map s1 k = 0" "get_free_page (Suc fuel) s1 = Some (push_bit 12 (of_nat k) + LOW_MEM, taken k s1)"
    using get_free_page_taken [of "MAP_NR f" s1 fuel] sw(5) o(7) fb by (auto simp: managed_def)
  define p where "p = (push_bit 12 (of_nat k) + LOW_MEM :: u32)"
  have mp: "managed p" "MAP_NR p = k" "page_aligned p" "p \<noteq> 0"
    using managed_index [OF k(1)] page_of_index [OF k(1)] by (auto simp: p_def managed_def)
  have ne: "p \<noteq> t" "p \<noteq> b"
  proof -
    have "MAP_NR t \<noteq> MAP_NR f" "MAP_NR b \<noteq> MAP_NR f" using managed_inj sw(2,3,5-7) by metis+
    then have "mem_map s1 (MAP_NR t) \<noteq> 0" "mem_map s1 (MAP_NR b) \<noteq> 0" using sw(10,11) o(7) by auto
    then show "p \<noteq> t" "p \<noteq> b" using k(2) mp(2) by auto
  qed
  define s3 where "s3 = read_swap_page (of_nat nr) p (taken k s1)"
  define s4 where "s4 = snd (setbit (swap_bitmap s3) (unat (of_nat nr :: u32)) s3)"
  define s2 where "s2 = store tbl (p OR (PAGE_DIRTY OR 7)) s4"
  note tk = taken_simps [OF k(1), folded p_def]
  have s3: "phys s3 a = phys s1 a" if "a AND FRAME \<noteq> p" for a
    using that tk sw(1) o(10) by (simp add: s3_def rw_swap_page_def transfer_def READ_def WRITE_def read_zones_def fill_page_other)
  have b3: "swap_bitmap s3 = b"
    using tk sw(1) o(9,10) by (simp add: s3_def rw_swap_page_def transfer_def READ_def WRITE_def read_zones_def)
  have al: "page_aligned b" using sw(7) by (simp add: managed_def)
  have s4: "phys s4 a = phys s3 a" if "a AND FRAME \<noteq> b" for a
    using setbit_other(1) [OF al o(3) that] by (simp add: s4_def b3 un)
  have "swap_in (Suc fuel) tbl s1 = Ok () s2"
    using k(3) nr o(9) sw(9) mp(4) unfolding swap_in_def p_def [symmetric] Let_def nr(1)
    by (simp add: s2_def s4_def s3_def new_page_def del: get_free_page.simps)
  moreover have e2: "phys s2 tbl AND FRAME = p" "phys s2 tbl AND 0xfff = PAGE_DIRTY OR 7"
    using aligned_or [OF mp(3), of "PAGE_DIRTY OR 7"] by (simp_all add: s2_def)
  moreover have "page_word s2 p i = page_word s f i" if i: "i < 1024" for i
  proof -
    have "page_word s2 p i = page_word s3 p i"
      by (rule page_word_cong [OF mp(3) i]) (use s4 ne in \<open>auto simp: s2_def t_def\<close>)
    also have "\<dots> = page_word u f i"
      unfolding s3_def by (rule swap_device_round_trip [OF _ mp(3) _ _ i]) (use u tk sw(1) o(10) in auto)
    finally show ?thesis using u(3) i by simp
  qed
  moreover have "test_bit b m s2 = test_bit b m s" if m: "m < 32768" for m
  proof -
    have "test_bit b m s2 = test_bit b m s4" by (rule test_bit_cong [OF al m]) (use sw(4) in \<open>auto simp: s2_def t_def\<close>)
    also have "\<dots> = (m = nr \<or> test_bit b m s3)" using test_bit_set(1) [OF al m o(3)] by (simp add: s4_def b3 un)
    also have "test_bit b m s3 = test_bit b m (snd (clrbit b nr s))"
    proof (rule test_bit_cong [OF al m])
      fix a assume a: "a AND FRAME = b"
      then have "a AND FRAME \<noteq> p" "a \<noteq> tbl" using ne(2) sw(4) by (auto simp: t_def)
      then show "phys s3 a = phys (snd (clrbit b nr s)) a" using s3 [of a] o(6) by simp
    qed
    finally show ?thesis using test_bit_set(2) [OF al m o(3)] o(4) by auto
  qed
  ultimately show ?thesis using o(1,7) nr(3) unfolding f_def [symmetric] b_def [symmetric]
    by (intro exI [of _ s1] exI [of _ s2]) auto
qed

section \<open>Witnesses\<close>

definition idle_sched :: sched_state where
  "idle_sched = \<lparr>task = replicate 64 NULL, tsk = undefined, current = 0, jiffies = 0, startup_time = 0,
     jiffies_offset = 0, last_pid = 0, wait_queue = (\<lambda>_. 0)\<rparr>"

text \<open>A page table, a swap bitmap with bit 1 free, a dirty page and one free page.\<close>

definition small_mm :: mm where
  "small_mm = \<lparr>phys = (\<lambda>_. 0)(0x100000 := 0x102067, 0x101000 := 2, 0x102004 := 42),
     mem_map = (\<lambda>i. if i < 3 then 1 else if i = 5 then 0 else USED), HIGH_MEMORY = 0x1000000, last_pages = replicate 16 0,
     last_checked = 0, swap_bitmap = 0x101000, swap_device = 0x306, swap_file = 0, swap_file_dev = 0, swap_zone = (\<lambda>_. 0),
     disk = (\<lambda>_ _ _. 0), dir_entry = 1024, page_entry = -1, sched = idle_sched\<rparr>"

lemma small_mm_free_below: "free_below small_mm"
proof -
  have "j = 5" if "mem_map small_mm j = 0" for j using that by (auto simp: small_mm_def split: if_splits)
  moreover have "push_bit 12 (of_nat 5) + LOW_MEM < HIGH_MEMORY small_mm" by (simp add: small_mm_def)
  ultimately show ?thesis unfolding free_below_def by blast
qed

theorem get_free_page_fresh_witness:
  "mem_map small_mm 5 = 0 \<and> (\<exists>page s'. get_free_page 1 small_mm = Some (page, s') \<and> page AND 0xfff = 0 \<and> page_word s' page 3 = 0)"
proof -
  have m: "mem_map small_mm 5 = 0" by (simp add: small_mm_def)
  have l: "(5 :: nat) < 3840" by simp
  have w: "(3 :: nat) < 1024" by simp
  show ?thesis using get_free_page_fresh [OF l m small_mm_free_below, of 0] m w unfolding One_nat_def by blast
qed

lemma small_mm_swappable: "swappable 0x100000 small_mm"
proof -
  have "test_bit 0x101000 1 small_mm" by (simp add: test_bit_def bit_word_def small_mm_def bit_numeral_rec)
  then have "find (\<lambda>nr. test_bit 0x101000 nr small_mm) [1..<32768] = Some 1"
    by (subst upt_rec) simp
  then have "fst (get_swap_page small_mm) = 1" unfolding get_swap_page_def by (simp add: small_mm_def)
  moreover have "managed 0x100000" "managed 0x101000" "managed 0x102000" "MAP_NR 0x100000 = 0" "MAP_NR 0x101000 = 1" "MAP_NR 0x102000 = 2"
    by (simp_all add: managed_def page_aligned_def MAP_NR_def)
  moreover note small_mm_free_below
  ultimately show ?thesis unfolding swappable_def Let_def by (simp add: small_mm_def)
qed

theorem swap_out_in_round_trip_witness:
  "swappable 0x100000 small_mm \<and> (\<exists>s1 s2. try_to_swap_out 0x100000 small_mm = (True, s1) \<and> phys s1 0x100000 AND 1 = 0 \<and>
     swap_in 1 0x100000 s1 = Ok () s2 \<and> page_word s2 (phys s2 0x100000 AND FRAME) 1 = 42)"
proof -
  have "page_word small_mm (phys small_mm 0x100000 AND FRAME) 1 = 42" by (simp add: small_mm_def page_word_def)
  then show ?thesis
    using swap_out_in_round_trip [OF small_mm_swappable, of 0] small_mm_swappable unfolding One_nat_def
    by (metis One_nat_def one_less_numeral_iff semiring_norm(76))
qed

end
