(* ===== verification/Memory.thy ===== *)
theory Memory
  imports Swap
begin

text \<open>
  Paging, \<^verbatim>\<open>mm/memory.c\<close>: page tables of the 64 processes in one page directory at address 0, pages shared copy on
  write after \<^verbatim>\<open>fork\<close>, demand loading and the two kinds of page fault.
\<close>

section \<open>Model\<close>

abbreviation (input) CHECK_LAST_NR :: nat where "CHECK_LAST_NR \<equiv> 16"
abbreviation (input) LIBRARY_OFFSET :: u32 where "LIBRARY_OFFSET \<equiv> 0x3c00000"
abbreviation (input) RLIMIT_STACK :: nat where "RLIMIT_STACK \<equiv> 3"

definition dir_slot :: "u32 \<Rightarrow> u32" where
  "dir_slot address = drop_bit 20 address AND 0xffc"

definition table_slot :: "u32 \<Rightarrow> u32" where
  "table_slot address = drop_bit 10 address AND 0xffc"

definition upd_current :: "(task_struct \<Rightarrow> task_struct) \<Rightarrow> mm \<Rightarrow> mm" where
  "upd_current f s = s\<lparr>sched := upd_task (current (sched s)) f (sched s)\<rparr>"

text \<open>
  The loop over the page directory in \<^verbatim>\<open>free_page_tables\<close>; the text of the source has one closing brace too many
  after the first \<^verbatim>\<open>continue\<close>, the model follows the indentation.
\<close>

definition free_entry :: "u32 \<Rightarrow> mm \<Rightarrow> mm" where
  "free_entry pg_table s =
    (let page = phys s pg_table in
     if page = 0 then s
     else
       let s = store pg_table 0 s
       in if page AND 1 \<noteq> 0 then snd (free_page (page AND FRAME) s) else snd (swap_free (drop_bit 1 page) s))"

definition free_table :: "u32 \<Rightarrow> mm \<Rightarrow> mm" where
  "free_table dir s =
    (let page_dir = phys s dir in
     if page_dir = 0 then s
     else
       let s = store dir 0 s in
       if page_dir AND 1 = 0 then s
       else
         let s = fold (\<lambda>nr. free_entry ((page_dir AND FRAME) + of_nat (4 * nr))) [0..<1024] s
         in snd (free_page (page_dir AND FRAME) s))"

definition free_page_tables :: "u32 \<Rightarrow> u32 \<Rightarrow> mm \<Rightarrow> int vm" where
  "free_page_tables from sz s =
    (if from AND 0x3fffff \<noteq> 0 then Panic
     else if from = 0 then Panic
     else
       let n = unat (drop_bit 22 (sz + 0x3fffff));
           s = fold (\<lambda>i. free_table (dir_slot from + of_nat (4 * i))) [0..<n] s
       in Ok 0 (s\<lparr>last_pages := replicate CHECK_LAST_NR 0\<rparr>))"

text \<open>One entry of \<^verbatim>\<open>copy_page_tables\<close>; the result says whether there was memory for a page in the swap space.\<close>

definition copy_entry :: "nat \<Rightarrow> u32 \<Rightarrow> u32 \<Rightarrow> mm \<Rightarrow> bool vm" where
  "copy_entry fuel from_page_table to_page_table s =
    (let this_page = phys s from_page_table in
     if this_page = 0 then Ok True s
     else if this_page AND 1 = 0 then
       vm_then (new_page fuel s) (\<lambda>new_page s.
         if new_page = 0 then Ok False s
         else
           let s = upd_current (\<lambda>t. t\<lparr>rss := rss t + 1\<rparr>) s;
               s = read_swap_page (drop_bit 1 this_page) new_page s;
               s = store to_page_table this_page s
           in Ok True (store from_page_table (new_page OR (PAGE_DIRTY OR 7)) s))
     else
       let this_page = this_page AND NOT 2;
           s = store to_page_table this_page s
       in if this_page > LOW_MEM then
            let s = store from_page_table this_page s; i = MAP_NR this_page
            in Ok True (set_map i (mem_map s i + 1) s)
          else Ok True s)"

fun copy_entries :: "nat \<Rightarrow> nat list \<Rightarrow> u32 \<Rightarrow> u32 \<Rightarrow> mm \<Rightarrow> bool vm" where
  "copy_entries fuel [] from_page_table to_page_table s = Ok True s"
| "copy_entries fuel (i # rest) from_page_table to_page_table s =
    vm_then (copy_entry fuel (from_page_table + of_nat (4 * i)) (to_page_table + of_nat (4 * i)) s) (\<lambda>ok s.
      if ok then copy_entries fuel rest from_page_table to_page_table s else Ok False s)"

fun copy_dirs :: "nat \<Rightarrow> nat list \<Rightarrow> u32 \<Rightarrow> u32 \<Rightarrow> nat \<Rightarrow> mm \<Rightarrow> int vm" where
  "copy_dirs fuel [] from_dir to_dir nr s = Ok 0 s"
| "copy_dirs fuel (i # rest) from_dir to_dir nr s =
    (let fd = from_dir + of_nat (4 * i); td = to_dir + of_nat (4 * i) in
     if phys s fd = 0 then copy_dirs fuel rest from_dir to_dir nr s
     else if phys s fd AND 1 = 0 then copy_dirs fuel rest from_dir to_dir nr (store fd 0 s)
     else
       let from_page_table = phys s fd AND FRAME in
       vm_then (new_page fuel s) (\<lambda>to_page_table s.
         if to_page_table = 0 then Ok (-1) s
         else vm_then (copy_entries fuel [0..<nr] from_page_table to_page_table (store td (to_page_table OR 7) s)) (\<lambda>ok s.
           if ok then copy_dirs fuel rest from_dir to_dir nr s else Ok (-1) s)))"

definition copy_page_tables :: "nat \<Rightarrow> u32 \<Rightarrow> u32 \<Rightarrow> u32 \<Rightarrow> mm \<Rightarrow> int vm" where
  "copy_page_tables fuel from to sz s =
    (if from AND 0x3fffff \<noteq> 0 \<or> to AND 0x3fffff \<noteq> 0 then Panic
     else copy_dirs fuel [0..<unat (drop_bit 22 (sz + 0x3fffff))] (dir_slot from) (dir_slot to) (if from = 0 then 0xA0 else 1024) s)"

text \<open>
  \<^verbatim>\<open>put_page\<close> and \<^verbatim>\<open>put_dirty_page\<close> differ in the flags of the entry they write; the two checks at their start only
  print.
\<close>

definition map_page :: "nat \<Rightarrow> u32 \<Rightarrow> u32 \<Rightarrow> u32 \<Rightarrow> mm \<Rightarrow> u32 vm" where
  "map_page fuel bits page address s =
    (if phys s (dir_slot address) AND 1 \<noteq> 0 then
       Ok page (store ((phys s (dir_slot address) AND FRAME) + table_slot address) (page OR bits) s)
     else vm_then (new_page fuel s) (\<lambda>tmp s.
       if tmp = 0 then Ok 0 s
       else Ok page (store (tmp + table_slot address) (page OR bits) (store (dir_slot address) (tmp OR 7) s))))"

definition put_page :: "nat \<Rightarrow> u32 \<Rightarrow> u32 \<Rightarrow> mm \<Rightarrow> u32 vm" where
  "put_page fuel page address s = map_page fuel 7 page address s"

definition put_dirty_page :: "nat \<Rightarrow> u32 \<Rightarrow> u32 \<Rightarrow> mm \<Rightarrow> u32 vm" where
  "put_dirty_page fuel page address s = map_page fuel (PAGE_DIRTY OR 7) page address s"

definition un_wp_page :: "nat \<Rightarrow> u32 \<Rightarrow> mm \<Rightarrow> unit vm" where
  "un_wp_page fuel table_entry s =
    (let old_page = phys s table_entry AND FRAME in
     if old_page \<ge> LOW_MEM \<and> mem_map s (MAP_NR old_page) = 1
     then Ok () (store table_entry (phys s table_entry OR 2) s)
     else vm_then (new_page fuel s) (\<lambda>new_page s.
       if new_page = 0 then oom s
       else
         let s = (if old_page \<ge> LOW_MEM then set_map (MAP_NR old_page) (mem_map s (MAP_NR old_page) - 1) s else s);
             s = copy_page old_page new_page s
         in Ok () (store table_entry (new_page OR 7) s)))"

definition do_wp_page :: "nat \<Rightarrow> u32 \<Rightarrow> u32 \<Rightarrow> mm \<Rightarrow> unit vm" where
  "do_wp_page fuel error_code address s =
    (if address - start_code (cur (sched s)) > TASK_SIZE then Killed s
     else un_wp_page fuel (table_slot address + (phys s (dir_slot address) AND FRAME)) s)"

definition write_verify :: "nat \<Rightarrow> u32 \<Rightarrow> mm \<Rightarrow> unit vm" where
  "write_verify fuel address s =
    (let page = phys s (dir_slot address) in
     if page AND 1 = 0 then Ok () s
     else
       let page = (page AND FRAME) + table_slot address
       in if phys s page AND 3 = 1 then un_wp_page fuel page s else Ok () s)"

definition get_empty_page :: "nat \<Rightarrow> u32 \<Rightarrow> mm \<Rightarrow> unit vm" where
  "get_empty_page fuel address s =
    vm_then (new_page fuel s) (\<lambda>tmp s.
      if tmp = 0 then oom (snd (free_page tmp s))
      else vm_then (put_page fuel tmp address s) (\<lambda>r s. if r = 0 then oom (snd (free_page tmp s)) else Ok () s))"

definition share_entry :: "u32 \<Rightarrow> u32 \<Rightarrow> u32 \<Rightarrow> mm \<Rightarrow> bool vm" where
  "share_entry from_page to_page phys_addr s =
    (if phys s to_page AND 1 \<noteq> 0 then Panic
     else
       let s = store from_page (phys s from_page AND NOT 2) s;
           s = store to_page (phys s from_page) s;
           i = MAP_NR phys_addr
       in Ok True (set_map i (mem_map s i + 1) s))"

definition try_to_share :: "nat \<Rightarrow> u32 \<Rightarrow> ptr \<Rightarrow> mm \<Rightarrow> bool vm" where
  "try_to_share fuel address p s =
    (let from_page = dir_slot address + dir_slot (start_code (tsk (sched s) p));
         to_page = dir_slot address + dir_slot (start_code (cur (sched s)));
         from = phys s from_page in
     if from AND 1 = 0 then Ok False s
     else
       let from_page = (from AND FRAME) + table_slot address;
           phys_addr = phys s from_page in
       if phys_addr AND 0x41 \<noteq> 1 then Ok False s
       else
         let phys_addr = phys_addr AND FRAME in
         if phys_addr \<ge> HIGH_MEMORY s \<or> phys_addr < LOW_MEM then Ok False s
         else if phys s to_page AND 1 = 0 then
           vm_then (new_page fuel s) (\<lambda>to s.
             if to = 0 then oom s
             else share_entry from_page ((to AND FRAME) + table_slot address) phys_addr (store to_page (to OR 7) s))
         else share_entry from_page ((phys s to_page AND FRAME) + table_slot address) phys_addr s)"

fun share_scan :: "nat \<Rightarrow> ptr \<Rightarrow> u32 \<Rightarrow> nat list \<Rightarrow> mm \<Rightarrow> bool vm" where
  "share_scan fuel inode address [] s = Ok False s"
| "share_scan fuel inode address (i # rest) s =
    (let p = task (sched s) ! i in
     if p = NULL \<or> p = current (sched s) \<or>
        (if address < LIBRARY_OFFSET then inode \<noteq> executable (tsk (sched s) p) else inode \<noteq> library (tsk (sched s) p))
     then share_scan fuel inode address rest s
     else vm_then (try_to_share fuel address p s) (\<lambda>ok s.
       if ok then Ok True s else share_scan fuel inode address rest s))"

text \<open>\<open>i_count\<close> gives the reference count of an inode.\<close>

definition share_page :: "nat \<Rightarrow> (ptr \<Rightarrow> nat) \<Rightarrow> ptr \<Rightarrow> u32 \<Rightarrow> mm \<Rightarrow> bool vm" where
  "share_page fuel i_count inode address s =
    (if i_count inode < 2 \<or> inode = NULL then Ok False s else share_scan fuel inode address slots_down s)"

text \<open>
  What \<^verbatim>\<open>do_no_page\<close> uses of the rest of the kernel: the reference counts of inodes, \<^verbatim>\<open>bmap\<close>, the effect of \<^verbatim>\<open>bread_page\<close> on
  memory, and what happens during \<^verbatim>\<open>schedule()\<close>.
\<close>

record page_source =
  ps_count :: "ptr \<Rightarrow> nat"
  ps_bmap :: "ptr \<Rightarrow> u32 \<Rightarrow> u32"
  ps_read :: "u32 \<Rightarrow> ptr \<Rightarrow> u32 list \<Rightarrow> mm \<Rightarrow> mm"
  ps_schedule :: "mm \<Rightarrow> mm"

definition throttle :: "page_source \<Rightarrow> u32 \<Rightarrow> mm \<Rightarrow> mm" where
  "throttle env address s =
    (let s = fold (\<lambda>i s. if address AND FRAME = last_pages s ! i
                        then ps_schedule env (upd_current (\<lambda>t. t\<lparr>counter := 0\<rparr>) s) else s) [0..<CHECK_LAST_NR] s;
         n = (if last_checked s + 1 \<ge> CHECK_LAST_NR then 0 else last_checked s + 1)
     in s\<lparr>last_checked := n, last_pages := (last_pages s)[n := address AND FRAME]\<rparr>)"

definition clear_tail :: "u32 \<Rightarrow> u32 \<Rightarrow> mm \<Rightarrow> mm" where
  "clear_tail page i s =
    (let i = (if 4095 <s i then 0 else i)
     in fold (\<lambda>k. store_byte (page + 4095 - of_nat k) 0) [0..<nat (sint i)] s)"

definition load_page :: "nat \<Rightarrow> page_source \<Rightarrow> u32 \<Rightarrow> u32 \<Rightarrow> ptr \<Rightarrow> u32 \<Rightarrow> mm \<Rightarrow> unit vm" where
  "load_page fuel env address tmp inode block s =
    vm_then (new_page fuel s) (\<lambda>page s.
      if page = 0 then oom s
      else
        let nr = map (\<lambda>i. ps_bmap env inode (block + of_nat i)) [0..<4];
            s = ps_read env page inode nr s;
            s = clear_tail page (tmp + 4096 - end_data (cur (sched s))) s
        in vm_then (put_page fuel page address s) (\<lambda>r s. if r \<noteq> 0 then Ok () s else oom (snd (free_page page s))))"

definition fill_missing :: "nat \<Rightarrow> page_source \<Rightarrow> ptr \<Rightarrow> u32 \<Rightarrow> mm \<Rightarrow> unit vm" where
  "fill_missing fuel env t address s =
    (let tmp = address - start_code (tsk (sched s) t);
         inode = (if tmp \<ge> LIBRARY_OFFSET then library (tsk (sched s) t)
                  else if tmp < end_data (tsk (sched s) t) then executable (tsk (sched s) t) else NULL);
         block = (if tmp \<ge> LIBRARY_OFFSET then 1 + (tmp - LIBRARY_OFFSET) div 1024
                  else if tmp < end_data (tsk (sched s) t) then 1 + tmp div 1024 else 0)
     in if inode = NULL then
          let s = s\<lparr>sched := upd_task t (\<lambda>p. p\<lparr>min_flt := min_flt p + 1\<rparr>) (sched s)\<rparr>
          in if tmp > brk (tsk (sched s) t) \<and> t = current (sched s) \<and>
                LIBRARY_OFFSET - tmp > of_int (rlim_max (rlim (tsk (sched s) t) ! RLIMIT_STACK))
             then Killed s else get_empty_page fuel address s
        else vm_then (share_page fuel (ps_count env) inode tmp s) (\<lambda>shared s.
          if shared then Ok () s else load_page fuel env address tmp inode block s))"

definition do_no_page :: "nat \<Rightarrow> page_source \<Rightarrow> u32 \<Rightarrow> u32 \<Rightarrow> ptr \<Rightarrow> mm \<Rightarrow> unit vm" where
  "do_no_page fuel env error_code address t s =
    (let s = throttle env address s in
     if address < TASK_SIZE then Killed s
     else if address - start_code (tsk (sched s) t) > TASK_SIZE then Killed s
     else
       let s = s\<lparr>sched := upd_task t (\<lambda>p. p\<lparr>rss := rss p + 1\<rparr>) (sched s)\<rparr>;
           page = phys s (dir_slot address) in
       if page AND 1 \<noteq> 0 then
         let entry = (page AND FRAME) + table_slot address; tmp = phys s entry
         in if tmp \<noteq> 0 \<and> tmp AND 1 = 0 then swap_in fuel entry s else fill_missing fuel env t (address AND FRAME) s
       else vm_then (new_page fuel s) (\<lambda>page s.
         if page = 0 then oom s
         else fill_missing fuel env t (address AND FRAME) (store (dir_slot address) (page OR 7) s)))"

definition mem_init :: "u32 \<Rightarrow> u32 \<Rightarrow> mm \<Rightarrow> mm" where
  "mem_init start_mem end_mem s =
    (let i = MAP_NR start_mem; n = nat (sint (signed_drop_bit 12 (end_mem - start_mem)))
     in s\<lparr>swap_device := 0, swap_file := NULL, HIGH_MEMORY := end_mem,
          mem_map := (\<lambda>k. if i \<le> k \<and> k < i + n then 0 else if k < PAGING_PAGES then USED else mem_map s k)\<rparr>)"

text \<open>\<^verbatim>\<open>do_page_fault\<close>: \<open>address\<close> is what the processor put in \<^verbatim>\<open>CR2\<close>.\<close>

definition do_page_fault :: "nat \<Rightarrow> page_source \<Rightarrow> u32 \<Rightarrow> u32 \<Rightarrow> mm \<Rightarrow> unit vm" where
  "do_page_fault fuel env error_code address s =
    (if error_code AND 1 = 0 then do_no_page fuel env error_code address (current (sched s)) s
     else do_wp_page fuel error_code address s)"

text \<open>
  \<^verbatim>\<open>show_mem\<close>: the numbers it prints, free, total and shared pages and the memory found.  The loop over the page directory does
  not advance past an entry above \<^verbatim>\<open>HIGH_MEMORY\<close>: the \<^verbatim>\<open>continue\<close> skips \<^verbatim>\<open>i++\<close>.
\<close>

definition count_map :: "mm \<Rightarrow> nat \<times> nat \<times> int" where
  "count_map s =
    fold (\<lambda>i (free, pages, shared).
      if mem_map s i = USED then (free, pages, shared)
      else if mem_map s i = 0 then (free + 1, pages + 1, shared)
      else (free, pages + 1, shared + uint (mem_map s i) - 1)) [0..<PAGING_PAGES] (0, 0, 0)"

fun show_dirs :: "nat \<Rightarrow> nat \<Rightarrow> nat \<Rightarrow> nat \<Rightarrow> mm \<Rightarrow> nat option" where
  "show_dirs 0 i k free s = None"
| "show_dirs (Suc fuel) i k free s =
    (if i \<ge> 1024 then Some free
     else
       let pg_dir = phys s (of_nat (4 * i)) in
       if pg_dir AND 1 \<noteq> 0 \<and> pg_dir > HIGH_MEMORY s then show_dirs fuel i k free s
       else
         let n = (if pg_dir AND 1 = 0 then 0
                  else (if pg_dir > LOW_MEM then 1 else 0) +
                    length (filter (\<lambda>j. let e = page_word s (pg_dir AND FRAME) j in e AND 1 \<noteq> 0 \<and> e > LOW_MEM \<and> \<not> e > HIGH_MEMORY s) [0..<1024]))
         in if (i + 1) mod 16 = 0 \<and> k + n \<noteq> 0 then show_dirs fuel (i + 1) 0 (free + n + 1) s
            else show_dirs fuel (i + 1) (k + n) (free + n) s)"

definition show_mem :: "nat \<Rightarrow> mm \<Rightarrow> (nat \<times> nat \<times> int \<times> int) option" where
  "show_mem fuel s =
    (case count_map s of (free, pages, shared) \<Rightarrow>
       map_option (\<lambda>found. (free, pages, shared, int found - shared)) (show_dirs fuel 4 0 free s))"

section \<open>Addresses\<close>

lemma slot_bits:
  "bit (dir_slot a) n \<longleftrightarrow> 2 \<le> n \<and> n < 12 \<and> bit a (20 + n)"
  "bit (table_slot a) n \<longleftrightarrow> 2 \<le> n \<and> n < 12 \<and> bit a (10 + n)"
proof -
  have "bit (0xffc :: u32) n \<longleftrightarrow> 2 \<le> n \<and> n < 12"
  proof -
    have "(0xffc :: u32) = push_bit 2 (mask 10)" by (simp add: mask_eq_exp_minus_1 push_bit_eq_mult)
    then show ?thesis by (simp only: bit_push_bit_iff bit_mask_iff) (auto dest: bit_imp_le_length)
  qed
  then show "bit (dir_slot a) n \<longleftrightarrow> 2 \<le> n \<and> n < 12 \<and> bit a (20 + n)"
    "bit (table_slot a) n \<longleftrightarrow> 2 \<le> n \<and> n < 12 \<and> bit a (10 + n)"
    by (auto simp: dir_slot_def table_slot_def bit_and_iff bit_drop_bit_eq)
qed

lemma slot_bound: "dir_slot a < 0x1000" "table_slot a < 0x1000"
proof -
  have *: "x < 0x1000" if "\<And>n. bit x n \<Longrightarrow> n < 12" for x :: u32
  proof -
    have "x = take_bit 12 x" by (rule bit_eqI) (use that in \<open>auto simp: bit_take_bit_iff\<close>)
    then have "unat x = take_bit 12 (unat x)" by (metis unsigned_take_bit_eq)
    then have "unat x < 2 ^ 12" by (metis take_bit_nat_less_exp)
    then show ?thesis by (simp add: word_less_nat_alt)
  qed
  show "dir_slot a < 0x1000" "table_slot a < 0x1000" by (rule *; simp add: slot_bits)+
qed

lemma same_frame: "dir_slot a = dir_slot b \<Longrightarrow> table_slot a = table_slot b \<Longrightarrow> a AND FRAME = b AND FRAME"
proof (unfold low_mask(2), rule bit_eqI)
  fix n assume "dir_slot a = dir_slot b" "table_slot a = table_slot b"
  then have "bit (dir_slot a) (n - 20) = bit (dir_slot b) (n - 20)" "bit (table_slot a) (n - 10) = bit (table_slot b) (n - 10)"
    by simp_all
  then have d: "22 \<le> n \<Longrightarrow> n < 32 \<Longrightarrow> bit a n = bit b n" and t: "12 \<le> n \<Longrightarrow> n < 22 \<Longrightarrow> bit a n = bit b n"
    by (auto simp: slot_bits)
  show "bit (a AND NOT (mask 12)) n = bit (b AND NOT (mask 12)) n"
    using d t by (cases "n < 12"; cases "n < 22"; cases "n < 32") (auto simp: bit_simps dest: bit_imp_le_length)
qed

section \<open>A new page\<close>

definition has_free :: "mm \<Rightarrow> bool" where
  "has_free s \<longleftrightarrow> (\<exists>i < 3840. mem_map s i = 0) \<and> free_below s"

text \<open>A page in use: the allocator will not hand it out.\<close>

definition in_use :: "mm \<Rightarrow> u32 \<Rightarrow> bool" where
  "in_use s p \<longleftrightarrow> page_aligned p \<and> (p < LOW_MEM \<or> mem_map s (MAP_NR p) \<noteq> 0)"

lemma new_page_fresh:
  assumes "has_free s"
  obtains k p where "k < 3840" "mem_map s k = 0" "p = push_bit 12 (of_nat k) + LOW_MEM" "new_page (Suc fuel) s = Ok p (taken k s)"
    "MAP_NR p = k" "page_aligned p" "LOW_MEM \<le> p" "p \<noteq> 0" "\<And>q. in_use s q \<Longrightarrow> q \<noteq> p"
    "\<And>a. a AND FRAME \<noteq> p \<Longrightarrow> phys (taken k s) a = phys s a" "mem_map (taken k s) = (mem_map s)(k := 1)"
    "\<And>i. i < 1024 \<Longrightarrow> page_word (taken k s) p i = 0"
proof -
  obtain i where i: "i < 3840" "mem_map s i = 0" "free_below s" using assms by (auto simp only: has_free_def)
  obtain k where k: "k < 3840" "mem_map s k = 0" "get_free_page (Suc fuel) s = Some (push_bit 12 (of_nat k) + LOW_MEM, taken k s)"
    using get_free_page_taken [OF i, of fuel] by blast
  define p where "p = (push_bit 12 (of_nat k) + LOW_MEM :: u32)"
  note q = page_of_index [OF k(1), folded p_def]
  have "new_page (Suc fuel) s = Ok p (taken k s)" using k(3) by (simp add: new_page_def p_def del: get_free_page.simps)
  moreover have "p \<noteq> 0" using q(3) by auto
  moreover have "r \<noteq> p" if "in_use s r" for r using that q(1,3) k(2) by (auto simp: in_use_def)
  ultimately show ?thesis using that [OF k(1,2) p_def] q taken_simps [OF k(1), folded p_def] by blast
qed

section \<open>Mapping a page\<close>

text \<open>The translation the processor makes: the page table entry of an address, when it is present.\<close>

definition translate :: "mm \<Rightarrow> u32 \<Rightarrow> u32 option" where
  "translate s a =
    (let pde = phys s (dir_slot a) in
     if pde AND 1 = 0 then None
     else let pte = phys s ((pde AND FRAME) + table_slot a) in if pte AND 1 = 0 then None else Some pte)"

text \<open>Page tables are pages in use outside the page directory, each behind one directory entry.\<close>

definition tables_ok :: "mm \<Rightarrow> bool" where
  "tables_ok s \<longleftrightarrow>
    (\<forall>a. phys s (dir_slot a) AND 1 \<noteq> 0 \<longrightarrow> phys s (dir_slot a) AND FRAME \<noteq> 0 \<and> in_use s (phys s (dir_slot a) AND FRAME)) \<and>
    (\<forall>a b. phys s (dir_slot a) AND 1 \<noteq> 0 \<and> phys s (dir_slot b) AND 1 \<noteq> 0 \<and> dir_slot a \<noteq> dir_slot b \<longrightarrow>
       phys s (dir_slot a) AND FRAME \<noteq> phys s (dir_slot b) AND FRAME)"

lemma dir_slot_frame: "dir_slot a AND FRAME = 0"
  using page_offset(1) [of 0 "dir_slot a"] slot_bound(1) by (simp add: page_aligned_def)

lemma table_slot_frame: "page_aligned t \<Longrightarrow> (t + table_slot a) AND FRAME = t"
  using page_offset(1) slot_bound(2) by blast

lemma present_or: "(p OR 7) AND 1 \<noteq> (0 :: u32)" "(p OR 2) AND 2 \<noteq> (0 :: u32)" "(p OR 7) AND 2 \<noteq> (0 :: u32)"
proof -
  have "bit ((p OR 7) AND 1) 0" "bit ((p OR 2) AND 2) 1" "bit ((p OR 7) AND 2) 1"
    by (simp_all add: bit_simps bit_numeral_rec)
  then show "(p OR 7) AND 1 \<noteq> 0" "(p OR 2) AND 2 \<noteq> 0" "(p OR 7) AND 2 \<noteq> 0" by (metis bit_0_eq bot_apply bot_bool_def)+
qed

text \<open>Writing an entry of an existing page table.\<close>

lemma store_entry_translate:
  assumes ok: "tables_ok s" and pde: "phys s (dir_slot x) AND 1 \<noteq> 0" and v: "v AND 1 \<noteq> 0"
  defines "s' \<equiv> store ((phys s (dir_slot x) AND FRAME) + table_slot x) v s"
  shows "translate s' x = Some v" "a AND FRAME \<noteq> x AND FRAME \<Longrightarrow> translate s' a = translate s a" "tables_ok s'"
proof -
  let ?t = "phys s (dir_slot x) AND FRAME"
  have t0: "?t \<noteq> 0" using ok pde by (simp add: tables_ok_def)
  have fr: "(?t + table_slot a) AND FRAME = ?t" for a by (rule table_slot_frame) simp
  have d: "dir_slot a \<noteq> ?t + table_slot x" for a using fr [of x] dir_slot_frame [of a] t0 by auto
  have dd: "phys s' (dir_slot a) = phys s (dir_slot a)" for a using d by (simp add: s'_def)
  show "translate s' x = Some v" using pde v dd [of x] by (simp add: translate_def Let_def) (simp add: s'_def)
  show "tables_ok s'" using ok unfolding tables_ok_def dd in_use_def by (simp add: s'_def)
  show "translate s' a = translate s a" if "a AND FRAME \<noteq> x AND FRAME"
  proof (cases "phys s (dir_slot a) AND 1 = 0")
    case True
    then show ?thesis using dd [of a] by (simp add: translate_def Let_def)
  next
    case False
    let ?u = "phys s (dir_slot a) AND FRAME"
    have fu: "(?u + table_slot a) AND FRAME = ?u" by (rule table_slot_frame) simp
    have "?u + table_slot a \<noteq> ?t + table_slot x"
    proof (cases "dir_slot a = dir_slot x")
      case True
      then have "table_slot a \<noteq> table_slot x" using same_frame that by blast
      then show ?thesis using True by simp
    next
      case d: False
      then have "?u \<noteq> ?t" using ok False pde unfolding tables_ok_def by blast
      then show ?thesis using fr fu by metis
    qed
    then show ?thesis using dd [of a] by (simp add: translate_def Let_def) (simp add: s'_def)
  qed
qed

text \<open>Giving a directory entry a new, empty page table changes no translation.\<close>

lemma page_word_zero:
  assumes "page_aligned p" "\<And>i. i < 1024 \<Longrightarrow> page_word s p i = 0"
  shows "phys s (p + table_slot a) = 0"
proof -
  define i where "i = unat (drop_bit 2 (table_slot a))"
  have "table_slot a = push_bit 2 (drop_bit 2 (table_slot a))"
    by (rule bit_eqI) (auto simp: bit_push_bit_iff bit_drop_bit_eq slot_bits)
  moreover have u: "unat (drop_bit 2 (table_slot a)) < 1024"
    using slot_bound(2) [of a] unfolding unat_drop_bit_eq by (simp add: word_less_nat_alt drop_bit_eq_div)
  ultimately have "table_slot a = of_nat (4 * i)" by (simp add: i_def push_bit_eq_mult mult.commute)
  then show ?thesis using assms(2) [of i] u by (simp add: page_word_def i_def)
qed

lemma new_table_translate:
  assumes ok: "tables_ok s" and pde: "phys s (dir_slot x) AND 1 = 0" and fr: "has_free s"
  obtains k p where "new_page (Suc fuel) s = Ok p (taken k s)" "p \<noteq> 0" "p AND FRAME = p"
    "tables_ok (store (dir_slot x) (p OR 7) (taken k s))"
    "\<And>a. translate (store (dir_slot x) (p OR 7) (taken k s)) a = translate s a"
    "phys (store (dir_slot x) (p OR 7) (taken k s)) (dir_slot x) = p OR 7"
proof -
  obtain k p where k: "k < 3840" "mem_map s k = 0" "p = push_bit 12 (of_nat k) + LOW_MEM" "new_page (Suc fuel) s = Ok p (taken k s)"
    "MAP_NR p = k" "page_aligned p" "LOW_MEM \<le> p" "p \<noteq> 0" "\<And>q. in_use s q \<Longrightarrow> q \<noteq> p"
    "\<And>a. a AND FRAME \<noteq> p \<Longrightarrow> phys (taken k s) a = phys s a" "mem_map (taken k s) = (mem_map s)(k := 1)"
    "\<And>i. i < 1024 \<Longrightarrow> page_word (taken k s) p i = 0"
    by (rule new_page_fresh [OF fr, of fuel]) blast
  define s' where "s' = store (dir_slot x) (p OR 7) (taken k s)"
  have d: "phys s' (dir_slot a) = (if dir_slot a = dir_slot x then p OR 7 else phys s (dir_slot a))" for a
    using k(8,10) dir_slot_frame [of a] by (simp add: s'_def)
  have p7: "(p OR 7) AND FRAME = p" by (rule aligned_or [OF k(6)]) simp
  have iu: "in_use s' q" if "in_use s q" for q using that k(11) by (auto simp: in_use_def s'_def)
  have ip: "in_use s' p" using k(5,6,11) by (simp add: in_use_def s'_def)
  have "tables_ok s'"
    unfolding tables_ok_def
  proof (intro conjI allI impI)
    fix a assume "phys s' (dir_slot a) AND 1 \<noteq> 0"
    then show "phys s' (dir_slot a) AND FRAME \<noteq> 0" "in_use s' (phys s' (dir_slot a) AND FRAME)"
      using ok iu ip p7 k(8) unfolding d tables_ok_def by (auto split: if_splits)
  next
    fix a b assume ab: "phys s' (dir_slot a) AND 1 \<noteq> 0 \<and> phys s' (dir_slot b) AND 1 \<noteq> 0 \<and> dir_slot a \<noteq> dir_slot b"
    have old: "phys s (dir_slot c) AND FRAME \<noteq> p" if "phys s (dir_slot c) AND 1 \<noteq> 0" for c
      using ok k(9) that unfolding tables_ok_def by blast
    have two: "phys s (dir_slot a) AND FRAME \<noteq> phys s (dir_slot b) AND FRAME"
      if "phys s (dir_slot a) AND 1 \<noteq> 0" "phys s (dir_slot b) AND 1 \<noteq> 0"
      using ok ab that unfolding tables_ok_def by blast
    show "phys s' (dir_slot a) AND FRAME \<noteq> phys s' (dir_slot b) AND FRAME"
      using ab two old [of a] old [of b] p7 unfolding d
      by (cases "dir_slot a = dir_slot x"; cases "dir_slot b = dir_slot x") auto
  qed
  moreover have "translate s' a = translate s a" for a
  proof (cases "dir_slot a = dir_slot x")
    case True
    have "(p + table_slot a) AND FRAME = p" by (rule table_slot_frame [OF k(6)])
    then have "p + table_slot a \<noteq> dir_slot x" using dir_slot_frame [of x] k(8) by auto
    then have "phys s' (p + table_slot a) = 0" using page_word_zero [OF k(6,12)] by (simp add: s'_def)
    then show ?thesis using True pde p7 present_or(1) [of p] by (simp add: translate_def Let_def d)
  next
    case False
    show ?thesis
    proof (cases "phys s (dir_slot a) AND 1 = 0")
      case True
      then show ?thesis using False by (simp add: translate_def Let_def d)
    next
      case f: False
      let ?u = "phys s (dir_slot a) AND FRAME"
      have u: "?u \<noteq> 0" "?u \<noteq> p" using ok f k(9) unfolding tables_ok_def by blast+
      have fu: "(?u + table_slot a) AND FRAME = ?u" by (rule table_slot_frame) simp
      then have "?u + table_slot a \<noteq> dir_slot x" using dir_slot_frame [of x] u(1) by auto
      then have "phys s' (?u + table_slot a) = phys s (?u + table_slot a)" using k(10) u(2) fu by (simp add: s'_def)
      then show ?thesis using False by (simp add: translate_def Let_def d)
    qed
  qed
  ultimately show ?thesis using that [OF k(4,8) frame_of_aligned [OF k(6)]] d [of x] unfolding s'_def by simp
qed

section \<open>Sharing the pages of a table\<close>

lemma slot_eq:
  assumes "page_aligned A" "page_aligned B" "i < 1024" "j < 1024"
  shows "A + of_nat (4 * i) = B + of_nat (4 * j) \<longleftrightarrow> A = B \<and> i = j"
  using page_index [OF assms(1,3)] page_index [OF assms(2,4)] by metis

definition shareable :: "u32 \<Rightarrow> bool" where
  "shareable e \<longleftrightarrow> e AND 1 \<noteq> 0 \<and> e AND NOT 2 > LOW_MEM"

lemma copy_entry_present:
  assumes "phys s f = 0 \<or> phys s f AND 1 \<noteq> 0"
  shows "copy_entry fuel f t s = Ok True
    (let e = phys s f; s = (if e = 0 then s else store t (e AND NOT 2) s)
     in if shareable e then set_map (MAP_NR (e AND NOT 2)) (mem_map s (MAP_NR (e AND NOT 2)) + 1) (store f (e AND NOT 2) s) else s)"
  using assms by (auto simp: copy_entry_def Let_def shareable_def)

lemma copy_entries_spec:
  assumes "page_aligned A" "page_aligned B" "A \<noteq> B" "distinct js" "set js \<subseteq> {..<1024}"
    and "\<And>i. i \<in> set js \<Longrightarrow> page_word s A i = 0 \<or> page_word s A i AND 1 \<noteq> 0"
  shows "\<exists>s'. copy_entries fuel js A B s = Ok True s' \<and>
    (\<forall>i \<in> set js. page_word s' A i = (if shareable (page_word s A i) then page_word s A i AND NOT 2 else page_word s A i) \<and>
       page_word s' B i = (if page_word s A i = 0 then page_word s B i else page_word s A i AND NOT 2)) \<and>
    (\<forall>a. (\<forall>i \<in> set js. a \<noteq> A + of_nat (4 * i) \<and> a \<noteq> B + of_nat (4 * i)) \<longrightarrow> phys s' a = phys s a) \<and>
    (\<forall>p. mem_map s' p = mem_map s p +
       of_nat (length (filter (\<lambda>i. shareable (page_word s A i) \<and> MAP_NR (page_word s A i AND NOT 2) = p) js))) \<and>
    HIGH_MEMORY s' = HIGH_MEMORY s"
  using assms(4-6)
proof (induction js arbitrary: s)
  case (Cons i js)
  let ?f = "A + of_nat (4 * i)" and ?t = "B + of_nat (4 * i)" and ?e = "page_word s A i"
  have i: "i < 1024" "i \<notin> set js" using Cons.prems by auto
  have e: "phys s ?f = ?e" by (simp add: page_word_def)
  define m where "m = MAP_NR (?e AND NOT 2)"
  define s1 where "s1 = (let u = (if ?e = 0 then s else store ?t (?e AND NOT 2) s)
     in if shareable ?e then set_map m (mem_map u m + 1) (store ?f (?e AND NOT 2) u) else u)"
  have step: "copy_entry fuel ?f ?t s = Ok True s1"
    using copy_entry_present [of s ?f fuel ?t] Cons.prems(3) [of i] unfolding e s1_def m_def by (simp add: Let_def)
  have z: "\<not> shareable 0" by (simp add: shareable_def)
  have p1: "phys s1 a = (if a = ?f \<and> shareable ?e then ?e AND NOT 2 else if a = ?t \<and> ?e \<noteq> 0 then ?e AND NOT 2 else phys s a)" for a
    using slot_eq [OF assms(1,2) i(1) i(1)] assms(3) z unfolding s1_def Let_def by auto
  have m1: "mem_map s1 p = mem_map s p + (if shareable ?e \<and> m = p then 1 else 0)" for p
    unfolding s1_def Let_def by simp
  have ne: "?f \<noteq> A + of_nat (4 * j)" "?f \<noteq> B + of_nat (4 * j)" "?t \<noteq> A + of_nat (4 * j)" "?t \<noteq> B + of_nat (4 * j)" if "j \<in> set js" for j
  proof -
    have j: "j < 1024" "i \<noteq> j" using that i(2) Cons.prems(2) by auto
    show "?f \<noteq> A + of_nat (4 * j)" "?f \<noteq> B + of_nat (4 * j)" "?t \<noteq> A + of_nat (4 * j)" "?t \<noteq> B + of_nat (4 * j)"
      using slot_eq [OF assms(1) assms(1) i(1) j(1)] slot_eq [OF assms(1,2) i(1) j(1)]
        slot_eq [OF assms(2,1) i(1) j(1)] slot_eq [OF assms(2) assms(2) i(1) j(1)] j(2) assms(3) by metis+
  qed
  have w1: "page_word s1 A j = page_word s A j" "page_word s1 B j = page_word s B j" if "j \<in> set js" for j
    using ne [OF that] p1 unfolding page_word_def by auto
  obtain s' where s': "copy_entries fuel js A B s1 = Ok True s'"
    "\<forall>i \<in> set js. page_word s' A i = (if shareable (page_word s1 A i) then page_word s1 A i AND NOT 2 else page_word s1 A i) \<and>
       page_word s' B i = (if page_word s1 A i = 0 then page_word s1 B i else page_word s1 A i AND NOT 2)"
    "\<forall>a. (\<forall>i \<in> set js. a \<noteq> A + of_nat (4 * i) \<and> a \<noteq> B + of_nat (4 * i)) \<longrightarrow> phys s' a = phys s1 a"
    "\<forall>p. mem_map s' p = mem_map s1 p +
       of_nat (length (filter (\<lambda>i. shareable (page_word s1 A i) \<and> MAP_NR (page_word s1 A i AND NOT 2) = p) js))"
    "HIGH_MEMORY s' = HIGH_MEMORY s1"
    using Cons.IH [of s1] Cons.prems w1 by auto
  have fl: "filter (\<lambda>i. shareable (page_word s1 A i) \<and> MAP_NR (page_word s1 A i AND NOT 2) = p) js =
      filter (\<lambda>i. shareable (page_word s A i) \<and> MAP_NR (page_word s A i AND NOT 2) = p) js" for p
    by (rule filter_cong) (auto simp: w1)
  have "phys s' ?f = phys s1 ?f" "phys s' ?t = phys s1 ?t" using s'(3) ne by blast+
  then have wi: "page_word s' A i = (if shareable ?e then ?e AND NOT 2 else ?e)" "page_word s' B i = (if ?e = 0 then page_word s B i else ?e AND NOT 2)"
    using p1 [of ?f] p1 [of ?t] slot_eq [OF assms(1,2) i(1) i(1)] assms(3) unfolding page_word_def by auto
  show ?case
  proof (intro exI [of _ s'] conjI)
    show "copy_entries fuel (i # js) A B s = Ok True s'" using step s'(1) by simp
    show "\<forall>j \<in> set (i # js). page_word s' A j = (if shareable (page_word s A j) then page_word s A j AND NOT 2 else page_word s A j) \<and>
       page_word s' B j = (if page_word s A j = 0 then page_word s B j else page_word s A j AND NOT 2)"
      using wi s'(2) w1 by auto
    show "\<forall>a. (\<forall>j \<in> set (i # js). a \<noteq> A + of_nat (4 * j) \<and> a \<noteq> B + of_nat (4 * j)) \<longrightarrow> phys s' a = phys s a"
      using s'(3) p1 by auto
    show "\<forall>p. mem_map s' p = mem_map s p +
       of_nat (length (filter (\<lambda>i. shareable (page_word s A i) \<and> MAP_NR (page_word s A i AND NOT 2) = p) (i # js)))"
      using s'(4) m1 fl by (auto simp: m_def)
    show "HIGH_MEMORY s' = HIGH_MEMORY s" unfolding s'(5) s1_def Let_def by simp
  qed
qed auto

text \<open>
  A page table the copy can share: it and the pages it maps are in use and none of them is in the swap space.  \<open>refs\<close> counts the entries
  of a table that refer to a page above 1 MB, \<open>shared\<close> is the outcome for one table.
\<close>

definition refs :: "mm \<Rightarrow> u32 \<Rightarrow> nat \<Rightarrow> nat" where
  "refs s A p = length (filter (\<lambda>i. shareable (page_word s A i) \<and> MAP_NR (page_word s A i AND NOT 2) = p) [0..<1024])"

definition resident_table :: "mm \<Rightarrow> u32 \<Rightarrow> bool" where
  "resident_table s A \<longleftrightarrow> A \<noteq> 0 \<and> in_use s A \<and> (\<forall>i < 1024. page_word s A i = 0 \<or>
     page_word s A i AND 1 \<noteq> 0 \<and> (shareable (page_word s A i) \<longrightarrow> mem_map s (MAP_NR (page_word s A i AND NOT 2)) \<noteq> 0))"

definition shared :: "mm \<Rightarrow> u32 \<Rightarrow> u32 \<Rightarrow> mm \<Rightarrow> bool" where
  "shared s A B s' \<longleftrightarrow> (\<forall>i < 1024. page_word s' B i = page_word s A i AND NOT 2 \<and>
     page_word s' A i = (if shareable (page_word s A i) then page_word s A i AND NOT 2 else page_word s A i))"

lemma refs_zero:
  assumes "resident_table s A" "mem_map s p = 0"
  shows "refs s A p = 0"
proof -
  have "\<not> shareable 0" by (simp add: shareable_def)
  then have "\<not> (shareable (page_word s A i) \<and> MAP_NR (page_word s A i AND NOT 2) = p)" if "i < 1024" for i
    using assms that unfolding resident_table_def by metis
  then show ?thesis unfolding refs_def by (simp only: length_0_conv filter_empty_conv set_upt atLeastLessThan_iff Ball_def) blast
qed

lemma refs_cong: "(\<And>i. i < 1024 \<Longrightarrow> page_word s' A i = page_word s A i) \<Longrightarrow> refs s' A p = refs s A p"
  unfolding refs_def by (intro arg_cong [where f = length] filter_cong [OF refl]) (simp only: set_upt atLeastLessThan_iff)

definition one_table :: "mm \<Rightarrow> u32 \<Rightarrow> u32 \<Rightarrow> u32 \<Rightarrow> mm \<Rightarrow> bool" where
  "one_table s A td B s' \<longleftrightarrow> MAP_NR B < 3840 \<and> mem_map s (MAP_NR B) = 0 \<and> page_aligned B \<and> LOW_MEM \<le> B \<and> B \<noteq> 0 \<and>
    (\<forall>q. in_use s q \<longrightarrow> q \<noteq> B) \<and> phys s' td = B OR 7 \<and> shared s A B s' \<and>
    (\<forall>a. a \<noteq> td \<and> a AND FRAME \<noteq> A \<and> a AND FRAME \<noteq> B \<longrightarrow> phys s' a = phys s a) \<and>
    (\<forall>p. mem_map s' p = (if p = MAP_NR B then 1 else mem_map s p) + of_nat (refs s A p)) \<and> HIGH_MEMORY s' = HIGH_MEMORY s"

lemma copy_table:
  assumes free: "has_free s" and A: "resident_table s A" and td: "td AND FRAME = 0"
  obtains B t s' where "new_page (Suc fuel) s = Ok B t" "copy_entries (Suc fuel) [0..<1024] A B (store td (B OR 7) t) = Ok True s'"
    "one_table s A td B s'"
proof -
  obtain k B where k: "k < 3840" "mem_map s k = 0" "B = push_bit 12 (of_nat k) + LOW_MEM" "new_page (Suc fuel) s = Ok B (taken k s)"
    "MAP_NR B = k" "page_aligned B" "LOW_MEM \<le> B" "B \<noteq> 0" "\<And>q. in_use s q \<Longrightarrow> q \<noteq> B"
    "\<And>a. a AND FRAME \<noteq> B \<Longrightarrow> phys (taken k s) a = phys s a" "mem_map (taken k s) = (mem_map s)(k := 1)"
    "\<And>i. i < 1024 \<Longrightarrow> page_word (taken k s) B i = 0"
    by (rule new_page_fresh [OF free, of fuel]) blast
  define t where "t = store td (B OR 7) (taken k s)"
  have al: "page_aligned A" "A \<noteq> B" "A \<noteq> 0" using A k(9) by (auto simp: resident_table_def in_use_def)
  have tA: "page_word t A i = page_word s A i" if "i < 1024" for i
    by (rule page_word_cong [OF al(1) that]) (use k(10) al(2,3) td in \<open>auto simp: t_def\<close>)
  have tB: "page_word t B i = 0" if "i < 1024" for i
  proof -
    have "page_word t B i = page_word (taken k s) B i" by (rule page_word_cong [OF k(6) that]) (use td k(8) in \<open>auto simp: t_def\<close>)
    then show ?thesis using k(12) that by simp
  qed
  have sub: "set [0..<1024] \<subseteq> {..<1024 :: nat}" unfolding set_upt by auto
  have en: "page_word t A i = 0 \<or> page_word t A i AND 1 \<noteq> 0" if "i \<in> set [0..<1024]" for i
    using A tA [of i] that sub unfolding resident_table_def by (metis lessThan_iff subsetD)
  obtain s' where s': "copy_entries (Suc fuel) [0..<1024] A B t = Ok True s'"
    "\<forall>i \<in> set [0..<1024]. page_word s' A i = (if shareable (page_word t A i) then page_word t A i AND NOT 2 else page_word t A i) \<and>
       page_word s' B i = (if page_word t A i = 0 then page_word t B i else page_word t A i AND NOT 2)"
    "\<forall>a. (\<forall>i \<in> set [0..<1024]. a \<noteq> A + of_nat (4 * i) \<and> a \<noteq> B + of_nat (4 * i)) \<longrightarrow> phys s' a = phys t a"
    "\<forall>p. mem_map s' p = mem_map t p + of_nat (refs t A p)" "HIGH_MEMORY s' = HIGH_MEMORY t"
    using copy_entries_spec [OF al(1) k(6) al(2) distinct_upt sub en, of "Suc fuel"] unfolding refs_def by blast
  have out: "phys s' a = phys t a" if "a AND FRAME \<noteq> A" "a AND FRAME \<noteq> B" for a
  proof -
    have "a \<noteq> A + of_nat (4 * i) \<and> a \<noteq> B + of_nat (4 * i)" if "i \<in> set [0..<1024]" for i
      using page_index(1) [OF al(1), of i] page_index(1) [OF k(6), of i] \<open>a AND FRAME \<noteq> A\<close> \<open>a AND FRAME \<noteq> B\<close> that
      unfolding set_upt atLeastLessThan_iff by metis
    then show ?thesis using s'(3) by blast
  qed
  have w: "page_word s' A i = (if shareable (page_word t A i) then page_word t A i AND NOT 2 else page_word t A i) \<and>
      page_word s' B i = (if page_word t A i = 0 then page_word t B i else page_word t A i AND NOT 2)" if "i < 1024" for i
    using s'(2) that unfolding set_upt by (metis atLeastLessThan_iff le0)
  have sh: "shared s A B s'" unfolding shared_def using w by (simp add: tA tB)
  have mt: "mem_map s' p = (if p = MAP_NR B then 1 else mem_map s p) + of_nat (refs s A p)" for p
    using s'(4) refs_cong [OF tA, of p] k(5,11) by (simp add: t_def)
  have ph: "phys s' a = phys s a" if "a \<noteq> td" "a AND FRAME \<noteq> A" "a AND FRAME \<noteq> B" for a
    using out [OF that(2,3)] k(10) that by (simp add: t_def)
  have "phys s' td = B OR 7" using out [of td] td al(3) k(8) by (simp add: t_def)
  moreover have "HIGH_MEMORY s' = HIGH_MEMORY s" using s'(5) by (simp add: t_def taken_def fill_page_def set_map_def store_def)
  ultimately have "one_table s A td B s'" unfolding one_table_def using k(1,2,5-9) ph sh mt by auto
  then show ?thesis using that [OF k(4), of s'] s'(1) unfolding t_def by blast
qed

text \<open>
  The loop over the directory.  \<open>tables\<close> are the entries in use, \<open>table_at\<close> the page table of an entry; \<open>copy_ready\<close> is what the loop needs
  of the parent, \<open>copied\<close> what it has made when the new table of entry \<open>i\<close> is \<open>T i\<close>.
\<close>

definition tables :: "mm \<Rightarrow> u32 \<Rightarrow> nat list \<Rightarrow> nat list" where
  "tables s d js = filter (\<lambda>i. phys s (d + of_nat (4 * i)) \<noteq> 0) js"

definition table_at :: "mm \<Rightarrow> u32 \<Rightarrow> nat \<Rightarrow> u32" where
  "table_at s d i = phys s (d + of_nat (4 * i)) AND FRAME"

definition copy_ready :: "mm \<Rightarrow> u32 \<Rightarrow> nat list \<Rightarrow> bool" where
  "copy_ready s d js \<longleftrightarrow>
    (\<forall>i \<in> set (tables s d js). phys s (d + of_nat (4 * i)) AND 1 \<noteq> 0 \<and> resident_table s (table_at s d i)) \<and>
    inj_on (table_at s d) (set (tables s d js)) \<and>
    length (tables s d js) \<le> card {k. k < 3840 \<and> mem_map s k = 0} \<and> free_below s \<and>
    (\<forall>p. unat (mem_map s p) + (\<Sum>i \<leftarrow> tables s d js. refs s (table_at s d i) p) < 256)"

definition copied :: "mm \<Rightarrow> u32 \<Rightarrow> u32 \<Rightarrow> nat list \<Rightarrow> (nat \<Rightarrow> u32) \<Rightarrow> mm \<Rightarrow> bool" where
  "copied s d t js T s' \<longleftrightarrow>
    (\<forall>i \<in> set (tables s d js). phys s' (t + of_nat (4 * i)) = T i OR 7 \<and> page_aligned (T i) \<and> LOW_MEM \<le> T i \<and> T i \<noteq> 0 \<and>
       mem_map s (MAP_NR (T i)) = 0 \<and> shared s (table_at s d i) (T i) s') \<and>
    inj_on (\<lambda>i. MAP_NR (T i)) (set (tables s d js)) \<and>
    (\<forall>a. (\<forall>i \<in> set (tables s d js). a \<noteq> t + of_nat (4 * i) \<and> a AND FRAME \<noteq> table_at s d i \<and> a AND FRAME \<noteq> T i) \<longrightarrow> phys s' a = phys s a) \<and>
    (\<forall>p. mem_map s' p = (if p \<in> (\<lambda>i. MAP_NR (T i)) ` set (tables s d js) then 1 else mem_map s p) +
       of_nat (\<Sum>i \<leftarrow> tables s d js. refs s (table_at s d i) p))"

text \<open>The counts after one table, when none of them runs over.\<close>

lemma add_count: "unat m + n < 256 \<Longrightarrow> unat (m + of_nat n) = unat m + n" for m :: u8
  by (simp add: unat_word_ariths unat_of_nat)

lemma has_free_ready: "copy_ready s d js \<Longrightarrow> tables s d js \<noteq> [] \<Longrightarrow> has_free s"
proof -
  assume "copy_ready s d js" "tables s d js \<noteq> []"
  then have "0 < card {k. k < 3840 \<and> mem_map s k = 0}" "free_below s" by (auto simp: copy_ready_def Suc_le_eq length_greater_0_conv [symmetric] simp del: length_greater_0_conv)
  then show ?thesis unfolding has_free_def by (metis (mono_tags, lifting) card_gt_0_iff empty_Collect_eq)
qed

lemma one_table_counts:
  assumes "one_table s A td B s'" "resident_table s A" "\<And>p. unat (mem_map s p) + refs s A p < 256"
  shows "unat (mem_map s' p) = (if p = MAP_NR B then 1 else unat (mem_map s p) + refs s A p)"
    "mem_map s' p = 0 \<longleftrightarrow> mem_map s p = 0 \<and> p \<noteq> MAP_NR B" "in_use s q \<Longrightarrow> in_use s' q" "in_use s' B"
proof -
  have B: "mem_map s (MAP_NR B) = 0" "page_aligned B" and m: "mem_map s' p = (if p = MAP_NR B then 1 else mem_map s p) + of_nat (refs s A p)" for p
    using assms(1) by (auto simp: one_table_def)
  have u: "unat (mem_map s' p) = (if p = MAP_NR B then 1 else unat (mem_map s p) + refs s A p)" for p
  proof (cases "p = MAP_NR B")
    case True
    then show ?thesis using refs_zero [OF assms(2) B(1)] by (simp add: m)
  next
    case False
    then have "mem_map s' p = mem_map s p + of_nat (refs s A p)" using m by simp
    then show ?thesis using add_count [OF assms(3) [of p]] False by simp
  qed
  have z: "mem_map s' p = 0 \<longleftrightarrow> mem_map s p = 0 \<and> p \<noteq> MAP_NR B" for p
    unfolding unat_eq_zero [symmetric] u using refs_zero [OF assms(2), of p] by (auto simp: unat_eq_zero)
  show "unat (mem_map s' p) = (if p = MAP_NR B then 1 else unat (mem_map s p) + refs s A p)"
    "mem_map s' p = 0 \<longleftrightarrow> mem_map s p = 0 \<and> p \<noteq> MAP_NR B" by (fact u z)+
  show "in_use s q \<Longrightarrow> in_use s' q" "in_use s' B" using z B by (auto simp: in_use_def)
qed

text \<open>The other tables of the parent are as they were, and can be copied next.\<close>

lemma one_table_rest:
  assumes ready: "copy_ready s d (i # js)" "phys s (d + of_nat (4 * i)) \<noteq> 0" "i \<notin> set js"
    and one: "one_table s (table_at s d i) td B s'" and slots: "\<And>j. j \<in> set js \<Longrightarrow> (d + of_nat (4 * j)) AND FRAME = 0 \<and> d + of_nat (4 * j) \<noteq> td"
    and td: "td AND FRAME = 0"
  shows "tables s' d js = tables s d js" "j \<in> set js \<Longrightarrow> table_at s' d j = table_at s d j"
    "j \<in> set (tables s d js) \<Longrightarrow> x < 1024 \<Longrightarrow> page_word s' (table_at s d j) x = page_word s (table_at s d j) x"
    "j \<in> set (tables s d js) \<Longrightarrow> refs s' (table_at s d j) p = refs s (table_at s d j) p" "copy_ready s' d js"
proof -
  let ?A = "table_at s d i"
  have ti: "tables s d (i # js) = i # tables s d js" using ready(2) by (simp add: tables_def)
  have tj: "set (tables s d js) \<subseteq> set js" by (auto simp: tables_def)
  have A: "resident_table s ?A" and cnt: "unat (mem_map s p) + refs s ?A p + (\<Sum>j \<leftarrow> tables s d js. refs s (table_at s d j) p) < 256" for p
    using ready(1) by (simp_all add: copy_ready_def ti add.assoc)
  have inj: "inj_on (table_at s d) (insert i (set (tables s d js)))" and fresh: "in_use s q \<Longrightarrow> q \<noteq> B" for q
    using ready(1) one by (auto simp: copy_ready_def ti one_table_def)
  have J: "phys s (d + of_nat (4 * j)) AND 1 \<noteq> 0" "resident_table s (table_at s d j)" if "j \<in> set (tables s d js)" for j
    using ready(1) that by (simp_all add: copy_ready_def ti)
  have K: "table_at s d j \<noteq> ?A" "table_at s d j \<noteq> B" "table_at s d j \<noteq> 0" "page_aligned (table_at s d j)" if "j \<in> set (tables s d js)" for j
    using inj_onD [OF inj, of j i] that tj ready(3) J(2) [OF that] fresh unfolding resident_table_def in_use_def by blast+
  have out: "phys s' a = phys s a" if "a \<noteq> td" "a AND FRAME \<noteq> ?A" "a AND FRAME \<noteq> B" for a using one that by (auto simp: one_table_def)
  have A0: "?A \<noteq> 0" "B \<noteq> 0" using A one by (auto simp: resident_table_def one_table_def)
  have d: "phys s' (d + of_nat (4 * j)) = phys s (d + of_nat (4 * j))" if "j \<in> set js" for j by (rule out) (use slots [OF that] A0 in auto)
  show t: "tables s' d js = tables s d js" unfolding tables_def by (rule filter_cong) (simp_all only: d)
  show ta: "j \<in> set js \<Longrightarrow> table_at s' d j = table_at s d j" for j by (simp only: table_at_def d)
  show w: "j \<in> set (tables s d js) \<Longrightarrow> x < 1024 \<Longrightarrow> page_word s' (table_at s d j) x = page_word s (table_at s d j) x" for j x
    by (rule page_word_cong) (use K [of j] td in \<open>auto intro: out\<close>)
  show r: "j \<in> set (tables s d js) \<Longrightarrow> refs s' (table_at s d j) p = refs s (table_at s d j) p" for j p by (rule refs_cong) (rule w)
  have "unat (mem_map s p) + refs s ?A p < 256" for p using cnt [of p] by linarith
  note c = one_table_counts [OF one A this]
  have res: "resident_table s' (table_at s d j)" if "j \<in> set (tables s d js)" for j
    using J(2) [OF that] w [OF that] c(2,3) unfolding resident_table_def
    by (metis (no_types, lifting) one one_table_def)
  have free: "{k. k < 3840 \<and> mem_map s' k = 0} = {k. k < 3840 \<and> mem_map s k = 0} - {MAP_NR B}" using c(2) by auto
  have "MAP_NR B \<in> {k. k < 3840 \<and> mem_map s k = 0}" using one by (simp add: one_table_def)
  then have card: "card {k. k < 3840 \<and> mem_map s' k = 0} = card {k. k < 3840 \<and> mem_map s k = 0} - 1" unfolding free by (simp add: card_Diff_singleton)
  have sum: "(\<Sum>j \<leftarrow> tables s d js. refs s' (table_at s' d j) p) = (\<Sum>j \<leftarrow> tables s d js. refs s (table_at s d j) p)" for p
    by (intro arg_cong [where f = sum_list] map_cong refl) (use r ta tj in auto)
  have low: "(\<Sum>j \<leftarrow> tables s d js. refs s (table_at s d j) (MAP_NR B)) = 0"
    using refs_zero [OF J(2)] one by (auto simp: one_table_def)
  show "copy_ready s' d js" unfolding copy_ready_def t sum
  proof (intro conjI ballI allI)
    fix j assume j: "j \<in> set (tables s d js)"
    then show "phys s' (d + of_nat (4 * j)) AND 1 \<noteq> 0" "resident_table s' (table_at s' d j)" using J(1) res d ta tj by auto
  next
    have "inj_on (table_at s d) (set (tables s d js))" using ready(1) by (simp add: copy_ready_def ti)
    then show "inj_on (table_at s' d) (set (tables s d js))" using ta tj by (metis (no_types, lifting) inj_on_cong subsetD)
    have "Suc (length (tables s d js)) \<le> card {k. k < 3840 \<and> mem_map s k = 0}" using ready(1) by (simp add: copy_ready_def ti)
    then show "length (tables s d js) \<le> card {k. k < 3840 \<and> mem_map s' k = 0}" unfolding card by linarith
    show "free_below s'" using ready(1) c(2) one by (auto simp: copy_ready_def free_below_def one_table_def)
    show "unat (mem_map s' p) + (\<Sum>j \<leftarrow> tables s d js. refs s (table_at s d j) p) < 256" for p
      using cnt [of p] low unfolding c(1) by (cases "p = MAP_NR B") (simp_all del: sum_list_eq_0_iff)
  qed
qed

text \<open>The tables copied first are not touched by the rest of the loop.\<close>

lemma copied_outside:
  assumes "copied s' d t js T s''" "page_aligned A" "A \<noteq> 0" "in_use s' A" "\<And>j. j \<in> set (tables s' d js) \<Longrightarrow> table_at s' d j \<noteq> A"
    and "\<And>j. j \<in> set (tables s' d js) \<Longrightarrow> (t + of_nat (4 * j)) AND FRAME = 0" "x < 1024"
  shows "page_word s'' A x = page_word s' A x"
proof (rule page_word_cong [OF assms(2,7)])
  fix a :: u32
  assume a: "a AND FRAME = A"
  have "a \<noteq> t + of_nat (4 * j) \<and> a AND FRAME \<noteq> table_at s' d j \<and> a AND FRAME \<noteq> T j" if j: "j \<in> set (tables s' d js)" for j
  proof -
    have "LOW_MEM \<le> T j" "mem_map s' (MAP_NR (T j)) = 0" using assms(1) j by (auto simp: copied_def)
    then have "T j \<noteq> A" using assms(4) by (auto simp: in_use_def)
    then show ?thesis using a assms(3) assms(5) [OF j] assms(6) [OF j] by auto
  qed
  then show "phys s'' a = phys s' a" using assms(1) unfolding copied_def by blast
qed

lemma shared_cong:
  "shared s A B s' \<Longrightarrow> (\<And>x. x < 1024 \<Longrightarrow> page_word s'' A x = page_word s' A x \<and> page_word s'' B x = page_word s' B x) \<Longrightarrow> shared s A B s''"
  by (simp add: shared_def)

lemma copied_cons:
  assumes ready: "copy_ready s d (i # js)" "phys s (d + of_nat (4 * i)) \<noteq> 0" "i \<notin> set js"
    and one: "one_table s (table_at s d i) (t + of_nat (4 * i)) B s'" and rest: "copied s' d t js T s''"
    and slots: "\<And>j. j \<in> set (i # js) \<Longrightarrow> (d + of_nat (4 * j)) AND FRAME = 0 \<and> (t + of_nat (4 * j)) AND FRAME = 0"
    and apart: "\<And>j. j \<in> set js \<Longrightarrow> d + of_nat (4 * j) \<noteq> t + of_nat (4 * i) \<and> t + of_nat (4 * j) \<noteq> t + of_nat (4 * i)"
  shows "copied s d t (i # js) (T(i := B)) s''"
proof -
  let ?A = "table_at s d i" and ?td = "t + of_nat (4 * i)"
  note o = one [unfolded one_table_def]
  have ti: "tables s d (i # js) = i # tables s d js" using ready(2) by (simp add: tables_def)
  have tj: "set (tables s d js) \<subseteq> set js" by (auto simp: tables_def)
  have td: "?td AND FRAME = 0" using slots by simp
  have r: "tables s' d js = tables s d js" "\<And>j. j \<in> set js \<Longrightarrow> table_at s' d j = table_at s d j" "copy_ready s' d js"
    "\<And>j x. j \<in> set (tables s d js) \<Longrightarrow> x < 1024 \<Longrightarrow> page_word s' (table_at s d j) x = page_word s (table_at s d j) x"
    "\<And>j p. j \<in> set (tables s d js) \<Longrightarrow> refs s' (table_at s d j) p = refs s (table_at s d j) p"
    using one_table_rest [OF ready one _ td] slots apart by auto
  have A: "resident_table s ?A" and cnt: "unat (mem_map s p) + refs s ?A p < 256" for p
  proof -
    show "resident_table s ?A" using ready(1) by (simp add: copy_ready_def ti)
    have "unat (mem_map s p) + (\<Sum>j \<leftarrow> tables s d (i # js). refs s (table_at s d j) p) < 256" using ready(1) unfolding copy_ready_def by blast
    then show "unat (mem_map s p) + refs s ?A p < 256" by (simp add: ti)
  qed
  note c = one_table_counts [OF one A cnt]
  have T: "phys s'' (t + of_nat (4 * j)) = T j OR 7" "page_aligned (T j)" "LOW_MEM \<le> T j" "T j \<noteq> 0" "mem_map s' (MAP_NR (T j)) = 0"
    "shared s' (table_at s d j) (T j) s''" if "j \<in> set (tables s d js)" for j
    using rest that r(1) r(2) [OF subsetD [OF tj that]] by (auto simp: copied_def)
  have inj: "inj_on (table_at s d) (insert i (set (tables s d js)))" using ready(1) by (simp add: copy_ready_def ti)
  have ne: "table_at s d j \<noteq> ?A \<and> table_at s d j \<noteq> B" if "j \<in> set (tables s d js)" for j
  proof -
    have "in_use s (table_at s d j)" using ready(1) that by (simp add: copy_ready_def ti resident_table_def)
    then have "table_at s d j \<noteq> B" using o by blast
    then show ?thesis using inj_onD [OF inj, of j i] that subsetD [OF tj that] ready(3) by auto
  qed
  have tab: "table_at s' d j \<noteq> ?A" "table_at s' d j \<noteq> B" "(t + of_nat (4 * j)) AND FRAME = 0" if "j \<in> set (tables s' d js)" for j
    using that ne [of j] r(1) r(2) [of j] subsetD [OF tj] slots [of j] by auto
  have al: "page_aligned ?A" "?A \<noteq> 0" "in_use s ?A" using A by (auto simp: resident_table_def in_use_def)
  have keep: "page_word s'' ?A x = page_word s' ?A x \<and> page_word s'' B x = page_word s' B x" if "x < 1024" for x
    using copied_outside [OF rest al(1,2) c(3) [OF al(3)] tab(1,3) that] copied_outside [OF rest _ _ c(4) tab(2,3) that] o by blast
  have slot: "phys s'' ?td = B OR 7"
  proof -
    have "?td \<noteq> t + of_nat (4 * j) \<and> ?td AND FRAME \<noteq> table_at s' d j \<and> ?td AND FRAME \<noteq> T j" if "j \<in> set (tables s' d js)" for j
      using that r apart tj td T(4) [of j] by (metis copy_ready_def resident_table_def subsetD)
    then have "phys s'' ?td = phys s' ?td" using rest unfolding copied_def by blast
    then show ?thesis using o by simp
  qed
  have sh: "shared s ?A B s''" by (rule shared_cong [of _ _ _ s']) (use o keep in auto)
  have shj: "shared s (table_at s d j) (T j) s''" if "j \<in> set (tables s d js)" for j
    using T(6) [OF that] r(4) [OF that] by (simp add: shared_def)
  have fresh: "mem_map s (MAP_NR (T j)) = 0 \<and> MAP_NR (T j) \<noteq> MAP_NR B" if "j \<in> set (tables s d js)" for j
    using T(5) [OF that] c(2) by blast
  have "inj_on (\<lambda>j. MAP_NR (T j)) (set (tables s d js))" using rest r(1) by (simp add: copied_def)
  then have injT: "inj_on (\<lambda>j. MAP_NR ((T(i := B)) j)) (set (tables s d (i # js)))"
    using fresh ready(3) tj unfolding ti inj_on_def by (metis fun_upd_apply set_ConsD)
  have out: "phys s'' a = phys s a"
    if "\<forall>j \<in> set (tables s d (i # js)). a \<noteq> t + of_nat (4 * j) \<and> a AND FRAME \<noteq> table_at s d j \<and> a AND FRAME \<noteq> (T(i := B)) j" for a
  proof -
    have "a \<noteq> t + of_nat (4 * j) \<and> a AND FRAME \<noteq> table_at s' d j \<and> a AND FRAME \<noteq> T j" if j: "j \<in> set (tables s d js)" for j
    proof -
      have "j \<in> set js" "j \<noteq> i" using j tj ready(3) by auto
      then show ?thesis using bspec [OF \<open>\<forall>j \<in> set (tables s d (i # js)). _ j\<close>, of j] j r(2) by (simp add: ti)
    qed
    then have "\<forall>j \<in> set (tables s' d js). a \<noteq> t + of_nat (4 * j) \<and> a AND FRAME \<noteq> table_at s' d j \<and> a AND FRAME \<noteq> T j" unfolding r(1) by blast
    then have "phys s'' a = phys s' a" using rest unfolding copied_def by blast
    also have "\<dots> = phys s a" using that o by (auto simp: ti)
    finally show ?thesis .
  qed
  have sum: "(\<Sum>j \<leftarrow> tables s d js. refs s' (table_at s' d j) p) = (\<Sum>j \<leftarrow> tables s d js. refs s (table_at s d j) p)" for p
    by (intro arg_cong [where f = sum_list] map_cong refl) (use r(2,5) tj in auto)
  have counts: "mem_map s'' p = (if p \<in> (\<lambda>j. MAP_NR ((T(i := B)) j)) ` set (tables s d (i # js)) then 1 else mem_map s p) +
       of_nat (\<Sum>j \<leftarrow> tables s d (i # js). refs s (table_at s d j) p)" for p
  proof -
    have img: "(\<lambda>j. MAP_NR ((T(i := B)) j)) ` set (tables s d (i # js)) = insert (MAP_NR B) ((\<lambda>j. MAP_NR (T j)) ` set (tables s d js))"
    proof -
      have "(\<lambda>j. MAP_NR ((T(i := B)) j)) ` set (tables s d js) = (\<lambda>j. MAP_NR (T j)) ` set (tables s d js)"
        by (rule image_cong) (use ready(3) tj in auto)
      then show ?thesis by (simp add: ti)
    qed
    have m: "mem_map s'' p = (if p \<in> (\<lambda>j. MAP_NR (T j)) ` set (tables s d js) then 1 else mem_map s' p) +
        of_nat (\<Sum>j \<leftarrow> tables s d js. refs s (table_at s d j) p)" using rest unfolding copied_def r(1) sum by blast
    have "refs s ?A p = 0" if "p \<in> (\<lambda>j. MAP_NR (T j)) ` set (tables s d js)" using that fresh refs_zero [OF A] by auto
    then show ?thesis unfolding img m using o by (auto simp: ti algebra_simps)
  qed
  show ?thesis unfolding copied_def
  proof (intro conjI)
    show "\<forall>j \<in> set (tables s d (i # js)). phys s'' (t + of_nat (4 * j)) = (T(i := B)) j OR 7 \<and> page_aligned ((T(i := B)) j) \<and>
        LOW_MEM \<le> (T(i := B)) j \<and> (T(i := B)) j \<noteq> 0 \<and> mem_map s (MAP_NR ((T(i := B)) j)) = 0 \<and> shared s (table_at s d j) ((T(i := B)) j) s''"
      using slot sh shj T fresh o ready(3) tj by (auto simp: ti)
  qed (use injT out counts in blast)+
qed

lemma copy_dirs_spec:
  assumes "copy_ready s d js" "distinct js"
    and "\<And>j. j \<in> set js \<Longrightarrow> (d + of_nat (4 * j)) AND FRAME = 0 \<and> (t + of_nat (4 * j)) AND FRAME = 0"
    and "\<And>i j. i \<in> set js \<Longrightarrow> j \<in> set js \<Longrightarrow> d + of_nat (4 * j) \<noteq> t + of_nat (4 * i) \<and> (i \<noteq> j \<longrightarrow> t + of_nat (4 * j) \<noteq> t + of_nat (4 * i))"
  shows "\<exists>T s'. copy_dirs (Suc fuel) js d t 1024 s = Ok 0 s' \<and> copied s d t js T s'"
  using assms
proof (induction js arbitrary: s)
  case Nil
  then show ?case by (simp add: copied_def tables_def)
next
  case (Cons i js)
  have i: "i \<notin> set js" "distinct js" using Cons.prems(2) by auto
  show ?case
  proof (cases "phys s (d + of_nat (4 * i)) = 0")
    case True
    then have ti: "tables s d (i # js) = tables s d js" by (simp add: tables_def)
    then have "copy_ready s d js" using Cons.prems(1) by (simp add: copy_ready_def)
    from Cons.IH [OF this i(2)] Cons.prems(3,4)
    obtain T s' where "copy_dirs (Suc fuel) js d t 1024 s = Ok 0 s'" "copied s d t js T s'" by auto
    then show ?thesis using True by (intro exI [of _ T] exI [of _ s']) (simp add: copied_def ti)
  next
    case False
    then have ti: "tables s d (i # js) = i # tables s d js" by (simp add: tables_def)
    have A: "resident_table s (table_at s d i)" "phys s (d + of_nat (4 * i)) AND 1 \<noteq> 0" using Cons.prems(1) by (simp_all add: copy_ready_def ti)
    have td: "(t + of_nat (4 * i)) AND FRAME = 0" using Cons.prems(3) [of i] by simp
    have "has_free s" using has_free_ready [OF Cons.prems(1)] ti by simp
    from copy_table [OF this A(1) td, of fuel]
    obtain B u s' where step: "new_page (Suc fuel) s = Ok B u" "copy_entries (Suc fuel) [0..<1024] (table_at s d i) B (store (t + of_nat (4 * i)) (B OR 7) u) = Ok True s'"
      and one: "one_table s (table_at s d i) (t + of_nat (4 * i)) B s'" by metis
    have ready: "copy_ready s' d js"
      by (rule one_table_rest(5) [OF Cons.prems(1) False i(1) one _ td]) (use Cons.prems(3) [of _] Cons.prems(4) [of i] in auto)
    from Cons.IH [OF ready i(2)] Cons.prems(3,4)
    obtain T s'' where r: "copy_dirs (Suc fuel) js d t 1024 s' = Ok 0 s''" "copied s' d t js T s''" by auto
    have "copied s d t (i # js) (T(i := B)) s''"
      by (rule copied_cons [OF Cons.prems(1) False i(1) one r(2)]) (use Cons.prems(3) Cons.prems(4) [of i] i(1) in auto)
    moreover have "copy_dirs (Suc fuel) (i # js) d t 1024 s = Ok 0 s''"
      using False A(2) step r(1) one by (simp add: table_at_def one_table_def del: upt_rec_numeral of_nat_mult)
    ultimately show ?thesis by blast
  qed
qed

text \<open>The directory entries of a range of addresses.\<close>

lemma dir_slot_number: "unat (dir_slot a) = 4 * (unat a div 0x400000)"
proof -
  have "dir_slot a = push_bit 2 (drop_bit 22 a)"
  proof (rule bit_word_eqI)
    fix n assume n: "n < LENGTH(32)"
    have b: "bit (0xffc :: u32) n \<longleftrightarrow> 2 \<le> n \<and> n < 12"
    proof -
      have "(0xffc :: u32) = push_bit 2 (mask 10)" by (simp add: mask_eq_exp_minus_1)
      then show ?thesis unfolding \<open>0xffc = push_bit 2 (mask 10)\<close> using n by (auto simp: bit_push_bit_iff bit_mask_iff)
    qed
    show "bit (dir_slot a) n \<longleftrightarrow> bit (push_bit 2 (drop_bit 22 a)) n"
      unfolding dir_slot_def bit_and_iff b bit_drop_bit_eq bit_push_bit_iff o_def
      using n bit_imp_le_length [of a "20 + n"] by (auto simp: le_add_diff_inverse)
  qed
  moreover have "unat a div 0x400000 < 1024" using unsigned_less [of a] by (intro less_mult_imp_div_less) simp
  ultimately show ?thesis by (simp add: push_bit_eq_mult drop_bit_eq_div unat_word_ariths unat_div)
qed

lemma dir_slots:
  assumes "unat base + n * 0x400000 \<le> 2 ^ 32" "i < n"
  shows "unat (dir_slot base + of_nat (4 * i)) = 4 * (unat base div 0x400000 + i)" "(dir_slot base + of_nat (4 * i)) AND FRAME = 0"
proof -
  have b: "unat base div 0x400000 + i < 1024"
  proof -
    have "(unat base + i * 0x400000) div 0x400000 < 1024" using assms by (intro less_mult_imp_div_less) simp
    then show ?thesis by simp
  qed
  then show u: "unat (dir_slot base + of_nat (4 * i)) = 4 * (unat base div 0x400000 + i)"
    by (simp add: unat_word_ariths dir_slot_number unat_of_nat)
  have "dir_slot base + of_nat (4 * i) < 0x1000" unfolding word_less_nat_alt u using b by simp
  then show "(dir_slot base + of_nat (4 * i)) AND FRAME = 0" using page_offset(1) [of 0 "dir_slot base + of_nat (4 * i)"] by (simp add: page_aligned_def)
qed

lemma aligned_range: "a AND 0x3fffff = 0 \<Longrightarrow> unat a = 0x400000 * (unat a div 0x400000)" for a :: u32
proof -
  assume "a AND 0x3fffff = 0"
  then have "take_bit 22 a = 0" by (simp add: take_bit_eq_mask mask_eq_exp_minus_1)
  then have "take_bit 22 (unat a) = 0" by (metis unsigned_0 unsigned_take_bit_eq)
  then have "unat a mod 0x400000 = 0" by (simp add: take_bit_eq_mod)
  then show ?thesis by (metis add.right_neutral mult_div_mod_eq)
qed

lemma dir_slots_apart:
  assumes "base AND 0x3fffff = 0" "to AND 0x3fffff = 0" "unat base + n * 0x400000 \<le> 2 ^ 32" "unat to + n * 0x400000 \<le> 2 ^ 32"
    and "unat base + n * 0x400000 \<le> unat to \<or> unat to + n * 0x400000 \<le> unat base" "i < n" "j < n"
  shows "dir_slot base + of_nat (4 * i) \<noteq> dir_slot to + of_nat (4 * j)"
proof
  assume "dir_slot base + of_nat (4 * i) = dir_slot to + of_nat (4 * j)"
  then have "unat base div 0x400000 + i = unat to div 0x400000 + j" using dir_slots(1) [OF assms(3,6)] dir_slots(1) [OF assms(4,7)] by simp
  then show False using assms(5-7) aligned_range [OF assms(1)] aligned_range [OF assms(2)] by linarith
qed

section \<open>Properties\<close>

text \<open>
  C26. \<^verbatim>\<open>put_page\<close> maps exactly one page: with a free page at hand it succeeds, the address translates to the page, present, writable
  and for the user; every other page of the address space translates as before, and the page tables stay
  well-formed.
\<close>

theorem put_page_maps:
  assumes "tables_ok s" "has_free s"
  shows "\<exists>s'. put_page (Suc fuel) page address s = Ok page s' \<and> translate s' address = Some (page OR 7) \<and> tables_ok s' \<and>
    (\<forall>a. a AND FRAME \<noteq> address AND FRAME \<longrightarrow> translate s' a = translate s a)"
proof (cases "phys s (dir_slot address) AND 1 = 0")
  case False
  then show ?thesis
    using store_entry_translate [OF assms(1) False present_or(1) [of page]] by (auto simp: put_page_def map_page_def)
next
  case True
  obtain k p where k: "new_page (Suc fuel) s = Ok p (taken k s)" "p \<noteq> 0" "p AND FRAME = p"
    "tables_ok (store (dir_slot address) (p OR 7) (taken k s))"
    "\<And>a. translate (store (dir_slot address) (p OR 7) (taken k s)) a = translate s a"
    "phys (store (dir_slot address) (p OR 7) (taken k s)) (dir_slot address) = p OR 7"
    by (rule new_table_translate [OF assms(1) True assms(2), of fuel]) blast
  define t where "t = store (dir_slot address) (p OR 7) (taken k s)"
  have pf: "phys t (dir_slot address) AND FRAME = p"
  proof -
    have "page_aligned p" using k(3) frame_aligned by metis
    then show ?thesis using aligned_or(1) [of p 7] by (simp add: t_def)
  qed
  have "phys t (dir_slot address) AND 1 \<noteq> 0" using present_or(1) by (simp add: t_def)
  note st = store_entry_translate [OF k(4) [folded t_def] this present_or(1) [of page], unfolded pf]
  have "put_page (Suc fuel) page address s = Ok page (store (p + table_slot address) (page OR 7) t)"
    using True k(1,2) by (simp add: put_page_def map_page_def t_def)
  then show ?thesis using st k(5) [folded t_def] by auto
qed

text \<open>
  C11. Copy on write: \<^verbatim>\<open>un_wp_page\<close> leaves an entry that is writable and shows the same contents.  A page with one user is kept;
  otherwise the entry gets a private copy with reference count 1, the old page keeps its contents and loses one reference, and no
  other word of memory changes.
\<close>

theorem un_wp_page_copies:
  fixes s :: mm and te :: u32
  defines "old \<equiv> phys s te AND FRAME"
  assumes "has_free s" "in_use s old" "in_use s (te AND FRAME)" "te AND FRAME \<noteq> old"
  shows "\<exists>s'. un_wp_page (Suc fuel) te s = Ok () s' \<and> phys s' te AND 2 \<noteq> 0 \<and>
    (\<forall>i < 1024. page_word s' (phys s' te AND FRAME) i = page_word s old i) \<and>
    (\<forall>a. a \<noteq> te \<and> a AND FRAME \<noteq> phys s' te AND FRAME \<longrightarrow> phys s' a = phys s a) \<and>
    (if old \<ge> LOW_MEM \<and> mem_map s (MAP_NR old) = 1 then phys s' te AND FRAME = old \<and> mem_map s' = mem_map s
     else phys s' te AND FRAME \<noteq> old \<and> mem_map s (MAP_NR (phys s' te AND FRAME)) = 0 \<and>
       mem_map s' = (if old \<ge> LOW_MEM then (mem_map s)(MAP_NR (phys s' te AND FRAME) := 1, MAP_NR old := mem_map s (MAP_NR old) - 1)
         else (mem_map s)(MAP_NR (phys s' te AND FRAME) := 1)))"
proof (cases "old \<ge> LOW_MEM \<and> mem_map s (MAP_NR old) = 1")
  case True
  have "(phys s te OR 2) AND FRAME = old" unfolding old_def word_ao_dist by simp
  moreover have "page_word (store te v s) old i = page_word s old i" if "i < 1024" for i v
    by (rule page_word_cong) (use assms(3,5) that in \<open>auto simp: in_use_def\<close>)
  ultimately show ?thesis using True present_or(2) by (auto simp: un_wp_page_def Let_def old_def)
next
  case False
  obtain k p where k: "k < 3840" "mem_map s k = 0" "p = push_bit 12 (of_nat k) + LOW_MEM" "new_page (Suc fuel) s = Ok p (taken k s)"
    "MAP_NR p = k" "page_aligned p" "LOW_MEM \<le> p" "p \<noteq> 0" "\<And>q. in_use s q \<Longrightarrow> q \<noteq> p"
    "\<And>a. a AND FRAME \<noteq> p \<Longrightarrow> phys (taken k s) a = phys s a" "mem_map (taken k s) = (mem_map s)(k := 1)"
    "\<And>i. i < 1024 \<Longrightarrow> page_word (taken k s) p i = 0"
    by (rule new_page_fresh [OF assms(2), of fuel]) blast
  define u where "u = (if old \<ge> LOW_MEM then set_map (MAP_NR old) (mem_map (taken k s) (MAP_NR old) - 1) (taken k s) else taken k s)"
  define s' where "s' = store te (p OR 7) (copy_page old p u)"
  have al: "page_aligned old" "old \<noteq> p" "te AND FRAME \<noteq> p" using assms(3,4) k(9) by (auto simp: in_use_def)
  have mk: "old \<ge> LOW_MEM \<Longrightarrow> MAP_NR old \<noteq> k" using assms(3) k(2) by (auto simp: in_use_def)
  have r: "un_wp_page (Suc fuel) te s = Ok () s'"
    using k(4,8) unfolding un_wp_page_def Let_def old_def [symmetric] if_not_P [OF False] by (simp add: s'_def u_def)
  have e: "phys s' te AND FRAME = p" "phys s' te AND 2 \<noteq> 0"
    using aligned_or(1) [OF k(6), of 7] present_or(3) [of p] by (simp_all add: s'_def)
  have ph: "phys u a = phys s a" if "a AND FRAME \<noteq> p" for a using k(10) that by (simp add: u_def)
  have w: "page_word s' p i = page_word s old i" if i: "i < 1024" for i
  proof -
    have "page_word s' p i = page_word (copy_page old p u) p i"
      by (rule page_word_cong [OF k(6) i]) (use al(3) in \<open>auto simp: s'_def\<close>)
    also have "\<dots> = page_word u old i" unfolding copy_page_def by (rule fill_page_same [OF k(6) i])
    also have "\<dots> = page_word s old i" by (rule page_word_cong [OF al(1) i]) (use ph al(2) in auto)
    finally show ?thesis .
  qed
  have o: "phys s' a = phys s a" if "a \<noteq> te" "a AND FRAME \<noteq> p" for a
    using that ph by (simp add: s'_def copy_page_def fill_page_other)
  have "mem_map s' = (if old \<ge> LOW_MEM then (mem_map s)(k := 1, MAP_NR old := mem_map s (MAP_NR old) - 1) else (mem_map s)(k := 1))"
    using k(11) mk by (auto simp: s'_def copy_page_def u_def fun_eq_iff)
  then show ?thesis using r e w o k(2,5) al(2) False by (intro exI [of _ s']) auto
qed

text \<open>
  C12. What \<^verbatim>\<open>fork\<close> relies on: \<^verbatim>\<open>copy_page_tables\<close> over any number \<open>n\<close> of directory entries, between ranges that do not overlap
  and from an address other than 0 (for which only 160 entries of a table are copied).  The page tables of the range are distinct and, like the pages they map, in use and not in the swap
  space, there are at least as many free pages as tables, and no page gets more references than its byte counts.  Then every table of the
  parent has a new one at the same distance from the child's first directory entry, with the same entries, write protected; the parent's
  entries above 1 MB are write protected too; both directories are otherwise as they were, and the reference count of
  every page grows by the number of entries, in all the tables, that refer to it.
\<close>

theorem copy_page_tables_shares:
  fixes s :: mm and base to sz :: u32
  defines "n \<equiv> unat (drop_bit 22 (sz + 0x3fffff))"
  assumes "base AND 0x3fffff = 0" "to AND 0x3fffff = 0" "base \<noteq> 0"
    and "unat base + n * 0x400000 \<le> 2 ^ 32" "unat to + n * 0x400000 \<le> 2 ^ 32"
    and "unat base + n * 0x400000 \<le> unat to \<or> unat to + n * 0x400000 \<le> unat base"
    and "copy_ready s (dir_slot base) [0..<n]"
  shows "\<exists>T s'. copy_page_tables (Suc fuel) base to sz s = Ok 0 s' \<and>
    (\<forall>i < n. phys s' (dir_slot base + of_nat (4 * i)) = phys s (dir_slot base + of_nat (4 * i)) \<and>
      (if phys s (dir_slot base + of_nat (4 * i)) = 0 then phys s' (dir_slot to + of_nat (4 * i)) = phys s (dir_slot to + of_nat (4 * i))
       else phys s' (dir_slot to + of_nat (4 * i)) = T i OR 7 \<and> page_aligned (T i) \<and> mem_map s (MAP_NR (T i)) = 0 \<and>
         shared s (table_at s (dir_slot base) i) (T i) s')) \<and>
    inj_on T (set (tables s (dir_slot base) [0..<n])) \<and>
    (\<forall>p. mem_map s' p = (if p \<in> (\<lambda>i. MAP_NR (T i)) ` set (tables s (dir_slot base) [0..<n]) then 1 else mem_map s p) +
       of_nat (\<Sum>i \<leftarrow> tables s (dir_slot base) [0..<n]. refs s (table_at s (dir_slot base) i) p))"
proof -
  have slots: "i < n \<Longrightarrow> (dir_slot base + of_nat (4 * i)) AND FRAME = 0 \<and> (dir_slot to + of_nat (4 * i)) AND FRAME = 0" for i
    using dir_slots(2) [OF assms(5)] dir_slots(2) [OF assms(6)] by blast
  have apart: "dir_slot base + of_nat (4 * j) \<noteq> dir_slot to + of_nat (4 * i) \<and>
      (i \<noteq> j \<longrightarrow> dir_slot to + of_nat (4 * j) \<noteq> dir_slot to + of_nat (4 * i))" if "i < n" "j < n" for i j
    using dir_slots_apart [OF assms(2,3,5-7) that(2,1)] dir_slots(1) [OF assms(6) that(1)] dir_slots(1) [OF assms(6) that(2)] by auto
  obtain T s' where c: "copy_dirs (Suc fuel) [0..<n] (dir_slot base) (dir_slot to) 1024 s = Ok 0 s'" "copied s (dir_slot base) (dir_slot to) [0..<n] T s'"
    using copy_dirs_spec [OF assms(8) distinct_upt, of "dir_slot to" fuel] slots apart by auto
  have r: "copy_page_tables (Suc fuel) base to sz s = Ok 0 s'" using c(1) assms(2-4) by (simp add: copy_page_tables_def n_def)
  have z: "T i \<noteq> 0 \<and> table_at s (dir_slot base) i \<noteq> 0" if "i \<in> set (tables s (dir_slot base) [0..<n])" for i
    using c(2) assms(8) that by (auto simp: copied_def copy_ready_def resident_table_def)
  have d: "phys s' a = phys s a" if "a AND FRAME = 0" "\<And>i. i \<in> set (tables s (dir_slot base) [0..<n]) \<Longrightarrow> a \<noteq> dir_slot to + of_nat (4 * i)" for a
    using c(2) z that unfolding copied_def by metis
  have fd: "phys s' (dir_slot base + of_nat (4 * i)) = phys s (dir_slot base + of_nat (4 * i))" if "i < n" for i
    by (rule d) (use that slots apart in \<open>auto simp: tables_def\<close>)
  have td: "phys s' (dir_slot to + of_nat (4 * i)) = phys s (dir_slot to + of_nat (4 * i))" if "i < n" "phys s (dir_slot base + of_nat (4 * i)) = 0" for i
    by (rule d) (use that slots in \<open>auto simp: tables_def\<close>)
  have "i \<in> set (tables s (dir_slot base) [0..<n]) \<longleftrightarrow> i < n \<and> phys s (dir_slot base + of_nat (4 * i)) \<noteq> 0" for i by (simp add: tables_def)
  then show ?thesis using r fd td c(2) unfolding copied_def by (intro exI [of _ T] exI [of _ s']) (auto simp: inj_on_def)
qed

section \<open>Witnesses\<close>

lemma small_mm_has_free: "has_free small_mm"
proof -
  have "mem_map small_mm 5 = 0 \<and> (5 :: nat) < 3840" by (simp add: small_mm_def)
  then show ?thesis using small_mm_free_below unfolding has_free_def by blast
qed

lemma small_mm_dir: "phys small_mm (dir_slot a) = 0"
proof -
  have "dir_slot a \<noteq> x" if "\<not> x < 0x1000" for x using slot_bound(1) [of a] that by auto
  then show ?thesis by (simp add: small_mm_def)
qed

lemma small_mm_tables_ok: "tables_ok small_mm"
  by (simp add: tables_ok_def small_mm_dir)

theorem put_page_maps_witness:
  "tables_ok small_mm \<and> has_free small_mm \<and>
   (\<exists>s'. put_page 1 0x102000 0x4000000 small_mm = Ok 0x102000 s' \<and> translate s' 0x4000000 = Some (0x102000 OR 7))"
  using put_page_maps [OF small_mm_tables_ok small_mm_has_free, of 0 "0x102000" "0x4000000"]
    small_mm_tables_ok small_mm_has_free unfolding One_nat_def by blast

definition shared_mm :: mm where
  "shared_mm = store 0x40 0x100007 (set_map 2 2 small_mm)"

lemma shared_mm_has_free: "has_free shared_mm"
proof -
  have 5: "mem_map shared_mm 5 = 0 \<and> (5 :: nat) < 3840" by (simp add: shared_mm_def small_mm_def)
  have "j = 5" if "mem_map shared_mm j = 0" for j using that by (auto simp: shared_mm_def small_mm_def split: if_splits)
  moreover have "push_bit 12 (of_nat 5) + LOW_MEM < HIGH_MEMORY shared_mm" by (simp add: shared_mm_def small_mm_def)
  ultimately have "free_below shared_mm" unfolding free_below_def by blast
  then show ?thesis using 5 unfolding has_free_def by blast
qed

lemma shared_mm_in_use: "in_use shared_mm 0x100000" "in_use shared_mm 0x102000"
  by (simp_all add: in_use_def shared_mm_def small_mm_def page_aligned_def MAP_NR_def)

theorem un_wp_page_copies_witness:
  "mem_map shared_mm 2 = 2 \<and> (\<exists>s'. un_wp_page 1 0x100000 shared_mm = Ok () s' \<and> phys s' 0x100000 AND 2 \<noteq> 0 \<and> mem_map s' 2 = 1 \<and>
     page_word s' (phys s' 0x100000 AND FRAME) 1 = 42)"
proof -
  have e: "phys shared_mm 0x100000 AND FRAME = 0x102000" "(0x100000 :: u32) AND FRAME = 0x100000" by (simp_all add: shared_mm_def small_mm_def)
  have m: "mem_map shared_mm 2 = 2" "MAP_NR 0x102000 = 2" "page_word shared_mm 0x102000 1 = 42"
    by (simp_all add: shared_mm_def small_mm_def MAP_NR_def page_word_def)
  obtain s' where s': "un_wp_page (Suc 0) 0x100000 shared_mm = Ok () s'" "phys s' 0x100000 AND 2 \<noteq> 0"
    "\<forall>i < 1024. page_word s' (phys s' 0x100000 AND FRAME) i = page_word shared_mm 0x102000 i"
    "mem_map s' = (mem_map shared_mm)(MAP_NR (phys s' 0x100000 AND FRAME) := 1, MAP_NR 0x102000 := mem_map shared_mm (MAP_NR 0x102000) - 1)"
    using un_wp_page_copies [OF shared_mm_has_free, of "0x100000" 0, unfolded e] shared_mm_in_use m(1,2) by auto
  have "page_word s' (phys s' 0x100000 AND FRAME) 1 = 42" using s'(3) m(3) by (metis one_less_numeral_iff semiring_norm(76))
  moreover have "mem_map s' 2 = 1" unfolding s'(4) m(2) by (simp add: m(1))
  ultimately show ?thesis using s'(1,2) m(1) unfolding One_nat_def by blast
qed

lemma shared_mm_entries: "i < 1024 \<Longrightarrow> page_word shared_mm 0x100000 i = (if i = 0 then 0x102067 else 0)"
proof -
  assume i: "i < 1024"
  have f: "x AND FRAME = 0x100000 \<Longrightarrow> x \<noteq> 0x101000 \<and> x \<noteq> 0x102004 \<and> x \<noteq> 0x40" for x :: u32 by auto
  have "(0x100000 + of_nat (4 * i)) AND FRAME = (0x100000 :: u32)" by (rule page_index(1)) (use i in \<open>simp_all add: page_aligned_def\<close>)
  moreover have "0x100000 + of_nat (4 * i) = (0x100000 :: u32) \<longleftrightarrow> i = 0" using slot_eq [where A = "0x100000" and B = "0x100000" and i = i and j = 0] i by (simp add: page_aligned_def)
  ultimately show ?thesis using f [of "0x100000 + of_nat (4 * i)"] by (simp add: page_word_def shared_mm_def small_mm_def del: of_nat_mult)
qed

lemma shared_mm_refs: "refs shared_mm 0x100000 p = (if p = 2 then 1 else 0)"
proof -
  have "shareable 0x102067" "MAP_NR (0x102067 AND NOT 2) = 2" "\<not> shareable 0" by (simp_all add: shareable_def MAP_NR_def)
  then have "refs shared_mm 0x100000 p = length (filter (\<lambda>i. i = 0 \<and> p = 2) [0..<1024])"
    unfolding refs_def by (intro arg_cong [where f = length] filter_cong [OF refl]) (auto simp only: set_upt atLeastLessThan_iff shared_mm_entries split: if_splits)
  also have "\<dots> = (if p = 2 then 1 else 0)" by (subst upt_conv_Cons) (auto simp: filter_empty_conv simp del: upt_rec_numeral)
  finally show ?thesis .
qed

lemma shared_mm_tables:
  "tables shared_mm 0x3c [0..<2] = [1]" "table_at shared_mm 0x3c 1 = 0x100000" "phys shared_mm 0x40 = 0x100007" "phys shared_mm 0x80 = 0" "phys shared_mm 0x3c = 0"
  by (simp_all add: tables_def table_at_def shared_mm_def small_mm_def upt_rec)

lemma shared_mm_ready: "copy_ready shared_mm 0x3c [0..<2]"
proof -
  have "MAP_NR (0x102067 AND NOT 2) = 2" "mem_map shared_mm 2 = 2" by (simp_all add: shareable_def MAP_NR_def shared_mm_def)
  then have r: "resident_table shared_mm 0x100000"
    unfolding resident_table_def using shared_mm_in_use(1) by (simp add: shared_mm_entries)
  have "finite {k. k < 3840 \<and> mem_map shared_mm k = 0}" "{5} \<subseteq> {k. k < 3840 \<and> mem_map shared_mm k = 0}"
    by (simp_all add: shared_mm_def small_mm_def)
  then have c: "1 \<le> card {k. k < 3840 \<and> mem_map shared_mm k = 0}" by (metis card_mono is_singletonI is_singleton_altdef)
  have m: "unat (mem_map shared_mm p) + (if p = 2 then 1 else 0) < 256" for p by (simp add: shared_mm_def small_mm_def)
  show ?thesis unfolding copy_ready_def shared_mm_tables
    using r c m shared_mm_has_free by (simp add: shared_mm_refs shared_mm_tables [unfolded One_nat_def] has_free_def)
qed

theorem copy_page_tables_shares_witness:
  "\<exists>T s'. copy_page_tables 1 0x3c00000 0x8000000 0x800000 shared_mm = Ok 0 s' \<and> phys s' 0x80 = 0 \<and> phys s' 0x84 = T OR 7 \<and>
    page_word s' T 0 = 0x102065 \<and> page_word s' 0x100000 0 = 0x102065"
proof -
  have d: "dir_slot 0x3c00000 = 0x3c" "dir_slot 0x8000000 = 0x80" "unat (drop_bit 22 (0x800000 + 0x3fffff) :: u32) = 2" by (simp_all add: dir_slot_def)
  have "shareable 0x102067" by (simp add: shareable_def)
  then have sh: "shared shared_mm 0x100000 T s' \<Longrightarrow> page_word s' T 0 = 0x102065 \<and> page_word s' 0x100000 0 = 0x102065" for T s'
    unfolding shared_def by (auto simp: shared_mm_entries dest: spec [of _ 0])
  obtain T s' where "copy_page_tables (Suc 0) 0x3c00000 0x8000000 0x800000 shared_mm = Ok 0 s'" and
    c: "\<forall>i < 2. phys s' (0x3c + of_nat (4 * i)) = phys shared_mm (0x3c + of_nat (4 * i)) \<and>
      (if phys shared_mm (0x3c + of_nat (4 * i)) = 0 then phys s' (0x80 + of_nat (4 * i)) = phys shared_mm (0x80 + of_nat (4 * i))
       else phys s' (0x80 + of_nat (4 * i)) = T i OR 7 \<and> page_aligned (T i) \<and> mem_map shared_mm (MAP_NR (T i)) = 0 \<and>
         shared shared_mm (table_at shared_mm 0x3c i) (T i) s')"
    using copy_page_tables_shares [of "0x3c00000" "0x8000000" "0x800000" shared_mm 0, unfolded d, OF _ _ _ _ _ _ shared_mm_ready] by auto
  moreover have "phys s' 0x80 = 0" using spec [OF c, of 0] by (simp add: shared_mm_tables)
  moreover have "phys s' 0x84 = T 1 OR 7" "shared shared_mm 0x100000 (T 1) s'" using spec [OF c, of 1] by (simp_all add: shared_mm_tables del: One_nat_def)
  ultimately show ?thesis using sh unfolding One_nat_def by blast
qed

section \<open>show\_mem does not end\<close>

lemma show_dirs_hangs:
  assumes "i < 1024" "phys s (of_nat (4 * i)) AND 1 \<noteq> 0" "phys s (of_nat (4 * i)) > HIGH_MEMORY s"
  shows "show_dirs fuel i k free s = None"
  using assms by (induction fuel) (auto simp: Let_def)

lemma show_mem_hangs:
  assumes "phys s 16 AND 1 \<noteq> 0" "phys s 16 > HIGH_MEMORY s"
  shows "show_mem fuel s = None"
  using show_dirs_hangs [of 4 s fuel 0] assms by (simp add: show_mem_def split: prod.split)

end
