(* ===== verification/Minix_Blocks.thy ===== *)
theory Minix_Blocks
  imports Kernel_Prelude
begin

text \<open>
  The blocks of a Minix file system: \<^verbatim>\<open>fs/minix/bitmap.c\<close>, \<^verbatim>\<open>fs/minix/inode.c\<close> and the truncation in \<^verbatim>\<open>fs/minix/truncate.c\<close>.

  The state is one mounted device seen through the buffer cache: \<open>bdata\<close> gives the bytes of every block, \<open>unreadable\<close> the blocks
  for which \<^verbatim>\<open>bread\<close> returns \<^verbatim>\<open>NULL\<close>, and \<open>held\<close> how many references others hold to the buffer of a block.  The slots
  of \<^verbatim>\<open>s_imap\<close> and \<^verbatim>\<open>s_zmap\<close> hold block numbers.  Each operation runs without being interleaved; what happens in the
  \<^verbatim>\<open>schedule()\<close> of \<^verbatim>\<open>minix_truncate\<close> is an argument.  The contents of a freed block do not matter: it is cleared when it is
  allocated again.
\<close>

section \<open>State\<close>

record inode =
  i_dev :: u16
  i_ino :: u16
  i_mode :: u16
  i_nlink :: u8
  i_uid :: u16
  i_gid :: u16
  i_rdev :: u16
  i_size :: u32
  i_atime :: u32
  i_mtime :: u32
  i_ctime :: u32
  i_data :: "nat list"
  i_count :: nat
  i_dirt :: bool
  i_pipe :: bool
  i_mount :: bool
  i_sb :: bool

record super_block =
  s_ninodes :: nat
  s_nzones :: nat
  s_imap_blocks :: nat
  s_zmap_blocks :: nat
  s_firstdatazone :: nat
  s_imap :: "nat option list"
  s_zmap :: "nat option list"

record mfs =
  bdata :: "nat \<Rightarrow> nat \<Rightarrow> u8"
  unreadable :: "nat \<Rightarrow> bool"
  held :: "nat \<Rightarrow> nat"
  get_super :: "super_block option"
  now :: u32

text \<open>Little-endian fields of a block.\<close>

definition put8 :: "nat \<Rightarrow> nat \<Rightarrow> u8 \<Rightarrow> mfs \<Rightarrow> mfs" where
  "put8 b off v s = s\<lparr>bdata := (bdata s)(b := (bdata s b)(off := v))\<rparr>"

definition get16 :: "mfs \<Rightarrow> nat \<Rightarrow> nat \<Rightarrow> nat" where
  "get16 s b off = unat (bdata s b off) + 256 * unat (bdata s b (off + 1))"

definition put16 :: "nat \<Rightarrow> nat \<Rightarrow> nat \<Rightarrow> mfs \<Rightarrow> mfs" where
  "put16 b off v s = put8 b (off + 1) (of_nat (v div 256)) (put8 b off (of_nat v) s)"

definition get32 :: "mfs \<Rightarrow> nat \<Rightarrow> nat \<Rightarrow> nat" where
  "get32 s b off = get16 s b off + 65536 * get16 s b (off + 2)"

definition put32 :: "nat \<Rightarrow> nat \<Rightarrow> nat \<Rightarrow> mfs \<Rightarrow> mfs" where
  "put32 b off v s = put16 b (off + 2) (v div 65536) (put16 b off v s)"

section \<open>Bitmaps\<close>

definition block_bit :: "mfs \<Rightarrow> nat \<Rightarrow> nat \<Rightarrow> bool" where
  "block_bit s b n \<longleftrightarrow> bit (bdata s b (n div 8)) (n mod 8)"

text \<open>\<^verbatim>\<open>set_bit\<close> returns the old bit, \<^verbatim>\<open>clear_bit\<close> its complement.\<close>

definition set_block_bit :: "nat \<Rightarrow> nat \<Rightarrow> mfs \<Rightarrow> bool \<times> mfs" where
  "set_block_bit n b s = (block_bit s b n, put8 b (n div 8) (set_bit (n mod 8) (bdata s b (n div 8))) s)"

definition clear_block_bit :: "nat \<Rightarrow> nat \<Rightarrow> mfs \<Rightarrow> bool \<times> mfs" where
  "clear_block_bit n b s = (\<not> block_bit s b n, put8 b (n div 8) (unset_bit (n mod 8) (bdata s b (n div 8))) s)"

definition find_first_zero :: "mfs \<Rightarrow> nat \<Rightarrow> nat" where
  "find_first_zero s b = (case find (\<lambda>n. \<not> block_bit s b n) [0..<8192] of None \<Rightarrow> 8192 | Some n \<Rightarrow> n)"

definition clear_block :: "nat \<Rightarrow> mfs \<Rightarrow> mfs" where
  "clear_block b s = s\<lparr>bdata := (bdata s)(b := (\<lambda>_. 0))\<rparr>"

text \<open>The first map slot with a free bit, with the block of the map and the bit.\<close>

fun map_search :: "mfs \<Rightarrow> nat \<Rightarrow> nat option list \<Rightarrow> (nat \<times> nat \<times> nat) option" where
  "map_search s i [] = None"
| "map_search s i (None # rest) = map_search s (i + 1) rest"
| "map_search s i (Some b # rest) =
    (if find_first_zero s b < 8192 then Some (i, b, find_first_zero s b) else map_search s (i + 1) rest)"

definition minix_free_block :: "nat \<Rightarrow> mfs \<Rightarrow> (bool \<times> mfs) outcome" where
  "minix_free_block block s =
    (case get_super s of
       None \<Rightarrow> Panicked
     | Some sb \<Rightarrow>
         if block < s_firstdatazone sb \<or> block \<ge> s_nzones sb then Panicked
         else if held s block \<noteq> 0 then Done (False, s)
         else
           let zone = block - s_firstdatazone sb + 1
           in case s_zmap sb ! (zone div 8192) of
                None \<Rightarrow> Panicked
              | Some b \<Rightarrow> Done (True, snd (clear_block_bit (zone mod 8192) b s)))"

definition minix_new_block :: "mfs \<Rightarrow> (nat \<times> mfs) outcome" where
  "minix_new_block s =
    (case get_super s of
       None \<Rightarrow> Panicked
     | Some sb \<Rightarrow>
         (case map_search s 0 (s_zmap sb) of
            None \<Rightarrow> Done (0, s)
          | Some (i, b, j) \<Rightarrow>
              let s = snd (set_block_bit j b s);
                  j = j + i * 8192 + s_firstdatazone sb - 1
              in if j \<ge> s_nzones sb then Done (0, s)
                 else if held s j \<noteq> 0 then Panicked
                 else Done (j, clear_block j s)))"

section \<open>The block map of a file\<close>

text \<open>A slot of the inode is filled when it is empty and the caller wants it.\<close>

definition inode_slot :: "bool \<Rightarrow> nat \<Rightarrow> inode \<Rightarrow> mfs \<Rightarrow> (inode \<times> mfs) outcome" where
  "inode_slot create k ino s =
    (if create \<and> i_data ino ! k = 0 then
       then_do (minix_new_block s) (\<lambda>(b, s).
         Done (if b \<noteq> 0 then ino\<lparr>i_data := (i_data ino)[k := b], i_ctime := now s, i_dirt := True\<rparr> else ino, s))
     else Done (ino, s))"

text \<open>The same for an entry of an indirect block.\<close>

definition block_slot :: "bool \<Rightarrow> nat \<Rightarrow> nat \<Rightarrow> mfs \<Rightarrow> (nat \<times> mfs) outcome" where
  "block_slot create b k s =
    (let i = get16 s b (2 * k) in
     if create \<and> i = 0 then
       then_do (minix_new_block s) (\<lambda>(i, s). Done (i, if i \<noteq> 0 then put16 b (2 * k) i s else s))
     else Done (i, s))"

definition minix_bmap_create :: "inode \<Rightarrow> int \<Rightarrow> bool \<Rightarrow> mfs \<Rightarrow> (nat \<times> inode \<times> mfs) outcome" where
  "minix_bmap_create ino block create s =
    (if block < 0 \<or> block \<ge> 7 + 512 + 512 * 512 then Done (0, ino, s)
     else if block < 7 then
       then_do (inode_slot create (nat block) ino s) (\<lambda>(ino, s). Done (i_data ino ! nat block, ino, s))
     else if block < 7 + 512 then
       then_do (inode_slot create 7 ino s) (\<lambda>(ino, s).
         if i_data ino ! 7 = 0 \<or> unreadable s (i_data ino ! 7) then Done (0, ino, s)
         else then_do (block_slot create (i_data ino ! 7) (nat block - 7) s) (\<lambda>(i, s). Done (i, ino, s)))
     else
       then_do (inode_slot create 8 ino s) (\<lambda>(ino, s).
         if i_data ino ! 8 = 0 \<or> unreadable s (i_data ino ! 8) then Done (0, ino, s)
         else then_do (block_slot create (i_data ino ! 8) ((nat block - 519) div 512) s) (\<lambda>(i, s).
           if i = 0 \<or> unreadable s i then Done (0, ino, s)
           else then_do (block_slot create i ((nat block - 519) mod 512) s) (\<lambda>(i, s). Done (i, ino, s)))))"

definition minix_bmap :: "inode \<Rightarrow> int \<Rightarrow> mfs \<Rightarrow> (nat \<times> inode \<times> mfs) outcome" where
  "minix_bmap ino block s = minix_bmap_create ino block False s"

definition minix_create_block :: "inode \<Rightarrow> int \<Rightarrow> mfs \<Rightarrow> (nat \<times> inode \<times> mfs) outcome" where
  "minix_create_block ino block s = minix_bmap_create ino block True s"

section \<open>Inodes on disk\<close>

definition inode_block :: "super_block \<Rightarrow> inode \<Rightarrow> nat" where
  "inode_block sb ino = 2 + s_imap_blocks sb + s_zmap_blocks sb + (unat (i_ino ino) - 1) div 32"

definition inode_offset :: "inode \<Rightarrow> nat" where
  "inode_offset ino = 32 * ((unat (i_ino ino) - 1) mod 32)"

definition minix_read_inode :: "inode \<Rightarrow> mfs \<Rightarrow> inode outcome" where
  "minix_read_inode ino s =
    (case get_super s of
       None \<Rightarrow> Panicked
     | Some sb \<Rightarrow>
         let b = inode_block sb ino; q = inode_offset ino in
         if unreadable s b then Panicked
         else
           let ino = ino\<lparr>i_mode := of_nat (get16 s b q), i_uid := of_nat (get16 s b (q + 2)), i_gid := ucast (bdata s b (q + 12)),
                 i_nlink := bdata s b (q + 13), i_size := of_nat (get32 s b (q + 4)), i_mtime := of_nat (get32 s b (q + 8)),
                 i_atime := of_nat (get32 s b (q + 8)), i_ctime := of_nat (get32 s b (q + 8))\<rparr>
           in Done (if S_ISCHR (i_mode ino) \<or> S_ISBLK (i_mode ino)
                    then ino\<lparr>i_rdev := of_nat (get16 s b (q + 14))\<rparr>
                    else ino\<lparr>i_data := map (\<lambda>k. get16 s b (q + 14 + 2 * k)) [0..<9] @ drop 9 (i_data ino)\<rparr>))"

definition minix_write_inode :: "inode \<Rightarrow> mfs \<Rightarrow> (inode \<times> mfs) outcome" where
  "minix_write_inode ino s =
    (case get_super s of
       None \<Rightarrow> Panicked
     | Some sb \<Rightarrow>
         let b = inode_block sb ino; q = inode_offset ino in
         if unreadable s b then Panicked
         else
           let s = put16 b q (unat (i_mode ino)) s;
               s = put16 b (q + 2) (unat (i_uid ino)) s;
               s = put8 b (q + 12) (ucast (i_gid ino)) s;
               s = put8 b (q + 13) (i_nlink ino) s;
               s = put32 b (q + 4) (unat (i_size ino)) s;
               s = put32 b (q + 8) (unat (i_mtime ino)) s;
               s = (if S_ISCHR (i_mode ino) \<or> S_ISBLK (i_mode ino) then put16 b (q + 14) (unat (i_rdev ino)) s
                    else fold (\<lambda>k. put16 b (q + 14 + 2 * k) (i_data ino ! k)) [0..<9] s)
           in Done (ino\<lparr>i_dirt := False\<rparr>, s))"

section \<open>Truncation\<close>

text \<open>The loop over the 512 entries of an indirect block: \<open>free1\<close> frees one entry, the flag says that all went well.\<close>

fun free_entries :: "(nat \<Rightarrow> mfs \<Rightarrow> (bool \<times> mfs) outcome) \<Rightarrow> nat \<Rightarrow> nat list \<Rightarrow> bool \<Rightarrow> mfs \<Rightarrow> (bool \<times> mfs) outcome" where
  "free_entries free1 b [] ok s = Done (ok, s)"
| "free_entries free1 b (k # rest) ok s =
    (if get16 s b (2 * k) = 0 then free_entries free1 b rest ok s
     else then_do (free1 (get16 s b (2 * k)) s) (\<lambda>(freed, s).
       free_entries free1 b rest (ok \<and> freed) (if freed then put16 b (2 * k) 0 s else s)))"

definition free_indirect :: "(nat \<Rightarrow> mfs \<Rightarrow> (bool \<times> mfs) outcome) \<Rightarrow> nat \<Rightarrow> mfs \<Rightarrow> (bool \<times> mfs) outcome" where
  "free_indirect free1 block s =
    (if block = 0 then Done (True, s)
     else then_do (if unreadable s block then Done (True, s) else free_entries free1 block [0..<512] True s) (\<lambda>(ok, s).
       if ok then minix_free_block block s else Done (False, s)))"

definition minix_free_ind :: "nat \<Rightarrow> mfs \<Rightarrow> (bool \<times> mfs) outcome" where
  "minix_free_ind block s = free_indirect minix_free_block block s"

definition minix_free_dind :: "nat \<Rightarrow> mfs \<Rightarrow> (bool \<times> mfs) outcome" where
  "minix_free_dind block s = free_indirect minix_free_ind block s"

definition release_slot :: "(nat \<Rightarrow> mfs \<Rightarrow> (bool \<times> mfs) outcome) \<Rightarrow> nat \<Rightarrow> bool \<times> inode \<times> mfs \<Rightarrow> (bool \<times> inode \<times> mfs) outcome" where
  "release_slot free1 k = (\<lambda>(ok, ino, s).
    then_do (free1 (i_data ino ! k) s) (\<lambda>(freed, s).
      Done (ok \<and> freed, if freed then ino\<lparr>i_data := (i_data ino)[k := 0]\<rparr> else ino, s)))"

fun free_direct :: "nat list \<Rightarrow> bool \<times> inode \<times> mfs \<Rightarrow> (bool \<times> inode \<times> mfs) outcome" where
  "free_direct [] st = Done st"
| "free_direct (k # rest) (ok, ino, s) =
    (if i_data ino ! k = 0 then free_direct rest (ok, ino, s)
     else then_do (release_slot minix_free_block k (ok, ino, s)) (free_direct rest))"

fun truncate_loop :: "(mfs \<Rightarrow> mfs) list \<Rightarrow> inode \<Rightarrow> mfs \<Rightarrow> (inode \<times> mfs) outcome" where
  "truncate_loop aways ino s =
    then_do (free_direct [0..<7] (True, ino, s)) (\<lambda>st.
    then_do (release_slot minix_free_ind 7 st) (\<lambda>st.
    then_do (release_slot minix_free_dind 8 st) (\<lambda>(ok, ino, s).
      let ino = ino\<lparr>i_dirt := True\<rparr> in
      if ok then Done (ino\<lparr>i_size := 0, i_mtime := now s, i_ctime := now s\<rparr>, s)
      else (case aways of [] \<Rightarrow> Asleep | away # rest \<Rightarrow> truncate_loop rest ino (away s)))))"

declare truncate_loop.simps [simp del]

definition minix_truncate :: "(mfs \<Rightarrow> mfs) list \<Rightarrow> inode \<Rightarrow> mfs \<Rightarrow> (inode \<times> mfs) outcome" where
  "minix_truncate aways ino s =
    (if S_ISREG (i_mode ino) \<or> S_ISDIR (i_mode ino) \<or> S_ISLNK (i_mode ino) then truncate_loop aways ino s else Done (ino, s))"

section \<open>Fields\<close>

lemma put8_simps [simp]:
  "bdata (put8 b off v s) c x = (if c = b \<and> x = off then v else bdata s c x)"
  "unreadable (put8 b off v s) = unreadable s" "held (put8 b off v s) = held s" "get_super (put8 b off v s) = get_super s"
  "now (put8 b off v s) = now s"
  by (auto simp: put8_def)

lemma put16_simps [simp]:
  "unreadable (put16 b off v s) = unreadable s" "held (put16 b off v s) = held s" "get_super (put16 b off v s) = get_super s"
  "now (put16 b off v s) = now s"
  by (simp_all add: put16_def)

lemma get16_put8: "c \<noteq> b \<or> x \<noteq> off \<and> x + 1 \<noteq> off \<Longrightarrow> get16 (put8 b off v s) c x = get16 s c x"
  by (auto simp: get16_def)

lemma bdata_put16: "c \<noteq> b \<or> x \<noteq> off \<and> x \<noteq> off + 1 \<Longrightarrow> bdata (put16 b off v s) c x = bdata s c x"
  by (auto simp: put16_def)

lemma get16_put16: "get16 (put16 b off v s) b off = v mod 65536"
proof -
  have "unat (of_nat n :: u8) = n mod 256" for n by (simp add: unat_of_nat take_bit_eq_mod)
  then have "get16 (put16 b off v s) b off = v mod 256 + 256 * (v div 256 mod 256)" by (simp add: get16_def put16_def)
  also have "\<dots> = v mod (256 * 256)" by (rule mod_mult2_eq [of v 256 256, symmetric, unfolded add.commute [of "256 * _"]])
  finally show ?thesis by simp
qed

lemma get16_put16_other: "c \<noteq> b \<or> x + 1 < off \<or> off + 1 < x \<Longrightarrow> get16 (put16 b off v s) c x = get16 s c x"
  by (auto simp: get16_def put16_def)

lemma get16_less: "get16 s b off < 65536"
proof -
  have "unat (x :: u8) < 256" for x using unsigned_less [of x] by simp
  from this [of "bdata s b off"] this [of "bdata s b (off + 1)"] show ?thesis unfolding get16_def by linarith
qed

lemma get32_put32: "get32 (put32 b off v s) b off = v mod 2 ^ 32"
proof -
  have "get32 (put32 b off v s) b off = v mod 65536 + 65536 * (v div 65536 mod 65536)"
    by (simp add: get32_def put32_def get16_put16 get16_put16_other)
  also have "\<dots> = v mod (65536 * 65536)" using mod_mult2_eq [of v 65536 65536] by simp
  finally show ?thesis by simp
qed

lemma get32_put32_other:
  "c \<noteq> b \<or> x + 3 < off \<or> off + 3 < x \<Longrightarrow> get32 (put32 b off v s) c x = get32 s c x"
  "c \<noteq> b \<or> x + 3 < off \<or> off + 1 < x \<Longrightarrow> get32 (put16 b off v s) c x = get32 s c x"
  "c \<noteq> b \<or> x + 3 < off \<or> off < x \<Longrightarrow> get32 (put8 b off w s) c x = get32 s c x"
  "c \<noteq> b \<or> x + 1 < off \<or> off + 3 < x \<Longrightarrow> get16 (put32 b off v s) c x = get16 s c x"
  "c \<noteq> b \<or> x < off \<or> off + 3 < x \<Longrightarrow> bdata (put32 b off v s) c x = bdata s c x"
  by (auto simp: get32_def put32_def get16_put16_other get16_put8 bdata_put16)

lemma put32_simps [simp]:
  "unreadable (put32 b off v s) = unreadable s" "get_super (put32 b off v s) = get_super s"
  by (simp_all add: put32_def)

definition put_zones :: "nat \<Rightarrow> nat \<Rightarrow> (nat \<Rightarrow> nat) \<Rightarrow> nat \<Rightarrow> mfs \<Rightarrow> mfs" where
  "put_zones b a f n s = fold (\<lambda>k. put16 b (a + 2 * k) (f k)) [0..<n] s"

lemma put_zones_Suc: "put_zones b a f (Suc n) s = put16 b (a + 2 * n) (f n) (put_zones b a f n s)"
  by (simp add: put_zones_def)

lemma put_zones_same: "k < n \<Longrightarrow> get16 (put_zones b a f n s) b (a + 2 * k) = f k mod 65536"
proof (induction n)
  case (Suc n)
  then show ?case by (cases "k = n") (auto simp: put_zones_Suc get16_put16 get16_put16_other)
qed simp

lemma put_zones_other:
  "c \<noteq> b \<or> x + 1 < a \<or> a + 2 * n \<le> x \<Longrightarrow> get16 (put_zones b a f n s) c x = get16 s c x"
  "c \<noteq> b \<or> x < a \<or> a + 2 * n \<le> x \<Longrightarrow> bdata (put_zones b a f n s) c x = bdata s c x"
  "unreadable (put_zones b a f n s) = unreadable s" "get_super (put_zones b a f n s) = get_super s"
  by (induction n) (auto simp: put_zones_Suc get16_put16_other bdata_put16, simp_all add: put_zones_def)

section \<open>Inodes on disk and in memory\<close>

lemma of_nat_unat_mod: "of_nat (unat (x :: 'a::len word) mod 2 ^ LENGTH('a)) = x"
  using unsigned_less [of x] by simp

lemma u16_round: "of_nat (unat (x :: u16) mod 65536) = x"
  using of_nat_unat_mod [of x] by simp

lemma u32_round: "of_nat (unat (x :: u32) mod 2 ^ 32) = x"
  using of_nat_unat_mod [of x] by simp

definition raw_write :: "nat \<Rightarrow> nat \<Rightarrow> inode \<Rightarrow> mfs \<Rightarrow> mfs" where
  "raw_write b q ino s =
    (let s = put16 b q (unat (i_mode ino)) s;
         s = put16 b (q + 2) (unat (i_uid ino)) s;
         s = put8 b (q + 12) (ucast (i_gid ino)) s;
         s = put8 b (q + 13) (i_nlink ino) s;
         s = put32 b (q + 4) (unat (i_size ino)) s;
         s = put32 b (q + 8) (unat (i_mtime ino)) s
     in if S_ISCHR (i_mode ino) \<or> S_ISBLK (i_mode ino) then put16 b (q + 14) (unat (i_rdev ino)) s
        else put_zones b (q + 14) (\<lambda>k. i_data ino ! k) 9 s)"

lemma minix_write_inode_raw:
  "get_super s = Some sb \<Longrightarrow> \<not> unreadable s (inode_block sb ino) \<Longrightarrow>
   minix_write_inode ino s = Done (ino\<lparr>i_dirt := False\<rparr>, raw_write (inode_block sb ino) (inode_offset ino) ino s)"
  by (simp add: minix_write_inode_def raw_write_def Let_def put_zones_def)

lemmas field_simps' = get16_put16 get16_put16_other get16_put8 bdata_put16 get32_put32 get32_put32_other put_zones_same put_zones_other

lemma raw_write_fields:
  "get16 (raw_write b q ino s) b q = unat (i_mode ino) mod 65536"
  "get16 (raw_write b q ino s) b (q + 2) = unat (i_uid ino) mod 65536"
  "bdata (raw_write b q ino s) b (q + 12) = ucast (i_gid ino)"
  "bdata (raw_write b q ino s) b (q + 13) = i_nlink ino"
  "get32 (raw_write b q ino s) b (q + 4) = unat (i_size ino) mod 2 ^ 32"
  "get32 (raw_write b q ino s) b (q + 8) = unat (i_mtime ino) mod 2 ^ 32"
proof -
  have z: "get32 (put_zones b (q + 14) f 9 s) b x = get32 s b x" if "x + 3 < q + 14" for s f x
    using that by (simp add: get32_def put_zones_other)
  show "get16 (raw_write b q ino s) b q = unat (i_mode ino) mod 65536"
    "get16 (raw_write b q ino s) b (q + 2) = unat (i_uid ino) mod 65536"
    "bdata (raw_write b q ino s) b (q + 12) = ucast (i_gid ino)"
    "bdata (raw_write b q ino s) b (q + 13) = i_nlink ino"
    "get32 (raw_write b q ino s) b (q + 4) = unat (i_size ino) mod 2 ^ 32"
    "get32 (raw_write b q ino s) b (q + 8) = unat (i_mtime ino) mod 2 ^ 32"
    unfolding raw_write_def Let_def by (simp_all add: field_simps' z)
qed

lemma raw_write_zone:
  "S_ISCHR (i_mode ino) \<or> S_ISBLK (i_mode ino) \<Longrightarrow> get16 (raw_write b q ino s) b (q + 14) = unat (i_rdev ino) mod 65536"
  "\<not> (S_ISCHR (i_mode ino) \<or> S_ISBLK (i_mode ino)) \<Longrightarrow> k < 9 \<Longrightarrow> get16 (raw_write b q ino s) b (q + 14 + 2 * k) = i_data ino ! k mod 65536"
  unfolding raw_write_def Let_def by (simp_all add: field_simps')

lemma raw_write_elsewhere:
  "c \<noteq> b \<or> x < q \<or> q + 32 \<le> x \<Longrightarrow> bdata (raw_write b q ino s) c x = bdata s c x"
  "unreadable (raw_write b q ino s) = unreadable s" "get_super (raw_write b q ino s) = get_super s"
  unfolding raw_write_def Let_def by (elim disjE, simp_all add: field_simps')

lemma minix_read_inode_cong:
  assumes "get_super s' = get_super s" "unreadable s' = unreadable s"
    and "\<And>sb x. get_super s = Some sb \<Longrightarrow> inode_offset ino \<le> x \<Longrightarrow> x < inode_offset ino + 32 \<Longrightarrow>
      bdata s' (inode_block sb ino) x = bdata s (inode_block sb ino) x"
  shows "minix_read_inode ino s' = minix_read_inode ino s"
proof (cases "get_super s")
  case (Some sb)
  let ?b = "inode_block sb ino" and ?q = "inode_offset ino"
  have b: "bdata s' ?b (?q + k) = bdata s ?b (?q + k)" if "k < 32" for k using assms(3) [OF Some] that by simp
  have g: "get16 s' ?b (?q + k) = get16 s ?b (?q + k)" if "k < 31" for k
    using b [of k] b [of "k + 1"] that by (simp add: get16_def add.assoc)
  have h: "get32 s' ?b (?q + k) = get32 s ?b (?q + k)" if "k < 29" for k
    using g [of k] g [of "k + 2"] that by (simp add: get32_def add.assoc)
  have m: "map (\<lambda>k. get16 s' ?b (?q + 14 + 2 * k)) [0..<9] = map (\<lambda>k. get16 s ?b (?q + 14 + 2 * k)) [0..<9]"
    by (rule map_cong [OF refl]) (use g in \<open>simp add: add.assoc\<close>)
  have e: "get16 s' ?b ?q = get16 s ?b ?q" "get16 s' ?b (?q + 2) = get16 s ?b (?q + 2)" "get16 s' ?b (?q + 14) = get16 s ?b (?q + 14)"
    "bdata s' ?b (?q + 12) = bdata s ?b (?q + 12)" "bdata s' ?b (?q + 13) = bdata s ?b (?q + 13)"
    "get32 s' ?b (?q + 4) = get32 s ?b (?q + 4)" "get32 s' ?b (?q + 8) = get32 s ?b (?q + 8)"
    using g [of 0] g [of 2] g [of 14] b [of 12] b [of 13] h [of 4] h [of 8] by simp_all
  show ?thesis unfolding minix_read_inode_def assms(1,2) Some option.case Let_def m e ..
qed (simp add: minix_read_inode_def assms(1))

lemma inode_slots_apart:
  assumes "i_ino i \<noteq> 0" "i_ino j \<noteq> 0" "i_ino i \<noteq> i_ino j" "inode_block sb i = inode_block sb j"
  shows "inode_offset i + 32 \<le> inode_offset j \<or> inode_offset j + 32 \<le> inode_offset i"
proof -
  define m n where "m = unat (i_ino i) - 1" and "n = unat (i_ino j) - 1"
  have "unat (i_ino i) \<noteq> 0" "unat (i_ino j) \<noteq> 0" "unat (i_ino i) \<noteq> unat (i_ino j)"
    using assms(1-3) unat_eq_0 word_unat_eq_iff by metis+
  then have "m \<noteq> n" by (simp add: m_def n_def)
  moreover have "m div 32 = n div 32" using assms(4) by (simp add: inode_block_def m_def n_def)
  ultimately have "m mod 32 \<noteq> n mod 32" by (metis div_mult_mod_eq)
  then have "m mod 32 < n mod 32 \<or> n mod 32 < m mod 32" by (simp add: neq_iff)
  then show ?thesis unfolding inode_offset_def m_def [symmetric] n_def [symmetric] by (elim disjE; simp)
qed

section \<open>Allocation of blocks\<close>

definition zone_of :: "super_block \<Rightarrow> nat \<Rightarrow> nat" where
  "zone_of sb b = b - s_firstdatazone sb + 1"

definition zone_bit :: "mfs \<Rightarrow> super_block \<Rightarrow> nat \<Rightarrow> bool" where
  "zone_bit s sb b \<longleftrightarrow> (\<exists>c. s_zmap sb ! (zone_of sb b div 8192) = Some c \<and> block_bit s c (zone_of sb b mod 8192))"

definition in_zone :: "super_block \<Rightarrow> nat \<Rightarrow> bool" where
  "in_zone sb b \<longleftrightarrow> s_firstdatazone sb \<le> b \<and> b < s_nzones sb"

text \<open>A mounted file system: eight slots, every map in a block of its own before the data zone, maps for all zones, bit 0 taken.\<close>

definition super_ok :: "mfs \<Rightarrow> super_block \<Rightarrow> bool" where
  "super_ok s sb \<longleftrightarrow> get_super s = Some sb \<and> length (s_zmap sb) = 8 \<and> 0 < s_firstdatazone sb \<and> s_nzones sb \<le> 65536 \<and>
    (\<forall>i < 8. \<forall>c. s_zmap sb ! i = Some c \<longrightarrow> c < s_firstdatazone sb) \<and>
    (\<forall>i < 8. \<forall>k < 8. \<forall>c. s_zmap sb ! i = Some c \<and> s_zmap sb ! k = Some c \<longrightarrow> i = k) \<and>
    (\<forall>b. in_zone sb b \<longrightarrow> s_zmap sb ! (zone_of sb b div 8192) \<noteq> None) \<and>
    (\<forall>c. s_zmap sb ! 0 = Some c \<longrightarrow> block_bit s c 0)"

lemma find_first_zero_less:
  assumes "find_first_zero s b < 8192"
  shows "\<not> block_bit s b (find_first_zero s b)"
proof -
  obtain n where f: "find (\<lambda>n. \<not> block_bit s b n) [0..<8192] = Some n"
    using assms by (cases "find (\<lambda>n. \<not> block_bit s b n) [0..<8192]") (simp_all add: find_first_zero_def)
  then have "find_first_zero s b = n" by (simp add: find_first_zero_def)
  then show ?thesis using find_SomeD [OF f] by simp
qed

lemma map_search_spec:
  "map_search s i xs = Some (k, b, j) \<Longrightarrow> i \<le> k \<and> k < i + length xs \<and> xs ! (k - i) = Some b \<and> j < 8192 \<and> \<not> block_bit s b j"
proof (induction xs arbitrary: i)
  case (Cons x xs)
  show ?case
  proof (cases "case x of None \<Rightarrow> False | Some c \<Rightarrow> find_first_zero s c < 8192")
    case True
    then show ?thesis using Cons.prems find_first_zero_less by (auto split: option.splits)
  next
    case False
    then have "map_search s (i + 1) xs = Some (k, b, j)" using Cons.prems by (cases x) (auto split: if_splits)
    then show ?thesis using Cons.IH [of "i + 1"] by (auto simp: nth_Cons' Suc_diff_Suc)
  qed
qed simp

lemma block_bit_put:
  "block_bit (snd (set_block_bit n b s)) c m \<longleftrightarrow> (c = b \<and> m = n) \<or> block_bit s c m"
  "block_bit (snd (clear_block_bit n b s)) c m \<longleftrightarrow> \<not> (c = b \<and> m = n) \<and> block_bit s c m"
proof -
  have "m mod 8 < 8" "n mod 8 < 8" by simp_all
  moreover have "m = n \<longleftrightarrow> m div 8 = n div 8 \<and> m mod 8 = n mod 8" by (metis div_mult_mod_eq)
  ultimately show "block_bit (snd (set_block_bit n b s)) c m \<longleftrightarrow> (c = b \<and> m = n) \<or> block_bit s c m"
    "block_bit (snd (clear_block_bit n b s)) c m \<longleftrightarrow> \<not> (c = b \<and> m = n) \<and> block_bit s c m"
    by (auto simp: block_bit_def set_block_bit_def clear_block_bit_def bit_set_bit_iff bit_unset_bit_iff)
qed

lemma zone_inj:
  assumes "s_firstdatazone sb \<le> a" "s_firstdatazone sb \<le> b" "zone_of sb a div 8192 = zone_of sb b div 8192" "zone_of sb a mod 8192 = zone_of sb b mod 8192"
  shows "a = b"
proof -
  have "zone_of sb a = zone_of sb b" using assms(3,4) by (metis div_mult_mod_eq)
  then show ?thesis using assms(1,2) by (simp add: zone_of_def)
qed

lemma zone_slot: "super_ok s sb \<Longrightarrow> in_zone sb b \<Longrightarrow> zone_of sb b div 8192 < 8"
  by (auto simp: super_ok_def in_zone_def zone_of_def)

text \<open>Setting or clearing the bit of one zone.\<close>

lemma zone_bit_update:
  assumes ok: "super_ok s sb" and b: "in_zone sb b" and c: "s_zmap sb ! (zone_of sb b div 8192) = Some c" and x: "in_zone sb x"
  shows "zone_bit (snd (set_block_bit (zone_of sb b mod 8192) c s)) sb x \<longleftrightarrow> x = b \<or> zone_bit s sb x"
    "zone_bit (snd (clear_block_bit (zone_of sb b mod 8192) c s)) sb x \<longleftrightarrow> x \<noteq> b \<and> zone_bit s sb x"
proof -
  obtain d where d: "s_zmap sb ! (zone_of sb x div 8192) = Some d" using ok x by (auto simp: super_ok_def)
  have "d = c \<longleftrightarrow> zone_of sb x div 8192 = zone_of sb b div 8192"
    using ok c d zone_slot [OF ok b] zone_slot [OF ok x] unfolding super_ok_def by (metis option.inject)
  then have e: "d = c \<and> zone_of sb x mod 8192 = zone_of sb b mod 8192 \<longleftrightarrow> x = b"
    using zone_inj [of sb x b] b x unfolding in_zone_def by blast
  show "zone_bit (snd (set_block_bit (zone_of sb b mod 8192) c s)) sb x \<longleftrightarrow> x = b \<or> zone_bit s sb x"
    "zone_bit (snd (clear_block_bit (zone_of sb b mod 8192) c s)) sb x \<longleftrightarrow> x \<noteq> b \<and> zone_bit s sb x"
    unfolding zone_bit_def d using e by (auto simp: block_bit_put)
qed

lemma bit_op_simps [simp]:
  "get_super (snd (set_block_bit n b s)) = get_super s" "unreadable (snd (set_block_bit n b s)) = unreadable s"
  "held (snd (set_block_bit n b s)) = held s" "c \<noteq> b \<Longrightarrow> bdata (snd (set_block_bit n b s)) c = bdata s c"
  "get_super (snd (clear_block_bit n b s)) = get_super s" "unreadable (snd (clear_block_bit n b s)) = unreadable s"
  "held (snd (clear_block_bit n b s)) = held s" "c \<noteq> b \<Longrightarrow> bdata (snd (clear_block_bit n b s)) c = bdata s c"
  by (auto simp: set_block_bit_def clear_block_bit_def)

lemma clear_block_simps [simp]:
  "get_super (clear_block b s) = get_super s" "unreadable (clear_block b s) = unreadable s" "held (clear_block b s) = held s"
  "bdata (clear_block b s) c = (if c = b then (\<lambda>_. 0) else bdata s c)"
  by (auto simp: clear_block_def)

lemma zone_bit_cong:
  assumes "super_ok s sb" "in_zone sb x" "\<And>c. c < s_firstdatazone sb \<Longrightarrow> bdata s' c = bdata s c"
  shows "zone_bit s' sb x = zone_bit s sb x"
proof -
  obtain d where d: "s_zmap sb ! (zone_of sb x div 8192) = Some d" using assms by (auto simp: super_ok_def)
  then have "d < s_firstdatazone sb" using assms(1) zone_slot [OF assms(1,2)] unfolding super_ok_def by blast
  then show ?thesis using d assms(3) by (simp add: zone_bit_def block_bit_def)
qed

lemma super_ok_cong:
  assumes "super_ok s sb" "get_super s' = get_super s" "\<And>c. c < s_firstdatazone sb \<Longrightarrow> block_bit s c 0 \<Longrightarrow> block_bit s' c 0"
  shows "super_ok s' sb"
proof -
  have g: "get_super s' = Some sb" using assms(1,2) by (simp only: super_ok_def)
  have "block_bit s' c 0" if c: "s_zmap sb ! 0 = Some c" for c
  proof (rule assms(3))
    have "(0 :: nat) < 8" by simp
    then show "c < s_firstdatazone sb" using assms(1) c unfolding super_ok_def by blast
    show "block_bit s c 0" using assms(1) c unfolding super_ok_def by blast
  qed
  then show ?thesis using assms(1) g unfolding super_ok_def by blast
qed

text \<open>What a successful or failed allocation does.\<close>

lemma minix_new_block_spec:
  assumes ok: "super_ok s sb" and r: "minix_new_block s = Done (j, s')"
  shows "super_ok s' sb \<and> unreadable s' = unreadable s \<and> held s' = held s \<and>
    (\<forall>x. in_zone sb x \<and> x \<noteq> j \<longrightarrow> bdata s' x = bdata s x \<and> zone_bit s' sb x = zone_bit s sb x) \<and>
    (j \<noteq> 0 \<longrightarrow> in_zone sb j \<and> \<not> zone_bit s sb j \<and> zone_bit s' sb j \<and> bdata s' j = (\<lambda>_. 0) \<and> held s j = 0)"
proof (cases "map_search s 0 (s_zmap sb)")
  case None
  then show ?thesis using ok r by (auto simp: minix_new_block_def super_ok_def in_zone_def)
next
  case (Some w)
  obtain i c k where w: "w = (i, c, k)" by (cases w)
  have m: "i < 8" "s_zmap sb ! i = Some c" "k < 8192" "\<not> block_bit s c k"
    using map_search_spec [of s 0 "s_zmap sb" i c k] Some w ok by (auto simp: super_ok_def)
  define b where "b = k + i * 8192 + s_firstdatazone sb - 1"
  define t where "t = snd (set_block_bit k c s)"
  have z0: "0 < k + i * 8192"
  proof (rule ccontr)
    assume "\<not> 0 < k + i * 8192"
    then have "k = 0" "i = 0" by auto
    then show False using m(2,4) ok unfolding super_ok_def by blast
  qed
  have f0: "0 < s_firstdatazone sb" using ok by (simp add: super_ok_def)
  have zb: "zone_of sb b = k + i * 8192" "s_firstdatazone sb \<le> b" using z0 f0 by (auto simp: zone_of_def b_def)
  then have zd: "zone_of sb b div 8192 = i" "zone_of sb b mod 8192 = k" using m(3) by auto
  have cb: "c < s_firstdatazone sb" using ok m(1,2) unfolding super_ok_def by blast
  have st: "super_ok t sb" by (rule super_ok_cong [OF ok]) (simp_all add: t_def block_bit_put)
  have bt: "bdata t x = bdata s x" if "s_firstdatazone sb \<le> x" for x using that cb by (auto simp: t_def)
  have rr: "(j, s') = (if b \<ge> s_nzones sb then (0, t) else (b, clear_block b t)) \<and> (b < s_nzones sb \<longrightarrow> held s b = 0)"
    using r Some w ok unfolding minix_new_block_def super_ok_def b_def t_def by (auto simp: Let_def split: if_splits)
  show ?thesis
  proof (cases "b \<ge> s_nzones sb")
    case True
    have "zone_bit t sb x = zone_bit s sb x" if x: "in_zone sb x" for x
    proof -
      obtain d where d: "s_zmap sb ! (zone_of sb x div 8192) = Some d" using ok x by (auto simp: super_ok_def)
      have "\<not> (d = c \<and> zone_of sb x mod 8192 = k)"
      proof
        assume dc: "d = c \<and> zone_of sb x mod 8192 = k"
        then have "zone_of sb x div 8192 = i" using ok d m(1,2) zone_slot [OF ok x] unfolding super_ok_def by blast
        then have "x = b" using zone_inj [of sb x b] x zb(2) zd dc by (simp add: in_zone_def)
        then show False using x True by (simp add: in_zone_def)
      qed
      then show ?thesis unfolding zone_bit_def d t_def by (auto simp: block_bit_put)
    qed
    then show ?thesis using rr True st bt by (auto simp: in_zone_def t_def)
  next
    case False
    have bz: "in_zone sb b" using False zb(2) by (simp add: in_zone_def)
    have nb: "\<not> zone_bit s sb b" unfolding zone_bit_def zd m(2) using m(4) by simp
    have j: "j = b" "s' = clear_block b t" using rr False by auto
    have tb: "zone_bit t sb x \<longleftrightarrow> x = b \<or> zone_bit s sb x" if "in_zone sb x" for x
      using zone_bit_update(1) [OF ok bz _ that, of c] zd m(2) by (simp add: t_def)
    have cl: "zone_bit s' sb x = zone_bit t sb x" if "in_zone sb x" for x
      by (rule zone_bit_cong [OF st that]) (use zb(2) in \<open>simp add: j\<close>)
    have ss: "super_ok s' sb" by (rule super_ok_cong [OF st]) (use zb(2) in \<open>auto simp: j block_bit_def\<close>)
    have "bdata s' x = bdata s x" if "in_zone sb x" "x \<noteq> b" for x using that bt by (simp add: j in_zone_def)
    then show ?thesis using ss tb cl nb bz j rr False by (auto simp: t_def)
  qed
qed

section \<open>The block map as a function\<close>

definition entry :: "mfs \<Rightarrow> nat \<Rightarrow> nat \<Rightarrow> nat" where
  "entry s b k = (if b = 0 \<or> unreadable s b then 0 else get16 s b (2 * k))"

definition fmap :: "inode \<Rightarrow> mfs \<Rightarrow> nat \<Rightarrow> nat" where
  "fmap ino s n =
    (if n < 7 then i_data ino ! n
     else if n < 519 then entry s (i_data ino ! 7) (n - 7)
     else if n < 7 + 512 + 512 * 512 then entry s (entry s (i_data ino ! 8) ((n - 519) div 512)) ((n - 519) mod 512)
     else 0)"

lemma minix_bmap_fmap: "minix_bmap ino (int n) s = Done (fmap ino s n, ino, s)"
  unfolding minix_bmap_def minix_bmap_create_def fmap_def
  by (auto simp: inode_slot_def block_slot_def entry_def Let_def)

definition alloc :: "mfs \<Rightarrow> super_block \<Rightarrow> nat \<Rightarrow> bool" where
  "alloc s sb b \<longleftrightarrow> in_zone sb b \<and> zone_bit s sb b"

text \<open>The index blocks of a file are allocated and all different.\<close>

definition file_ok :: "mfs \<Rightarrow> super_block \<Rightarrow> inode \<Rightarrow> bool" where
  "file_ok s sb ino \<longleftrightarrow> super_ok s sb \<and> length (i_data ino) = 16 \<and>
    (let a = i_data ino ! 7; d = i_data ino ! 8 in
     (a \<noteq> 0 \<longrightarrow> alloc s sb a \<and> a \<noteq> d) \<and> (d \<noteq> 0 \<longrightarrow> alloc s sb d) \<and>
     (\<forall>k < 512. entry s d k \<noteq> 0 \<longrightarrow> alloc s sb (entry s d k) \<and> entry s d k \<noteq> a \<and> entry s d k \<noteq> d) \<and>
     (\<forall>k < 512. \<forall>l < 512. entry s d k = entry s d l \<and> entry s d k \<noteq> 0 \<longrightarrow> k = l))"

text \<open>
  One step of an allocation: allocated blocks stay allocated, entries of allocated blocks keep their value, except for entry \<open>k\<close> of
  block \<open>b\<close>; a new block was free and its entries are empty.
\<close>

definition grown :: "super_block \<Rightarrow> mfs \<Rightarrow> mfs \<Rightarrow> nat \<Rightarrow> bool" where
  "grown sb s s' j \<longleftrightarrow> super_ok s' sb \<and> (\<forall>x. alloc s sb x \<longrightarrow> alloc s' sb x) \<and>
    (j \<noteq> 0 \<longrightarrow> \<not> alloc s sb j \<and> alloc s' sb j \<and> j < 65536 \<and> (\<forall>k. entry s' j k = 0))"

lemma minix_new_block_grown:
  assumes "super_ok s sb" "minix_new_block s = Done (j, s')"
  shows "grown sb s s' j" "c = 0 \<or> alloc s sb c \<Longrightarrow> entry s' c k = entry s c k" "unreadable s' = unreadable s"
proof -
  note n = minix_new_block_spec [OF assms]
  have nz: "s_nzones sb \<le> 65536" using assms(1) by (simp only: super_ok_def)
  show u: "unreadable s' = unreadable s" using n by blast
  have "j < 65536" "\<And>k. entry s' j k = 0" if "j \<noteq> 0" using n nz that by (auto simp: in_zone_def entry_def get16_def)
  moreover have cj: "x \<noteq> j \<or> x = 0" if "alloc s sb x" for x using n that unfolding alloc_def by blast
  moreover have "alloc s' sb x" if "alloc s sb x" for x
  proof (cases "x = j")
    case True
    then have "j = 0" using cj [OF that] by blast
    then have "\<not> in_zone sb x" using assms(1) True unfolding super_ok_def in_zone_def by simp
    then show ?thesis using that by (simp add: alloc_def)
  next
    case False
    then show ?thesis using n that unfolding alloc_def by blast
  qed
  ultimately show "grown sb s s' j" using n unfolding grown_def alloc_def by auto
  show "entry s' c k = entry s c k" if "c = 0 \<or> alloc s sb c"
  proof (cases "c = 0")
    case False
    then have "alloc s sb c" "c \<noteq> j" using that cj by blast+
    then have "bdata s' c = bdata s c" using n unfolding alloc_def by blast
    then show ?thesis using u by (simp add: entry_def get16_def)
  qed (simp add: entry_def)
qed

lemma block_slot_grown:
  assumes ok: "super_ok s sb" and b: "alloc s sb b" "\<not> unreadable s b" "b \<noteq> 0" and r: "block_slot True b k s = Done (i, s')"
  shows "unreadable s' = unreadable s" "entry s' b k = i" "entry s b k \<noteq> 0 \<Longrightarrow> s' = s"
    "c = 0 \<or> alloc s sb c \<Longrightarrow> c \<noteq> b \<or> l \<noteq> k \<Longrightarrow> entry s' c l = entry s c l"
    "entry s b k = 0 \<Longrightarrow> grown sb s s' i"
proof -
  have "unreadable s' = unreadable s \<and> entry s' b k = i \<and> (entry s b k \<noteq> 0 \<longrightarrow> s' = s) \<and>
      (\<forall>c l. (c = 0 \<or> alloc s sb c) \<and> (c \<noteq> b \<or> l \<noteq> k) \<longrightarrow> entry s' c l = entry s c l) \<and> (entry s b k = 0 \<longrightarrow> grown sb s s' i)"
  proof (cases "get16 s b (2 * k) = 0")
    case False
    then show ?thesis using r b by (auto simp: block_slot_def Let_def entry_def)
  next
    case True
    obtain j t where j: "minix_new_block s = Done (j, t)" "i = j" "s' = (if j \<noteq> 0 then put16 b (2 * k) j t else t)"
      using r True by (cases "minix_new_block s") (auto simp: block_slot_def Let_def)
    note g = minix_new_block_grown [OF ok j(1)]
    show ?thesis
    proof (cases "j = 0")
      case True
      then show ?thesis using j g b \<open>get16 s b (2 * k) = 0\<close> g(2) [of b k] by (auto simp: entry_def)
    next
      case False
      have jb: "j \<noteq> b" "j < 65536" using g(1) b(1) False by (auto simp: grown_def)
      have s': "s' = put16 b (2 * k) j t" using j(3) False by simp
      have e: "entry s' c l = entry t c l" if "c \<noteq> b \<or> l \<noteq> k" for c l
        using that by (cases "l < k") (auto simp: entry_def s' get16_put16_other)
      have bf: "s_firstdatazone sb \<le> b" using b(1) by (simp add: alloc_def in_zone_def)
      have so: "super_ok s' sb"
      proof (rule super_ok_cong)
        show "super_ok t sb" using g(1) by (simp add: grown_def)
        show "block_bit s' c 0" if "c < s_firstdatazone sb" "block_bit t c 0" for c
          using that bf bdata_put16 [of c b _ "2 * k" j t] by (auto simp: s' block_bit_def)
      qed (simp add: s')
      have al: "alloc s' sb x = alloc t sb x" for x
      proof (cases "in_zone sb x")
        case True
        have "zone_bit s' sb x = zone_bit t sb x"
          by (rule zone_bit_cong) (use g(1) True bf in \<open>auto simp: grown_def s' fun_eq_iff bdata_put16\<close>)
        then show ?thesis by (simp add: alloc_def)
      qed (simp add: alloc_def)
      have "entry s' b k = j" using b(2,3) g(3) jb(2) by (simp add: entry_def s' get16_put16)
      moreover have "grown sb s s' j" using g(1) so al e jb(1) False by (simp add: grown_def)
      moreover have "entry s' c l = entry s c l" if "c = 0 \<or> alloc s sb c" "c \<noteq> b \<or> l \<noteq> k" for c l
        using e [OF that(2)] g(2) [OF that(1)] by simp
      moreover have "unreadable s' = unreadable s" "entry s b k = 0" using g(3) \<open>get16 s b (2 * k) = 0\<close> by (simp_all add: s' entry_def)
      ultimately show ?thesis using j(2) by blast
    qed
  qed
  then show "unreadable s' = unreadable s" "entry s' b k = i" "entry s b k \<noteq> 0 \<Longrightarrow> s' = s"
    "c = 0 \<or> alloc s sb c \<Longrightarrow> c \<noteq> b \<or> l \<noteq> k \<Longrightarrow> entry s' c l = entry s c l"
    "entry s b k = 0 \<Longrightarrow> grown sb s s' i" by blast+
qed

lemma file_okD:
  assumes "file_ok s sb ino"
  shows "super_ok s sb" "length (i_data ino) = 16" "i_data ino ! 7 \<noteq> 0 \<Longrightarrow> alloc s sb (i_data ino ! 7) \<and> i_data ino ! 7 \<noteq> i_data ino ! 8"
    "i_data ino ! 8 \<noteq> 0 \<Longrightarrow> alloc s sb (i_data ino ! 8)"
    "k < 512 \<Longrightarrow> entry s (i_data ino ! 8) k \<noteq> 0 \<Longrightarrow> alloc s sb (entry s (i_data ino ! 8) k) \<and>
      entry s (i_data ino ! 8) k \<noteq> i_data ino ! 7 \<and> entry s (i_data ino ! 8) k \<noteq> i_data ino ! 8"
    "k < 512 \<Longrightarrow> l < 512 \<Longrightarrow> entry s (i_data ino ! 8) k = entry s (i_data ino ! 8) l \<Longrightarrow> entry s (i_data ino ! 8) k \<noteq> 0 \<Longrightarrow> k = l"
  using assms unfolding file_ok_def Let_def by blast+

lemma file_ok_index:
  assumes "file_ok s sb ino"
  shows "i_data ino ! 7 = 0 \<or> alloc s sb (i_data ino ! 7)" "i_data ino ! 8 = 0 \<or> alloc s sb (i_data ino ! 8)"
    "entry s (i_data ino ! 8) k = 0 \<or> k \<ge> 512 \<or> alloc s sb (entry s (i_data ino ! 8) k)"
  using file_okD(3-5) [OF assms] not_le by metis+

lemma inode_slot_ok:
  assumes ok: "file_ok s sb ino" and k: "k < 9" and r: "inode_slot True k ino s = Done (ino', s')"
  shows "file_ok s' sb ino'" "unreadable s' = unreadable s" "i_data ino ! k \<noteq> 0 \<Longrightarrow> ino' = ino \<and> s' = s"
    "m \<noteq> k \<or> 7 \<le> k \<Longrightarrow> fmap ino' s' m = fmap ino s m" "i_data ino ! k = 0 \<Longrightarrow> i_data ino' ! k \<noteq> 0 \<Longrightarrow> \<not> alloc s sb (i_data ino' ! k)"
    "alloc s sb x \<Longrightarrow> alloc s' sb x" "l \<noteq> k \<Longrightarrow> i_data ino' ! l = i_data ino ! l"
proof -
  have "file_ok s' sb ino' \<and> unreadable s' = unreadable s \<and> (i_data ino ! k \<noteq> 0 \<longrightarrow> ino' = ino \<and> s' = s) \<and>
      (\<forall>m. m \<noteq> k \<or> 7 \<le> k \<longrightarrow> fmap ino' s' m = fmap ino s m) \<and>
      (i_data ino ! k = 0 \<and> i_data ino' ! k \<noteq> 0 \<longrightarrow> \<not> alloc s sb (i_data ino' ! k)) \<and>
      (\<forall>x. alloc s sb x \<longrightarrow> alloc s' sb x) \<and> (\<forall>l. l \<noteq> k \<longrightarrow> i_data ino' ! l = i_data ino ! l)"
  proof (cases "i_data ino ! k = 0")
    case False
    then show ?thesis using r ok by (simp add: inode_slot_def)
  next
    case True
    have so: "super_ok s sb" and len: "length (i_data ino) = 16" using ok by (auto simp: file_ok_def)
    obtain j where j: "minix_new_block s = Done (j, s')"
      "ino' = (if j \<noteq> 0 then ino\<lparr>i_data := (i_data ino)[k := j], i_ctime := now s', i_dirt := True\<rparr> else ino)"
      using r True by (cases "minix_new_block s") (auto simp: inode_slot_def)
    note g = minix_new_block_grown [OF so j(1)]
    have d: "i_data ino' ! l = (if l = k \<and> j \<noteq> 0 then j else i_data ino ! l)" for l using j(2) len k by simp
    have gr: "super_ok s' sb" "\<And>x. alloc s sb x \<Longrightarrow> alloc s' sb x" "j \<noteq> 0 \<Longrightarrow> \<not> alloc s sb j \<and> alloc s' sb j \<and> (\<forall>k. entry s' j k = 0)"
      using g(1) by (auto simp: grown_def)
    note idx = file_ok_index [OF ok] and fd = file_okD [OF ok]
    have e7: "entry s' (i_data ino ! 7) l = entry s (i_data ino ! 7) l" and e8: "entry s' (i_data ino ! 8) l = entry s (i_data ino ! 8) l" for l
      using g(2) idx(1,2) by blast+
    have e2: "entry s' (entry s (i_data ino ! 8) l) m = entry s (entry s (i_data ino ! 8) l) m" if "l < 512" for l m
      using g(2) idx(3) [of l] that by (meson not_less)
    have z: "entry t 0 l = 0" for t l by (simp add: entry_def)
    have f: "fmap ino' s' m = fmap ino s m" if "m \<noteq> k \<or> 7 \<le> k" for m
    proof (cases "j = 0")
      case True
      have "(m - 519) div 512 < 512" if "m < 7 + 512 + 512 * 512" using that by auto
      then show ?thesis unfolding fmap_def d using True e7 e8 e2 by simp
    next
      case False
      have "(m - 519) div 512 < 512" if "m < 7 + 512 + 512 * 512" using that by auto
      then show ?thesis unfolding fmap_def d using False that e7 e8 e2 z gr(3) \<open>i_data ino ! k = 0\<close> by auto
    qed
    have "file_ok s' sb ino'"
    proof (cases "j = 0")
      case True
      then have e: "ino' = ino" using j(2) by simp
      show ?thesis unfolding e file_ok_def Let_def e8 using fd gr(1,2) len by blast
    next
      case False
      note gj = gr(3) [OF False]
      have l16: "length (i_data ino') = 16" using j(2) len by simp
      consider "k < 7" | "k = 7" | "k = 8" using k by linarith
      then show ?thesis
      proof cases
        case 1
        then have 78: "i_data ino' ! 7 = i_data ino ! 7" "i_data ino' ! 8 = i_data ino ! 8" using d by auto
        show ?thesis unfolding file_ok_def Let_def 78 e8 using fd gr(1,2) l16 by blast
      next
        case 2
        then have 78: "i_data ino' ! 7 = j" "i_data ino' ! 8 = i_data ino ! 8" using d False by auto
        show ?thesis unfolding file_ok_def Let_def 78 e8 using fd gr(1,2) gj l16 by blast
      next
        case 3
        then have 78: "i_data ino' ! 7 = i_data ino ! 7" "i_data ino' ! 8 = j" using d False by auto
        have z': "entry s' j l = 0" for l using gj by blast
        show ?thesis unfolding file_ok_def Let_def 78 z' using fd gr(1,2) gj l16 by blast
      qed
    qed
    then show ?thesis using f d g(3) gr True by auto
  qed
  then show "file_ok s' sb ino'" "unreadable s' = unreadable s" "i_data ino ! k \<noteq> 0 \<Longrightarrow> ino' = ino \<and> s' = s"
    "m \<noteq> k \<or> 7 \<le> k \<Longrightarrow> fmap ino' s' m = fmap ino s m" "i_data ino ! k = 0 \<Longrightarrow> i_data ino' ! k \<noteq> 0 \<Longrightarrow> \<not> alloc s sb (i_data ino' ! k)"
    "alloc s sb x \<Longrightarrow> alloc s' sb x" "l \<noteq> k \<Longrightarrow> i_data ino' ! l = i_data ino ! l" by blast+
qed

text \<open>
  Filling an entry of the indirect block, of the double indirect block and of a block below it.  In each case
  \<open>file_ok\<close> is kept; the first and the last change the map in one place, the second does not change it.
\<close>

lemma file_ok_mono:
  assumes "file_ok s sb ino" "super_ok s' sb" "\<And>x. alloc s sb x \<Longrightarrow> alloc s' sb x"
    and "\<And>k. entry s' (i_data ino ! 8) k = entry s (i_data ino ! 8) k"
  shows "file_ok s' sb ino"
  unfolding file_ok_def Let_def assms(4) using file_okD [OF assms(1)] assms(2,3) by blast

lemma grown_step:
  assumes "super_ok s sb" "entry s b k = 0 \<Longrightarrow> grown sb s s' i" "entry s b k \<noteq> 0 \<Longrightarrow> s' = s"
  shows "super_ok s' sb" "alloc s sb x \<Longrightarrow> alloc s' sb x" "entry s b k = 0 \<Longrightarrow> i \<noteq> 0 \<Longrightarrow> \<not> alloc s sb i"
  using assms unfolding grown_def by metis+

lemma ind_stage:
  assumes ok: "file_ok s sb ino" and a: "i_data ino ! 7 \<noteq> 0" "\<not> unreadable s (i_data ino ! 7)" and n: "7 \<le> n" "n < 519"
    and r: "block_slot True (i_data ino ! 7) (n - 7) s = Done (b, s')"
  shows "file_ok s' sb ino" "fmap ino s' n = b" "m \<noteq> n \<Longrightarrow> fmap ino s' m = fmap ino s m"
    "fmap ino s n \<noteq> 0 \<Longrightarrow> b = fmap ino s n" "fmap ino s n = 0 \<Longrightarrow> b \<noteq> 0 \<Longrightarrow> \<not> alloc s sb b"
proof -
  note fd = file_okD [OF ok] and idx = file_ok_index [OF ok]
  have al: "alloc s sb (i_data ino ! 7)" "i_data ino ! 7 \<noteq> i_data ino ! 8" using fd(3) a(1) by auto
  note g = block_slot_grown [OF fd(1) al(1) a(2,1) r]
  note gs = grown_step [OF fd(1) g(5) g(3)]
  have e8: "entry s' (i_data ino ! 8) k = entry s (i_data ino ! 8) k" for k using g(4) idx(2) al(2) by metis
  have e2: "entry s' (entry s (i_data ino ! 8) k) l = entry s (entry s (i_data ino ! 8) k) l" if "k < 512" for k l
    using g(4) idx(3) [of k] fd(5) [OF that] a(1) that not_le by metis
  have fn: "fmap ino t n = entry t (i_data ino ! 7) (n - 7)" for t using n by (simp add: fmap_def)
  show "file_ok s' sb ino" by (rule file_ok_mono [OF ok gs(1,2) e8])
  show "fmap ino s' n = b" unfolding fn by (rule g(2))
  show "fmap ino s n \<noteq> 0 \<Longrightarrow> b = fmap ino s n" unfolding fn using g(2,3) by auto
  show "fmap ino s n = 0 \<Longrightarrow> b \<noteq> 0 \<Longrightarrow> \<not> alloc s sb b" unfolding fn using gs(3) by blast
  show "fmap ino s' m = fmap ino s m" if "m \<noteq> n"
  proof -
    have "(m - 519) div 512 < 512" if "m < 7 + 512 + 512 * 512" using that by auto
    moreover have "entry s' (i_data ino ! 7) (m - 7) = entry s (i_data ino ! 7) (m - 7)" if "7 \<le> m"
      by (rule g(4)) (use al(1) that \<open>m \<noteq> n\<close> n in auto)
    ultimately show ?thesis unfolding fmap_def using e8 e2 by simp
  qed
qed

lemma dind_stage:
  assumes ok: "file_ok s sb ino" and d: "i_data ino ! 8 \<noteq> 0" "\<not> unreadable s (i_data ino ! 8)" and k: "k < 512"
    and r: "block_slot True (i_data ino ! 8) k s = Done (i, s')"
  shows "file_ok s' sb ino" "fmap ino s' m = fmap ino s m" "entry s' (i_data ino ! 8) k = i" "alloc s sb x \<Longrightarrow> alloc s' sb x"
proof -
  note fd = file_okD [OF ok] and idx = file_ok_index [OF ok]
  have al: "alloc s sb (i_data ino ! 8)" using fd(4) d(1) by auto
  note g = block_slot_grown [OF fd(1) al d(2,1) r]
  note gs = grown_step [OF fd(1) g(5) g(3)]
  show ik: "entry s' (i_data ino ! 8) k = i" by (rule g(2))
  show "alloc s sb x \<Longrightarrow> alloc s' sb x" by (rule gs(2))
  have "file_ok s' sb ino \<and> (\<forall>m. fmap ino s' m = fmap ino s m)"
  proof (cases "entry s (i_data ino ! 8) k = 0")
    case False
    then show ?thesis using g(3) ok by simp
  next
    case True
    have gr: "grown sb s s' i" by (rule g(5) [OF True])
    have e8: "l \<noteq> k \<Longrightarrow> entry s' (i_data ino ! 8) l = entry s (i_data ino ! 8) l" for l using g(4) al by blast
    have e7: "entry s' (i_data ino ! 7) l = entry s (i_data ino ! 7) l" for l
      using g(4) [of "i_data ino ! 7" l] idx(1) fd(3) d(1) by metis
    have e2: "entry s' (entry s (i_data ino ! 8) l) q = entry s (entry s (i_data ino ! 8) l) q" if "l < 512" for l q
      using g(4) idx(3) [of l] fd(5) [OF that] d(1) that not_le by metis
    have ei: "entry s' i q = 0" for q using gr by (cases "i = 0") (simp_all add: grown_def entry_def)
    have na: "i \<noteq> 0 \<Longrightarrow> i \<noteq> i_data ino ! 7 \<and> i \<noteq> i_data ino ! 8 \<and> alloc s' sb i"
      and nl: "i \<noteq> 0 \<Longrightarrow> l < 512 \<Longrightarrow> entry s (i_data ino ! 8) l \<noteq> i" for l
      using gr fd(3-5) unfolding grown_def by metis+
    have "fmap ino s' m = fmap ino s m" for m
    proof -
      have "(m - 519) div 512 < 512" if "m < 7 + 512 + 512 * 512" using that by auto
      moreover have "entry s' (entry s' (i_data ino ! 8) l) q = entry s (entry s (i_data ino ! 8) l) q" if "l < 512" for l q
      proof (cases "l = k")
        case True
        then show ?thesis using ik ei \<open>entry s (i_data ino ! 8) k = 0\<close> by (simp add: entry_def)
      next
        case False
        then show ?thesis using e8 e2 that by simp
      qed
      ultimately show ?thesis unfolding fmap_def using e7 by simp
    qed
    moreover have "file_ok s' sb ino"
      unfolding file_ok_def Let_def
    proof (intro conjI allI impI)
      fix l assume l: "l < 512" "entry s' (i_data ino ! 8) l \<noteq> 0"
      show "alloc s' sb (entry s' (i_data ino ! 8) l)" "entry s' (i_data ino ! 8) l \<noteq> i_data ino ! 7" "entry s' (i_data ino ! 8) l \<noteq> i_data ino ! 8"
        using l na fd(5) [of l] gs(2) e8 [of l] ik by (cases "l = k"; simp)+
    next
      fix l q assume lq: "l < 512" "q < 512" "entry s' (i_data ino ! 8) l = entry s' (i_data ino ! 8) q \<and> entry s' (i_data ino ! 8) l \<noteq> 0"
      then show "l = q" using nl [of l] nl [of q] fd(6) [of l q] e8 [of l] e8 [of q] ik by metis
    next
      show "super_ok s' sb" using gs(1) by blast
      show "length (i_data ino) = 16" by (rule fd(2))
      show "alloc s' sb (i_data ino ! 7)" "i_data ino ! 7 \<noteq> i_data ino ! 8" if "i_data ino ! 7 \<noteq> 0" using fd(3) gs(2) that by auto
      show "alloc s' sb (i_data ino ! 8)" using gs(2) al by blast
    qed
    ultimately show ?thesis by blast
  qed
  then show "file_ok s' sb ino" "fmap ino s' m = fmap ino s m" by blast+
qed

lemma leaf_stage:
  assumes ok: "file_ok s sb ino" and n: "519 \<le> n" "n < 7 + 512 + 512 * 512"
    and e: "entry s (i_data ino ! 8) ((n - 519) div 512) = i" "i \<noteq> 0" "\<not> unreadable s i"
    and r: "block_slot True i ((n - 519) mod 512) s = Done (b, s')"
  shows "file_ok s' sb ino" "fmap ino s' n = b" "m \<noteq> n \<Longrightarrow> fmap ino s' m = fmap ino s m"
    "fmap ino s n \<noteq> 0 \<Longrightarrow> b = fmap ino s n" "fmap ino s n = 0 \<Longrightarrow> b \<noteq> 0 \<Longrightarrow> \<not> alloc s sb b"
proof -
  define k l where "k = (n - 519) div 512" and "l = (n - 519) mod 512"
  have k: "k < 512" using n by (auto simp: k_def)
  note fd = file_okD [OF ok] and idx = file_ok_index [OF ok]
  have al: "alloc s sb i" "i \<noteq> i_data ino ! 7" "i \<noteq> i_data ino ! 8" using fd(5) [OF k] e by (auto simp: k_def)
  note g = block_slot_grown [OF fd(1) al(1) e(3,2) r, folded l_def]
  note gs = grown_step [OF fd(1) g(5) g(3)]
  have e8: "entry s' (i_data ino ! 8) q = entry s (i_data ino ! 8) q" for q using g(4) idx(2) al(3) by metis
  have e7: "entry s' (i_data ino ! 7) q = entry s (i_data ino ! 7) q" for q using g(4) idx(1) al(2) by metis
  have fn: "fmap ino t n = entry t (entry t (i_data ino ! 8) k) l" for t using n by (simp add: fmap_def k_def l_def)
  have fn': "fmap ino s n = entry s i l" "fmap ino s' n = entry s' i l" using fn e8 e(1) by (simp_all add: k_def)
  show "file_ok s' sb ino" by (rule file_ok_mono [OF ok gs(1,2) e8])
  show "fmap ino s' n = b" unfolding fn' by (rule g(2))
  show "fmap ino s n \<noteq> 0 \<Longrightarrow> b = fmap ino s n" unfolding fn' using g(2,3) by auto
  show "fmap ino s n = 0 \<Longrightarrow> b \<noteq> 0 \<Longrightarrow> \<not> alloc s sb b" unfolding fn' using gs(3) by blast
  show "fmap ino s' m = fmap ino s m" if "m \<noteq> n"
  proof (cases "519 \<le> m \<and> m < 7 + 512 + 512 * 512")
    case False
    then show ?thesis unfolding fmap_def using e7 by auto
  next
    case True
    define k' l' where "k' = (m - 519) div 512" and "l' = (m - 519) mod 512"
    have k': "k' < 512" using True by (auto simp: k'_def)
    have ne: "k' \<noteq> k \<or> l' \<noteq> l"
    proof (rule ccontr)
      assume "\<not> (k' \<noteq> k \<or> l' \<noteq> l)"
      then have "m - 519 = n - 519" unfolding k'_def l'_def k_def l_def by (metis div_mult_mod_eq)
      then show False using that n(1) True by linarith
    qed
    have fm: "fmap ino t m = entry t (entry t (i_data ino ! 8) k') l'" for t using True by (simp add: fmap_def k'_def l'_def)
    let ?c = "entry s (i_data ino ! 8) k'"
    have "?c = 0 \<or> alloc s sb ?c" using idx(3) [of k'] k' by linarith
    moreover have "?c \<noteq> i \<or> l' \<noteq> l" using ne fd(6) [OF k' k] e(1,2) by (auto simp: k_def)
    ultimately show ?thesis unfolding fm e8 by (rule g(4))
  qed
qed

lemma create_block_spec:
  assumes ok: "file_ok s sb ino" and n: "n < 7 + 512 + 512 * 512" and r: "minix_create_block ino (int n) s = Done (b, ino', s')"
  shows "file_ok s' sb ino' \<and> minix_bmap ino' (int n) s' = Done (b, ino', s') \<and>
    (\<forall>m. m \<noteq> n \<longrightarrow> fmap ino' s' m = fmap ino s m) \<and>
    (if fmap ino s n \<noteq> 0 then b = fmap ino s n else b = 0 \<or> \<not> alloc s sb b)"
proof -
  consider "n < 7" | "7 \<le> n" "n < 519" | "519 \<le> n" by linarith
  then have "file_ok s' sb ino' \<and> fmap ino' s' n = b \<and> (\<forall>m. m \<noteq> n \<longrightarrow> fmap ino' s' m = fmap ino s m) \<and>
    (if fmap ino s n \<noteq> 0 then b = fmap ino s n else b = 0 \<or> \<not> alloc s sb b)"
  proof cases
    case 1
    have i: "inode_slot True n ino s = Done (ino', s')" "b = i_data ino' ! n"
      using r 1 by (auto simp: minix_create_block_def minix_bmap_create_def then_do_Done)
    have fn: "fmap j t n = i_data j ! n" for j t using 1 by (simp add: fmap_def)
    have "n < 9" using 1 by simp
    note st = inode_slot_ok [OF ok this i(1)]
    show ?thesis unfolding fn using st(1,3,4,5) i(2) by auto
  next
    case 2
    obtain j t where jt: "inode_slot True 7 ino s = Done (j, t)"
      "if i_data j ! 7 = 0 \<or> unreadable t (i_data j ! 7) then (b, ino', s') = (0, j, t)
       else ino' = j \<and> block_slot True (i_data j ! 7) (n - 7) t = Done (b, s')"
      using r 2 by (auto simp: minix_create_block_def minix_bmap_create_def then_do_Done split: if_splits)
    note st = inode_slot_ok [OF ok _ jt(1), simplified]
    show ?thesis
    proof (cases "i_data j ! 7 = 0 \<or> unreadable t (i_data j ! 7)")
      case True
      then have "fmap j t n = 0" using 2 by (auto simp: fmap_def entry_def)
      then show ?thesis using True jt(2) st(1,4) by auto
    next
      case False
      then have bs: "ino' = j" "block_slot True (i_data j ! 7) (n - 7) t = Done (b, s')" using jt(2) by auto
      note ist = ind_stage [OF st(1) _ _ 2 bs(2)]
      show ?thesis using ist False st(4,6) bs(1) by auto
    qed
  next
    case 3
    let ?k = "(n - 519) div 512" and ?l = "(n - 519) mod 512"
    have k: "?k < 512" using n 3 by auto
    obtain j t where jt: "inode_slot True 8 ino s = Done (j, t)"
      "if i_data j ! 8 = 0 \<or> unreadable t (i_data j ! 8) then (b, ino', s') = (0, j, t)
       else \<exists>i u. block_slot True (i_data j ! 8) ?k t = Done (i, u) \<and>
         (if i = 0 \<or> unreadable u i then (b, ino', s') = (0, j, u) else ino' = j \<and> block_slot True i ?l u = Done (b, s'))"
      using r 3 n by (auto simp: minix_create_block_def minix_bmap_create_def then_do_Done split: if_splits)
    note st = inode_slot_ok [OF ok _ jt(1), simplified]
    have fn: "fmap j v n = entry v (entry v (i_data j ! 8) ?k) ?l" for v using n 3 by (simp add: fmap_def)
    show ?thesis
    proof (cases "i_data j ! 8 = 0 \<or> unreadable t (i_data j ! 8)")
      case True
      then have "fmap j t n = 0" unfolding fn by (auto simp: entry_def)
      then show ?thesis using True jt(2) st(1,4) by auto
    next
      case False
      obtain i u where iu: "block_slot True (i_data j ! 8) ?k t = Done (i, u)"
        "if i = 0 \<or> unreadable u i then (b, ino', s') = (0, j, u) else ino' = j \<and> block_slot True i ?l u = Done (b, s')"
        using jt(2) False by auto
      have ds: "file_ok u sb j" "\<And>m. fmap j u m = fmap j t m" "entry u (i_data j ! 8) ?k = i" "\<And>x. alloc t sb x \<Longrightarrow> alloc u sb x"
        using dind_stage [OF st(1) _ _ k iu(1)] False by simp_all
      show ?thesis
      proof (cases "i = 0 \<or> unreadable u i")
        case True
        then have "fmap j u n = 0" unfolding fn ds(3) by (auto simp: entry_def)
        then show ?thesis using True iu(2) ds(1,2) st(4) by auto
      next
        case False
        then have bs: "ino' = j" "block_slot True i ?l u = Done (b, s')" "i \<noteq> 0" "\<not> unreadable u i" using iu(2) by auto
        note ls = leaf_stage [OF ds(1) 3 n ds(3) bs(3,4,2)]
        show ?thesis using ls bs(1) ds(2,4) st(4,6) by auto
      qed
    qed
  qed
  then show ?thesis using minix_bmap_fmap by simp
qed

section \<open>Properties\<close>

text \<open>
  C2. The block map of a file is a map from file blocks to disk blocks, and \<^verbatim>\<open>minix_create_block\<close> refines the update of that map
  at one place: its result is what the map then holds there, an existing block is kept, a new one was not allocated before, no other place changes,
  whichever of the three levels of indirection is involved and wherever the disk fills up, and the index blocks stay allocated and distinct.
\<close>

theorem minix_create_block_refines:
  assumes ok: "file_ok s sb ino" and n: "n < 7 + 512 + 512 * 512" and r: "minix_create_block ino (int n) s = Done (b, ino', s')"
  shows "file_ok s' sb ino' \<and> minix_bmap ino' (int n) s' = Done (b, ino', s') \<and>
    (\<forall>m. m \<noteq> n \<longrightarrow> fmap ino' s' m = fmap ino s m) \<and>
    (if fmap ino s n \<noteq> 0 then b = fmap ino s n else b = 0 \<or> \<not> alloc s sb b)"
  using create_block_spec [OF assms] .

text \<open>
  C28. A block returned by \<^verbatim>\<open>minix_new_block\<close> lies in the data zone, was free and unused, is now marked in the zone map and cleared;
  giving it back with \<^verbatim>\<open>minix_free_block\<close> restores the allocation state of every zone.
\<close>

theorem minix_new_free_round_trip:
  assumes ok: "super_ok s sb" and r: "minix_new_block s = Done (j, s')" and j: "j \<noteq> 0"
  shows "in_zone sb j \<and> \<not> zone_bit s sb j \<and> zone_bit s' sb j \<and> bdata s' j = (\<lambda>_. 0) \<and>
    (\<forall>x. in_zone sb x \<and> x \<noteq> j \<longrightarrow> bdata s' x = bdata s x \<and> zone_bit s' sb x = zone_bit s sb x) \<and>
    (\<exists>s''. minix_free_block j s' = Done (True, s'') \<and> (\<forall>x. in_zone sb x \<longrightarrow> zone_bit s'' sb x = zone_bit s sb x))"
proof -
  note n = minix_new_block_spec [OF ok r]
  have ok': "super_ok s' sb" and jz: "in_zone sb j" and nh: "held s' j = 0" using n j by auto
  obtain c where c: "s_zmap sb ! (zone_of sb j div 8192) = Some c" using ok' jz unfolding super_ok_def by blast
  have g: "get_super s' = Some sb" using ok' by (simp only: super_ok_def)
  have "minix_free_block j s' = Done (True, snd (clear_block_bit (zone_of sb j mod 8192) c s'))"
    using g jz nh c by (simp add: minix_free_block_def in_zone_def zone_of_def Let_def)
  moreover have "zone_bit (snd (clear_block_bit (zone_of sb j mod 8192) c s')) sb x = zone_bit s sb x" if "in_zone sb x" for x
    using zone_bit_update(2) [OF ok' jz c that] n j that by auto
  ultimately show ?thesis using n j by blast
qed

text \<open>
  C27. Writing an inode to its place in the inode table of the disk and reading it back gives the same mode, owner, size, link count and
  modification time (the disk keeps one time only), and the same device number or zones; of the group, which has 16 bits in
  memory and 8 on the disk, only the low byte comes back.  The other inodes of the table are not touched.  Zone numbers are
  those the disk can hold, below 65536, and the block of the inode table is readable.
\<close>

theorem minix_inode_round_trip:
  assumes sb: "get_super s = Some sb" and rd: "\<not> unreadable s (inode_block sb ino)" and len: "length (i_data ino) = 16"
    and z: "\<And>k. k < 9 \<Longrightarrow> i_data ino ! k < 65536" and j: "i_ino j = i_ino ino" "length (i_data j) = 16"
  shows "\<exists>s' r. minix_write_inode ino s = Done (ino\<lparr>i_dirt := False\<rparr>, s') \<and> minix_read_inode j s' = Done r \<and>
    i_mode r = i_mode ino \<and> i_uid r = i_uid ino \<and> uint (i_gid r) = uint (i_gid ino) mod 256 \<and> i_nlink r = i_nlink ino \<and> i_size r = i_size ino \<and>
    i_mtime r = i_mtime ino \<and> i_atime r = i_mtime ino \<and> i_ctime r = i_mtime ino \<and>
    (if S_ISCHR (i_mode ino) \<or> S_ISBLK (i_mode ino) then i_rdev r = i_rdev ino else take 9 (i_data r) = take 9 (i_data ino)) \<and>
    (\<forall>x. i_ino x \<noteq> 0 \<and> i_ino ino \<noteq> 0 \<and> i_ino x \<noteq> i_ino ino \<longrightarrow> minix_read_inode x s' = minix_read_inode x s)"
proof -
  let ?b = "inode_block sb ino" and ?q = "inode_offset ino"
  define s' where "s' = raw_write ?b ?q ino s"
  have w: "minix_write_inode ino s = Done (ino\<lparr>i_dirt := False\<rparr>, s')" using minix_write_inode_raw [OF sb rd] by (simp add: s'_def)
  have same: "inode_block sb j = ?b" "inode_offset j = ?q" using j(1) by (simp_all add: inode_block_def inode_offset_def)
  note f = raw_write_fields [where b = ?b and q = ?q and ino = ino and s = s, folded s'_def] and zn = raw_write_zone [where ino = ino and b = ?b and q = ?q and s = s, folded s'_def]
    and el = raw_write_elsewhere [where b = ?b and q = ?q and ino = ino and s = s, folded s'_def]
  have g: "get_super s' = Some sb" "\<not> unreadable s' ?b" using el sb rd by auto
  define g8 :: u16 where "g8 = ucast (ucast (i_gid ino) :: u8)"
  have gd: "uint g8 = uint (i_gid ino) mod 256" by (simp add: g8_def unsigned_ucast_eq take_bit_eq_mod uint_mod_distrib)
  define r where "r = (let r = j\<lparr>i_mode := i_mode ino, i_uid := i_uid ino, i_gid := g8, i_nlink := i_nlink ino, i_size := i_size ino,
      i_mtime := i_mtime ino, i_atime := i_mtime ino, i_ctime := i_mtime ino\<rparr>
    in if S_ISCHR (i_mode ino) \<or> S_ISBLK (i_mode ino) then r\<lparr>i_rdev := i_rdev ino\<rparr>
       else r\<lparr>i_data := map (\<lambda>k. get16 s' ?b (?q + 14 + 2 * k)) [0..<9] @ drop 9 (i_data j)\<rparr>)"
  have rr: "minix_read_inode j s' = Done r"
    unfolding minix_read_inode_def g(1) option.case Let_def same f g8_def [symmetric] r_def using g(2) zn(1) u16_round u32_round by auto
  have dt: "take 9 (i_data r) = take 9 (i_data ino)" if nd: "\<not> (S_ISCHR (i_mode ino) \<or> S_ISBLK (i_mode ino))"
  proof -
    have "map (\<lambda>k. get16 s' ?b (?q + 14 + 2 * k)) [0..<9] = map ((!) (i_data ino)) [0..<9]"
      by (rule map_cong [OF refl]) (use zn(2) [OF nd] z in simp)
    also have "\<dots> = take 9 (i_data ino)" using len by (simp add: map_nth take_map [symmetric] list_eq_iff_nth_eq)
    finally show ?thesis using nd len by (simp add: r_def Let_def)
  qed
  have oth: "minix_read_inode x s' = minix_read_inode x s" if x: "i_ino x \<noteq> 0" "i_ino ino \<noteq> 0" "i_ino x \<noteq> i_ino ino" for x
  proof (rule minix_read_inode_cong)
    show "get_super s' = get_super s" "unreadable s' = unreadable s" using el by auto
    fix sb' p assume p: "get_super s = Some sb'" "inode_offset x \<le> p" "p < inode_offset x + 32"
    have "sb' = sb" using p(1) sb by simp
    then show "bdata s' (inode_block sb' x) p = bdata s (inode_block sb' x) p"
      using el(1) inode_slots_apart [OF x, of sb] p(2,3) by (cases "inode_block sb x = ?b") auto
  qed
  show ?thesis using w rr dt oth len gd by (intro exI [of _ s'] exI [of _ r]) (auto simp: r_def Let_def)
qed

section \<open>A small file system\<close>

text \<open>Ten zones, data from block 5, the zone map in block 3 and nothing allocated.\<close>

definition small_super :: super_block where
  "small_super = \<lparr>s_ninodes = 32, s_nzones = 10, s_imap_blocks = 1, s_zmap_blocks = 1, s_firstdatazone = 5,
    s_imap = Some 2 # replicate 7 None, s_zmap = Some 3 # replicate 7 None\<rparr>"

definition small_fs :: mfs where
  "small_fs = \<lparr>bdata = \<lambda>b k. if (b = 2 \<or> b = 3) \<and> k = 0 then 1 else 0, unreadable = \<lambda>_. False, held = \<lambda>_. 0,
    get_super = Some small_super, now = 1000\<rparr>"

definition small_inode :: inode where
  "small_inode = \<lparr>i_dev = 0x301, i_ino = 7, i_mode = 0x81B4, i_nlink = 1, i_uid = 3, i_gid = 5, i_rdev = 0, i_size = 70000,
    i_atime = 17, i_mtime = 18, i_ctime = 19, i_data = replicate 16 0, i_count = 1, i_dirt = True, i_pipe = False, i_mount = False, i_sb = True\<rparr>"

lemma small_zmap: "s_zmap small_super ! i = Some c \<Longrightarrow> i < 8 \<Longrightarrow> i = 0 \<and> c = 3"
  by (cases i) (auto simp: small_super_def)

lemma small_super_simps [simp]:
  "get_super small_fs = Some small_super" "length (s_zmap small_super) = 8" "s_firstdatazone small_super = 5" "s_nzones small_super = 10"
  "s_zmap small_super ! 0 = Some 3" "bdata small_fs 3 0 = 1" "held small_fs = (\<lambda>_. 0)" "unreadable small_fs = (\<lambda>_. False)"
  "length (i_data small_inode) = 16" "i_data small_inode = replicate 16 0"
  by (simp_all add: small_fs_def small_super_def small_inode_def)

lemma small_super_ok: "super_ok small_fs small_super"
proof -
  have z: "zone_of small_super b div 8192 = 0" if "in_zone small_super b" for b
  proof -
    have "zone_of small_super b < 8192" using that by (auto simp: in_zone_def zone_of_def)
    then show ?thesis by simp
  qed
  have "block_bit small_fs 3 0" by (simp add: block_bit_def)
  then show ?thesis unfolding super_ok_def using small_zmap z by (intro conjI allI impI) (simp, simp, simp, simp, fastforce, blast, simp, simp)
qed

lemma small_file_ok: "file_ok small_fs small_super small_inode"
proof -
  have "i_data small_inode ! 7 = 0" "i_data small_inode ! 8 = 0" by simp_all
  then show ?thesis unfolding file_ok_def Let_def using small_super_ok by (simp only: entry_def) simp
qed

lemma small_free_bit: "find_first_zero small_fs 3 = 1"
proof -
  have "[0..<8192] = 0 # [Suc 0..<8192]" "[Suc 0..<8192] = 1 # [Suc 1..<8192]" by (subst upt_conv_Cons, simp, simp)+
  moreover have "block_bit small_fs 3 0" "\<not> block_bit small_fs 3 1" by (simp_all add: block_bit_def)
  ultimately show ?thesis unfolding find_first_zero_def by (simp only: find.simps if_True if_False not_False_eq_True not_True_eq_False simp_thms option.case)
qed

lemma small_new_block: "minix_new_block small_fs = Done (5, clear_block 5 (snd (set_block_bit 1 3 small_fs)))"
proof -
  have "s_zmap small_super = Some 3 # replicate 7 None" by (simp add: small_super_def)
  then show ?thesis by (simp add: minix_new_block_def small_free_bit)
qed

theorem minix_create_block_refines_witness:
  "\<exists>ino' s'. minix_create_block small_inode (int 3) small_fs = Done (5, ino', s') \<and> file_ok s' small_super ino' \<and>
    minix_bmap ino' (int 3) s' = Done (5, ino', s') \<and> fmap ino' s' 4 = 0"
proof -
  obtain ino' s' where r: "minix_create_block small_inode (int 3) small_fs = Done (5, ino', s')"
    by (simp add: minix_create_block_def minix_bmap_create_def inode_slot_def small_new_block)
  have "fmap small_inode small_fs 4 = 0" by (simp add: fmap_def)
  then show ?thesis using minix_create_block_refines [OF small_file_ok _ r] r by auto
qed

theorem minix_new_free_round_trip_witness:
  "\<exists>s' s''. minix_new_block small_fs = Done (5, s') \<and> zone_bit s' small_super 5 \<and> minix_free_block 5 s' = Done (True, s'') \<and>
    zone_bit s'' small_super 5 = zone_bit small_fs small_super 5"
  using minix_new_free_round_trip [OF small_super_ok small_new_block] small_new_block by auto

theorem minix_inode_round_trip_witness:
  "\<exists>s' r. minix_write_inode (small_inode\<lparr>i_gid := 261\<rparr>) small_fs = Done (small_inode\<lparr>i_gid := 261, i_dirt := False\<rparr>, s') \<and>
    minix_read_inode (small_inode\<lparr>i_mode := 0, i_size := 0\<rparr>) s' = Done r \<and> i_mode r = 0x81B4 \<and> i_size r = 70000 \<and> uint (i_gid r) = 5"
  using minix_inode_round_trip [of small_fs small_super "small_inode\<lparr>i_gid := 261\<rparr>" "small_inode\<lparr>i_mode := 0, i_size := 0\<rparr>"]
  by (auto simp: small_inode_def)

end
