(* ===== verification/Minix_Dir.thy ===== *)
theory Minix_Dir
  imports Minix_Blocks
begin

text \<open>
  Directories of a Minix file system: \<^verbatim>\<open>minix_match\<close>, \<^verbatim>\<open>minix_find_entry\<close>, \<^verbatim>\<open>minix_add_entry\<close> and \<^verbatim>\<open>empty_dir\<close> of
  \<^verbatim>\<open>fs/minix/namei.c\<close>.

  A directory is a file of 16-byte entries, a 16-bit inode number and 14 bytes of name, 64 of them in a block.  A \<^verbatim>\<open>struct minix_dir_entry *\<close> is
  the pair of the block whose buffer holds it and the offset there; the pointer \<^verbatim>\<open>bh\<close> of the loops is the block it holds, or \<open>None\<close>.
  The name is a pointer to user memory, given as the function from an offset to the byte there.  Following a \<^verbatim>\<open>NULL\<close> pointer has no defined
  result and is \<open>Panicked\<close>: both loops do it when they go on after a block that is missing or cannot be read.
\<close>

section \<open>Operations\<close>

text \<open>The string comparison of no bytes at all leaves the zero flag set.\<close>

definition minix_match :: "nat \<Rightarrow> (nat \<Rightarrow> u8) \<Rightarrow> mfs \<Rightarrow> nat \<times> nat \<Rightarrow> bool" where
  "minix_match len name s = (\<lambda>(b, off).
    if get16 s b off = 0 \<or> len > 14 then False
    else if len = 0 \<and> bdata s b (off + 2) = 46 \<and> bdata s b (off + 3) = 0 then True
    else if len < 14 \<and> bdata s b (off + 2 + len) \<noteq> 0 then False
    else list_all (\<lambda>i. name i = bdata s b (off + 2 + i)) [0..<len])"

text \<open>The loop of \<^verbatim>\<open>minix_find_entry\<close>: \<open>i\<close> counts the entries, \<open>de\<close> points to entry number \<open>k\<close> of the block \<open>bh\<close>.\<close>

function find_entry_loop :: "inode \<Rightarrow> (nat \<Rightarrow> u8) \<Rightarrow> nat \<Rightarrow> nat \<Rightarrow> mfs \<Rightarrow> nat \<Rightarrow> nat option \<Rightarrow> nat \<Rightarrow> (nat \<times> nat) option outcome" where
  "find_entry_loop dir name namelen entries s i bh k =
    (if i < entries then
       (case bh of
          None \<Rightarrow> Panicked
        | Some b \<Rightarrow>
            if k \<ge> 64 then
              then_do (minix_bmap dir (int (i div 64)) s) (\<lambda>(block, _, _).
                if block = 0 \<or> unreadable s block then find_entry_loop dir name namelen entries s (i + 64) None k
                else if minix_match namelen name s (block, 0) then Done (Some (block, 0))
                else find_entry_loop dir name namelen entries s (i + 1) (Some block) 1)
            else if minix_match namelen name s (b, 16 * k) then Done (Some (b, 16 * k))
            else find_entry_loop dir name namelen entries s (i + 1) (Some b) (k + 1))
     else Done None)"
  by pat_completeness auto
termination by (relation "measure (\<lambda>(dir, name, namelen, entries, s, i, bh, k). entries - i)") auto

declare find_entry_loop.simps [simp del]

definition minix_find_entry :: "inode option \<Rightarrow> (nat \<Rightarrow> u8) \<Rightarrow> nat \<Rightarrow> mfs \<Rightarrow> (nat \<times> nat) option outcome" where
  "minix_find_entry dir name namelen s =
    (case dir of
       None \<Rightarrow> Done None
     | Some dir \<Rightarrow>
         let namelen = min namelen 14; entries = unat (i_size dir) div 16; block = i_data dir ! 0 in
         if block = 0 \<or> unreadable s block then Done None
         else find_entry_loop dir name namelen entries s 0 (Some block) 0)"

text \<open>Storing a name and taking an entry that is free or lies behind the last one.\<close>

definition put_name :: "nat \<times> nat \<Rightarrow> (nat \<Rightarrow> u8) \<Rightarrow> nat \<Rightarrow> mfs \<Rightarrow> mfs" where
  "put_name = (\<lambda>(b, off) name namelen. fold (\<lambda>i. put8 b (off + 2 + i) (if i < namelen then name i else 0)) [0..<14])"

definition extend_dir :: "nat \<Rightarrow> nat \<times> nat \<Rightarrow> inode \<Rightarrow> mfs \<Rightarrow> inode \<times> mfs" where
  "extend_dir i = (\<lambda>(b, off) dir s.
    if 16 * i \<ge> unat (i_size dir)
    then (dir\<lparr>i_size := of_nat (16 * (i + 1)), i_dirt := True, i_ctime := now s\<rparr>, put16 b off 0 s)
    else (dir, s))"

definition take_entry :: "(nat \<Rightarrow> u8) \<Rightarrow> nat \<Rightarrow> nat \<times> nat \<Rightarrow> inode \<Rightarrow> mfs \<Rightarrow> inode \<times> mfs" where
  "take_entry name namelen de dir s = (dir\<lparr>i_mtime := now s\<rparr>, put_name de name namelen s)"

lemma then_do_cong [fundef_cong]:
  "m = m' \<Longrightarrow> (\<And>x. m' = Done x \<Longrightarrow> f x = g x) \<Longrightarrow> then_do m f = then_do m' g"
  by (cases m') auto

lemma inode_slot_size: "inode_slot create k ino s = Done (ino', s') \<Longrightarrow> i_size ino' = i_size ino"
  by (auto simp: inode_slot_def then_do_Done split: if_splits)

lemma create_block_size:
  assumes "minix_create_block ino n s = Done (b, ino', s')"
  shows "i_size ino' = i_size ino"
proof -
  have "\<exists>k t. inode_slot True k ino s = Done (ino', t)" if "0 \<le> n" "n < 7 + 512 + 512 * 512"
    using assms that unfolding minix_create_block_def minix_bmap_create_def
    by (cases "n < 7"; cases "n < 7 + 512") (fastforce simp: then_do_Done split: if_splits)+
  moreover have "ino' = ino" if "\<not> (0 \<le> n \<and> n < 7 + 512 + 512 * 512)"
    using assms that by (auto simp: minix_create_block_def minix_bmap_create_def)
  ultimately show ?thesis using inode_slot_size by blast
qed

text \<open>The entry of number \<open>i\<close> is taken when it is free or behind the end; otherwise the loop of \<^verbatim>\<open>minix_add_entry\<close> goes on.\<close>

definition try_entry :: "(nat \<Rightarrow> u8) \<Rightarrow> nat \<Rightarrow> nat \<Rightarrow> nat \<times> nat \<Rightarrow> inode \<Rightarrow> mfs \<Rightarrow> (inode \<times> mfs) option" where
  "try_entry name namelen i de dir s =
    (let (dir, s) = extend_dir i de dir s
     in if get16 s (fst de) (snd de) = 0 then Some (take_entry name namelen de dir s) else None)"

lemma try_entry_None: "try_entry name namelen i de dir s = None \<Longrightarrow> 16 * i < unat (i_size dir)"
  by (cases de) (auto simp: try_entry_def extend_dir_def Let_def get16_put16 split: if_splits)

function add_entry_loop :: "(nat \<Rightarrow> u8) \<Rightarrow> nat \<Rightarrow> nat \<Rightarrow> nat option \<Rightarrow> nat \<Rightarrow> inode \<Rightarrow> mfs \<Rightarrow> ((nat \<times> nat) option \<times> inode \<times> mfs) outcome" where
  "add_entry_loop name namelen i bh k dir s =
    (case bh of
       None \<Rightarrow> Panicked
     | Some b \<Rightarrow>
         if k \<ge> 64 then
           then_do (minix_create_block dir (int (i div 64)) s) (\<lambda>(block, dir', s').
             if block = 0 then Done (None, dir', s')
             else if unreadable s' block then add_entry_loop name namelen (i + 64) None k dir' s'
             else (case try_entry name namelen i (block, 0) dir' s' of
                     Some (dir', s') \<Rightarrow> Done (Some (block, 0), dir', s')
                   | None \<Rightarrow> add_entry_loop name namelen (i + 1) (Some block) 1 dir' s'))
         else (case try_entry name namelen i (b, 16 * k) dir s of
                 Some (dir', s') \<Rightarrow> Done (Some (b, 16 * k), dir', s')
               | None \<Rightarrow> add_entry_loop name namelen (i + 1) (Some b) (k + 1) dir s))"
  by pat_completeness auto
termination
  by (relation "measure (\<lambda>(name, namelen, i, bh, k, dir, s). case bh of None \<Rightarrow> 0 | Some _ \<Rightarrow> 1 + (unat (i_size dir) - 16 * i))")
    (auto dest!: try_entry_None create_block_size)

declare add_entry_loop.simps [simp del]

definition minix_add_entry :: "inode option \<Rightarrow> (nat \<Rightarrow> u8) \<Rightarrow> nat \<Rightarrow> mfs \<Rightarrow> ((nat \<times> nat) option \<times> inode option \<times> mfs) outcome" where
  "minix_add_entry dir name namelen s =
    (case dir of
       None \<Rightarrow> Done (None, None, s)
     | Some d \<Rightarrow>
         let namelen = min namelen 14; block = i_data d ! 0 in
         if namelen = 0 \<or> block = 0 \<or> unreadable s block then Done (None, dir, s)
         else then_do (add_entry_loop name namelen 0 (Some block) 0 d s) (\<lambda>(de, d, s). Done (de, Some d, s)))"

text \<open>
  \<^verbatim>\<open>empty_dir\<close>: a name is compared as a string, up to its null byte.  Here the references to buffers are counted, because the
  function does not balance them: \<^verbatim>\<open>bh\<close> keeps its value over a missing block, so that its buffer is released once more, which
  \<^verbatim>\<open>brelse\<close> answers with a panic when nobody holds the buffer, and the second warning returns without a release.
\<close>

definition name_is :: "mfs \<Rightarrow> nat \<Rightarrow> nat \<Rightarrow> u8 list \<Rightarrow> bool" where
  "name_is s b off str = (map (\<lambda>i. bdata s b (off + 2 + i)) [0..<length str + 1] = str @ [0])"

definition hold :: "nat \<Rightarrow> mfs \<Rightarrow> mfs" where
  "hold b s = s\<lparr>held := (held s)(b := held s b + 1)\<rparr>"

definition release_block :: "nat \<Rightarrow> mfs \<Rightarrow> mfs outcome" where
  "release_block b s = (if held s b = 0 then Panicked else Done (s\<lparr>held := (held s)(b := held s b - 1)\<rparr>))"

definition release_return :: "nat \<Rightarrow> bool \<Rightarrow> mfs \<Rightarrow> (bool \<times> mfs) outcome" where
  "release_return b r s = then_do (release_block b s) (\<lambda>s. Done (r, s))"

function empty_dir_loop :: "inode \<Rightarrow> nat \<Rightarrow> nat \<Rightarrow> nat \<Rightarrow> nat \<Rightarrow> mfs \<Rightarrow> (bool \<times> mfs) outcome" where
  "empty_dir_loop ino len nr b k s =
    (if nr < len then
       (if k \<ge> 64 then
          then_do (release_block b s) (\<lambda>s.
          then_do (minix_bmap ino (int (nr div 64)) s) (\<lambda>(block, _, _).
            if block = 0 then empty_dir_loop ino len (nr + 64) b k s
            else if unreadable s block then Done (False, s)
            else if get16 s block 0 \<noteq> 0 then release_return block False (hold block s)
            else empty_dir_loop ino len (nr + 1) block 1 (hold block s)))
        else if get16 s b (16 * k) \<noteq> 0 then release_return b False s
        else empty_dir_loop ino len (nr + 1) b (k + 1) s)
     else release_return b True s)"
  by pat_completeness auto
termination by (relation "measure (\<lambda>(ino, len, nr, b, k, s). len - nr)") auto

declare empty_dir_loop.simps [simp del]

definition empty_dir :: "inode \<Rightarrow> mfs \<Rightarrow> (bool \<times> mfs) outcome" where
  "empty_dir ino s =
    (let len = unat (i_size ino) div 16; b = i_data ino ! 0 in
     if len < 2 \<or> b = 0 \<or> unreadable s b then Done (False, s)
     else let s = hold b s in
       if get16 s b 0 \<noteq> unat (i_ino ino) \<or> get16 s b 16 = 0 \<or> \<not> name_is s b 0 [46] \<or> \<not> name_is s b 16 [46, 46] then Done (False, s)
       else empty_dir_loop ino len 2 b 2 s)"

section \<open>What the creation of a block leaves alone\<close>

text \<open>The blocks that hold the block map of a file.\<close>

definition index_blocks :: "inode \<Rightarrow> mfs \<Rightarrow> nat set" where
  "index_blocks ino s = {i_data ino ! 7, i_data ino ! 8} \<union> entry s (i_data ino ! 8) ` {..<512}"

text \<open>
  From \<open>s\<close> to \<open>s'\<close> allocated blocks stay allocated and only those in \<open>W\<close> are written, and the index blocks of the file are old ones or were
  not allocated before.
\<close>

definition kept :: "super_block \<Rightarrow> nat set \<Rightarrow> inode \<Rightarrow> mfs \<Rightarrow> inode \<Rightarrow> mfs \<Rightarrow> bool" where
  "kept sb W ino s ino' s' \<longleftrightarrow> unreadable s' = unreadable s \<and>
    (\<forall>x. alloc s sb x \<longrightarrow> alloc s' sb x \<and> (x \<in> W \<or> bdata s' x = bdata s x) \<and> (x \<in> index_blocks ino' s' \<longrightarrow> x \<in> index_blocks ino s))"

lemma kept_trans:
  assumes "kept sb W ino s j t" "kept sb W' j t ino' s'" "\<And>x. x \<in> W' \<Longrightarrow> alloc s sb x \<Longrightarrow> x \<in> W"
  shows "kept sb W ino s ino' s'"
  using assms unfolding kept_def by (metis (no_types))

lemma kept_mono: "kept sb W ino s ino' s' \<Longrightarrow> W \<subseteq> W' \<Longrightarrow> kept sb W' ino s ino' s'"
  unfolding kept_def by blast

lemma alloc_nonzero: "super_ok s sb \<Longrightarrow> alloc s sb x \<Longrightarrow> x \<noteq> 0"
  by (auto simp: super_ok_def alloc_def in_zone_def)

lemma new_block_frame:
  assumes "super_ok s sb" "minix_new_block s = Done (j, s')" "alloc s sb x"
  shows "bdata s' x = bdata s x" "x \<noteq> j"
proof -
  note n = minix_new_block_spec [OF assms(1,2)]
  show "x \<noteq> j" using n assms(3) alloc_nonzero [OF assms(1,3)] unfolding alloc_def by blast
  then show "bdata s' x = bdata s x" using n assms(3) unfolding alloc_def by blast
qed

lemma inode_slot_kept:
  assumes ok: "file_ok s sb ino" and k: "k < 9" and r: "inode_slot True k ino s = Done (ino', s')"
  shows "kept sb {} ino s ino' s'" "k < 7 \<Longrightarrow> index_blocks ino' s' = index_blocks ino s" "i_data ino' ! k \<noteq> 0 \<Longrightarrow> i_data ino ! k = 0 \<Longrightarrow> alloc s' sb (i_data ino' ! k)"
proof -
  have "kept sb {} ino s ino' s' \<and> (k < 7 \<longrightarrow> index_blocks ino' s' = index_blocks ino s) \<and>
      (i_data ino' ! k \<noteq> 0 \<and> i_data ino ! k = 0 \<longrightarrow> alloc s' sb (i_data ino' ! k))"
  proof (cases "i_data ino ! k = 0")
    case False
    then show ?thesis using r by (auto simp: inode_slot_def kept_def)
  next
    case True
    note fd = file_okD [OF ok]
    obtain j where j: "minix_new_block s = Done (j, s')"
      "ino' = (if j \<noteq> 0 then ino\<lparr>i_data := (i_data ino)[k := j], i_ctime := now s', i_dirt := True\<rparr> else ino)"
      using r True by (cases "minix_new_block s") (auto simp: inode_slot_def)
    note g = minix_new_block_grown [OF fd(1) j(1)] and fr = new_block_frame [OF fd(1) j(1)]
    have d: "i_data ino' ! l = (if l = k \<and> j \<noteq> 0 then j else i_data ino ! l)" for l using j(2) fd(2) k by simp
    have e8: "entry s' (i_data ino ! 8) l = entry s (i_data ino ! 8) l" for l using g(2) file_ok_index(2) [OF ok] by blast
    have gj: "j \<noteq> 0 \<Longrightarrow> entry s' j l = 0" and al: "j \<noteq> 0 \<Longrightarrow> alloc s' sb j" "\<And>x. alloc s sb x \<Longrightarrow> alloc s' sb x" for l
      using g(1) unfolding grown_def by blast+
    have ix: "x \<in> index_blocks ino s" if x: "x \<in> index_blocks ino' s'" "x \<noteq> j" "x \<noteq> 0" for x
    proof (cases "k = 8 \<and> j \<noteq> 0")
      case True
      then have "i_data ino' ! 8 = j" "i_data ino' ! 7 = i_data ino ! 7" using d by auto
      then show ?thesis using x gj True unfolding index_blocks_def by auto
    next
      case False
      then have "i_data ino' ! 8 = i_data ino ! 8" "i_data ino' ! 7 = j \<or> i_data ino' ! 7 = i_data ino ! 7" using d by auto
      then show ?thesis using x e8 unfolding index_blocks_def by auto
    qed
    have "kept sb {} ino s ino' s'" unfolding kept_def using g(3) al(2) fr ix alloc_nonzero [OF fd(1)] by blast
    moreover have "index_blocks ino' s' = index_blocks ino s" if "k < 7" using that d e8 by (simp add: index_blocks_def)
    ultimately show ?thesis using d al(1) True by auto
  qed
  then show "kept sb {} ino s ino' s'" "k < 7 \<Longrightarrow> index_blocks ino' s' = index_blocks ino s"
    "i_data ino' ! k \<noteq> 0 \<Longrightarrow> i_data ino ! k = 0 \<Longrightarrow> alloc s' sb (i_data ino' ! k)" by blast+
qed

lemma block_slot_frame:
  assumes ok: "super_ok s sb" and b: "alloc s sb b" "\<not> unreadable s b" "b \<noteq> 0" and r: "block_slot True b k s = Done (i, s')"
  shows "alloc s sb x \<Longrightarrow> x \<noteq> b \<Longrightarrow> bdata s' x = bdata s x" "alloc s sb x \<Longrightarrow> alloc s' sb x"
    "entry s b k = 0 \<Longrightarrow> i \<noteq> 0 \<Longrightarrow> \<not> alloc s sb i \<and> alloc s' sb i"
proof -
  note g = block_slot_grown [OF ok b r]
  show "alloc s sb x \<Longrightarrow> alloc s' sb x" "entry s b k = 0 \<Longrightarrow> i \<noteq> 0 \<Longrightarrow> \<not> alloc s sb i \<and> alloc s' sb i"
    using g(3,5) unfolding grown_def by metis+
  show "bdata s' x = bdata s x" if x: "alloc s sb x" "x \<noteq> b"
  proof (cases "get16 s b (2 * k) = 0")
    case True
    obtain j t where j: "minix_new_block s = Done (j, t)" "s' = (if j \<noteq> 0 then put16 b (2 * k) j t else t)"
      using r True by (cases "minix_new_block s") (auto simp: block_slot_def Let_def)
    have "bdata t x = bdata s x" by (rule new_block_frame [OF ok j(1) x(1)])
    then show ?thesis using j(2) x(2) bdata_put16 [of x b _ "2 * k" j t] by (auto simp: fun_eq_iff)
  qed (use r in \<open>auto simp: block_slot_def Let_def\<close>)
qed

lemma index_alloc: "file_ok s sb ino \<Longrightarrow> x \<in> index_blocks ino s \<Longrightarrow> x \<noteq> 0 \<Longrightarrow> alloc s sb x"
  using file_okD(3-5) [of s sb ino] unfolding index_blocks_def by blast

text \<open>Filling an entry of the indirect block or of a block below the double indirect one, and of the double indirect block.\<close>

lemma slot_kept:
  assumes ok: "file_ok s sb ino" and c: "alloc s sb c" "\<not> unreadable s c" "c \<noteq> i_data ino ! 8" and r: "block_slot True c k s = Done (b, s')"
  shows "kept sb {c} ino s ino s'" "index_blocks ino s' = index_blocks ino s" "entry s c k = 0 \<Longrightarrow> b \<noteq> 0 \<Longrightarrow> alloc s' sb b \<and> b \<notin> index_blocks ino s'"
proof -
  note so = file_okD(1) [OF ok]
  have c0: "c \<noteq> 0" by (rule alloc_nonzero [OF so c(1)])
  note g = block_slot_grown [OF so c(1,2) c0 r] and f = block_slot_frame [OF so c(1,2) c0 r]
  have "entry s' (i_data ino ! 8) l = entry s (i_data ino ! 8) l" for l using g(4) file_ok_index(2) [OF ok] c(3) by metis
  then show ix: "index_blocks ino s' = index_blocks ino s" by (simp add: index_blocks_def)
  show "kept sb {c} ino s ino s'" unfolding kept_def ix using g(1) f(1,2) by blast
  show "alloc s' sb b \<and> b \<notin> index_blocks ino s'" if "entry s c k = 0" "b \<noteq> 0"
    unfolding ix using f(3) [OF that] index_alloc [OF ok, of b] that(2) by blast
qed

lemma dind_kept:
  assumes ok: "file_ok s sb ino" and d: "i_data ino ! 8 \<noteq> 0" "\<not> unreadable s (i_data ino ! 8)" and k: "k < 512"
    and r: "block_slot True (i_data ino ! 8) k s = Done (i, s')"
  shows "kept sb {i_data ino ! 8} ino s ino s'" "alloc s sb i \<Longrightarrow> i \<in> index_blocks ino s"
proof -
  note so = file_okD(1) [OF ok] and c = file_okD(4) [OF ok d(1)]
  note g = block_slot_grown [OF so c d(2,1) r] and f = block_slot_frame [OF so c d(2,1) r]
  have i: "entry s (i_data ino ! 8) k = i" if "alloc s sb i"
    using f(3) g(2,3) alloc_nonzero [OF so that] that by metis
  then show "i \<in> index_blocks ino s" if "alloc s sb i" using k that unfolding index_blocks_def by auto
  have "x \<in> index_blocks ino s" if x: "alloc s sb x" "x \<in> index_blocks ino s'" for x
  proof -
    consider "x = i_data ino ! 7 \<or> x = i_data ino ! 8" | l where "l < 512" "x = entry s' (i_data ino ! 8) l" using x(2) unfolding index_blocks_def by blast
    then show ?thesis
    proof cases
      case 2
      have "x = entry s (i_data ino ! 8) l" using 2 g(2) g(4) [of "i_data ino ! 8" l] c i x(1) by (cases "l = k") auto
      then show ?thesis using 2(1) unfolding index_blocks_def by blast
    qed (auto simp: index_blocks_def)
  qed
  then show "kept sb {i_data ino ! 8} ino s ino s'" unfolding kept_def using g(1) f(1,2) by blast
qed

lemma create_kept:
  assumes ok: "file_ok s sb ino" and n: "n < 7 + 512 + 512 * 512" and r: "minix_create_block ino (int n) s = Done (b, ino', s')"
  shows "kept sb (index_blocks ino s) ino s ino' s'" "fmap ino s n = 0 \<Longrightarrow> b \<noteq> 0 \<Longrightarrow> alloc s' sb b \<and> b \<notin> index_blocks ino' s'"
proof -
  have old: "x \<in> index_blocks ino s" if "inode_slot True k ino s = Done (j, t)" "k = 7 \<or> k = 8" "x = i_data j ! k" "alloc s sb x" for j t k x
  proof -
    have "x = i_data ino ! k" using inode_slot_ok(3,5) [OF ok _ that(1)] that(2-4) alloc_nonzero [OF file_okD(1) [OF ok] that(4)] by fastforce
    then show ?thesis using that(2) unfolding index_blocks_def by auto
  qed
  consider "n < 7" | "7 \<le> n" "n < 519" | "519 \<le> n" by linarith
  then have "kept sb (index_blocks ino s) ino s ino' s' \<and> (fmap ino s n = 0 \<and> b \<noteq> 0 \<longrightarrow> alloc s' sb b \<and> b \<notin> index_blocks ino' s')"
  proof cases
    case 1
    have i: "inode_slot True n ino s = Done (ino', s')" "b = i_data ino' ! n"
      using r 1 by (auto simp: minix_create_block_def minix_bmap_create_def then_do_Done)
    have n9: "n < 9" using 1 by simp
    note st = inode_slot_ok [OF ok n9 i(1)] and k = inode_slot_kept [OF ok n9 i(1)]
    have fn: "fmap ino s n = i_data ino ! n" using 1 by (simp add: fmap_def)
    show ?thesis using kept_mono [OF k(1)] k(2) [OF 1] k(3) st(5) i(2) fn index_alloc [OF ok] by auto
  next
    case 2
    obtain j t where jt: "inode_slot True 7 ino s = Done (j, t)"
      "if i_data j ! 7 = 0 \<or> unreadable t (i_data j ! 7) then (b, ino', s') = (0, j, t)
       else ino' = j \<and> block_slot True (i_data j ! 7) (n - 7) t = Done (b, s')"
      using r 2 by (auto simp: minix_create_block_def minix_bmap_create_def then_do_Done split: if_splits)
    note st = inode_slot_ok [OF ok _ jt(1), simplified] and k = inode_slot_kept [OF ok _ jt(1), simplified]
    note k0 = kept_mono [OF k(1), of "index_blocks ino s", simplified]
    show ?thesis
    proof (cases "i_data j ! 7 = 0 \<or> unreadable t (i_data j ! 7)")
      case True
      then show ?thesis using jt(2) k0 by auto
    next
      case False
      have c: "alloc t sb (i_data j ! 7)" "i_data j ! 7 \<noteq> i_data j ! 8" using file_okD(3) [OF st(1)] False by auto
      have bs: "ino' = j" "block_slot True (i_data j ! 7) (n - 7) t = Done (b, s')" "\<not> unreadable t (i_data j ! 7)" using jt(2) False by auto
      note sk = slot_kept [OF st(1) c(1) bs(3) c(2) bs(2)]
      have "fmap j t n = entry t (i_data j ! 7) (n - 7)" using 2 by (simp add: fmap_def)
      then have "entry t (i_data j ! 7) (n - 7) = fmap ino s n" using st(4) [of n] by simp
      moreover have "kept sb (index_blocks ino s) ino s j s'" by (rule kept_trans [OF k0 sk(1)]) (use old [OF jt(1)] in auto)
      ultimately show ?thesis using sk(3) bs(1) by auto
    qed
  next
    case 3
    let ?k = "(n - 519) div 512" and ?l = "(n - 519) mod 512"
    have k: "?k < 512" using n 3 by auto
    obtain j t where jt: "inode_slot True 8 ino s = Done (j, t)"
      "if i_data j ! 8 = 0 \<or> unreadable t (i_data j ! 8) then (b, ino', s') = (0, j, t)
       else \<exists>i u. block_slot True (i_data j ! 8) ?k t = Done (i, u) \<and>
         (if i = 0 \<or> unreadable u i then (b, ino', s') = (0, j, u) else ino' = j \<and> block_slot True i ?l u = Done (b, s'))"
      using r 3 n by (auto simp: minix_create_block_def minix_bmap_create_def then_do_Done split: if_splits)
    note st = inode_slot_ok [OF ok _ jt(1), simplified] and kp = inode_slot_kept [OF ok _ jt(1), simplified]
    note k0 = kept_mono [OF kp(1), of "index_blocks ino s", simplified]
    show ?thesis
    proof (cases "i_data j ! 8 = 0 \<or> unreadable t (i_data j ! 8)")
      case True
      then show ?thesis using jt(2) k0 by auto
    next
      case False
      then have d: "i_data j ! 8 \<noteq> 0" "\<not> unreadable t (i_data j ! 8)" by auto
      obtain i u where iu: "block_slot True (i_data j ! 8) ?k t = Done (i, u)"
        "if i = 0 \<or> unreadable u i then (b, ino', s') = (0, j, u) else ino' = j \<and> block_slot True i ?l u = Done (b, s')"
        using jt(2) False by auto
      note ds = dind_stage [OF st(1) d k iu(1)] and dk = dind_kept [OF st(1) d k iu(1)]
      have k1: "kept sb (index_blocks ino s) ino s j u" by (rule kept_trans [OF k0 dk(1)]) (use old [OF jt(1)] in auto)
      show ?thesis
      proof (cases "i = 0 \<or> unreadable u i")
        case True
        then show ?thesis using iu(2) k1 by auto
      next
        case False
        then have bs: "ino' = j" "block_slot True i ?l u = Done (b, s')" "\<not> unreadable u i" using iu(2) by auto
        have c: "alloc u sb i" "i \<noteq> i_data j ! 8" using file_okD(5) [OF ds(1) k] ds(3) False by auto
        note sk = slot_kept [OF ds(1) c(1) bs(3) c(2) bs(2)]
        have "fmap j u n = entry u i ?l" using n 3 ds(3) by (simp add: fmap_def)
        then have "entry u i ?l = fmap ino s n" using ds(2) st(4) [of n] by simp
        moreover have "i \<in> index_blocks ino s" if "alloc s sb i" using dk(2) k0 that unfolding kept_def by blast
        then have "kept sb (index_blocks ino s) ino s j s'" by (intro kept_trans [OF k1 sk(1)]) auto
        ultimately show ?thesis using sk(3) bs(1) by auto
      qed
    qed
  qed
  then show "kept sb (index_blocks ino s) ino s ino' s'" "fmap ino s n = 0 \<Longrightarrow> b \<noteq> 0 \<Longrightarrow> alloc s' sb b \<and> b \<notin> index_blocks ino' s'" by blast+
qed

lemma create_existing:
  assumes "fmap ino s n \<noteq> 0"
  shows "minix_create_block ino (int n) s = Done (fmap ino s n, ino, s)"
proof -
  consider "n < 7" | "7 \<le> n" "n < 519" | "519 \<le> n" "n < 7 + 512 + 512 * 512" using assms unfolding fmap_def by (metis not_less)
  then show ?thesis
  proof cases
    case 1
    then show ?thesis using assms by (simp add: minix_create_block_def minix_bmap_create_def inode_slot_def fmap_def)
  next
    case 2
    have f: "fmap ino s n = entry s (i_data ino ! 7) (n - 7)" using 2 by (simp add: fmap_def)
    have a: "i_data ino ! 7 \<noteq> 0" "\<not> unreadable s (i_data ino ! 7)" "entry s (i_data ino ! 7) (n - 7) = get16 s (i_data ino ! 7) (2 * (n - 7))"
      using assms unfolding f entry_def by (metis | simp split: if_splits)+
    have "\<not> int n < 7" "int n < 7 + 512" "nat (int n) - 7 = n - 7" "\<not> int n < 0" using 2 by auto
    then show ?thesis using a assms f by (simp add: minix_create_block_def minix_bmap_create_def inode_slot_def block_slot_def Let_def)
  next
    case 3
    let ?k = "(n - 519) div 512" and ?l = "(n - 519) mod 512" and ?d = "i_data ino ! 8"
    have f: "fmap ino s n = entry s (entry s ?d ?k) ?l" using 3 by (simp add: fmap_def)
    have z: "entry s 0 q = 0" for q by (simp add: entry_def)
    have a: "entry s ?d ?k \<noteq> 0" "\<not> unreadable s (entry s ?d ?k)" "entry s (entry s ?d ?k) ?l = get16 s (entry s ?d ?k) (2 * ?l)"
      using assms unfolding f entry_def [of s "entry s ?d ?k"] by (metis | simp split: if_splits)+
    have b: "?d \<noteq> 0" "\<not> unreadable s ?d" "entry s ?d ?k = get16 s ?d (2 * ?k)"
      using a(1) unfolding entry_def [of s ?d] by (metis | simp split: if_splits)+
    have "\<not> int n < 7" "\<not> int n < 7 + 512" "nat (int n) = n" "\<not> int n < 0" "\<not> int n \<ge> 7 + 512 + 512 * 512" using 3 by auto
    then show ?thesis using a b assms f by (simp add: minix_create_block_def minix_bmap_create_def inode_slot_def block_slot_def Let_def)
  qed
qed

section \<open>The entries of a directory\<close>

text \<open>Where entry number \<open>i\<close> of a directory is, and a directory without missing blocks whose blocks are its own.\<close>

definition de_at :: "inode \<Rightarrow> mfs \<Rightarrow> nat \<Rightarrow> nat \<times> nat" where
  "de_at dir s i = (fmap dir s (i div 64), 16 * (i mod 64))"

definition entries :: "inode \<Rightarrow> nat" where
  "entries dir = unat (i_size dir) div 16"

definition full_blocks :: "inode \<Rightarrow> mfs \<Rightarrow> nat \<Rightarrow> bool" where
  "full_blocks dir s n \<longleftrightarrow> (\<forall>m. m = 0 \<or> 64 * m < n \<longrightarrow> fmap dir s m \<noteq> 0 \<and> \<not> unreadable s (fmap dir s m))"

definition dir_ok :: "mfs \<Rightarrow> super_block \<Rightarrow> inode \<Rightarrow> bool" where
  "dir_ok s sb dir \<longleftrightarrow> file_ok s sb dir \<and> unat (i_size dir) = 16 * entries dir \<and> full_blocks dir s (entries dir) \<and>
    (\<forall>m. fmap dir s m \<noteq> 0 \<longrightarrow> alloc s sb (fmap dir s m) \<and> fmap dir s m \<notin> index_blocks dir s) \<and>
    (\<forall>m n. fmap dir s m = fmap dir s n \<and> fmap dir s m \<noteq> 0 \<longrightarrow> m = n)"

text \<open>The position of the loops: \<open>de\<close> points to entry \<open>i\<close>, or to the end of the block before it.\<close>

definition cursor :: "inode \<Rightarrow> mfs \<Rightarrow> nat \<Rightarrow> nat \<Rightarrow> nat \<Rightarrow> bool" where
  "cursor dir s i b k \<longleftrightarrow> (k < 64 \<and> (b, 16 * k) = de_at dir s i \<and> (i = 0 \<or> 0 < k)) \<or> (k = 64 \<and> i mod 64 = 0 \<and> 0 < i)"

lemma cursor_start: "cursor dir s 0 (i_data dir ! 0) 0"
  by (simp add: cursor_def de_at_def fmap_def)

lemma cursor_next: "(b, 16 * k) = de_at dir s i \<Longrightarrow> cursor dir s (i + 1) b (k + 1)"
proof -
  assume "(b, 16 * k) = de_at dir s i"
  then have k: "b = fmap dir s (i div 64)" "k = i mod 64" by (auto simp: de_at_def)
  have i: "i = 64 * (i div 64) + k" "k < 64" using k(2) by (simp_all add: mult.commute)
  show ?thesis
  proof (cases "k = 63")
    case True
    then have "i + 1 = 64 * (i div 64 + 1)" using i by simp
    then have "(i + 1) mod 64 = 0" by (metis mod_mult_self1_is_0)
    then show ?thesis using True by (simp add: cursor_def)
  next
    case False
    then have "i + 1 = 64 * (i div 64) + (k + 1)" "k + 1 < 64" using i by simp_all
    then have "(i + 1) div 64 = i div 64" "(i + 1) mod 64 = k + 1" by (metis div_mult_self4 div_less add.right_neutral zero_neq_numeral, metis mod_mult_self4 mod_less)
    then show ?thesis using k(1) \<open>k + 1 < 64\<close> by (simp add: cursor_def de_at_def)
  qed
qed

lemma cursor_block:
  assumes "cursor dir s i b k" "k \<ge> 64"
  shows "de_at dir s i = (fmap dir s (i div 64), 0)" "k = 64"
  using assms by (auto simp: cursor_def de_at_def)

text \<open>\<^verbatim>\<open>minix_find_entry\<close> finds the first entry that matches.\<close>

lemma find_entry_loop_spec:
  assumes "full_blocks dir s n"
  shows "cursor dir s i b k \<Longrightarrow> find_entry_loop dir name len n s i (Some b) k =
    Done (map_option (de_at dir s) (find (\<lambda>i. minix_match len name s (de_at dir s i)) [i..<n]))"
proof (induction "n - i" arbitrary: i b k)
  case 0
  then show ?case by (subst find_entry_loop.simps) simp
next
  case (Suc m)
  then have lt: "i < n" and m: "m = n - (i + 1)" by auto
  have up: "[i..<n] = i # [i + 1..<n]" using lt by (simp add: upt_conv_Cons)
  note IH = Suc.hyps(1) [OF m]
  show ?case
  proof (cases "k \<ge> 64")
    case True
    note c = cursor_block [OF Suc.prems True]
    have "64 * (i div 64) < n" using lt by (meson div_times_less_eq_dividend le_less_trans times_div_less_eq_dividend)
    then have f: "fmap dir s (i div 64) \<noteq> 0" "\<not> unreadable s (fmap dir s (i div 64))" using assms by (auto simp: full_blocks_def)
    have nx: "cursor dir s (i + 1) (fmap dir s (i div 64)) 1" using cursor_next [of _ 0] c(1) by simp
    show ?thesis by (subst find_entry_loop.simps) (simp add: lt True minix_bmap_fmap f up c(1) IH [OF nx, simplified])
  next
    case False
    then have d: "(b, 16 * k) = de_at dir s i" using Suc.prems by (auto simp: cursor_def)
    show ?thesis by (subst find_entry_loop.simps) (simp add: lt False up d [symmetric] IH [OF cursor_next [OF d], simplified])
  qed
qed

lemma minix_find_entry_spec:
  assumes "full_blocks dir s (entries dir)"
  shows "minix_find_entry (Some dir) name len s =
    Done (map_option (de_at dir s) (find (\<lambda>i. minix_match (min len 14) name s (de_at dir s i)) [0..<entries dir]))"
proof -
  have "i_data dir ! 0 \<noteq> 0" "\<not> unreadable s (i_data dir ! 0)" using assms by (auto simp: full_blocks_def fmap_def dest: spec [of _ 0])
  then show ?thesis using find_entry_loop_spec [OF assms cursor_start] by (simp add: minix_find_entry_def entries_def Let_def)
qed

text \<open>What depends on the block map of an inode only.\<close>

lemma fmap_inode_cong:
  assumes "i_data d = i_data e"
  shows "fmap d s = fmap e s" "index_blocks d s = index_blocks e s" "de_at d s = de_at e s" "file_ok s sb d = file_ok s sb e"
  using assms by (auto simp: fmap_def [abs_def] index_blocks_def de_at_def [abs_def] file_ok_def)

lemma dir_okD:
  assumes "dir_ok s sb dir"
  shows "file_ok s sb dir" "unat (i_size dir) = 16 * entries dir" "full_blocks dir s (entries dir)"
    "fmap dir s m \<noteq> 0 \<Longrightarrow> alloc s sb (fmap dir s m)" "fmap dir s m \<noteq> 0 \<Longrightarrow> fmap dir s m \<notin> index_blocks dir s"
    "fmap dir s m = fmap dir s n \<Longrightarrow> fmap dir s m \<noteq> 0 \<Longrightarrow> m = n"
  using assms unfolding dir_ok_def by blast+

lemma entry_block: "i < n \<Longrightarrow> full_blocks dir s n \<Longrightarrow> fmap dir s (i div 64) \<noteq> 0 \<and> \<not> unreadable s (fmap dir s (i div 64))"
proof -
  assume "i < n" "full_blocks dir s n"
  moreover have "64 * (i div 64) \<le> i" by simp
  ultimately show ?thesis unfolding full_blocks_def by (meson le_less_trans)
qed

text \<open>A directory that gets a new block.\<close>

lemma create_dir_ok:
  assumes ok: "dir_ok s sb dir" and r: "minix_create_block dir (int n) s = Done (b, dir', s')" and b: "b \<noteq> 0"
  shows "dir_ok s' sb dir'" "fmap dir' s' n = b" "i_size dir' = i_size dir" "unreadable s' = unreadable s"
    "fmap dir s m \<noteq> 0 \<Longrightarrow> fmap dir' s' m = fmap dir s m \<and> bdata s' (fmap dir s m) = bdata s (fmap dir s m)"
proof -
  note d = dir_okD [OF ok]
  have n: "n < 7 + 512 + 512 * 512"
  proof (rule ccontr)
    assume "\<not> ?thesis"
    then have "int n \<ge> 7 + 512 + 512 * 512" by linarith
    then show False using r b by (simp add: minix_create_block_def minix_bmap_create_def)
  qed
  note c = create_block_spec [OF d(1) n r] and k = create_kept [OF d(1) n r]
  show fb: "fmap dir' s' n = b" using c minix_bmap_fmap [of dir' n s'] by simp
  show sz: "i_size dir' = i_size dir" by (rule create_block_size [OF r])
  show un: "unreadable s' = unreadable s" using k(1) by (simp add: kept_def)
  have fo: "fmap dir' s' m = (if m = n then b else fmap dir s m)" for m using c fb by auto
  have same: "b = fmap dir s n \<and> dir' = dir \<and> s' = s" if "fmap dir s n \<noteq> 0" using create_existing [OF that] r by auto
  show keep: "fmap dir' s' m = fmap dir s m \<and> bdata s' (fmap dir s m) = bdata s (fmap dir s m)" if m: "fmap dir s m \<noteq> 0" for m
    using m fo [of m] same k(1) d(4,5) [OF m] unfolding kept_def by auto
  have new: "\<not> alloc s sb b" if "fmap dir s n = 0" using c that b by auto
  have al: "alloc s' sb (fmap dir' s' m)" "fmap dir' s' m \<notin> index_blocks dir' s'" if m: "fmap dir' s' m \<noteq> 0" for m
  proof -
    have "alloc s' sb (fmap dir' s' m) \<and> fmap dir' s' m \<notin> index_blocks dir' s'"
    proof (cases "fmap dir s m = 0")
      case True
      then have "m = n" using fo [of m] m by (auto split: if_splits)
      then show ?thesis using k(2) True b fb by auto
    next
      case False
      then show ?thesis using keep [OF False] d(4,5) [OF False] k(1) unfolding kept_def by auto
    qed
    then show "alloc s' sb (fmap dir' s' m)" "fmap dir' s' m \<notin> index_blocks dir' s'" by blast+
  qed
  have inj: "l = m" if "fmap dir' s' l = fmap dir' s' m" "fmap dir' s' l \<noteq> 0" for l m
  proof (cases "fmap dir s n = 0")
    case True
    then show ?thesis using that fo [of l] fo [of m] d(4) [of l] d(4) [of m] d(6) [of l m] new by (auto split: if_splits)
  next
    case False
    then show ?thesis using same d(6) that by simp
  qed
  have e: "entries dir' = entries dir" using sz by (simp add: entries_def)
  have "full_blocks dir' s' (entries dir')" unfolding full_blocks_def
  proof (intro allI impI)
    fix m assume "m = 0 \<or> 64 * m < entries dir'"
    then have "fmap dir s m \<noteq> 0 \<and> \<not> unreadable s (fmap dir s m)" using d(3) unfolding full_blocks_def e by blast
    then show "fmap dir' s' m \<noteq> 0 \<and> \<not> unreadable s' (fmap dir' s' m)" using keep [of m] un by simp
  qed
  moreover have "file_ok s' sb dir'" using c by blast
  moreover have "unat (i_size dir') = 16 * entries dir'" using d(2) e sz by simp
  ultimately show "dir_ok s' sb dir'" unfolding dir_ok_def using al inj by blast
qed

text \<open>Writing to a block of the directory.\<close>

lemma write_dir:
  assumes ok: "dir_ok s sb dir" and b: "b = fmap dir s m" "b \<noteq> 0"
    and w: "\<And>c. c \<noteq> b \<Longrightarrow> bdata s' c = bdata s c" "unreadable s' = unreadable s" "get_super s' = get_super s"
  shows "dir_ok s' sb dir" "fmap dir s' = fmap dir s"
proof -
  note d = dir_okD [OF ok] and fd = file_okD [OF dir_okD(1) [OF ok]]
  have bz: "s_firstdatazone sb \<le> b" using d(4) b unfolding alloc_def in_zone_def by metis
  have bi: "b \<notin> index_blocks dir s" using d(5) b by metis
  have en: "entry s' c k = entry s c k" if "c \<noteq> b" for c k using w(1) [OF that] w(2) by (simp add: entry_def get16_def)
  have so: "super_ok s' sb" by (rule super_ok_cong [OF fd(1) w(3)]) (use w(1) bz in \<open>auto simp: block_bit_def\<close>)
  have al: "alloc s' sb x = alloc s sb x" for x
  proof (cases "in_zone sb x")
    case True
    then have "zone_bit s' sb x = zone_bit s sb x" by (intro zone_bit_cong [OF fd(1)]) (use w(1) bz in auto)
    then show ?thesis by (simp add: alloc_def)
  qed (simp add: alloc_def)
  have ne: "i_data dir ! 7 \<noteq> b" "i_data dir ! 8 \<noteq> b" "\<And>l. l < 512 \<Longrightarrow> entry s (i_data dir ! 8) l \<noteq> b"
    using bi unfolding index_blocks_def by blast+
  note e7 = en [OF ne(1)] and e8 = en [OF ne(2)] and e2 = en [OF ne(3)]
  show f: "fmap dir s' = fmap dir s"
  proof
    fix q :: nat
    have "(q - 519) div 512 < 512" if "q < 7 + 512 + 512 * 512" using that by auto
    then show "fmap dir s' q = fmap dir s q" unfolding fmap_def using e7 e8 e2 by simp
  qed
  have ix: "index_blocks dir s' = index_blocks dir s" by (simp add: index_blocks_def e8)
  have "file_ok s' sb dir" by (rule file_ok_mono [OF d(1) so]) (simp_all add: al e8)
  then show "dir_ok s' sb dir" using ok unfolding dir_ok_def f ix full_blocks_def w(2) al by blast
qed

section \<open>Adding an entry\<close>

lemma put_name_bytes:
  "bdata (put_name (b, off) name len s) c x =
    (if c = b \<and> off + 2 \<le> x \<and> x < off + 16 then if x - off - 2 < len then name (x - off - 2) else 0 else bdata s c x)"
  "unreadable (put_name de name len s) = unreadable s" "get_super (put_name de name len s) = get_super s" "now (put_name de name len s) = now s"
proof -
  let ?f = "\<lambda>b off i. put8 b (off + 2 + i) (if i < len then name i else 0)"
  have "bdata (fold (?f b off) [0..<n] s) c x =
      (if c = b \<and> off + 2 \<le> x \<and> x < off + 2 + n then if x - off - 2 < len then name (x - off - 2) else 0 else bdata s c x)" for n
    by (induction n) auto
  from this [of 14] show "bdata (put_name (b, off) name len s) c x =
    (if c = b \<and> off + 2 \<le> x \<and> x < off + 16 then if x - off - 2 < len then name (x - off - 2) else 0 else bdata s c x)"
    by (simp add: put_name_def add.assoc)
  have "unreadable (fold (?f b off) [0..<n] s) = unreadable s \<and> get_super (fold (?f b off) [0..<n] s) = get_super s \<and>
    now (fold (?f b off) [0..<n] s) = now s" for b off n by (induction n) auto
  then show "unreadable (put_name de name len s) = unreadable s" "get_super (put_name de name len s) = get_super s" "now (put_name de name len s) = now s"
    unfolding put_name_def by (auto split: prod.splits)
qed

text \<open>What filling entry \<open>i\<close> does: extending the directory when the entry lies behind the end, and storing the name.\<close>

definition fill :: "(nat \<Rightarrow> u8) \<Rightarrow> nat \<Rightarrow> nat \<Rightarrow> nat \<times> nat \<Rightarrow> inode \<Rightarrow> mfs \<Rightarrow> inode \<times> mfs" where
  "fill name len i de dir s = (case extend_dir i de dir s of (dir, s) \<Rightarrow> take_entry name len de dir s)"

lemma try_entry_cases:
  "16 * i \<ge> unat (i_size dir) \<or> get16 s (fst de) (snd de) = 0 \<Longrightarrow> try_entry name len i de dir s = Some (fill name len i de dir s)"
  "16 * i < unat (i_size dir) \<Longrightarrow> get16 s (fst de) (snd de) \<noteq> 0 \<Longrightarrow> try_entry name len i de dir s = None"
  by (cases de; auto simp: try_entry_def fill_def extend_dir_def get16_put16)+

lemma add_loop_skip:
  assumes full: "full_blocks dir s n" and sz: "unat (i_size dir) = 16 * n" and m: "m \<le> n"
  shows "cursor dir s i b k \<Longrightarrow> i \<le> m \<Longrightarrow> (\<And>j. i \<le> j \<Longrightarrow> j < m \<Longrightarrow> get16 s (fst (de_at dir s j)) (snd (de_at dir s j)) \<noteq> 0) \<Longrightarrow>
    \<exists>b' k'. cursor dir s m b' k' \<and> add_entry_loop name len i (Some b) k dir s = add_entry_loop name len m (Some b') k' dir s"
proof (induction "m - i" arbitrary: i b k)
  case 0
  then have "i = m" by simp
  then show ?case using 0 by blast
next
  case (Suc q)
  then have lt: "i < m" and q: "q = m - (i + 1)" by auto
  then have iN: "i < n" using m by simp
  note used = Suc.prems(3) [OF order_refl lt]
  have tr: "try_entry name len i (de_at dir s i) dir s = None" by (rule try_entry_cases(2)) (use sz iN used in auto)
  have "\<exists>b' k'. (b', 16 * k') = de_at dir s i \<and> add_entry_loop name len i (Some b) k dir s = add_entry_loop name len (i + 1) (Some b') (k' + 1) dir s"
  proof (cases "k \<ge> 64")
    case True
    note c = cursor_block [OF Suc.prems(1) True]
    have f: "fmap dir s (i div 64) \<noteq> 0" "\<not> unreadable s (fmap dir s (i div 64))" using entry_block [OF iN full] by auto
    have "add_entry_loop name len i (Some b) k dir s = add_entry_loop name len (i + 1) (Some (fmap dir s (i div 64))) 1 dir s"
      by (subst add_entry_loop.simps) (simp add: True create_existing [OF f(1)] f tr [unfolded c(1)])
    then show ?thesis using c(1) by (intro exI [of _ "fmap dir s (i div 64)"] exI [of _ 0]) simp
  next
    case False
    then have d: "(b, 16 * k) = de_at dir s i" using Suc.prems(1) by (auto simp: cursor_def)
    have "add_entry_loop name len i (Some b) k dir s = add_entry_loop name len (i + 1) (Some b) (k + 1) dir s"
      by (subst add_entry_loop.simps) (simp add: False tr [folded d])
    then show ?thesis using d by blast
  qed
  then obtain b' k' where n: "cursor dir s (i + 1) b' (k' + 1)" "add_entry_loop name len i (Some b) k dir s = add_entry_loop name len (i + 1) (Some b') (k' + 1) dir s"
    using cursor_next by metis
  show ?case unfolding n(2) by (rule Suc.hyps(1) [OF q n(1)]) (use lt Suc.prems(3) in auto)
qed

text \<open>The entry that is taken is the first free one or the one behind the end; a new block may have to be created for it.\<close>

definition chosen :: "super_block \<Rightarrow> inode \<Rightarrow> mfs \<Rightarrow> nat \<Rightarrow> inode \<Rightarrow> mfs \<Rightarrow> bool" where
  "chosen sb dir s i dir1 s1 \<longleftrightarrow> dir_ok s1 sb dir1 \<and> i_size dir1 = i_size dir \<and> i \<le> entries dir \<and>
    (i < entries dir \<longrightarrow> get16 s (fst (de_at dir s i)) (snd (de_at dir s i)) = 0) \<and>
    fmap dir1 s1 (i div 64) \<noteq> 0 \<and> \<not> unreadable s1 (fmap dir1 s1 (i div 64)) \<and>
    (\<forall>m. fmap dir s m \<noteq> 0 \<longrightarrow> fmap dir1 s1 m = fmap dir s m \<and> bdata s1 (fmap dir s m) = bdata s (fmap dir s m))"

lemma add_loop_last:
  assumes ok: "dir_ok s sb dir" and c: "cursor dir s i b k" and i: "i \<le> entries dir"
    and free: "i < entries dir \<Longrightarrow> get16 s (fst (de_at dir s i)) (snd (de_at dir s i)) = 0"
    and bk: "k < 64 \<Longrightarrow> b \<noteq> 0 \<and> \<not> unreadable s b"
    and r: "add_entry_loop name len i (Some b) k dir s = Done (Some de, dir', s')"
  shows "\<exists>dir1 s1. chosen sb dir s i dir1 s1 \<and> de = de_at dir1 s1 i \<and> (dir', s') = fill name len i de dir1 s1"
proof (cases "k \<ge> 64")
  case False
  then have d: "(b, 16 * k) = de_at dir s i" using c by (auto simp: cursor_def)
  have "try_entry name len i (b, 16 * k) dir s = Some (fill name len i (b, 16 * k) dir s)"
    by (rule try_entry_cases(1)) (use dir_okD(2) [OF ok] free d i in \<open>cases "i < entries dir"; simp\<close>)
  then have "de = (b, 16 * k)" "(dir', s') = fill name len i de dir s" using r False by (auto simp: add_entry_loop.simps split: prod.splits)
  moreover have "chosen sb dir s i dir s" unfolding chosen_def using ok i free bk False d by (auto simp: de_at_def)
  ultimately show ?thesis using d by blast
next
  case True
  note cb = cursor_block [OF c True]
  obtain b1 dir1 s1 where cr: "minix_create_block dir (int (i div 64)) s = Done (b1, dir1, s1)"
    using r True by (cases "minix_create_block dir (int (i div 64)) s") (auto simp: add_entry_loop.simps [of name len i "Some b"])
  have b1: "b1 \<noteq> 0" "\<not> unreadable s1 b1"
    using r True cr by (auto simp: add_entry_loop.simps [of name len i "Some b"] add_entry_loop.simps [of name len _ None] split: if_splits)
  note n = create_dir_ok [OF ok cr b1(1)]
  have "get16 s1 b1 0 = 0" if "i < entries dir"
  proof -
    have f: "fmap dir s (i div 64) \<noteq> 0" using entry_block [OF that dir_okD(3) [OF ok]] by blast
    then have "b1 = fmap dir s (i div 64)" "bdata s1 b1 = bdata s b1" using n(2) n(5) [OF f] by auto
    then show ?thesis using free [OF that] cb(1) by (simp add: get16_def)
  qed
  then have "try_entry name len i (b1, 0) dir1 s1 = Some (fill name len i (b1, 0) dir1 s1)"
    by (intro try_entry_cases(1)) (use dir_okD(2) [OF ok] n(3) i in \<open>cases "i < entries dir"; simp\<close>)
  then have "de = (b1, 0)" "(dir', s') = fill name len i de dir1 s1" using r True cr b1 by (auto simp: add_entry_loop.simps [of name len i "Some b"] split: prod.splits)
  moreover have "i mod 64 = 0" using c True by (auto simp: cursor_def)
  then have "de_at dir1 s1 i = (b1, 0)" using n(2) by (simp add: de_at_def)
  moreover have "chosen sb dir s i dir1 s1" unfolding chosen_def using n i free b1 by auto
  ultimately show ?thesis by metis
qed

lemma cursor_readable:
  assumes "full_blocks dir s n" "cursor dir s i b k" "i \<le> n" "k < 64"
  shows "b \<noteq> 0 \<and> \<not> unreadable s b"
proof -
  have b: "b = fmap dir s (i div 64)" "k = i mod 64" "i = 0 \<or> 0 < k" using assms(2,4) by (auto simp: cursor_def de_at_def)
  have "i div 64 = 0 \<or> 64 * (i div 64) < n"
  proof (cases "i = 0")
    case False
    then have "0 < i mod 64" using b by simp
    moreover have "i = 64 * (i div 64) + i mod 64" by simp
    ultimately have "64 * (i div 64) < i" by linarith
    then show ?thesis using assms(3) by linarith
  qed simp
  then show ?thesis using assms(1) b(1) unfolding full_blocks_def by blast
qed

lemma add_entry_result:
  assumes ok: "dir_ok s sb dir" and r: "minix_add_entry (Some dir) name len s = Done (Some de, Some dir', s')"
  shows "\<exists>i dir1 s1. chosen sb dir s i dir1 s1 \<and> de = de_at dir1 s1 i \<and> (dir', s') = fill name (min len 14) i de dir1 s1"
proof -
  note d = dir_okD [OF ok]
  have l: "add_entry_loop name (min len 14) 0 (Some (i_data dir ! 0)) 0 dir s = Done (Some de, dir', s')"
    using r by (auto simp: minix_add_entry_def Let_def then_do_Done split: if_splits)
  define free where "free j \<longleftrightarrow> get16 s (fst (de_at dir s j)) (snd (de_at dir s j)) = 0" for j
  obtain i where i: "i \<le> entries dir" "i < entries dir \<Longrightarrow> free i" "\<And>j. j < i \<Longrightarrow> \<not> free j"
  proof (cases "find free [0..<entries dir]")
    case None
    then have "\<not> free j" if "j < entries dir" for j using that by (auto simp: find_None_iff)
    then show ?thesis using that [of "entries dir"] by blast
  next
    case (Some j)
    then show ?thesis using that [of j] by (auto simp: find_Some_iff)
  qed
  obtain b k where c: "cursor dir s i b k" "add_entry_loop name (min len 14) i (Some b) k dir s = Done (Some de, dir', s')"
    using add_loop_skip [OF d(3,2) i(1) cursor_start, of name "min len 14"] i(3) l by (auto simp: free_def)
  then show ?thesis using add_loop_last [OF ok c(1) i(1) _ cursor_readable [OF d(3) c(1) i(1)] c(2)] i(2) by (auto simp: free_def)
qed

text \<open>The entry after the caller has stored the inode number.\<close>

lemma filled:
  assumes f: "(dir', s') = fill name len i (b, off) dir s" and s'': "s'' = put16 b off ino s'"
  shows "c \<noteq> b \<or> x < off \<or> off + 16 \<le> x \<Longrightarrow> bdata s'' c x = bdata s c x" "get16 s'' b off = ino mod 65536"
    "q < 14 \<Longrightarrow> bdata s'' b (off + 2 + q) = (if q < len then name q else 0)" "unreadable s'' = unreadable s" "get_super s'' = get_super s"
    "i_data dir' = i_data dir" "i_size dir' = (if 16 * i \<ge> unat (i_size dir) then of_nat (16 * (i + 1)) else i_size dir)"
proof -
  obtain d t where dt: "extend_dir i (b, off) dir s = (d, t)" by force
  have s': "dir' = d\<lparr>i_mtime := now t\<rparr>" "s' = put_name (b, off) name len t" using f dt by (simp_all add: fill_def take_entry_def)
  have t: "d = dir \<and> t = s \<or> i_data d = i_data dir \<and> t = put16 b off 0 s" using dt by (auto simp: extend_dir_def split: if_splits)
  show "c \<noteq> b \<or> x < off \<or> off + 16 \<le> x \<Longrightarrow> bdata s'' c x = bdata s c x"
    using t by (auto simp: s'' s' put_name_bytes bdata_put16)
  show "get16 s'' b off = ino mod 65536" by (simp add: s'' get16_put16)
  show "q < 14 \<Longrightarrow> bdata s'' b (off + 2 + q) = (if q < len then name q else 0)" by (simp add: s'' s' put_name_bytes bdata_put16)
  show "unreadable s'' = unreadable s" "get_super s'' = get_super s" using t by (auto simp: s'' s' put_name_bytes)
  show "i_data dir' = i_data dir" using t by (auto simp: s')
  show "i_size dir' = (if 16 * i \<ge> unat (i_size dir) then of_nat (16 * (i + 1)) else i_size dir)"
    using dt by (auto simp: s' extend_dir_def split: if_splits)
qed

lemma match_cong:
  assumes "\<And>x. x < 16 \<Longrightarrow> bdata s' b (off + x) = bdata s b (off + x)" "len \<le> 14"
  shows "minix_match len name s' (b, off) = minix_match len name s (b, off)"
proof -
  have a: "bdata s' b (off + 2 + i) = bdata s b (off + 2 + i)" if "i < 14" for i using assms(1) [of "2 + i"] that by (simp add: add.assoc)
  have g: "get16 s' b off = get16 s b off" using assms(1) [of 0] assms(1) [of 1] by (simp add: get16_def)
  have l: "list_all (\<lambda>i. name i = bdata s' b (off + 2 + i)) [0..<len] = list_all (\<lambda>i. name i = bdata s b (off + 2 + i)) [0..<len]"
    by (rule list_all_cong) (use a assms(2) in auto)
  have h: "bdata s' b (off + 2) = bdata s b (off + 2)" "bdata s' b (off + 3) = bdata s b (off + 3)"
    "len < 14 \<and> bdata s' b (off + 2 + len) \<noteq> 0 \<longleftrightarrow> len < 14 \<and> bdata s b (off + 2 + len) \<noteq> 0"
    using assms(1) [of 2] assms(1) [of 3] a [of len] by auto
  show ?thesis unfolding minix_match_def prod.case l g h ..
qed

text \<open>The part of a name that counts, and names without a null byte.\<close>

definition short_name :: "(nat \<Rightarrow> u8) \<Rightarrow> nat \<Rightarrow> u8 list" where
  "short_name name len = map name [0..<min len 14]"

definition proper_name :: "(nat \<Rightarrow> u8) \<Rightarrow> nat \<Rightarrow> bool" where
  "proper_name name len \<longleftrightarrow> 0 < len \<and> 0 \<notin> set (short_name name len)"

lemma match_stored:
  assumes st: "\<And>q. q < 14 \<Longrightarrow> bdata s b (off + 2 + q) = (if q < min len 14 then name q else 0)" and ino: "get16 s b off \<noteq> 0"
    and p: "proper_name name len" "proper_name name' len'"
  shows "minix_match (min len' 14) name' s (b, off) \<longleftrightarrow> short_name name' len' = short_name name len"
proof -
  define m n where "m = min len 14" and "n = min len' 14"
  have nz: "name i \<noteq> 0" if "i < m" for i using p(1) that unfolding proper_name_def short_name_def m_def by force
  have nz': "name' i \<noteq> 0" if "i < n" for i using p(2) that unfolding proper_name_def short_name_def n_def by force
  have n0: "0 < n" "n \<le> 14" "m \<le> 14" using p(2) by (auto simp: proper_name_def n_def m_def)
  note st' = st [folded m_def]
  have e: "list_all (\<lambda>i. name' i = bdata s b (off + 2 + i)) [0..<n] \<longleftrightarrow> (\<forall>i < n. name' i = (if i < m then name i else 0))"
    unfolding list_all_iff using st' n0(2) by (metis atLeastLessThan_iff le0 order_less_le_trans set_upt)
  have "bdata s b (off + 2 + n) \<noteq> 0 \<longleftrightarrow> n < m" if "n < 14" using st' [OF that] nz [of n] by simp
  then have "minix_match n name' s (b, off) \<longleftrightarrow> \<not> n < m \<and> (\<forall>i < n. name' i = (if i < m then name i else 0))"
    unfolding minix_match_def prod.case e using n0 ino by (cases "n < 14") simp_all
  also have "\<dots> \<longleftrightarrow> n = m \<and> (\<forall>i < n. name' i = name i)"
  proof
    assume l: "\<not> n < m \<and> (\<forall>i < n. name' i = (if i < m then name i else 0))"
    have "\<not> m < n" using l nz' [of m] by auto
    then have "n = m" using l by linarith
    then show "n = m \<and> (\<forall>i < n. name' i = name i)" using l by simp
  qed auto
  also have "\<dots> \<longleftrightarrow> short_name name' len' = short_name name len"
    unfolding short_name_def m_def [symmetric] n_def [symmetric] by (auto simp: list_eq_iff_nth_eq)
  finally show ?thesis by (simp only: n_def)
qed

lemma find_update:
  assumes same: "\<And>j. j < n \<Longrightarrow> j \<noteq> i \<Longrightarrow> P' j = P j" and i: "i \<le> n" "i < n \<Longrightarrow> \<not> P i" and n': "n' = (if i < n then n else n + 1)"
  shows "\<not> P' i \<Longrightarrow> find P' [0..<n'] = find P [0..<n]" "P' i \<Longrightarrow> find P [0..<n] = None \<Longrightarrow> find P' [0..<n'] = Some i"
proof -
  assume "\<not> P' i"
  then have c: "find P' [0..<n] = find P [0..<n]" using same i(2) by (intro find_cong) auto
  show "find P' [0..<n'] = find P [0..<n]"
  proof (cases "i < n")
    case False
    then have "n' = Suc n" "i = n" using n' i(1) by auto
    then show ?thesis using c \<open>\<not> P' i\<close> by (simp add: find_append split: option.splits)
  qed (simp add: n' c)
next
  assume p: "P' i" "find P [0..<n] = None"
  then have "\<not> P j" if "j < n" for j using that by (auto simp: find_None_iff)
  then have "\<not> P' j" if "j < i" for j using that same i(1) by simp
  moreover have "i < n'" using i(1) n' by auto
  ultimately show "find P' [0..<n'] = Some i" using p(1) unfolding find_Some_iff by (intro exI [of _ i]) simp
qed

lemma filled_dir:
  assumes ok: "dir_ok s sb dir" and ch: "chosen sb dir s i dir1 s1" and de: "(b, off) = de_at dir1 s1 i"
    and f: "(dir', s') = fill name len i (b, off) dir1 s1" and s'': "s'' = put16 b off ino s'"
  shows "dir_ok s'' sb dir'" "entries dir' = (if i < entries dir then entries dir else entries dir + 1)"
    "j < entries dir \<Longrightarrow> de_at dir' s'' j = de_at dir s j" "de_at dir' s'' i = (b, off)"
    "j < entries dir \<Longrightarrow> j \<noteq> i \<Longrightarrow> l \<le> 14 \<Longrightarrow> minix_match l nm s'' (de_at dir' s'' j) = minix_match l nm s (de_at dir s j)"
proof -
  note g = filled [OF f s'']
  note c = ch [unfolded chosen_def] and d = dir_okD [OF ok]
  have ok1: "dir_ok s1 sb dir1" and i: "i \<le> entries dir" and sz1: "i_size dir1 = i_size dir" using c by blast+
  note d1 = dir_okD [OF ok1]
  have b: "b = fmap dir1 s1 (i div 64)" "off = 16 * (i mod 64)" using de by (auto simp: de_at_def)
  have b0: "b \<noteq> 0" using c b by blast
  have w: "dir_ok s'' sb dir1" "fmap dir1 s'' = fmap dir1 s1" by (rule write_dir [OF ok1 b(1) b0]; use g(1,4,5) in auto)+
  note cg = fmap_inode_cong [OF g(6)]
  have fm: "fmap dir' s'' = fmap dir1 s1" using cg(1) w(2) by metis
  have keep: "fmap dir1 s1 (j div 64) = fmap dir s (j div 64)" "bdata s1 (fmap dir s (j div 64)) = bdata s (fmap dir s (j div 64))"
    if "j < entries dir" for j using c entry_block [OF that d(3)] by blast+
  show dj: "de_at dir' s'' j = de_at dir s j" if "j < entries dir" for j unfolding de_at_def fm using keep [OF that] by simp
  show "de_at dir' s'' i = (b, off)" unfolding de_at_def fm using b by simp
  have big: "16 * (i + 1) < 2 ^ 32"
  proof -
    have "i div 64 < 7 + 512 + 512 * 512" using b0 b(1) by (auto simp: fmap_def split: if_splits)
    then show ?thesis by simp
  qed
  have e1: "unat (i_size dir1) = 16 * entries dir" using d(2) sz1 by simp
  have sz: "unat (i_size dir') = 16 * (if i < entries dir then entries dir else i + 1)"
  proof (cases "i < entries dir")
    case False
    have "unat (of_nat (16 * (i + 1)) :: u32) = 16 * (i + 1)" using big by (simp only: unat_of_nat take_bit_eq_mod) simp
    then show ?thesis using g(7) e1 False by simp
  qed (use g(7) e1 in simp)
  then show en: "entries dir' = (if i < entries dir then entries dir else entries dir + 1)" using i by (simp add: entries_def)
  have "full_blocks dir' s'' (entries dir')" unfolding full_blocks_def fm g(4)
  proof (intro allI impI)
    fix m assume m: "m = 0 \<or> 64 * m < entries dir'"
    show "fmap dir1 s1 m \<noteq> 0 \<and> \<not> unreadable s1 (fmap dir1 s1 m)"
    proof (cases "m = 0 \<or> 64 * m < entries dir1")
      case True
      then show ?thesis using d1(3) unfolding full_blocks_def by blast
    next
      case False
      then have "64 * m = i" using m en i sz1 by (auto simp: entries_def split: if_splits)
      then have "i div 64 = m" by auto
      then show ?thesis using c by blast
    qed
  qed
  moreover have "file_ok s'' sb dir'" using w(1) cg(4) unfolding dir_ok_def by blast
  moreover have "unat (i_size dir') = 16 * entries dir'" using sz en i by auto
  ultimately show "dir_ok s'' sb dir'" using w(1) unfolding dir_ok_def cg(1,2) by blast
  show "minix_match l nm s'' (de_at dir' s'' j) = minix_match l nm s (de_at dir s j)" if j: "j < entries dir" "j \<noteq> i" "l \<le> 14" for j l nm
  proof -
    let ?c = "fmap dir s (j div 64)" and ?o = "16 * (j mod 64)"
    have "?c \<noteq> b \<or> ?o + 16 \<le> off \<or> off + 16 \<le> ?o"
    proof (cases "?c = b")
      case True
      then have "j div 64 = i div 64" using d1(6) [of "j div 64" "i div 64"] keep(1) [OF j(1)] b(1) b0 by simp
      then have "j mod 64 \<noteq> i mod 64" using j(2) by (metis div_mult_mod_eq)
      then show ?thesis unfolding b(2) by linarith
    qed simp
    then have "bdata s'' ?c (?o + x) = bdata s ?c (?o + x)" if "x < 16" for x
      using g(1) [of ?c "?o + x"] keep(2) [OF j(1)] that by auto
    then have "minix_match l nm s'' (?c, ?o) = minix_match l nm s (?c, ?o)" by (intro match_cong) (use j in auto)
    then show ?thesis unfolding dj [OF j(1)] by (simp add: de_at_def)
  qed
qed

text \<open>\<^verbatim>\<open>empty_dir\<close> looks at every entry but the first two.  Counting a reference changes nothing it reads.\<close>

definition no_entries :: "inode \<Rightarrow> mfs \<Rightarrow> nat \<Rightarrow> nat \<Rightarrow> bool" where
  "no_entries dir s i n \<longleftrightarrow> (\<forall>j \<in> {i..<n}. get16 s (fst (de_at dir s j)) (snd (de_at dir s j)) = 0)"

definition bad_head :: "inode \<Rightarrow> mfs \<Rightarrow> bool" where
  "bad_head dir s \<longleftrightarrow> (let b = fmap dir s 0 in
     get16 s b 0 \<noteq> unat (i_ino dir) \<or> \<not> name_is s b 0 [46] \<or> get16 s b 16 = 0 \<or> \<not> name_is s b 16 [46, 46])"

lemma hold_reads [simp]:
  "get16 (hold b s) = get16 s" "name_is (hold b s) = name_is s" "unreadable (hold b s) = unreadable s" "bdata (hold b s) = bdata s"
  by (simp_all add: hold_def fun_eq_iff get16_def name_is_def)

lemma release_hold [simp]: "release_block b (hold b s) = Done s" "release_return b r (hold b s) = Done (r, s)"
  by (simp_all add: release_block_def release_return_def hold_def)

lemma release_free [simp]: "held s b = 0 \<Longrightarrow> release_block b s = Panicked" "held s b = 0 \<Longrightarrow> release_return b r s = Panicked"
  by (simp_all add: release_block_def release_return_def)

lemma no_entries_step:
  "i < n \<Longrightarrow> no_entries dir s i n \<longleftrightarrow> get16 s (fst (de_at dir s i)) (snd (de_at dir s i)) = 0 \<and> no_entries dir s (i + 1) n"
  unfolding no_entries_def using atLeastLessThan_eq_atLeastAtMost_diff by (auto simp: Suc_le_eq nat_less_le)

text \<open>
  From entry \<open>i\<close> on, with a reference to the block of the entry before.  Up to entry \<open>m\<close> all blocks exist and can be read.
\<close>

lemma empty_dir_loop_step:
  assumes blk: "fmap dir s (i div 64) \<noteq> 0" "\<not> unreadable s (fmap dir s (i div 64))" and i: "i < n" and c: "cursor dir s i b k"
  shows "empty_dir_loop dir n i b k (hold b s) =
    (if get16 s (fst (de_at dir s i)) (snd (de_at dir s i)) \<noteq> 0 then Done (False, s)
     else empty_dir_loop dir n (i + 1) (fst (de_at dir s i)) (i mod 64 + 1) (hold (fst (de_at dir s i)) s))"
proof (cases "k \<ge> 64")
  case True
  then have "i mod 64 = 0" "k = 64" using c by (auto simp: cursor_def)
  then show ?thesis using i blk
    by (subst empty_dir_loop.simps) (simp add: minix_bmap_fmap de_at_def)
next
  case False
  then have "(b, 16 * k) = de_at dir s i" using c by (auto simp: cursor_def)
  then have "b = fst (de_at dir s i)" "16 * k = snd (de_at dir s i)" "k = i mod 64" by (auto simp: de_at_def)
  then show ?thesis using i False
    by (subst empty_dir_loop.simps) simp
qed

lemma empty_dir_loop_spec:
  assumes "\<And>j. i \<le> j \<Longrightarrow> j < m \<Longrightarrow> fmap dir s (j div 64) \<noteq> 0 \<and> \<not> unreadable s (fmap dir s (j div 64))"
    and "cursor dir s i b k" "i \<le> m" "m \<le> n"
  shows "\<exists>b' k'. cursor dir s m b' k' \<and> (i < m \<longrightarrow> b' = fmap dir s ((m - 1) div 64)) \<and> empty_dir_loop dir n i b k (hold b s) =
    (if no_entries dir s i m then empty_dir_loop dir n m b' k' (hold b' s) else Done (False, s))"
  using assms
proof (induction "m - i" arbitrary: i b k)
  case 0
  then have "i = m" by simp
  with 0 show ?case by (auto simp: no_entries_def)
next
  case (Suc d)
  then have lt: "i < m" by linarith
  let ?b = "fst (de_at dir s i)" and ?k = "i mod 64 + 1"
  have c: "cursor dir s (i + 1) ?b ?k" by (rule cursor_next) (simp add: de_at_def)
  have "\<exists>b' k'. cursor dir s m b' k' \<and> (i + 1 < m \<longrightarrow> b' = fmap dir s ((m - 1) div 64)) \<and> empty_dir_loop dir n (i + 1) ?b ?k (hold ?b s) =
    (if no_entries dir s (i + 1) m then empty_dir_loop dir n m b' k' (hold b' s) else Done (False, s))"
    by (rule Suc.hyps(1)) (use Suc lt c in auto)
  then obtain b' k' where n: "cursor dir s m b' k'" "i + 1 < m \<longrightarrow> b' = fmap dir s ((m - 1) div 64)"
    "empty_dir_loop dir n (i + 1) ?b ?k (hold ?b s) =
      (if no_entries dir s (i + 1) m then empty_dir_loop dir n m b' k' (hold b' s) else Done (False, s))" by blast
  have st: "empty_dir_loop dir n i b k (hold b s) =
    (if get16 s ?b (snd (de_at dir s i)) \<noteq> 0 then Done (False, s) else empty_dir_loop dir n (i + 1) ?b ?k (hold ?b s))"
    using Suc.prems lt by (intro empty_dir_loop_step) auto
  show ?case
  proof (cases "i + 1 = m")
    case True
    then have "?b = fmap dir s ((m - 1) div 64)" "no_entries dir s (i + 1) m" by (auto simp: de_at_def no_entries_def)
    then show ?thesis using st c True lt no_entries_step [OF lt, of dir s] by (intro exI [of _ ?b] exI [of _ ?k]) simp
  next
    case False
    then show ?thesis using n st lt no_entries_step [OF lt, of dir s] by (intro exI [of _ b'] exI [of _ k']) simp
  qed
qed

lemma empty_dir_enter:
  assumes "2 \<le> entries dir" "fmap dir s 0 \<noteq> 0" "\<not> unreadable s (fmap dir s 0)"
  shows "empty_dir dir s = (if bad_head dir s then Done (False, hold (fmap dir s 0) s)
    else empty_dir_loop dir (entries dir) 2 (fmap dir s 0) 2 (hold (fmap dir s 0) s))"
  using assms by (auto simp: empty_dir_def bad_head_def Let_def entries_def fmap_def)

lemma second_entry_cursor: "cursor dir s 2 (fmap dir s 0) 2"
  by (simp add: cursor_def de_at_def)

section \<open>Properties\<close>

text \<open>
  C3. Entering a name and looking it up.  When \<^verbatim>\<open>minix_add_entry\<close> has found a place in a well-formed directory for a name that is not there and the
  caller has stored the inode number, the directory is well-formed again, \<^verbatim>\<open>minix_find_entry\<close> finds exactly that entry under
  the name, and finds under every other name what it found before, whether a free entry was reused or the directory has grown, also by a block.
\<close>

theorem minix_add_find_round_trip:
  assumes "dir_ok s sb dir" "proper_name name len" "minix_find_entry (Some dir) name len s = Done None"
    and "minix_add_entry (Some dir) name len s = Done (Some (b, off), Some dir', s')" "0 < ino" "ino < 65536"
  shows "dir_ok (put16 b off ino s') sb dir' \<and>
    minix_find_entry (Some dir') name len (put16 b off ino s') = Done (Some (b, off)) \<and>
    (\<forall>name' len'. proper_name name' len' \<and> short_name name' len' \<noteq> short_name name len \<longrightarrow>
      minix_find_entry (Some dir') name' len' (put16 b off ino s') = minix_find_entry (Some dir) name' len' s)"
proof -
  define s'' where "s'' = put16 b off ino s'"
  obtain i dir1 s1 where ch: "chosen sb dir s i dir1 s1" and de: "(b, off) = de_at dir1 s1 i" and f: "(dir', s') = fill name (min len 14) i (b, off) dir1 s1"
    using add_entry_result [OF assms(1,4)] by blast
  note g = filled_dir [OF assms(1) ch de f s''_def] and h = filled [OF f s''_def]
  have i: "i \<le> entries dir" "i < entries dir \<Longrightarrow> get16 s (fst (de_at dir s i)) (snd (de_at dir s i)) = 0" using ch by (auto simp: chosen_def)
  have fr: "\<not> minix_match l nm s (de_at dir s i)" if "i < entries dir" for l nm
    using i(2) [OF that] by (cases "de_at dir s i") (simp add: minix_match_def)
  have ino: "get16 s'' b off \<noteq> 0" using h(2) assms(5,6) by simp
  note spec = minix_find_entry_spec [OF dir_okD(3) [OF assms(1)]] and spec' = minix_find_entry_spec [OF dir_okD(3) [OF g(1)]]
  have m: "minix_match (min len' 14) nm s'' (de_at dir' s'' i) \<longleftrightarrow> short_name nm len' = short_name name len" if "proper_name nm len'" for nm len'
    unfolding g(4) by (rule match_stored [OF h(3) ino assms(2) that])
  note fu = find_update [where P' = "\<lambda>i. minix_match (min l 14) nm s'' (de_at dir' s'' i)" and P = "\<lambda>i. minix_match (min l 14) nm s (de_at dir s i)"
      and n = "entries dir" and i = i and n' = "entries dir'" for l nm, OF g(5) i(1) fr g(2)]
  have "find (\<lambda>i. minix_match (min len 14) name s (de_at dir s i)) [0..<entries dir] = None" using assms(3) spec by simp
  then have "minix_find_entry (Some dir') name len s'' = Done (Some (b, off))"
    using spec' fu(2) [of len name] m [OF assms(2)] g(4) by simp
  moreover have "minix_find_entry (Some dir') nm len' s'' = minix_find_entry (Some dir) nm len' s"
    if n: "proper_name nm len'" "short_name nm len' \<noteq> short_name name len" for nm len'
  proof -
    let ?r = "find (\<lambda>i. minix_match (min len' 14) nm s (de_at dir s i)) [0..<entries dir]"
    have r: "find (\<lambda>i. minix_match (min len' 14) nm s'' (de_at dir' s'' i)) [0..<entries dir'] = ?r"
      using fu(1) [of len' nm] m [OF n(1)] n(2) by simp
    have "map_option (de_at dir' s'') ?r = map_option (de_at dir s) ?r"
      by (rule option.map_cong0) (use g(3) in \<open>auto simp: find_Some_iff\<close>)
    then show ?thesis unfolding spec spec' r by simp
  qed
  ultimately show ?thesis unfolding s''_def [symmetric] using g(1) by blast
qed

text \<open>
  C23. For a directory none of whose blocks is missing or unreadable, \<^verbatim>\<open>empty_dir\<close> returns, and says yes exactly when there are at
  least two entries, the first is \<^verbatim>\<open>.\<close> with the directory's own inode number, the second is \<^verbatim>\<open>..\<close> and all others are free.  It has then
  given back every buffer it has taken, but for one case: when the first two entries are wrong the reference to the first block is lost.
  When block \<open>m\<close> is the first that is missing inside the length of a directory with good first entries, and no entry before it is in use, then
  \<^verbatim>\<open>empty_dir\<close> releases the buffer of the block before twice and, if nobody else holds that buffer, panics.
\<close>

theorem empty_dir_correct:
  "((\<forall>m. 64 * m < entries dir \<longrightarrow> fmap dir s m \<noteq> 0 \<and> \<not> unreadable s (fmap dir s m)) \<longrightarrow>
      empty_dir dir s =
        (if 2 \<le> entries dir \<and> bad_head dir s then Done (False, hold (fmap dir s 0) s)
         else Done (2 \<le> entries dir \<and> (\<forall>j \<in> {2..<entries dir}. get16 s (fst (de_at dir s j)) (snd (de_at dir s j)) = 0), s))) \<and>
   (\<forall>m > 0. 64 * m < entries dir \<and> fmap dir s m = 0 \<and> (\<forall>i < m. fmap dir s i \<noteq> 0 \<and> \<not> unreadable s (fmap dir s i)) \<and>
      \<not> bad_head dir s \<and> no_entries dir s 2 (64 * m) \<and> held s (fmap dir s (m - 1)) = 0 \<longrightarrow> empty_dir dir s = Panicked)"
proof (intro conjI impI allI)
  assume all: "\<forall>m. 64 * m < entries dir \<longrightarrow> fmap dir s m \<noteq> 0 \<and> \<not> unreadable s (fmap dir s m)"
  have blk: "fmap dir s (j div 64) \<noteq> 0 \<and> \<not> unreadable s (fmap dir s (j div 64))" if "j < entries dir" for j
    using all that by (metis le_less_trans times_div_less_eq_dividend)
  show "empty_dir dir s =
      (if 2 \<le> entries dir \<and> bad_head dir s then Done (False, hold (fmap dir s 0) s)
       else Done (2 \<le> entries dir \<and> (\<forall>j \<in> {2..<entries dir}. get16 s (fst (de_at dir s j)) (snd (de_at dir s j)) = 0), s))"
  proof (cases "2 \<le> entries dir")
    case True
    then have e: "empty_dir dir s = (if bad_head dir s then Done (False, hold (fmap dir s 0) s)
        else empty_dir_loop dir (entries dir) 2 (fmap dir s 0) 2 (hold (fmap dir s 0) s))"
      using blk [of 0] by (intro empty_dir_enter) auto
    obtain b' k' where "empty_dir_loop dir (entries dir) 2 (fmap dir s 0) 2 (hold (fmap dir s 0) s) =
        (if no_entries dir s 2 (entries dir) then empty_dir_loop dir (entries dir) (entries dir) b' k' (hold b' s) else Done (False, s))"
      using empty_dir_loop_spec [of 2 "entries dir" dir s, OF _ second_entry_cursor True order_refl] blk by blast
    moreover have "empty_dir_loop dir (entries dir) (entries dir) b' k' (hold b' s) = Done (True, s)"
      by (subst empty_dir_loop.simps) simp
    ultimately show ?thesis using e True by (simp add: no_entries_def)
  qed (simp add: empty_dir_def entries_def)
next
  fix m :: nat
  assume "0 < m" and "64 * m < entries dir \<and> fmap dir s m = 0 \<and> (\<forall>i < m. fmap dir s i \<noteq> 0 \<and> \<not> unreadable s (fmap dir s i)) \<and>
    \<not> bad_head dir s \<and> no_entries dir s 2 (64 * m) \<and> held s (fmap dir s (m - 1)) = 0"
  then have m: "0 < m" "64 * m < entries dir" "fmap dir s m = 0" "\<forall>i < m. fmap dir s i \<noteq> 0 \<and> \<not> unreadable s (fmap dir s i)"
    "\<not> bad_head dir s" "no_entries dir s 2 (64 * m)" "held s (fmap dir s (m - 1)) = 0" by auto
  have blk: "fmap dir s (j div 64) \<noteq> 0 \<and> \<not> unreadable s (fmap dir s (j div 64))" if "j < 64 * m" for j
    using m(4) that by (simp add: div_less_iff_less_mult mult.commute)
  have "(64 * m - 1) div 64 = m - 1" using m(1) by (cases m) simp_all
  then obtain b' k' where c: "cursor dir s (64 * m) b' k'" "b' = fmap dir s (m - 1)"
    and l: "empty_dir_loop dir (entries dir) 2 (fmap dir s 0) 2 (hold (fmap dir s 0) s) = empty_dir_loop dir (entries dir) (64 * m) b' k' (hold b' s)"
    using empty_dir_loop_spec [of 2 "64 * m" dir s, OF _ second_entry_cursor, of "entries dir"] blk m(1,2,6) by auto
  have "k' \<ge> 64" using c(1) m(1) by (auto simp: cursor_def de_at_def)
  then have "empty_dir_loop dir (entries dir) (64 * m) b' k' (hold b' s) = empty_dir_loop dir (entries dir) (64 * m + 64) b' k' s"
    using m(2,3) by (subst empty_dir_loop.simps) (simp add: minix_bmap_fmap)
  also have "\<dots> = Panicked" using \<open>k' \<ge> 64\<close> m(7) c(2) by (subst empty_dir_loop.simps) simp
  finally show "empty_dir dir s = Panicked" using l m(2,5) blk [of 0] m(1) empty_dir_enter [of dir s] by simp
qed

section \<open>A small directory\<close>

text \<open>The root directory of the small file system: the entries \<^verbatim>\<open>.\<close> and \<^verbatim>\<open>..\<close> in block 5.\<close>

definition dir_fs :: mfs where
  "dir_fs = small_fs\<lparr>bdata := \<lambda>b k. if b = 2 \<and> k = 0 then 1 else if b = 3 \<and> k = 0 then 3 else
     if b = 5 then (if k = 0 \<or> k = 16 then 1 else if k = 2 \<or> k = 18 \<or> k = 19 then 46 else 0) else 0\<rparr>"

definition root_dir :: inode where
  "root_dir = small_inode\<lparr>i_ino := 1, i_mode := 0x41ED, i_size := 32, i_data := 5 # replicate 15 0\<rparr>"

definition name_a :: "nat \<Rightarrow> u8" where
  "name_a = (\<lambda>i. if i = 0 then 97 else 0)"

lemma dir_fs_simps [simp]:
  "get_super dir_fs = Some small_super" "unreadable dir_fs = (\<lambda>_. False)" "i_data root_dir = 5 # replicate 15 0" "i_size root_dir = 32"
  "entries root_dir = 2" "bdata dir_fs 3 0 = 3"
  "bdata dir_fs 5 k = (if k = 0 \<or> k = 16 then 1 else if k = 2 \<or> k = 18 \<or> k = 19 then 46 else 0)"
  by (simp_all add: dir_fs_def root_dir_def small_fs_def entries_def)

lemma root_dir_blocks: "fmap root_dir dir_fs m = (if m = 0 then 5 else 0)"
proof -
  have "entry s 0 k = 0" for s k by (simp add: entry_def)
  moreover have "i_data root_dir ! 7 = 0" "i_data root_dir ! 8 = 0" by simp_all
  moreover have "i_data root_dir ! m = (if m = 0 then 5 else 0)" if "m < 7" using that by (simp add: nth_Cons')
  ultimately show ?thesis by (simp add: fmap_def)
qed

lemma root_dir_ok: "dir_ok dir_fs small_super root_dir"
proof -
  have z: "entry dir_fs (i_data root_dir ! 8) k = 0" for k by (simp add: entry_def)
  have so: "super_ok dir_fs small_super" by (rule super_ok_cong [OF small_super_ok]) (auto simp: block_bit_def dir_fs_def small_fs_def split: if_splits)
  have "i_data root_dir ! 7 = 0" "i_data root_dir ! 8 = 0" "length (i_data root_dir) = 16" by simp_all
  then have "file_ok dir_fs small_super root_dir" unfolding file_ok_def Let_def z using so by simp
  moreover have "alloc dir_fs small_super 5" by (simp add: alloc_def in_zone_def zone_bit_def zone_of_def block_bit_def bit_numeral_rec)
  moreover have "5 \<notin> index_blocks root_dir dir_fs" unfolding index_blocks_def z by auto
  ultimately show ?thesis unfolding dir_ok_def full_blocks_def root_dir_blocks by auto
qed

lemma small_add: "\<exists>dir' s'. minix_add_entry (Some root_dir) name_a 1 dir_fs = Done (Some (5, 32), Some dir', s')"
proof -
  have g: "get16 dir_fs 5 0 = 1" "get16 dir_fs 5 16 = 1" by (simp_all add: get16_def)
  note t = try_entry_cases(2) [of 0 root_dir dir_fs "(5, 0)" name_a 1] try_entry_cases(2) [of 1 root_dir dir_fs "(5, 16)" name_a 1]
    try_entry_cases(1) [of root_dir 2 dir_fs "(5, 32)" name_a 1]
  have "\<exists>dir' s'. add_entry_loop name_a 1 2 (Some 5) 2 root_dir dir_fs = Done (Some (5, 32), dir', s')"
    by (subst add_entry_loop.simps) (use t(3) in \<open>simp split: prod.splits\<close>)
  moreover have "add_entry_loop name_a 1 1 (Some 5) 1 root_dir dir_fs = add_entry_loop name_a 1 2 (Some 5) 2 root_dir dir_fs"
    by (subst add_entry_loop.simps) (use t(2) g in \<open>simp flip: numeral_2_eq_2\<close>)
  moreover have "add_entry_loop name_a 1 0 (Some 5) 0 root_dir dir_fs = add_entry_loop name_a 1 1 (Some 5) 1 root_dir dir_fs"
    by (subst add_entry_loop.simps) (use t(1) g in simp)
  ultimately show ?thesis by (auto simp: minix_add_entry_def)
qed

theorem minix_add_find_round_trip_witness:
  "\<exists>dir' s'. minix_find_entry (Some root_dir) name_a 1 dir_fs = Done None \<and>
    minix_add_entry (Some root_dir) name_a 1 dir_fs = Done (Some (5, 32), Some dir', s') \<and>
    minix_find_entry (Some dir') name_a 1 (put16 5 32 9 s') = Done (Some (5, 32))"
proof -
  obtain dir' s' where r: "minix_add_entry (Some root_dir) name_a 1 dir_fs = Done (Some (5, 32), Some dir', s')" using small_add by blast
  have "[0..<2] = [0, Suc 0]" by (simp add: numeral_2_eq_2)
  then have n: "minix_find_entry (Some root_dir) name_a 1 dir_fs = Done None"
    using minix_find_entry_spec [OF dir_okD(3) [OF root_dir_ok]] by (simp add: minix_match_def de_at_def root_dir_blocks name_a_def)
  have "proper_name name_a 1" by (simp add: proper_name_def short_name_def name_a_def)
  then show ?thesis using minix_add_find_round_trip [OF root_dir_ok _ n r, of 9] n r by auto
qed

theorem empty_dir_correct_witness:
  "empty_dir root_dir dir_fs = Done (True, dir_fs) \<and> empty_dir (root_dir\<lparr>i_size := 2048\<rparr>) dir_fs = Panicked"
proof -
  have n: "name_is dir_fs 5 0 [46]" "name_is dir_fs 5 16 [46, 46]" by (simp_all add: name_is_def numeral_2_eq_2 upt_rec)
  have i: "i_ino root_dir = 1" "held dir_fs = (\<lambda>_. 0)" by (simp_all add: root_dir_def dir_fs_def small_fs_def)
  let ?d = "root_dir\<lparr>i_size := 2048\<rparr>"
  have same: "fmap ?d dir_fs m = fmap root_dir dir_fs m" for m by (simp add: fmap_def)
  have d: "entries ?d = 128" "fmap ?d dir_fs m = (if m = 0 then 5 else 0)" "de_at ?d dir_fs j = de_at root_dir dir_fs j" for m j
    using same root_dir_blocks by (simp_all add: entries_def de_at_def)
  have "no_entries ?d dir_fs 2 64" unfolding no_entries_def d by (auto simp: de_at_def root_dir_blocks get16_def)
  then have "empty_dir ?d dir_fs = Panicked"
    using empty_dir_correct [of ?d dir_fs] n i by (auto simp: d bad_head_def Let_def get16_def dest!: spec [of _ 1])
  moreover have "empty_dir root_dir dir_fs = Done (True, dir_fs)"
    using empty_dir_correct [of root_dir dir_fs] n i by (simp add: root_dir_blocks get16_def bad_head_def Let_def)
  ultimately show ?thesis by simp
qed

end
