(* ===== verification/Console.thy ===== *)
theory Console
  imports Kernel_Prelude
begin

text \<open>
  The virtual consoles, \<^verbatim>\<open>kernel/chr_drv/console.c\<close>: a terminal emulator for text screens in video memory.

  Memory is a function from addresses to 16-bit cells, a character in the low and its attribute in the high byte; all addresses in use are even, so the
  two byte stores of a character are one cell.  Addresses, rows and columns are integers; escape sequence parameters are 32-bit words and the
  arithmetic on them wraps around as in the source.  The registers of the display controller are a function from register numbers; the speaker and
  keyboard ports are left out.  \<open>replies\<close> lists the answers \<^verbatim>\<open>respond\<close> puts in the read queue of a terminal before it calls \<^verbatim>\<open>copy_to_cooked\<close>.

  Where the text of the source does not compile the model follows its indentation and names: \<^verbatim>\<open>ri\<close>, \<^verbatim>\<open>insert_line\<close> and \<^verbatim>\<open>delete_line\<close> call
  \<^verbatim>\<open>scrdown(currcons)\<close> and \<^verbatim>\<open>scrup(currcons)\<close> without the two lines, which are the \<^verbatim>\<open>top\<close> and \<^verbatim>\<open>bottom\<close> they have just set, and the branches of characters 14 and 15
  lack their braces.
\<close>

section \<open>State\<close>

record termios =
  c_iflag :: u32
  c_oflag :: u32
  c_cflag :: u32
  c_lflag :: u32
  c_line :: u8
  c_cc :: "u8 list"

definition INIT_C_CC :: "u8 list" where
  "INIT_C_CC = [3, 28, 127, 21, 4, 0, 1, 0, 17, 19, 26, 0, 18, 15, 23, 22, 0]"

text \<open>\<^verbatim>\<open>ICRNL\<close>; \<^verbatim>\<open>OPOST | ONLCR\<close>; \<^verbatim>\<open>IXON | ISIG | ICANON | ECHO | ECHOCTL | ECHOKE\<close>.\<close>

definition DEF_TERMIOS :: termios where
  "DEF_TERMIOS = \<lparr>c_iflag = 256, c_oflag = 1 OR 4, c_cflag = 0, c_lflag = 1024 OR 1 OR 2 OR 8 OR 512 OR 2048, c_line = 0, c_cc = INIT_C_CC\<rparr>"

datatype es_state = ESnormal | ESesc | ESsquare | ESgetpars | ESgotpars | ESfunckey | ESsetterm | ESsetgraph | ESunknown

datatype charset = NORM_TRANS | GRAF_TRANS

fun trans_table :: "charset \<Rightarrow> u8 list" where
  "trans_table NORM_TRANS = [
   0, 0, 0, 0, 0, 0, 0, 0, 0, 0, 0, 0, 0, 0, 0, 0, 0, 0, 0, 0, 0, 0, 0, 0, 0, 0, 0, 0, 0, 0, 0, 0,
   32, 33, 34, 35, 36, 37, 38, 39, 40, 41, 42, 43, 44, 45, 46, 47, 48, 49, 50, 51, 52, 53, 54, 55, 56, 57, 58, 59, 60, 61, 62, 63,
   64, 65, 66, 67, 68, 69, 70, 71, 72, 73, 74, 75, 76, 77, 78, 79, 80, 81, 82, 83, 84, 85, 86, 87, 88, 89, 90, 91, 92, 93, 94, 95,
   96, 97, 98, 99, 100, 101, 102, 103, 104, 105, 106, 107, 108, 109, 110, 111, 112, 113, 114, 115, 116, 117, 118, 119, 120, 121, 122, 123, 124, 125, 126, 0,
   0, 0, 0, 0, 0, 0, 0, 0, 0, 0, 0, 0, 0, 0, 0, 0, 0, 0, 0, 0, 0, 0, 0, 0, 0, 0, 0, 0, 0, 0, 0, 0,
   32, 173, 155, 156, 254, 157, 124, 21, 254, 254, 166, 174, 170, 45, 254, 254, 248, 241, 253, 254, 254, 230, 20, 249, 254, 254, 167, 175, 172, 171, 254, 168,
   254, 254, 254, 254, 142, 143, 146, 128, 254, 144, 254, 254, 254, 254, 254, 254, 254, 165, 254, 254, 254, 254, 153, 254, 254, 254, 254, 254, 154, 254, 254, 225,
   133, 160, 131, 254, 132, 134, 145, 135, 138, 130, 136, 137, 141, 161, 140, 139, 254, 164, 149, 162, 147, 254, 148, 246, 254, 151, 163, 150, 129, 254, 254, 152]"
| "trans_table GRAF_TRANS = [
   0, 0, 0, 0, 0, 0, 0, 0, 0, 0, 0, 0, 0, 0, 0, 0, 0, 0, 0, 0, 0, 0, 0, 0, 0, 0, 0, 0, 0, 0, 0, 0,
   32, 33, 34, 35, 36, 37, 38, 39, 40, 41, 42, 43, 44, 45, 46, 47, 48, 49, 50, 51, 52, 53, 54, 55, 56, 57, 58, 59, 60, 61, 62, 63,
   64, 65, 66, 67, 68, 69, 70, 71, 72, 73, 74, 75, 76, 77, 78, 79, 80, 81, 82, 83, 84, 85, 86, 87, 88, 89, 90, 91, 92, 93, 94, 32,
   4, 177, 7, 7, 7, 7, 248, 241, 7, 7, 189, 183, 214, 211, 215, 196, 196, 196, 196, 196, 199, 182, 208, 210, 186, 243, 242, 227, 7, 156, 7, 0,
   0, 0, 0, 0, 0, 0, 0, 0, 0, 0, 0, 0, 0, 0, 0, 0, 0, 0, 0, 0, 0, 0, 0, 0, 0, 0, 0, 0, 0, 0, 0, 0,
   32, 173, 155, 156, 254, 157, 124, 21, 254, 254, 166, 174, 170, 45, 254, 254, 248, 241, 253, 254, 254, 230, 20, 249, 254, 254, 167, 175, 172, 171, 254, 168,
   254, 254, 254, 254, 142, 143, 146, 128, 254, 144, 254, 254, 254, 254, 254, 254, 254, 165, 254, 254, 254, 254, 153, 254, 254, 254, 254, 254, 154, 254, 254, 225,
   133, 160, 131, 254, 132, 134, 145, 135, 138, 130, 136, 137, 141, 161, 140, 139, 254, 164, 149, 162, 147, 254, 148, 246, 254, 151, 163, 150, 129, 254, 254, 152]"

record vc_struct =
  vc_video_erase_char :: u16
  vc_attr :: u8
  vc_def_attr :: u8
  vc_bold_attr :: int
  vc_ques :: bool
  vc_state :: es_state
  vc_restate :: charset
  vc_checkin :: bool
  vc_origin :: int
  vc_scr_end :: int
  vc_pos :: int
  vc_x :: int
  vc_y :: int
  vc_top :: int
  vc_bottom :: int
  vc_npar :: nat
  vc_par :: "u32 list"
  vc_video_mem_start :: int
  vc_video_mem_end :: int
  vc_saved_x :: u32
  vc_saved_y :: u32
  vc_iscolor :: bool
  vc_kbdapplic :: u8
  vc_kbdleds :: u8
  vc_kbdmode :: u8
  vc_translate :: charset

record con =
  vc_cons :: "nat \<Rightarrow> vc_struct"
  vmem :: "int \<Rightarrow> u16"
  fg_console :: nat
  NR_CONSOLES :: nat
  video_num_columns :: int
  video_num_lines :: int
  video_type :: int
  video_mem_base :: int
  video_mem_term :: int
  video_size_row :: int
  can_do_colour :: bool
  vc_scrbuf :: "nat \<Rightarrow> int"
  screen_size :: int
  blankinterval :: int
  console_blanked :: bool
  kapplic :: u8
  kleds :: u8
  kmode :: u8
  con_jiffies :: int
  timer_expires :: "nat \<Rightarrow> int"
  timer_bits :: u32
  crtc :: "nat \<Rightarrow> u8"
  tty_termios :: "nat \<Rightarrow> termios"
  replies :: "(nat \<times> u8 list) list"

abbreviation (input) VIDEO_TYPE_MDA :: int where "VIDEO_TYPE_MDA \<equiv> 0x10"
abbreviation (input) VIDEO_TYPE_CGA :: int where "VIDEO_TYPE_CGA \<equiv> 0x11"
abbreviation (input) VIDEO_TYPE_EGAM :: int where "VIDEO_TYPE_EGAM \<equiv> 0x20"
abbreviation (input) VIDEO_TYPE_EGAC :: int where "VIDEO_TYPE_EGAC \<equiv> 0x21"

abbreviation vc :: "nat \<Rightarrow> con \<Rightarrow> vc_struct" where "vc n s \<equiv> vc_cons s n"

definition upd_vc :: "nat \<Rightarrow> (vc_struct \<Rightarrow> vc_struct) \<Rightarrow> con \<Rightarrow> con" where
  "upd_vc n f s = s\<lparr>vc_cons := (vc_cons s)(n := f (vc_cons s n))\<rparr>"

definition is_ega :: "con \<Rightarrow> bool" where
  "is_ega s \<longleftrightarrow> video_type s = VIDEO_TYPE_EGAC \<or> video_type s = VIDEO_TYPE_EGAM"

text \<open>The string instructions: \<^verbatim>\<open>rep stosw\<close> upwards and downwards, \<^verbatim>\<open>rep movsl\<close> upwards and downwards, two cells at a time.\<close>

definition stosw :: "nat \<Rightarrow> int \<Rightarrow> u16 \<Rightarrow> (int \<Rightarrow> u16) \<Rightarrow> int \<Rightarrow> u16" where
  "stosw cnt d v = fold (\<lambda>k m. m(d + 2 * int k := v)) [0..<cnt]"

definition stosw_down :: "nat \<Rightarrow> int \<Rightarrow> u16 \<Rightarrow> (int \<Rightarrow> u16) \<Rightarrow> int \<Rightarrow> u16" where
  "stosw_down cnt d v = fold (\<lambda>k m. m(d - 2 * int k := v)) [0..<cnt]"

definition movsl :: "nat \<Rightarrow> int \<Rightarrow> int \<Rightarrow> (int \<Rightarrow> u16) \<Rightarrow> int \<Rightarrow> u16" where
  "movsl cnt d s = fold (\<lambda>k m. m(d + 4 * int k := m (s + 4 * int k), d + 4 * int k + 2 := m (s + 4 * int k + 2))) [0..<cnt]"

definition movsl_down :: "nat \<Rightarrow> int \<Rightarrow> int \<Rightarrow> (int \<Rightarrow> u16) \<Rightarrow> int \<Rightarrow> u16" where
  "movsl_down cnt d s = fold (\<lambda>k m. m(d - 4 * int k := m (s - 4 * int k), d - 4 * int k + 2 := m (s - 4 * int k + 2))) [0..<cnt]"

definition upd_mem :: "((int \<Rightarrow> u16) \<Rightarrow> int \<Rightarrow> u16) \<Rightarrow> con \<Rightarrow> con" where
  "upd_mem f s = s\<lparr>vmem := f (vmem s)\<rparr>"

section \<open>Cursor and scrolling\<close>

definition gotoxy :: "nat \<Rightarrow> u32 \<Rightarrow> u32 \<Rightarrow> con \<Rightarrow> con" where
  "gotoxy n new_x new_y s =
    (if uint new_x > video_num_columns s \<or> uint new_y \<ge> video_num_lines s then s
     else upd_vc n (\<lambda>v. v\<lparr>vc_x := uint new_x, vc_y := uint new_y,
       vc_pos := vc_origin v + uint new_y * video_size_row s + 2 * uint new_x\<rparr>) s)"

definition set_origin :: "nat \<Rightarrow> con \<Rightarrow> con" where
  "set_origin n s =
    (if \<not> is_ega s then s
     else if n \<noteq> fg_console s then s
     else s\<lparr>crtc := (crtc s)(12 := word_of_int ((vc_origin (vc n s) - video_mem_base s) div 512),
                            13 := word_of_int ((vc_origin (vc n s) - video_mem_base s) div 2))\<rparr>)"

definition scrup :: "nat \<Rightarrow> int \<Rightarrow> int \<Rightarrow> con \<Rightarrow> con" where
  "scrup n t b s =
    (if b > video_num_lines s \<or> t \<ge> b then s
     else if is_ega s \<and> t = 0 \<and> b = video_num_lines s then
       let row = video_size_row s; cols = nat (video_num_columns s);
           s = upd_vc n (\<lambda>v. v\<lparr>vc_origin := vc_origin v + row, vc_pos := vc_pos v + row, vc_scr_end := vc_scr_end v + row\<rparr>) s;
           v = vc n s
       in set_origin n
         (if vc_scr_end v > vc_video_mem_end v then
            let cnt = nat ((video_num_lines s - 1) * video_num_columns s div 2); d = vc_video_mem_start v;
                s = upd_mem (movsl cnt d (vc_origin v)) s;
                s = upd_mem (stosw cols (d + 4 * int cnt) (vc_video_erase_char v)) s;
                back = vc_origin v - vc_video_mem_start v
            in upd_vc n (\<lambda>v. v\<lparr>vc_scr_end := vc_scr_end v - back, vc_pos := vc_pos v - back, vc_origin := vc_video_mem_start v\<rparr>) s
          else upd_mem (stosw cols (vc_scr_end v - row) (vc_video_erase_char v)) s)
     else
       let v = vc n s; row = video_size_row s; cnt = nat ((b - t - 1) * video_num_columns s div 2); d = vc_origin v + row * t;
           s = upd_mem (movsl cnt d (vc_origin v + row * (t + 1))) s
       in upd_mem (stosw (nat (video_num_columns s)) (d + 4 * int cnt) (vc_video_erase_char v)) s)"

definition scrdown :: "nat \<Rightarrow> int \<Rightarrow> int \<Rightarrow> con \<Rightarrow> con" where
  "scrdown n t b s =
    (if b > video_num_lines s \<or> t \<ge> b then s
     else
       let v = vc n s; row = video_size_row s; cnt = nat ((b - t - 1) * video_num_columns s div 2); d = vc_origin v + row * b - 4;
           s = upd_mem (movsl_down cnt d (vc_origin v + row * (b - 1) - 4)) s
       in upd_mem (stosw_down (nat (video_num_columns s)) (d - 4 * int cnt + 2) (vc_video_erase_char v)) s)"

definition lf :: "nat \<Rightarrow> con \<Rightarrow> con" where
  "lf n s =
    (if vc_y (vc n s) + 1 < vc_bottom (vc n s)
     then upd_vc n (\<lambda>v. v\<lparr>vc_y := vc_y v + 1, vc_pos := vc_pos v + video_size_row s\<rparr>) s
     else scrup n (vc_top (vc n s)) (vc_bottom (vc n s)) s)"

definition ri :: "nat \<Rightarrow> con \<Rightarrow> con" where
  "ri n s =
    (if vc_y (vc n s) > vc_top (vc n s)
     then upd_vc n (\<lambda>v. v\<lparr>vc_y := vc_y v - 1, vc_pos := vc_pos v - video_size_row s\<rparr>) s
     else scrdown n (vc_top (vc n s)) (vc_bottom (vc n s)) s)"

definition cr :: "nat \<Rightarrow> con \<Rightarrow> con" where
  "cr n s = upd_vc n (\<lambda>v. v\<lparr>vc_pos := vc_pos v - 2 * vc_x v, vc_x := 0\<rparr>) s"

definition del :: "nat \<Rightarrow> con \<Rightarrow> con" where
  "del n s =
    (if vc_x (vc n s) \<noteq> 0 then
       let s = upd_vc n (\<lambda>v. v\<lparr>vc_pos := vc_pos v - 2, vc_x := vc_x v - 1\<rparr>) s
       in upd_mem (\<lambda>m. m(vc_pos (vc n s) := vc_video_erase_char (vc n s))) s
     else s)"

section \<open>Erasing, inserting and deleting\<close>

definition csi_J :: "nat \<Rightarrow> u32 \<Rightarrow> con \<Rightarrow> con" where
  "csi_J n vpar s =
    (let v = vc n s; erase = (\<lambda>cnt start. upd_mem (stosw (nat cnt) start (vc_video_erase_char v)) s) in
     if vpar = 0 then erase ((vc_scr_end v - vc_pos v) div 2) (vc_pos v)
     else if vpar = 1 then erase ((vc_pos v - vc_origin v) div 2) (vc_origin v)
     else if vpar = 2 then erase (video_num_columns s * video_num_lines s) (vc_origin v)
     else s)"

definition csi_K :: "nat \<Rightarrow> u32 \<Rightarrow> con \<Rightarrow> con" where
  "csi_K n vpar s =
    (let v = vc n s; cols = video_num_columns s; erase = (\<lambda>cnt start. upd_mem (stosw (nat cnt) start (vc_video_erase_char v)) s) in
     if vpar = 0 then (if vc_x v \<ge> cols then s else erase (cols - vc_x v) (vc_pos v))
     else if vpar = 1 then erase (if vc_x v < cols then vc_x v else cols) (vc_pos v - 2 * vc_x v)
     else if vpar = 2 then erase cols (vc_pos v - 2 * vc_x v)
     else s)"

definition insert_char :: "nat \<Rightarrow> con \<Rightarrow> con" where
  "insert_char n s =
    (let v = vc n s in
     upd_mem (\<lambda>m. fst (fold (\<lambda>k (m, old). (m(vc_pos v + 2 * int k := old), m (vc_pos v + 2 * int k)))
       [0..<nat (video_num_columns s - vc_x v)] (m, vc_video_erase_char v))) s)"

definition delete_char :: "nat \<Rightarrow> con \<Rightarrow> con" where
  "delete_char n s =
    (let v = vc n s; rest = nat (video_num_columns s - vc_x v - 1) in
     if vc_x v \<ge> video_num_columns s then s
     else upd_mem (\<lambda>m. (fold (\<lambda>k m. m(vc_pos v + 2 * int k := m (vc_pos v + 2 * int k + 2))) [0..<rest] m)
       (vc_pos v + 2 * int rest := vc_video_erase_char v)) s)"

definition insert_line :: "nat \<Rightarrow> con \<Rightarrow> con" where
  "insert_line n s = scrdown n (vc_y (vc n s)) (video_num_lines s) s"

definition delete_line :: "nat \<Rightarrow> con \<Rightarrow> con" where
  "delete_line n s = scrup n (vc_y (vc n s)) (video_num_lines s) s"

text \<open>The repeated operations: the count is at most \<open>limit\<close>, and one for no parameter.\<close>

definition repeat_op :: "(con \<Rightarrow> con) \<Rightarrow> int \<Rightarrow> u32 \<Rightarrow> con \<Rightarrow> con" where
  "repeat_op f limit nr = (f ^^ nat (if uint nr > limit then limit else if nr = 0 then 1 else uint nr))"

definition csi_at :: "nat \<Rightarrow> u32 \<Rightarrow> con \<Rightarrow> con" where
  "csi_at n nr s = repeat_op (insert_char n) (video_num_columns s) nr s"

definition csi_L :: "nat \<Rightarrow> u32 \<Rightarrow> con \<Rightarrow> con" where
  "csi_L n nr s = repeat_op (insert_line n) (video_num_lines s) nr s"

definition csi_P :: "nat \<Rightarrow> u32 \<Rightarrow> con \<Rightarrow> con" where
  "csi_P n nr s = repeat_op (delete_char n) (video_num_columns s) nr s"

definition csi_M :: "nat \<Rightarrow> u32 \<Rightarrow> con \<Rightarrow> con" where
  "csi_M n nr s = repeat_op (delete_line n) (video_num_lines s) nr s"

section \<open>Attributes\<close>

definition rendition :: "bool \<Rightarrow> u32 \<Rightarrow> vc_struct \<Rightarrow> vc_struct" where
  "rendition colour p v =
    (let a = vc_attr v in
     if p = 0 then v\<lparr>vc_attr := vc_def_attr v\<rparr>
     else if p = 1 then v\<lparr>vc_attr := (if vc_iscolor v then a OR 0x08 else a OR 0x0F)\<rparr>
     else if p = 4 then
       (if \<not> vc_iscolor v then v\<lparr>vc_attr := a OR 1\<rparr>
        else if vc_bold_attr v \<noteq> -1 then v\<lparr>vc_attr := (word_of_int (vc_bold_attr v) AND 0x0F) OR (0xF0 AND a)\<rparr>
        else let newattr = (a AND 0xF0) OR (0xF AND NOT a)
             in v\<lparr>vc_attr := (if newattr AND 0xF = drop_bit 4 a AND 0xF then (a AND 0xF0) OR (((a AND 0xF) + 1) mod 0xF) else newattr)\<rparr>)
     else if p = 5 then v\<lparr>vc_attr := a OR 0x80\<rparr>
     else if p = 7 then v\<lparr>vc_attr := push_bit 4 a OR drop_bit 4 a\<rparr>
     else if p = 22 then v\<lparr>vc_attr := a AND 0xF7\<rparr>
     else if p = 24 then v\<lparr>vc_attr := a AND 0xFE\<rparr>
     else if p = 25 then v\<lparr>vc_attr := a AND 0x7F\<rparr>
     else if p = 27 then v\<lparr>vc_attr := vc_def_attr v\<rparr>
     else if p = 39 then v\<lparr>vc_attr := (a AND 0xF0) OR (vc_def_attr v AND 0x0F)\<rparr>
     else if p = 49 then v\<lparr>vc_attr := (a AND 0x0F) OR (vc_def_attr v AND 0xF0)\<rparr>
     else if \<not> colour then v
     else
       let v = v\<lparr>vc_iscolor := True\<rparr> in
       if 30 \<le> p \<and> p \<le> 38 then v\<lparr>vc_attr := (a AND 0xF0) OR ucast (p - 30)\<rparr>
       else if 40 \<le> p \<and> p \<le> 48 then v\<lparr>vc_attr := (a AND 0x0F) OR ucast (push_bit 4 (p - 40))\<rparr>
       else v)"

definition csi_m :: "nat \<Rightarrow> con \<Rightarrow> con" where
  "csi_m n s = upd_vc n (\<lambda>v. fold (\<lambda>i v. rendition (can_do_colour s) (vc_par v ! i) v) [0..<vc_npar v + 1] v) s"

definition set_cursor :: "nat \<Rightarrow> con \<Rightarrow> con" where
  "set_cursor n s =
    (if n \<noteq> fg_console s then s
     else s\<lparr>crtc := (crtc s)(14 := word_of_int ((vc_pos (vc n s) - video_mem_base s) div 512),
                            15 := word_of_int ((vc_pos (vc n s) - video_mem_base s) div 2))\<rparr>)"

definition hide_cursor :: "nat \<Rightarrow> con \<Rightarrow> con" where
  "hide_cursor n s =
    s\<lparr>crtc := (crtc s)(14 := word_of_int ((vc_scr_end (vc n s) - video_mem_base s) div 512),
                       15 := word_of_int ((vc_scr_end (vc n s) - video_mem_base s) div 2))\<rparr>"

definition RESPONSE :: "u8 list" where
  "RESPONSE = [27, 91, 63, 49, 59, 50, 99]"

definition respond :: "nat \<Rightarrow> con \<Rightarrow> con" where
  "respond n s = s\<lparr>replies := replies s @ [(n, RESPONSE)]\<rparr>"

definition save_cur :: "nat \<Rightarrow> con \<Rightarrow> con" where
  "save_cur n s = upd_vc n (\<lambda>v. v\<lparr>vc_saved_x := word_of_int (vc_x v), vc_saved_y := word_of_int (vc_y v)\<rparr>) s"

definition restore_cur :: "nat \<Rightarrow> con \<Rightarrow> con" where
  "restore_cur n s = gotoxy n (vc_saved_x (vc n s)) (vc_saved_y (vc n s)) s"

definition sysbeep :: "con \<Rightarrow> con" where
  "sysbeep s = s\<lparr>timer_expires := (timer_expires s)(1 := con_jiffies s + 12), timer_bits := timer_bits s OR 2\<rparr>"

section \<open>Characters and escape sequences\<close>

text \<open>The loop that brings the column back on the screen: it does not end when there are no columns.\<close>

partial_function (option) wrap_line :: "nat \<Rightarrow> con \<Rightarrow> con option" where
  "wrap_line n s =
    (if vc_x (vc n s) \<ge> video_num_columns s then
       wrap_line n (lf n (upd_vc n (\<lambda>v. v\<lparr>vc_x := vc_x v - video_num_columns s, vc_pos := vc_pos v - video_size_row s\<rparr>) s))
     else Some s)"

definition put_cell :: "nat \<Rightarrow> u8 \<Rightarrow> con \<Rightarrow> con" where
  "put_cell n c s =
    (let s = upd_mem (\<lambda>m. m(vc_pos (vc n s) := ucast c OR push_bit 8 (ucast (vc_attr (vc n s))))) s
     in upd_vc n (\<lambda>v. v\<lparr>vc_pos := vc_pos v + 2, vc_x := vc_x v + 1\<rparr>) s)"

definition tab :: "nat \<Rightarrow> con \<Rightarrow> con" where
  "tab n s =
    (let c = 8 - vc_x (vc n s) mod 8;
         s = upd_vc n (\<lambda>v. v\<lparr>vc_x := vc_x v + c, vc_pos := vc_pos v + 2 * c\<rparr>) s
     in if vc_x (vc n s) > video_num_columns s
        then lf n (upd_vc n (\<lambda>v. v\<lparr>vc_x := vc_x v - video_num_columns s, vc_pos := vc_pos v - video_size_row s\<rparr>) s)
        else s)"

definition es_normal :: "nat \<Rightarrow> u8 \<Rightarrow> con \<Rightarrow> con option" where
  "es_normal n c s =
    (let c' = trans_table (vc_translate (vc n s)) ! unat c in
     if c' \<noteq> 0 then map_option (put_cell n c') (wrap_line n s)
     else if c = 27 then Some (upd_vc n (\<lambda>v. v\<lparr>vc_state := ESesc\<rparr>) s)
     else if c = 10 \<or> c = 11 \<or> c = 12 then Some (lf n s)
     else if c = 13 then Some (cr n s)
     else if c = 127 then Some (del n s)
     else if c = 8 then
       Some (if vc_x (vc n s) \<noteq> 0 then upd_vc n (\<lambda>v. v\<lparr>vc_x := vc_x v - 1, vc_pos := vc_pos v - 2\<rparr>) s else s)
     else if c = 9 then Some (tab n s)
     else if c = 7 then Some (sysbeep s)
     else if c = 14 then Some (upd_vc n (\<lambda>v. v\<lparr>vc_checkin := True, vc_translate := vc_restate v\<rparr>) s)
     else if c = 15 then Some (upd_vc n (\<lambda>v. v\<lparr>vc_translate := NORM_TRANS, vc_checkin := False\<rparr>) s)
     else Some s)"

definition keypad :: "nat \<Rightarrow> u8 \<Rightarrow> con \<Rightarrow> con" where
  "keypad n a s =
    (let s = upd_vc n (\<lambda>v. v\<lparr>vc_kbdapplic := a\<rparr>) s in if n = fg_console s then s\<lparr>kapplic := a\<rparr> else s)"

definition es_esc :: "nat \<Rightarrow> u8 \<Rightarrow> con \<Rightarrow> con" where
  "es_esc n c s =
    (let s = upd_vc n (\<lambda>v. v\<lparr>vc_state := ESnormal\<rparr>) s; to = (\<lambda>st. upd_vc n (\<lambda>v. v\<lparr>vc_state := st\<rparr>) s) in
     if c = 91 then to ESsquare
     else if c = 69 then gotoxy n 0 (word_of_int (vc_y (vc n s) + 1)) s
     else if c = 77 then ri n s
     else if c = 68 then lf n s
     else if c = 90 then respond n s
     else if c = 55 then save_cur n s
     else if c = 56 then restore_cur n s
     else if c = 40 \<or> c = 41 then to ESsetgraph
     else if c = 80 then to ESsetterm
     else if c = 35 then to ESunknown
     else if c = 99 then
       let s = s\<lparr>tty_termios := (tty_termios s)(n := DEF_TERMIOS)\<rparr>
       in keypad n 0 (upd_vc n (\<lambda>v. v\<lparr>vc_state := ESnormal, vc_restate := NORM_TRANS, vc_checkin := False, vc_top := 0,
            vc_bottom := video_num_lines s, vc_translate := NORM_TRANS\<rparr>) s)
     else if c = 62 then keypad n 0 s
     else if c = 61 then keypad n 1 s
     else s)"

text \<open>Parameters that count from one: \<open>pred0\<close> and \<open>succ0\<close> are \<^verbatim>\<open>if (par[i]) par[i]--\<close> and \<^verbatim>\<open>if (!par[i]) par[i]++\<close>.\<close>

definition pred0 :: "u32 \<Rightarrow> u32" where "pred0 p = (if p \<noteq> 0 then p - 1 else p)"
definition succ0 :: "u32 \<Rightarrow> u32" where "succ0 p = (if p = 0 then p + 1 else p)"

definition upd_par :: "nat \<Rightarrow> nat \<Rightarrow> (u32 \<Rightarrow> u32) \<Rightarrow> con \<Rightarrow> con" where
  "upd_par n i f s = upd_vc n (\<lambda>v. v\<lparr>vc_par := (vc_par v)[i := f (vc_par v ! i)]\<rparr>) s"

definition set_region :: "nat \<Rightarrow> con \<Rightarrow> con" where
  "set_region n s =
    (let s = upd_par n 1 (\<lambda>p. if p = 0 then word_of_int (video_num_lines s) else p) (upd_par n 0 pred0 s);
         p0 = vc_par (vc n s) ! 0; p1 = vc_par (vc n s) ! 1
     in if p0 < p1 \<and> uint p1 \<le> video_num_lines s then upd_vc n (\<lambda>v. v\<lparr>vc_top := uint p0, vc_bottom := uint p1\<rparr>) s else s)"

definition set_term_par :: "nat \<Rightarrow> u8 \<Rightarrow> con \<Rightarrow> con" where
  "set_term_par n c s =
    (let p = vc_par (vc n s) in
     if \<not> (vc_npar (vc n s) \<ge> 2 \<and> p ! 1 - 13 = p ! 0 \<and> p ! 2 - 17 = p ! 0) then s
     else
       let s = (if c = 108 \<and> p ! 0 \<le> 60 then s\<lparr>blankinterval := 6000 * uint (p ! 0)\<rparr> else s)
       in if c = 98 then upd_vc n (\<lambda>v. v\<lparr>vc_bold_attr := s32 (uint (p ! 0))\<rparr>) s else s)"

definition es_gotpars :: "nat \<Rightarrow> u8 \<Rightarrow> con \<Rightarrow> con" where
  "es_gotpars n c s =
    (let s = upd_vc n (\<lambda>v. v\<lparr>vc_state := ESnormal\<rparr>) s;
         px = (\<lambda>s. word_of_int (vc_x (vc n s)) :: u32); py = (\<lambda>s. word_of_int (vc_y (vc n s)) :: u32); p = (\<lambda>i s. vc_par (vc n s) ! i) in
     if vc_ques (vc n s) then upd_vc n (\<lambda>v. v\<lparr>vc_ques := False\<rparr>) s
     else if c = 71 \<or> c = 96 then let s = upd_par n 0 pred0 s in gotoxy n (p 0 s) (py s) s
     else if c = 65 then let s = upd_par n 0 succ0 s in gotoxy n (px s) (py s - p 0 s) s
     else if c = 66 \<or> c = 101 then let s = upd_par n 0 succ0 s in gotoxy n (px s) (py s + p 0 s) s
     else if c = 67 \<or> c = 97 then let s = upd_par n 0 succ0 s in gotoxy n (px s + p 0 s) (py s) s
     else if c = 68 then let s = upd_par n 0 succ0 s in gotoxy n (px s - p 0 s) (py s) s
     else if c = 69 then let s = upd_par n 0 succ0 s in gotoxy n 0 (py s + p 0 s) s
     else if c = 70 then let s = upd_par n 0 succ0 s in gotoxy n 0 (py s - p 0 s) s
     else if c = 100 then let s = upd_par n 0 pred0 s in gotoxy n (px s) (p 0 s) s
     else if c = 72 \<or> c = 102 then let s = upd_par n 1 pred0 (upd_par n 0 pred0 s) in gotoxy n (p 1 s) (p 0 s) s
     else if c = 74 then csi_J n (p 0 s) s
     else if c = 75 then csi_K n (p 0 s) s
     else if c = 76 then csi_L n (p 0 s) s
     else if c = 77 then csi_M n (p 0 s) s
     else if c = 80 then csi_P n (p 0 s) s
     else if c = 64 then csi_at n (p 0 s) s
     else if c = 109 then csi_m n s
     else if c = 114 then set_region n s
     else if c = 115 then save_cur n s
     else if c = 117 then restore_cur n s
     else if c = 108 \<or> c = 98 then set_term_par n c s
     else s)"

definition es_getpars :: "nat \<Rightarrow> u8 \<Rightarrow> con \<Rightarrow> con" where
  "es_getpars n c s =
    (if c = 59 \<and> vc_npar (vc n s) < 15 then upd_vc n (\<lambda>v. v\<lparr>vc_npar := vc_npar v + 1\<rparr>) s
     else if 48 \<le> c \<and> c \<le> 57 then upd_par n (vc_npar (vc n s)) (\<lambda>p. 10 * p + ucast c - 48) s
     else es_gotpars n c (upd_vc n (\<lambda>v. v\<lparr>vc_state := ESgotpars\<rparr>) s))"

definition es_square :: "nat \<Rightarrow> u8 \<Rightarrow> con \<Rightarrow> con" where
  "es_square n c s =
    (let s = upd_vc n (\<lambda>v. v\<lparr>vc_par := replicate 16 0, vc_npar := 0, vc_state := ESgetpars\<rparr>) s in
     if c = 91 then upd_vc n (\<lambda>v. v\<lparr>vc_state := ESfunckey\<rparr>) s
     else
       let s = upd_vc n (\<lambda>v. v\<lparr>vc_ques := (c = 63)\<rparr>) s
       in if c = 63 then s else es_getpars n c s)"

definition es_setterm :: "nat \<Rightarrow> u8 \<Rightarrow> con \<Rightarrow> con" where
  "es_setterm n c s =
    (let s = upd_vc n (\<lambda>v. v\<lparr>vc_state := ESnormal\<rparr>) s in
     if c = 83 then
       upd_vc n (\<lambda>v. v\<lparr>vc_def_attr := vc_attr v,
         vc_video_erase_char := (vc_video_erase_char v AND 0xFF) OR push_bit 8 (ucast (vc_attr v))\<rparr>) s
     else s)"

definition es_setgraph :: "nat \<Rightarrow> u8 \<Rightarrow> con \<Rightarrow> con" where
  "es_setgraph n c s =
    upd_vc n (\<lambda>v. (if c = 48 then (if vc_checkin v then v\<lparr>vc_translate := GRAF_TRANS\<rparr> else v)\<lparr>vc_restate := GRAF_TRANS\<rparr>
      else if c = 66 then v\<lparr>vc_translate := NORM_TRANS, vc_restate := NORM_TRANS\<rparr> else v)\<lparr>vc_state := ESnormal\<rparr>) s"

definition con_char :: "nat \<Rightarrow> u8 \<Rightarrow> con \<Rightarrow> con option" where
  "con_char n c s =
    (let s = (if c = 24 \<or> c = 26 then upd_vc n (\<lambda>v. v\<lparr>vc_state := ESnormal\<rparr>) s else s) in
     case vc_state (vc n s) of
       ESnormal \<Rightarrow> es_normal n c s
     | ESesc \<Rightarrow> Some (es_esc n c s)
     | ESsquare \<Rightarrow> Some (es_square n c s)
     | ESgetpars \<Rightarrow> Some (es_getpars n c s)
     | ESgotpars \<Rightarrow> Some (es_gotpars n c s)
     | ESfunckey \<Rightarrow> Some (upd_vc n (\<lambda>v. v\<lparr>vc_state := ESnormal\<rparr>) s)
     | ESsetterm \<Rightarrow> Some (es_setterm n c s)
     | ESsetgraph \<Rightarrow> Some (es_setgraph n c s)
     | ESunknown \<Rightarrow> Some (upd_vc n (\<lambda>v. v\<lparr>vc_state := ESnormal\<rparr>) s))"

text \<open>The characters of the write queue are worked off unless the terminal is stopped; the result has those that are left.\<close>

fun con_chars :: "nat \<Rightarrow> u8 list \<Rightarrow> con \<Rightarrow> con option" where
  "con_chars n [] s = Some s"
| "con_chars n (c # cs) s = Option.bind (con_char n c s) (con_chars n cs)"

definition blank_timer :: "con \<Rightarrow> con" where
  "blank_timer s =
    (let s = s\<lparr>timer_bits := timer_bits s AND NOT 1\<rparr> in
     if console_blanked s then s\<lparr>timer_expires := (timer_expires s)(0 := 0), timer_bits := timer_bits s OR 1\<rparr>
     else if blankinterval s \<noteq> 0
     then s\<lparr>timer_expires := (timer_expires s)(0 := con_jiffies s + blankinterval s), timer_bits := timer_bits s OR 1\<rparr>
     else s)"

definition con_write :: "nat \<Rightarrow> bool \<Rightarrow> u8 list \<Rightarrow> con \<Rightarrow> (u8 list \<times> con) option" where
  "con_write n stopped q s =
    (if n \<ge> 8 then Some (q, s)
     else if stopped then Some (q, blank_timer (set_cursor n s))
     else map_option (\<lambda>s. ([], blank_timer (set_cursor n s))) (con_chars n q s))"

text \<open>The emergency output of the kernel, which interprets two characters only.\<close>

fun print_chars :: "nat \<Rightarrow> u8 list \<Rightarrow> con \<Rightarrow> con" where
  "print_chars n [] s = s"
| "print_chars n (c # cs) s =
    (if c = 0 then s
     else if c = 10 then print_chars n cs (lf n (cr n s))
     else if c = 13 then print_chars n cs (cr n s)
     else print_chars n cs (put_cell n c
       (if vc_x (vc n s) \<ge> video_num_columns s
        then lf n (upd_vc n (\<lambda>v. v\<lparr>vc_x := vc_x v - video_num_columns s, vc_pos := vc_pos v - video_size_row s\<rparr>) s)
        else s)))"

definition console_print :: "u8 list \<Rightarrow> con \<Rightarrow> con" where
  "console_print b s = set_cursor (fg_console s) (print_chars (fg_console s) b s)"

section \<open>Switching consoles\<close>

text \<open>\<^verbatim>\<open>memcpy\<close> is for areas that do not overlap.\<close>

definition memcpy :: "int \<Rightarrow> int \<Rightarrow> int \<Rightarrow> (int \<Rightarrow> u16) \<Rightarrow> int \<Rightarrow> u16" where
  "memcpy d s cnt m = (\<lambda>a. if d \<le> a \<and> a < d + cnt then m (s + (a - d)) else m a)"

definition kbdsave :: "nat \<Rightarrow> con \<Rightarrow> con" where
  "kbdsave new_console s =
    (let s = upd_vc (fg_console s) (\<lambda>v. v\<lparr>vc_kbdmode := kmode s, vc_kbdleds := kleds s, vc_kbdapplic := kapplic s\<rparr>) s;
         v = vc new_console s
     in s\<lparr>kmode := (kmode s AND 0x3F) OR (vc_kbdmode v AND 0xC0), kleds := vc_kbdleds v, kapplic := vc_kbdapplic v\<rparr>)"

definition get_scrmem :: "nat \<Rightarrow> con \<Rightarrow> con" where
  "get_scrmem n s =
    (let buf = vc_scrbuf s (fg_console s);
         s = upd_mem (memcpy buf (vc_origin (vc n s)) (screen_size s)) s
     in upd_vc n (\<lambda>v. v\<lparr>vc_video_mem_start := buf, vc_origin := buf, vc_scr_end := buf + screen_size s, vc_video_mem_end := buf + screen_size s,
          vc_pos := buf + vc_y v * video_size_row s + 2 * vc_x v\<rparr>) s)"

definition set_scrmem :: "nat \<Rightarrow> con \<Rightarrow> con" where
  "set_scrmem n s =
    (let base = video_mem_base s;
         s = upd_vc n (\<lambda>v. v\<lparr>vc_video_mem_start := base, vc_video_mem_end := video_mem_term s, vc_origin := base,
           vc_scr_end := base + screen_size s, vc_pos := base + vc_y v * video_size_row s + 2 * vc_x v\<rparr>) s
     in upd_mem (memcpy base (vc_scrbuf s (fg_console s)) (screen_size s)) s)"

definition update_screen :: "nat \<Rightarrow> con \<Rightarrow> con" where
  "update_screen new_console s =
    (if new_console = fg_console s then s
     else
       let s = kbdsave new_console s;
           s = get_scrmem (fg_console s) s;
           s = s\<lparr>fg_console := new_console\<rparr>;
           s = set_scrmem new_console s
       in set_cursor new_console (set_origin new_console s))"

section \<open>Initialisation\<close>

text \<open>
  The parameters are what the boot code leaves at \<^verbatim>\<open>0x90000\<close>, and the address of \<^verbatim>\<open>vc_scrmembuf\<close>.  The display of the card name, the
  keyboard set-up and the call of \<^verbatim>\<open>update_screen(fg_console)\<close>, which returns at once, are left out.
\<close>

record boot_params =
  ORIG_X :: u8
  ORIG_Y :: u8
  ORIG_VIDEO_MODE :: int
  ORIG_VIDEO_COLS :: int
  ORIG_VIDEO_LINES :: int
  ORIG_VIDEO_EGA_BX :: u16
  scrmembuf :: int

definition MEM_BUFFER_SIZE :: int where "MEM_BUFFER_SIZE = 2 * 80 * 50 * 8"

definition video_card :: "boot_params \<Rightarrow> con \<Rightarrow> con" where
  "video_card p s =
    (let ega = ORIG_VIDEO_EGA_BX p AND 0xFF \<noteq> 0x10 in
     if ORIG_VIDEO_MODE p = 7 then
       (if ega then s\<lparr>video_mem_base := 0xB0000, video_type := VIDEO_TYPE_EGAM, video_mem_term := 0xB8000\<rparr>
        else s\<lparr>video_mem_base := 0xB0000, video_type := VIDEO_TYPE_MDA, video_mem_term := 0xB2000\<rparr>)
     else
       (if ega then s\<lparr>video_mem_base := 0xB8000, can_do_colour := True, video_type := VIDEO_TYPE_EGAC, video_mem_term := 0xC0000\<rparr>
        else s\<lparr>video_mem_base := 0xB8000, can_do_colour := True, video_type := VIDEO_TYPE_CGA, video_mem_term := 0xBA000\<rparr>))"

definition first_console :: "boot_params \<Rightarrow> con \<Rightarrow> con" where
  "first_console p s =
    gotoxy 0 (ucast (ORIG_X p)) (ucast (ORIG_Y p))
      (upd_vc 0 (\<lambda>v. v\<lparr>vc_origin := scrmembuf p, vc_video_mem_start := scrmembuf p, vc_video_mem_end := scrmembuf p + screen_size s,
        vc_scr_end := scrmembuf p + screen_size s, vc_top := 0, vc_bottom := video_num_lines s, vc_attr := 7, vc_def_attr := 7,
        vc_restate := NORM_TRANS, vc_state := ESnormal, vc_checkin := False, vc_ques := False, vc_iscolor := False, vc_translate := NORM_TRANS,
        vc_kbdleds := 2, vc_kbdmode := 0, vc_kbdapplic := 0, vc_bold_attr := -1\<rparr>) s)"

definition next_console :: "boot_params \<Rightarrow> nat \<Rightarrow> con \<Rightarrow> con" where
  "next_console p n s =
    (let base = scrmembuf p + int n * screen_size s in
     gotoxy n 0 0 (upd_vc n (\<lambda>_. (vc 0 s)\<lparr>vc_origin := base, vc_video_mem_start := base,
       vc_scr_end := base + video_num_lines s * video_size_row s, vc_video_mem_end := base + screen_size s\<rparr>) s))"

text \<open>The geometry of the screen, the video card and the number of consoles; then the consoles themselves.\<close>

definition con_setup :: "boot_params \<Rightarrow> con \<Rightarrow> con" where
  "con_setup p s =
    (let s = s\<lparr>video_num_columns := ORIG_VIDEO_COLS p, video_size_row := ORIG_VIDEO_COLS p * 2, video_num_lines := ORIG_VIDEO_LINES p\<rparr>;
         s = upd_vc 0 (\<lambda>v. v\<lparr>vc_video_erase_char := 0x0720\<rparr>) s;
         s = s\<lparr>timer_expires := (timer_expires s)(0 := 0)\<rparr>;
         s = (if blankinterval s \<noteq> 0
              then s\<lparr>timer_expires := (timer_expires s)(0 := con_jiffies s + blankinterval s), timer_bits := timer_bits s OR 1\<rparr> else s);
         s = video_card p s;
         s = upd_mem (stosw (nat (MEM_BUFFER_SIZE div 2)) (scrmembuf p) 0x0720) s;
         s = s\<lparr>screen_size := video_num_lines s * video_size_row s\<rparr>;
         k = nat (MEM_BUFFER_SIZE div screen_size s);
         k = (if k > 8 then 8 else k)
     in s\<lparr>NR_CONSOLES := (if k = 0 then 1 else k)\<rparr>)"

definition con_init :: "boot_params \<Rightarrow> con \<Rightarrow> con" where
  "con_init p s =
    (let s = first_console p (con_setup p s);
         s = fold (next_console p) [1..<NR_CONSOLES s] s;
         s = s\<lparr>vc_scrbuf := (\<lambda>n. if n < NR_CONSOLES s then vc_origin (vc n s) else vc_scrbuf s n)\<rparr>
     in upd_vc 0 (\<lambda>v. v\<lparr>vc_video_mem_start := video_mem_base s, vc_video_mem_end := video_mem_term s, vc_origin := video_mem_base s,
          vc_scr_end := video_mem_base s + video_num_lines s * video_size_row s, vc_top := 0, vc_bottom := video_num_lines s,
          vc_pos := video_mem_base s + vc_y v * video_size_row s + 2 * vc_x v\<rparr>) s)"

section \<open>Well-formed consoles\<close>

text \<open>The cursor is on the screen or just behind the end of its line, the screen lies in the memory of the console.\<close>

definition geometry :: "con \<Rightarrow> bool" where
  "geometry s \<longleftrightarrow> 8 \<le> video_num_columns s \<and> 0 < video_num_lines s \<and> video_size_row s = 2 * video_num_columns s"

definition vc_ok :: "con \<Rightarrow> vc_struct \<Rightarrow> bool" where
  "vc_ok s v \<longleftrightarrow> 0 \<le> vc_x v \<and> vc_x v \<le> video_num_columns s \<and> 0 \<le> vc_y v \<and> vc_y v < video_num_lines s \<and>
    vc_pos v = vc_origin v + vc_y v * video_size_row s + 2 * vc_x v \<and> vc_scr_end v = vc_origin v + video_num_lines s * video_size_row s \<and>
    vc_video_mem_start v \<le> vc_origin v \<and> vc_scr_end v \<le> vc_video_mem_end v \<and>
    0 \<le> vc_top v \<and> vc_top v < vc_bottom v \<and> vc_bottom v \<le> video_num_lines s \<and> vc_npar v < 16 \<and> length (vc_par v) = 16"

definition con_ok :: "nat \<Rightarrow> con \<Rightarrow> bool" where
  "con_ok n s \<longleftrightarrow> geometry s \<and> vc_ok s (vc n s)"

text \<open>The format of the screens and where they are kept, shared by all consoles.\<close>

definition layout :: "con \<Rightarrow> (int \<times> int \<times> int) \<times> nat \<times> nat \<times> int \<times> int \<times> (nat \<Rightarrow> int) \<times> int" where
  "layout s = ((video_num_columns s, video_num_lines s, video_size_row s), fg_console s, NR_CONSOLES s, video_mem_base s, video_mem_term s, vc_scrbuf s, screen_size s)"

text \<open>What an operation on console \<open>n\<close> may change: that console and the cells of its memory, but neither the common layout nor the place of that memory.\<close>

definition confined :: "nat \<Rightarrow> con \<Rightarrow> con \<Rightarrow> bool" where
  "confined n s s' \<longleftrightarrow> layout s' = layout s \<and>
    vc_video_mem_start (vc n s') = vc_video_mem_start (vc n s) \<and> vc_video_mem_end (vc n s') = vc_video_mem_end (vc n s) \<and>
    (\<forall>m. m \<noteq> n \<longrightarrow> vc m s' = vc m s) \<and>
    (\<forall>a. a < vc_video_mem_start (vc n s) \<or> vc_video_mem_end (vc n s) \<le> a \<longrightarrow> vmem s' a = vmem s a)"

definition good :: "nat \<Rightarrow> con \<Rightarrow> con \<Rightarrow> bool" where
  "good n s s' \<longleftrightarrow> con_ok n s' \<and> confined n s s'"

lemma con_upd_simps [simp]:
  "vc_cons (upd_vc n f s) m = (if m = n then f (vc n s) else vc m s)" "vmem (upd_vc n f s) = vmem s"
  "video_num_columns (upd_vc n f s) = video_num_columns s" "video_num_lines (upd_vc n f s) = video_num_lines s" "video_size_row (upd_vc n f s) = video_size_row s"
  "video_type (upd_vc n f s) = video_type s" "fg_console (upd_vc n f s) = fg_console s" "video_mem_base (upd_vc n f s) = video_mem_base s"
  "vc_cons (upd_mem g s) = vc_cons s" "vmem (upd_mem g s) = g (vmem s)"
  "video_num_columns (upd_mem g s) = video_num_columns s" "video_num_lines (upd_mem g s) = video_num_lines s" "video_size_row (upd_mem g s) = video_size_row s"
  "video_type (upd_mem g s) = video_type s" "fg_console (upd_mem g s) = fg_console s" "video_mem_base (upd_mem g s) = video_mem_base s"
  by (simp_all add: upd_vc_def upd_mem_def)

lemma layout_upd [simp]: "layout (upd_vc n f s) = layout s" "layout (upd_mem g s) = layout s"
  by (simp_all add: layout_def upd_vc_def upd_mem_def)

lemma crtc_simps [simp]:
  "vc_cons (set_origin n s) = vc_cons s" "vmem (set_origin n s) = vmem s" "video_size_row (set_origin n s) = video_size_row s"
  "video_num_columns (set_origin n s) = video_num_columns s" "video_num_lines (set_origin n s) = video_num_lines s"
  "vc_cons (set_cursor n s) = vc_cons s" "vmem (set_cursor n s) = vmem s" "video_size_row (set_cursor n s) = video_size_row s"
  "video_num_columns (set_cursor n s) = video_num_columns s" "video_num_lines (set_cursor n s) = video_num_lines s"
  by (simp_all add: set_origin_def set_cursor_def)

lemma good_refl: "con_ok n s \<Longrightarrow> good n s s"
  by (simp add: good_def confined_def)

lemma good_trans: "good n s t \<Longrightarrow> good n t u \<Longrightarrow> good n s u"
  unfolding good_def confined_def by auto

lemma good_con_ok: "good n s t \<Longrightarrow> con_ok n t"
  by (simp add: good_def)

lemma vc_ok_cong: "video_num_columns s' = video_num_columns s \<Longrightarrow> video_num_lines s' = video_num_lines s \<Longrightarrow> video_size_row s' = video_size_row s \<Longrightarrow>
  vc_ok s' v = vc_ok s v"
  by (simp add: vc_ok_def)

lemma good_upd_vc:
  assumes "con_ok n s" "vc_ok s (f (vc n s))" "vc_video_mem_start (f (vc n s)) = vc_video_mem_start (vc n s)" "vc_video_mem_end (f (vc n s)) = vc_video_mem_end (vc n s)"
  shows "good n s (upd_vc n f s)"
  using assms by (auto simp: good_def con_ok_def confined_def geometry_def vc_ok_cong [of "upd_vc n f s" s])

lemma good_upd_mem:
  assumes "con_ok n s" "\<And>m a. a < vc_video_mem_start (vc n s) \<or> vc_video_mem_end (vc n s) \<le> a \<Longrightarrow> g m a = m a"
  shows "good n s (upd_mem g s)"
  using assms by (auto simp: good_def con_ok_def confined_def geometry_def vc_ok_cong [of "upd_mem g s" s])

text \<open>Changes of other parts of the state.\<close>

definition same_screen :: "con \<Rightarrow> con \<Rightarrow> bool" where
  "same_screen s s' \<longleftrightarrow> layout s' = layout s \<and> vc_cons s' = vc_cons s \<and> vmem s' = vmem s"

lemma good_same_screen: "con_ok n s \<Longrightarrow> same_screen s s' \<Longrightarrow> good n s s'"
  by (auto simp: good_def con_ok_def confined_def geometry_def same_screen_def layout_def vc_ok_cong [of s' s])

section \<open>Blocks of cells\<close>

lemma stosw_apply: "stosw cnt d v m a = (if \<exists>k < cnt. a = d + 2 * int k then v else m a)"
  unfolding stosw_def by (induction cnt) (auto simp: less_Suc_eq)

lemma stosw_down_apply: "stosw_down cnt d v m a = (if \<exists>k < cnt. a = d - 2 * int k then v else m a)"
  unfolding stosw_down_def by (induction cnt) (auto simp: less_Suc_eq)

lemma stosw_outside: "a < d \<or> d + 2 * int cnt \<le> a \<Longrightarrow> stosw cnt d v m a = m a"
  by (auto simp: stosw_apply)

lemma stosw_down_outside: "a < d - 2 * int cnt + 2 \<or> d < a \<Longrightarrow> stosw_down cnt d v m a = m a"
  by (auto simp: stosw_down_apply)

lemma movsl_outside: "a < d \<or> d + 4 * int cnt \<le> a \<Longrightarrow> movsl cnt d s m a = m a"
  unfolding movsl_def by (induction cnt arbitrary: m) auto

lemma movsl_down_outside: "a < d - 4 * int cnt + 4 \<or> d + 4 \<le> a \<Longrightarrow> movsl_down cnt d s m a = m a"
  unfolding movsl_down_def by (induction cnt arbitrary: m) auto

section \<open>Every operation keeps to its console\<close>

lemma row_le: "0 \<le> row \<Longrightarrow> (a :: int) \<le> b \<Longrightarrow> a * row \<le> b * row"
  by (rule mult_right_mono)

lemma con_okD:
  assumes "con_ok n s"
  shows "8 \<le> video_num_columns s" "0 < video_num_lines s" "video_size_row s = 2 * video_num_columns s" "vc_ok s (vc n s)"
  using assms by (auto simp: con_ok_def geometry_def)

lemma vc_okD:
  assumes "vc_ok s v"
  shows "0 \<le> vc_x v" "vc_x v \<le> video_num_columns s" "0 \<le> vc_y v" "vc_y v < video_num_lines s"
    "vc_pos v = vc_origin v + vc_y v * video_size_row s + 2 * vc_x v" "vc_scr_end v = vc_origin v + video_num_lines s * video_size_row s"
    "vc_video_mem_start v \<le> vc_origin v" "vc_scr_end v \<le> vc_video_mem_end v"
    "0 \<le> vc_top v" "vc_top v < vc_bottom v" "vc_bottom v \<le> video_num_lines s" "vc_npar v < 16" "length (vc_par v) = 16"
  using assms by (auto simp: vc_ok_def)

text \<open>Where the line of the cursor lies.\<close>

lemma line_bounds:
  assumes "con_ok n s"
  shows "vc_video_mem_start (vc n s) \<le> vc_pos (vc n s) - 2 * vc_x (vc n s)" "vc_pos (vc n s) - 2 * vc_x (vc n s) + video_size_row s \<le> vc_scr_end (vc n s)"
    "vc_origin (vc n s) \<le> vc_pos (vc n s)" "vc_pos (vc n s) \<le> vc_scr_end (vc n s)"
proof -
  note c = con_okD [OF assms]
  note v = vc_okD [OF c(4)]
  have r: "0 \<le> video_size_row s" using c by simp
  have "0 * video_size_row s \<le> vc_y (vc n s) * video_size_row s" by (rule row_le [OF r v(3)])
  moreover have "(vc_y (vc n s) + 1) * video_size_row s \<le> video_num_lines s * video_size_row s" by (rule row_le [OF r]) (use v(4) in simp)
  then have "vc_y (vc n s) * video_size_row s + video_size_row s \<le> video_num_lines s * video_size_row s" by (simp add: distrib_right)
  ultimately show "vc_video_mem_start (vc n s) \<le> vc_pos (vc n s) - 2 * vc_x (vc n s)"
    "vc_pos (vc n s) - 2 * vc_x (vc n s) + video_size_row s \<le> vc_scr_end (vc n s)"
    "vc_origin (vc n s) \<le> vc_pos (vc n s)" "vc_pos (vc n s) \<le> vc_scr_end (vc n s)" using v(1,2,5,6,7) c(3) by linarith+
qed

lemma gotoxy_good: "con_ok n s \<Longrightarrow> good n s (gotoxy n a b s)"
proof -
  assume ok: "con_ok n s"
  note c = con_okD [OF ok]
  note v = vc_okD [OF c(4)]
  show ?thesis
  proof (cases "uint a > video_num_columns s \<or> uint b \<ge> video_num_lines s")
    case True
    then show ?thesis by (simp add: gotoxy_def good_refl ok)
  next
    case False
    have "0 \<le> uint a" "0 \<le> uint b" by simp_all
    then have "good n s (upd_vc n (\<lambda>v. v\<lparr>vc_x := uint a, vc_y := uint b, vc_pos := vc_origin v + uint b * video_size_row s + 2 * uint a\<rparr>) s)"
      by (intro good_upd_vc [OF ok]) (use v False in \<open>auto simp: vc_ok_def\<close>)
    then show ?thesis using False by (simp add: gotoxy_def)
  qed
qed

lemma same_screen_ops: "same_screen s (set_origin n s)" "same_screen s (set_cursor n s)" "same_screen s (respond n s)" "same_screen s (sysbeep s)"
    "same_screen s (blank_timer s)"
  by (simp_all add: same_screen_def layout_def set_origin_def set_cursor_def respond_def sysbeep_def blank_timer_def Let_def)

lemma scroll_bounds:
  assumes ok: "con_ok n s" and tb: "0 \<le> t" "t < b" "b \<le> video_num_lines s"
  shows "0 \<le> video_size_row s * t" "video_size_row s * t + 4 * int (nat ((b - t - 1) * video_num_columns s div 2)) + video_size_row s \<le> video_size_row s * b"
    "video_size_row s * b \<le> video_num_lines s * video_size_row s" "0 \<le> 4 * int (nat ((b - t - 1) * video_num_columns s div 2))"
proof -
  note c = con_okD [OF ok]
  have r: "0 \<le> video_size_row s" using c by simp
  show "0 \<le> video_size_row s * t" using r tb(1) by simp
  have "0 \<le> (b - t - 1) * video_num_columns s" using c tb by (intro mult_nonneg_nonneg) auto
  then have "4 * int (nat ((b - t - 1) * video_num_columns s div 2)) \<le> 2 * ((b - t - 1) * video_num_columns s)" by linarith
  also have "\<dots> = video_size_row s * b - video_size_row s * t - video_size_row s" by (simp add: c(3) algebra_simps)
  finally show "video_size_row s * t + 4 * int (nat ((b - t - 1) * video_num_columns s div 2)) + video_size_row s \<le> video_size_row s * b" by linarith
  show "video_size_row s * b \<le> video_num_lines s * video_size_row s" using row_le [OF r tb(3)] by (simp add: mult.commute)
  show "0 \<le> 4 * int (nat ((b - t - 1) * video_num_columns s div 2))" by simp
qed

lemma scrup_good:
  assumes ok: "con_ok n s" and t: "0 \<le> t"
  shows "good n s (scrup n t b s)"
proof -
  note c = con_okD [OF ok]
  note v = vc_okD [OF c(4)]
  let ?row = "video_size_row s" and ?v = "vc n s"
  show ?thesis
  proof (cases "b > video_num_lines s \<or> t \<ge> b")
    case True
    then show ?thesis by (simp add: scrup_def good_refl ok)
  next
    case False
    then have tb: "t < b" "b \<le> video_num_lines s" by auto
    note sb = scroll_bounds [OF ok t tb]
    have q: "2 * int (nat (video_num_columns s)) = ?row" using c by simp
    show ?thesis
    proof (cases "is_ega s \<and> t = 0 \<and> b = video_num_lines s")
      case soft: False
      let ?cnt = "nat ((b - t - 1) * video_num_columns s div 2)"
      let ?d = "vc_origin ?v + ?row * t"
      let ?m1 = "movsl ?cnt ?d (vc_origin ?v + ?row * (t + 1))" and ?m2 = "stosw (nat (video_num_columns s)) (?d + 4 * int ?cnt) (vc_video_erase_char ?v)"
      have "good n s (upd_mem (\<lambda>m. ?m2 (?m1 m)) s)"
      proof (rule good_upd_mem [OF ok])
        fix m a assume "a < vc_video_mem_start ?v \<or> vc_video_mem_end ?v \<le> a"
        then have "a < ?d \<or> ?d + 4 * int ?cnt + ?row \<le> a" using v sb by linarith
        then have "a < ?d + 4 * int ?cnt \<or> ?d + 4 * int ?cnt + 2 * int (nat (video_num_columns s)) \<le> a" "a < ?d \<or> ?d + 4 * int ?cnt \<le> a"
          using q sb(4) c(1) by linarith+
        then show "?m2 (?m1 m) a = m a" by (simp add: stosw_outside movsl_outside)
      qed
      then show ?thesis unfolding scrup_def if_not_P [OF False] if_not_P [OF soft] Let_def by (simp add: upd_mem_def)
    next
      case True
      let ?s1 = "upd_vc n (\<lambda>v. v\<lparr>vc_origin := vc_origin v + ?row, vc_pos := vc_pos v + ?row, vc_scr_end := vc_scr_end v + ?row\<rparr>) s"
      let ?cnt = "nat ((video_num_lines s - 1) * video_num_columns s div 2)"
      show ?thesis
      proof (cases "vc_scr_end ?v + ?row > vc_video_mem_end ?v")
        case wrap: False
        have "good n s ?s1" by (rule good_upd_vc [OF ok]) (use v c wrap in \<open>auto simp: vc_ok_def\<close>)
        moreover have "good n ?s1 (upd_mem (stosw (nat (video_num_columns s)) (vc_scr_end ?v) (vc_video_erase_char ?v)) ?s1)"
          by (rule good_upd_mem [OF good_con_ok [OF calculation]], rule stosw_outside) (use v wrap c line_bounds [OF ok] in simp, linarith)
        ultimately have g: "good n s (upd_mem (stosw (nat (video_num_columns s)) (vc_scr_end ?v) (vc_video_erase_char ?v)) ?s1)" by (rule good_trans)
        have "good n s (set_origin n (upd_mem (stosw (nat (video_num_columns s)) (vc_scr_end ?v) (vc_video_erase_char ?v)) ?s1))"
          by (rule good_trans [OF g good_same_screen [OF good_con_ok [OF g] same_screen_ops(1)]])
        then show ?thesis unfolding scrup_def if_not_P [OF False] if_P [OF True] Let_def using wrap by simp
      next
        case wrap: True
        let ?d = "vc_video_mem_start ?v"
        let ?m1 = "movsl ?cnt ?d (vc_origin ?v + ?row)" and ?m2 = "stosw (nat (video_num_columns s)) (?d + 4 * int ?cnt) (vc_video_erase_char ?v)"
        have "good n s (upd_mem (\<lambda>m. ?m2 (?m1 m)) s)" (is "good n s ?s2")
        proof (rule good_upd_mem [OF ok])
          fix m a assume a: "a < ?d \<or> vc_video_mem_end ?v \<le> a"
          have tb0: "t = 0" "b = video_num_lines s" using True by auto
          have "4 * int ?cnt + ?row \<le> video_num_lines s * ?row" using sb(2,3) unfolding tb0 diff_0_right mult_zero_right by linarith
          then have "a < ?d \<or> ?d + 4 * int ?cnt + ?row \<le> a" using a v by linarith
          then have "a < ?d + 4 * int ?cnt \<or> ?d + 4 * int ?cnt + 2 * int (nat (video_num_columns s)) \<le> a" "a < ?d \<or> ?d + 4 * int ?cnt \<le> a"
            using q c(1) by linarith+
          then show "?m2 (?m1 m) a = m a" by (simp add: stosw_outside movsl_outside)
        qed
        moreover have "good n ?s2 (upd_vc n (\<lambda>v. v\<lparr>vc_scr_end := vc_scr_end v + (?d - vc_origin v), vc_pos := vc_pos v + (?d - vc_origin v), vc_origin := ?d\<rparr>) ?s2)"
          by (rule good_upd_vc [OF good_con_ok [OF calculation]]) (use v c in \<open>auto simp: vc_ok_def\<close>)
        ultimately have g: "good n s (upd_vc n (\<lambda>v. v\<lparr>vc_scr_end := vc_scr_end v + (?d - vc_origin v), vc_pos := vc_pos v + (?d - vc_origin v), vc_origin := ?d\<rparr>) ?s2)"
          (is "good n s ?s3") by (rule good_trans)
        have "scrup n t b s = set_origin n ?s3"
          unfolding scrup_def if_not_P [OF False] if_P [OF True] Let_def using wrap
          by (simp add: upd_vc_def upd_mem_def comp_def)
        then show ?thesis using good_trans [OF g good_same_screen [OF good_con_ok [OF g] same_screen_ops(1)]] by simp
      qed
    qed
  qed
qed

lemma scrdown_good:
  assumes ok: "con_ok n s" and t: "0 \<le> t"
  shows "good n s (scrdown n t b s)"
proof (cases "b > video_num_lines s \<or> t \<ge> b")
  case True
  then show ?thesis by (simp add: scrdown_def good_refl ok)
next
  case False
  note c = con_okD [OF ok]
  note v = vc_okD [OF c(4)]
  let ?row = "video_size_row s" and ?v = "vc n s"
  let ?cnt = "nat ((b - t - 1) * video_num_columns s div 2)"
  let ?d = "vc_origin ?v + ?row * b - 4"
  let ?m1 = "movsl_down ?cnt ?d (vc_origin ?v + ?row * (b - 1) - 4)" and ?m2 = "stosw_down (nat (video_num_columns s)) (?d - 4 * int ?cnt + 2) (vc_video_erase_char ?v)"
  have tb: "t < b" "b \<le> video_num_lines s" using False by auto
  note sb = scroll_bounds [OF ok t tb]
  have q: "2 * int (nat (video_num_columns s)) = ?row" using c by simp
  have "good n s (upd_mem (\<lambda>m. ?m2 (?m1 m)) s)"
  proof (rule good_upd_mem [OF ok])
    fix m a assume "a < vc_video_mem_start ?v \<or> vc_video_mem_end ?v \<le> a"
    then have "a < vc_origin ?v + ?row * t \<or> ?d + 4 \<le> a" using v sb by linarith
    then have "a < ?d - 4 * int ?cnt + 2 - 2 * int (nat (video_num_columns s)) + 2 \<or> ?d - 4 * int ?cnt + 2 < a" "a < ?d - 4 * int ?cnt + 4 \<or> ?d + 4 \<le> a"
      using q sb(2,4) c(1,3) by linarith+
    then show "?m2 (?m1 m) a = m a" by (simp add: stosw_down_outside movsl_down_outside)
  qed
  then show ?thesis unfolding scrdown_def if_not_P [OF False] Let_def by (simp add: upd_mem_def)
qed

lemma lf_good:
  assumes ok: "con_ok n s"
  shows "good n s (lf n s)"
proof (cases "vc_y (vc n s) + 1 < vc_bottom (vc n s)")
  case True
  note c = con_okD [OF ok]
  note v = vc_okD [OF c(4)]
  have "good n s (upd_vc n (\<lambda>v. v\<lparr>vc_y := vc_y v + 1, vc_pos := vc_pos v + video_size_row s\<rparr>) s)"
    by (rule good_upd_vc [OF ok]) (use v True in \<open>auto simp: vc_ok_def distrib_right\<close>)
  then show ?thesis using True by (simp add: lf_def)
next
  case False
  then show ?thesis using scrup_good [OF ok vc_okD(9) [OF con_okD(4) [OF ok]]] by (simp add: lf_def)
qed

lemma ri_good:
  assumes ok: "con_ok n s"
  shows "good n s (ri n s)"
proof (cases "vc_y (vc n s) > vc_top (vc n s)")
  case True
  note c = con_okD [OF ok]
  note v = vc_okD [OF c(4)]
  have "good n s (upd_vc n (\<lambda>v. v\<lparr>vc_y := vc_y v - 1, vc_pos := vc_pos v - video_size_row s\<rparr>) s)"
    by (rule good_upd_vc [OF ok]) (use v True in \<open>auto simp: vc_ok_def left_diff_distrib\<close>)
  then show ?thesis using True by (simp add: ri_def)
next
  case False
  then show ?thesis using scrdown_good [OF ok vc_okD(9) [OF con_okD(4) [OF ok]]] by (simp add: ri_def)
qed

lemma cr_good:
  assumes ok: "con_ok n s"
  shows "good n s (cr n s)"
  unfolding cr_def by (rule good_upd_vc [OF ok]) (use con_okD [OF ok] vc_okD [OF con_okD(4) [OF ok]] in \<open>auto simp: vc_ok_def\<close>)

text \<open>Moving the cursor left, and writing the cell at the cursor when it is on the screen.\<close>

lemma left_good:
  assumes ok: "con_ok n s" and x: "vc_x (vc n s) \<noteq> 0"
  shows "good n s (upd_vc n (\<lambda>v. v\<lparr>vc_x := vc_x v - 1, vc_pos := vc_pos v - 2\<rparr>) s)"
  by (rule good_upd_vc [OF ok]) (use x vc_okD [OF con_okD(4) [OF ok]] in \<open>auto simp: vc_ok_def\<close>)

lemma cell_good:
  assumes ok: "con_ok n s" and x: "vc_x (vc n s) < video_num_columns s"
  shows "good n s (upd_mem (\<lambda>m. m(vc_pos (vc n s) := w)) s)"
  by (rule good_upd_mem [OF ok]) (use x line_bounds [OF ok] con_okD [OF ok] vc_okD [OF con_okD(4) [OF ok]] in auto)

lemma del_good:
  assumes ok: "con_ok n s"
  shows "good n s (del n s)"
proof (cases "vc_x (vc n s) = 0")
  case True
  then show ?thesis by (simp add: del_def good_refl ok)
next
  case False
  let ?s = "upd_vc n (\<lambda>v. v\<lparr>vc_pos := vc_pos v - 2, vc_x := vc_x v - 1\<rparr>) s"
  have g: "good n s ?s" by (rule good_upd_vc [OF ok]) (use False vc_okD [OF con_okD(4) [OF ok]] in \<open>auto simp: vc_ok_def\<close>)
  have "good n ?s (upd_mem (\<lambda>m. m(vc_pos (vc n ?s) := vc_video_erase_char (vc n ?s))) ?s)"
    by (rule cell_good [OF good_con_ok [OF g]]) (use vc_okD [OF con_okD(4) [OF ok]] in simp)
  then show ?thesis using good_trans [OF g] False by (simp add: del_def)
qed

lemma put_cell_good:
  assumes ok: "con_ok n s" and x: "vc_x (vc n s) < video_num_columns s"
  shows "good n s (put_cell n c s)"
proof -
  let ?s = "upd_mem (\<lambda>m. m(vc_pos (vc n s) := ucast c OR push_bit 8 (ucast (vc_attr (vc n s))))) s"
  have g: "good n s ?s" by (rule cell_good [OF ok x])
  have "good n ?s (upd_vc n (\<lambda>v. v\<lparr>vc_pos := vc_pos v + 2, vc_x := vc_x v + 1\<rparr>) ?s)"
    by (rule good_upd_vc [OF good_con_ok [OF g]]) (use x vc_okD [OF con_okD(4) [OF ok]] in \<open>auto simp: vc_ok_def\<close>)
  then show ?thesis using good_trans [OF g] by (simp add: put_cell_def)
qed

text \<open>A column behind the end of the line moves to the next line.\<close>

lemma next_line_good:
  assumes ok: "con_ok n s" and c: "0 \<le> c" "c \<le> video_num_columns s"
  shows "good n s (lf n (upd_vc n (\<lambda>v. v\<lparr>vc_x := c, vc_pos := vc_pos v - 2 * vc_x v + 2 * c\<rparr>) s))"
proof -
  have g: "good n s (upd_vc n (\<lambda>v. v\<lparr>vc_x := c, vc_pos := vc_pos v - 2 * vc_x v + 2 * c\<rparr>) s)"
    by (rule good_upd_vc [OF ok]) (use c vc_okD [OF con_okD(4) [OF ok]] in \<open>auto simp: vc_ok_def\<close>)
  show ?thesis by (rule good_trans [OF g lf_good [OF good_con_ok [OF g]]])
qed

lemma lf_x: "vc_x (vc n (lf n s)) = vc_x (vc n s)" "video_num_columns (lf n s) = video_num_columns s"
  by (simp_all add: lf_def scrup_def set_origin_def Let_def)

lemma wrap_line_good:
  assumes ok: "con_ok n s"
  shows "\<exists>s'. wrap_line n s = Some s' \<and> good n s s' \<and> vc_x (vc n s') < video_num_columns s'"
proof (cases "vc_x (vc n s) \<ge> video_num_columns s")
  case False
  then show ?thesis using good_refl [OF ok] by (subst wrap_line.simps) simp
next
  case True
  note c = con_okD [OF ok]
  have x: "vc_x (vc n s) = video_num_columns s" using True vc_okD(2) [OF c(4)] by simp
  let ?s = "upd_vc n (\<lambda>v. v\<lparr>vc_x := 0, vc_pos := vc_pos v - 2 * vc_x v + 2 * 0\<rparr>) s"
  have e: "upd_vc n (\<lambda>v. v\<lparr>vc_x := vc_x v - video_num_columns s, vc_pos := vc_pos v - video_size_row s\<rparr>) s = ?s"
    using x c(3) by (simp add: upd_vc_def)
  have "wrap_line n s = wrap_line n (lf n ?s)" using True by (subst wrap_line.simps) (simp only: e if_True)
  also have "\<dots> = Some (lf n ?s)" using c(1) by (subst wrap_line.simps) (simp add: lf_x)
  finally show ?thesis using next_line_good [OF ok, of 0] c(1) by (simp add: lf_x)
qed

lemma tab_good:
  assumes ok: "con_ok n s"
  shows "good n s (tab n s)"
proof -
  note c = con_okD [OF ok]
  note v = vc_okD [OF c(4)]
  let ?c = "8 - vc_x (vc n s) mod 8"
  have k: "1 \<le> ?c" "?c \<le> 8" by (simp_all add: pos_mod_bound [THEN zless_imp_add1_zle, of 8, simplified] add1_zle_eq pos_mod_sign)
  let ?s = "upd_vc n (\<lambda>v. v\<lparr>vc_x := vc_x v + ?c, vc_pos := vc_pos v + 2 * ?c\<rparr>) s"
  show ?thesis
  proof (cases "vc_x (vc n s) + ?c > video_num_columns s")
    case False
    have "good n s ?s" by (rule good_upd_vc [OF ok]) (use v k False in \<open>auto simp: vc_ok_def\<close>)
    then show ?thesis using False by (simp add: tab_def)
  next
    case True
    let ?d = "vc_x (vc n s) + ?c - video_num_columns s"
    have "upd_vc n (\<lambda>v. v\<lparr>vc_x := vc_x v - video_num_columns s, vc_pos := vc_pos v - video_size_row s\<rparr>) ?s =
        upd_vc n (\<lambda>v. v\<lparr>vc_x := ?d, vc_pos := vc_pos v - 2 * vc_x v + 2 * ?d\<rparr>) s"
      using c(3) by (simp add: upd_vc_def algebra_simps)
    then show ?thesis using next_line_good [OF ok, of ?d] True v(2) k c(1) by (simp add: tab_def)
  qed
qed

text \<open>Erasing a stretch of cells on the screen.\<close>

lemma erase_good:
  assumes ok: "con_ok n s" and r: "vc_video_mem_start (vc n s) \<le> a" "a + 2 * cnt \<le> vc_scr_end (vc n s)"
  shows "good n s (upd_mem (stosw (nat cnt) a w) s)"
proof (rule good_upd_mem [OF ok])
  fix m b assume "b < vc_video_mem_start (vc n s) \<or> vc_video_mem_end (vc n s) \<le> b"
  then have "b < a \<or> a + 2 * cnt \<le> b" using r vc_okD(8) [OF con_okD(4) [OF ok]] by linarith
  then have "b < a \<or> a + 2 * int (nat cnt) \<le> b \<or> nat cnt = 0" by linarith
  then show "stosw (nat cnt) a w m b = m b" by (metis stosw_outside stosw_apply not_less_zero)
qed

lemma csi_J_good:
  assumes ok: "con_ok n s"
  shows "good n s (csi_J n p s)"
proof -
  note c = con_okD [OF ok]
  note v = vc_okD [OF c(4)] and l = line_bounds [OF ok]
  have "2 * ((vc_scr_end (vc n s) - vc_pos (vc n s)) div 2) \<le> vc_scr_end (vc n s) - vc_pos (vc n s)"
    "2 * ((vc_pos (vc n s) - vc_origin (vc n s)) div 2) \<le> vc_pos (vc n s) - vc_origin (vc n s)" by simp_all
  note h = this
  have e: "2 * (video_num_columns s * video_num_lines s) = video_num_lines s * video_size_row s" by (simp add: c(3))
  have "good n s (upd_mem (stosw (nat ((vc_scr_end (vc n s) - vc_pos (vc n s)) div 2)) (vc_pos (vc n s)) w) s)" for w
    by (rule erase_good [OF ok]; use v l h in linarith)
  moreover have "good n s (upd_mem (stosw (nat ((vc_pos (vc n s) - vc_origin (vc n s)) div 2)) (vc_origin (vc n s)) w) s)" for w
    by (rule erase_good [OF ok]; use v l h in linarith)
  moreover have "good n s (upd_mem (stosw (nat (video_num_columns s * video_num_lines s)) (vc_origin (vc n s)) w) s)" for w
    by (rule erase_good [OF ok]; use v e in linarith)
  ultimately show ?thesis using good_refl [OF ok] by (simp add: csi_J_def Let_def)
qed

lemma csi_K_good:
  assumes ok: "con_ok n s"
  shows "good n s (csi_K n p s)"
proof -
  note c = con_okD [OF ok]
  note v = vc_okD [OF c(4)] and l = line_bounds [OF ok]
  have "good n s (upd_mem (stosw (nat (video_num_columns s - vc_x (vc n s))) (vc_pos (vc n s)) w) s)" for w
    by (rule erase_good [OF ok]) (use v(1,2,7,8) c(1,3) l in \<open>simp_all add: right_diff_distrib\<close>)
  moreover have "good n s (upd_mem (stosw (nat (vc_x (vc n s))) (vc_pos (vc n s) - 2 * vc_x (vc n s)) w) s)" for w
    by (rule erase_good [OF ok]) (use v(1,2,7,8) c(1,3) l in \<open>simp_all add: right_diff_distrib\<close>)
  moreover have "good n s (upd_mem (stosw (nat (video_num_columns s)) (vc_pos (vc n s) - 2 * vc_x (vc n s)) w) s)" for w
    by (rule erase_good [OF ok]) (use v(1,2,7,8) c(1,3) l in \<open>simp_all add: right_diff_distrib\<close>)
  ultimately show ?thesis using good_refl [OF ok] by (simp add: csi_K_def Let_def)
qed

text \<open>The memory of a line from the cursor on.\<close>

lemma line_good:
  assumes ok: "con_ok n s" and g: "\<And>m a. a < vc_pos (vc n s) \<or> vc_pos (vc n s) + 2 * video_num_columns s - 2 * vc_x (vc n s) \<le> a \<Longrightarrow> g m a = m a"
  shows "good n s (upd_mem g s)"
proof (rule good_upd_mem [OF ok])
  fix m a assume "a < vc_video_mem_start (vc n s) \<or> vc_video_mem_end (vc n s) \<le> a"
  then have "a < vc_pos (vc n s) \<or> vc_pos (vc n s) + 2 * video_num_columns s - 2 * vc_x (vc n s) \<le> a"
    using line_bounds [OF ok] vc_okD(1,2,7,8) [OF con_okD(4) [OF ok]] con_okD(3) [OF ok] by linarith
  then show "g m a = m a" by (rule g)
qed

lemma insert_char_good:
  assumes ok: "con_ok n s"
  shows "good n s (insert_char n s)"
proof -
  let ?p = "vc_pos (vc n s)"
  have "fst (fold (\<lambda>k (m, old). (m(?p + 2 * int k := old), m (?p + 2 * int k))) [0..<j] (m, w)) a = m a"
    if "a < ?p \<or> ?p + 2 * int j \<le> a" for j m w a
    using that by (induction j) (auto split: prod.splits)
  note f = this
  have "0 \<le> video_num_columns s - vc_x (vc n s)" using vc_okD [OF con_okD(4) [OF ok]] by simp
  then show ?thesis unfolding insert_char_def Let_def by (intro line_good [OF ok] f) auto
qed

lemma delete_char_good:
  assumes ok: "con_ok n s"
  shows "good n s (delete_char n s)"
proof (cases "vc_x (vc n s) \<ge> video_num_columns s")
  case True
  then show ?thesis by (simp add: delete_char_def good_refl ok)
next
  case False
  let ?p = "vc_pos (vc n s)" and ?r = "nat (video_num_columns s - vc_x (vc n s) - 1)"
  have f: "fold (\<lambda>k m. m(?p + 2 * int k := m (?p + 2 * int k + 2))) [0..<j] m a = m a" if "a < ?p \<or> ?p + 2 * int j \<le> a" for j m a
    using that by (induction j) auto
  have "good n s (upd_mem (\<lambda>m. (fold (\<lambda>k m. m(?p + 2 * int k := m (?p + 2 * int k + 2))) [0..<?r] m)(?p + 2 * int ?r := vc_video_erase_char (vc n s))) s)"
    by (rule line_good [OF ok]) (use f False in auto)
  then show ?thesis using False by (simp add: delete_char_def Let_def)
qed

lemma insert_line_good: "con_ok n s \<Longrightarrow> good n s (insert_line n s)"
  unfolding insert_line_def by (rule scrdown_good) (auto dest!: con_okD(4) simp: vc_ok_def)

lemma delete_line_good: "con_ok n s \<Longrightarrow> good n s (delete_line n s)"
  unfolding delete_line_def by (rule scrup_good) (auto dest!: con_okD(4) simp: vc_ok_def)

text \<open>The contract the repeated operations share.\<close>

locale console_op =
  fixes n :: nat and f :: "con \<Rightarrow> con"
  assumes op_good: "con_ok n s \<Longrightarrow> good n s (f s)"
begin

lemma funpow_good: "con_ok n s \<Longrightarrow> good n s ((f ^^ k) s)"
proof (induction k)
  case (Suc k)
  then have g: "good n s ((f ^^ k) s)" by blast
  show ?case using good_trans [OF g op_good [OF good_con_ok [OF g]]] by simp
qed (simp add: good_refl)

lemma repeat_good: "con_ok n s \<Longrightarrow> good n s (repeat_op f limit nr s)"
  unfolding repeat_op_def by (rule funpow_good)

end

interpretation ins_char: console_op n "insert_char n" for n by unfold_locales (rule insert_char_good)

interpretation del_char: console_op n "delete_char n" for n by unfold_locales (rule delete_char_good)

interpretation ins_line: console_op n "insert_line n" for n by unfold_locales (rule insert_line_good)

interpretation del_line: console_op n "delete_line n" for n by unfold_locales (rule delete_line_good)

lemma repeated_good:
  assumes "con_ok n s"
  shows "good n s (csi_at n p s)" "good n s (csi_L n p s)" "good n s (csi_P n p s)" "good n s (csi_M n p s)"
  unfolding csi_at_def csi_L_def csi_P_def csi_M_def
  using assms by (rule ins_char.repeat_good ins_line.repeat_good del_char.repeat_good del_line.repeat_good)+

lemma good_then: "good n s t \<Longrightarrow> (con_ok n t \<Longrightarrow> good n t u) \<Longrightarrow> good n s u"
  using good_trans good_con_ok by blast

lemma good_if: "(P \<Longrightarrow> good n s a) \<Longrightarrow> (\<not> P \<Longrightarrow> good n s b) \<Longrightarrow> good n s (if P then a else b)"
  by simp

text \<open>Fields of a console that its well-formedness does not depend on.\<close>

definition same_place :: "vc_struct \<Rightarrow> vc_struct \<Rightarrow> bool" where
  "same_place v w \<longleftrightarrow> vc_x w = vc_x v \<and> vc_y w = vc_y v \<and> vc_pos w = vc_pos v \<and> vc_origin w = vc_origin v \<and> vc_scr_end w = vc_scr_end v \<and>
    vc_video_mem_start w = vc_video_mem_start v \<and> vc_video_mem_end w = vc_video_mem_end v \<and> vc_top w = vc_top v \<and> vc_bottom w = vc_bottom v \<and>
    vc_npar w = vc_npar v \<and> length (vc_par w) = length (vc_par v)"

lemma good_same_place: "con_ok n s \<Longrightarrow> same_place (vc n s) (f (vc n s)) \<Longrightarrow> good n s (upd_vc n f s)"
  by (rule good_upd_vc) (auto simp: same_place_def vc_ok_def dest!: con_okD(4))

lemma rendition_place: "same_place v (rendition colour p v)"
  by (simp add: same_place_def rendition_def Let_def)

lemma csi_m_good: "con_ok n s \<Longrightarrow> good n s (csi_m n s)"
proof -
  have "same_place v (fold (\<lambda>i v. rendition c (vc_par v ! i) v) is v)" for c "is" v
  proof (induction "is" arbitrary: v)
    case (Cons i "is")
    show ?case using Cons.IH [of "rendition c (vc_par v ! i) v"] rendition_place [of v c "vc_par v ! i"] by (simp add: same_place_def)
  qed (simp add: same_place_def)
  then show "con_ok n s \<Longrightarrow> good n s (csi_m n s)" unfolding csi_m_def by (intro good_same_place)
qed

lemma save_cur_good: "con_ok n s \<Longrightarrow> good n s (save_cur n s)"
  unfolding save_cur_def by (rule good_same_place) (simp_all add: same_place_def)

lemma restore_cur_good: "con_ok n s \<Longrightarrow> good n s (restore_cur n s)"
  unfolding restore_cur_def by (rule gotoxy_good)

lemma upd_par_good: "con_ok n s \<Longrightarrow> good n s (upd_par n i f s)"
  unfolding upd_par_def by (rule good_same_place) (simp_all add: same_place_def)

lemma state_good: "con_ok n s \<Longrightarrow> good n s (upd_vc n (\<lambda>v. v\<lparr>vc_state := st\<rparr>) s)"
  by (rule good_same_place) (simp_all add: same_place_def)

lemma keypad_good: "con_ok n s \<Longrightarrow> good n s (keypad n a s)"
proof -
  assume ok: "con_ok n s"
  have g: "good n s (upd_vc n (\<lambda>v. v\<lparr>vc_kbdapplic := a\<rparr>) s)" (is "good n s ?t") by (rule good_same_place [OF ok]) (simp add: same_place_def)
  have "same_screen ?t (keypad n a s)" by (simp add: keypad_def same_screen_def layout_def Let_def)
  then show ?thesis using good_then [OF g good_same_screen] by blast
qed

lemma set_region_good: "con_ok n s \<Longrightarrow> good n s (set_region n s)"
proof -
  assume ok: "con_ok n s"
  let ?t = "upd_par n 1 (\<lambda>p. if p = 0 then word_of_int (video_num_lines s) else p) (upd_par n 0 pred0 s)"
  have g: "good n s ?t" by (rule good_then [OF upd_par_good [OF ok] upd_par_good])
  have l: "video_num_lines ?t = video_num_lines s" by (simp add: upd_par_def)
  let ?p = "vc_par (vc n ?t) ! 0" and ?q = "vc_par (vc n ?t) ! 1"
  have "good n ?t (upd_vc n (\<lambda>v. v\<lparr>vc_top := uint ?p, vc_bottom := uint ?q\<rparr>) ?t)" if "?p < ?q" "uint ?q \<le> video_num_lines s"
    by (rule good_upd_vc [OF good_con_ok [OF g]]) (use vc_okD [OF con_okD(4) [OF good_con_ok [OF g]]] that l in \<open>auto simp: vc_ok_def word_less_alt\<close>)
  then show ?thesis using g good_trans [OF g] l unfolding set_region_def Let_def by simp
qed

lemma set_term_par_good: "con_ok n s \<Longrightarrow> good n s (set_term_par n c s)"
proof -
  assume ok: "con_ok n s"
  have k: "good n s (s\<lparr>blankinterval := k\<rparr>)" for k by (rule good_same_screen [OF ok]) (simp add: same_screen_def layout_def)
  have b: "good n t (upd_vc n (\<lambda>v. v\<lparr>vc_bold_attr := k\<rparr>) t)" if "con_ok n t" for k t
    by (rule good_same_place [OF that]) (simp add: same_place_def)
  define t where "t = (if c = 108 \<and> vc_par (vc n s) ! 0 \<le> 60 then s\<lparr>blankinterval := 6000 * uint (vc_par (vc n s) ! 0)\<rparr> else s)"
  have g: "good n s t" unfolding t_def by (intro good_if k good_refl [OF ok])
  show ?thesis unfolding set_term_par_def Let_def t_def [symmetric] by (intro good_if good_refl [OF ok] g good_then [OF g b])
qed

lemmas op_goods = gotoxy_good lf_good ri_good cr_good del_good csi_J_good csi_K_good repeated_good csi_m_good save_cur_good restore_cur_good
  keypad_good set_region_good set_term_par_good good_refl tab_good

lemma es_gotpars_good: "con_ok n s \<Longrightarrow> good n s (es_gotpars n c s)"
proof -
  assume ok: "con_ok n s"
  define t where "t = upd_vc n (\<lambda>v. v\<lparr>vc_state := ESnormal\<rparr>) s"
  have g: "good n s t" unfolding t_def by (rule state_good [OF ok])
  have ok': "con_ok n t" by (rule good_con_ok [OF g])
  have q: "good n t (upd_vc n (\<lambda>v. v\<lparr>vc_ques := False\<rparr>) t)" by (rule good_same_place [OF ok']) (simp add: same_place_def)
  have p: "good n t (gotoxy n a b (upd_par n i f t))" for a b i f by (rule good_then [OF upd_par_good [OF ok'] gotoxy_good])
  have p2: "good n t (gotoxy n a b (upd_par n j h (upd_par n i f t)))" for a b i f j h
    by (rule good_then [OF upd_par_good [OF ok'] good_then [OF upd_par_good gotoxy_good]])
  have "good n t (es_gotpars n c s)" unfolding es_gotpars_def Let_def t_def [symmetric] by (intro good_if q p p2 op_goods [OF ok'])
  then show ?thesis by (rule good_trans [OF g])
qed

lemma es_getpars_good: "con_ok n s \<Longrightarrow> good n s (es_getpars n c s)"
proof -
  assume ok: "con_ok n s"
  have "good n s (upd_vc n (\<lambda>v. v\<lparr>vc_npar := vc_npar v + 1\<rparr>) s)" if "vc_npar (vc n s) < 15"
    by (rule good_upd_vc [OF ok]) (use vc_okD [OF con_okD(4) [OF ok]] that in \<open>auto simp: vc_ok_def\<close>)
  moreover have "good n s (es_gotpars n c (upd_vc n (\<lambda>v. v\<lparr>vc_state := ESgotpars\<rparr>) s))" by (rule good_then [OF state_good [OF ok] es_gotpars_good])
  ultimately show ?thesis unfolding es_getpars_def using upd_par_good [OF ok] by (intro good_if) auto
qed

lemma es_square_good: "con_ok n s \<Longrightarrow> good n s (es_square n c s)"
proof -
  assume ok: "con_ok n s"
  define t where "t = upd_vc n (\<lambda>v. v\<lparr>vc_par := replicate 16 0, vc_npar := 0, vc_state := ESgetpars\<rparr>) s"
  have g: "good n s t" unfolding t_def by (rule good_upd_vc [OF ok]) (use vc_okD [OF con_okD(4) [OF ok]] in \<open>auto simp: vc_ok_def\<close>)
  have ok': "con_ok n t" by (rule good_con_ok [OF g])
  have q: "good n t (upd_vc n (\<lambda>v. v\<lparr>vc_ques := k\<rparr>) t)" for k by (rule good_same_place [OF ok']) (simp add: same_place_def)
  have "good n t (es_square n c s)" unfolding es_square_def Let_def t_def [symmetric] by (intro good_if state_good [OF ok'] q good_then [OF q es_getpars_good])
  then show ?thesis by (rule good_trans [OF g])
qed

lemma es_esc_good: "con_ok n s \<Longrightarrow> good n s (es_esc n c s)"
proof -
  assume ok: "con_ok n s"
  define t where "t = upd_vc n (\<lambda>v. v\<lparr>vc_state := ESnormal\<rparr>) s"
  have g: "good n s t" unfolding t_def by (rule state_good [OF ok])
  have ok': "con_ok n t" by (rule good_con_ok [OF g])
  let ?u = "t\<lparr>tty_termios := (tty_termios t)(n := DEF_TERMIOS)\<rparr>"
  have u: "good n t ?u" by (rule good_same_screen [OF ok']) (simp add: same_screen_def layout_def)
  have "good n ?u (upd_vc n (\<lambda>v. v\<lparr>vc_state := ESnormal, vc_restate := NORM_TRANS, vc_checkin := False, vc_top := 0,
      vc_bottom := video_num_lines ?u, vc_translate := NORM_TRANS\<rparr>) ?u)"
    by (rule good_upd_vc [OF good_con_ok [OF u]])
      (use vc_okD [OF con_okD(4) [OF good_con_ok [OF u]]] con_okD [OF good_con_ok [OF u]] in \<open>auto simp: vc_ok_def\<close>)
  note r = good_trans [OF good_trans [OF u this] keypad_good [OF good_con_ok [OF this], of 0]]
  have s: "good n t (respond n t)" by (rule good_same_screen [OF ok' same_screen_ops(3)])
  have "good n t (es_esc n c s)" unfolding es_esc_def Let_def t_def [symmetric]
    by (intro good_if state_good [OF ok'] s op_goods [OF ok'] r)
  then show ?thesis by (rule good_trans [OF g])
qed

lemma es_normal_good: "con_ok n s \<Longrightarrow> \<exists>s'. es_normal n c s = Some s' \<and> good n s s'"
proof -
  assume ok: "con_ok n s"
  let ?c = "trans_table (vc_translate (vc n s)) ! unat c"
  show ?thesis
  proof (cases "?c = 0")
    case False
    obtain s' where w: "wrap_line n s = Some s'" "good n s s'" "vc_x (vc n s') < video_num_columns s'" using wrap_line_good [OF ok] by blast
    then have "good n s (put_cell n ?c s')" by (meson good_then put_cell_good)
    then show ?thesis using False w(1) by (simp add: es_normal_def)
  next
    case True
    have f: "good n s (upd_vc n (\<lambda>v. v\<lparr>vc_checkin := True, vc_translate := vc_restate v\<rparr>) s)"
      "good n s (upd_vc n (\<lambda>v. v\<lparr>vc_translate := NORM_TRANS, vc_checkin := False\<rparr>) s)"
      by (rule good_same_place [OF ok]; simp add: same_place_def)+
    have b: "good n s (sysbeep s)" by (rule good_same_screen [OF ok same_screen_ops(4)])
    have l: "good n s (if vc_x (vc n s) \<noteq> 0 then upd_vc n (\<lambda>v. v\<lparr>vc_x := vc_x v - 1, vc_pos := vc_pos v - 2\<rparr>) s else s)"
      by (intro good_if left_good [OF ok] good_refl [OF ok])
    have ex: "\<exists>s'. Some t = Some s' \<and> good n s s'" if "good n s t" for t using that by blast
    have ei: "(P \<Longrightarrow> \<exists>s'. a = Some s' \<and> good n s s') \<Longrightarrow> (\<not> P \<Longrightarrow> \<exists>s'. b = Some s' \<and> good n s s') \<Longrightarrow> \<exists>s'. (if P then a else b) = Some s' \<and> good n s s'" for P a b
      by simp
    have z: "\<not> ?c \<noteq> 0" using True by simp
    show ?thesis unfolding es_normal_def Let_def if_not_P [OF z]
      by (intro ei ex f b l state_good [OF ok] op_goods [OF ok])
  qed
qed

lemma con_char_good: "con_ok n s \<Longrightarrow> \<exists>s'. con_char n c s = Some s' \<and> good n s s'"
proof -
  assume ok: "con_ok n s"
  define t where "t = (if c = 24 \<or> c = 26 then upd_vc n (\<lambda>v. v\<lparr>vc_state := ESnormal\<rparr>) s else s)"
  have g: "good n s t" unfolding t_def by (intro good_if state_good [OF ok] good_refl [OF ok])
  have ok': "con_ok n t" by (rule good_con_ok [OF g])
  have "good n t (es_setterm n c t)"
    unfolding es_setterm_def Let_def
    by (intro good_if good_then [OF state_good [OF ok'] good_same_place] state_good [OF ok']) (simp_all add: same_place_def)
  moreover have "good n t (es_setgraph n c t)"
    unfolding es_setgraph_def by (rule good_same_place [OF ok']) (simp add: same_place_def)
  ultimately have "\<exists>s'. con_char n c s = Some s' \<and> good n t s'"
    unfolding con_char_def t_def [symmetric] Let_def
    using es_normal_good [OF ok'] es_esc_good [OF ok'] es_square_good [OF ok'] es_getpars_good [OF ok'] es_gotpars_good [OF ok'] state_good [OF ok']
    by (cases "vc_state (vc n t)") simp_all
  then show ?thesis using good_trans [OF g] by blast
qed

lemma con_chars_good: "con_ok n s \<Longrightarrow> \<exists>s'. con_chars n cs s = Some s' \<and> good n s s'"
proof (induction cs arbitrary: s)
  case (Cons c cs)
  obtain t where t: "con_char n c s = Some t" "good n s t" using con_char_good [OF Cons.prems] by blast
  then show ?case using Cons.IH [OF good_con_ok [OF t(2)]] good_trans [OF t(2)] by auto
qed (simp add: good_refl)

end
