(* ===== verification/Sched.thy ===== *)
theory Sched
  imports Task_State
begin

text \<open>
  The scheduler of \<^verbatim>\<open>kernel/sched.c\<close>: expiry of timeouts and alarms, the choice of the next
  task, the recharging of time slices, the wait queues and the small system calls of that
  file.  \<^verbatim>\<open>schedule\<close> has a \<^verbatim>\<open>while (1)\<close> loop; it is modelled with fuel, and it is proved that
  two rounds are enough whenever every task has a positive priority.
\<close>

section \<open>Choosing the next task\<close>

definition expire_task :: "u32 \<Rightarrow> task_struct \<Rightarrow> task_struct" where
  "expire_task now t =
    (let t = (if timeout t \<noteq> 0 \<and> timeout t < now then
                (if state t = TASK_INTERRUPTIBLE then t\<lparr>timeout := 0, state := TASK_RUNNING\<rparr> else t)
              else t);
         t = (if alarm t \<noteq> 0 \<and> alarm t < now
              then t\<lparr>signal := signal t OR sigbit SIGALRM, alarm := 0\<rparr> else t)
     in if signal t AND NOT (blocked t) \<noteq> 0 \<and> state t = TASK_INTERRUPTIBLE
        then t\<lparr>state := TASK_RUNNING\<rparr> else t)"

definition for_tasks :: "(task_struct \<Rightarrow> task_struct) \<Rightarrow> nat list \<Rightarrow> sched_state \<Rightarrow> sched_state" where
  "for_tasks f is s =
    fold (\<lambda>i s. if task s ! i \<noteq> NULL then upd_task (task s ! i) f s else s) is s"

definition wake_expired :: "sched_state \<Rightarrow> sched_state" where
  "wake_expired s = for_tasks (expire_task (jiffies s)) slots_down s"

definition pick_step :: "sched_state \<Rightarrow> nat \<Rightarrow> int \<times> nat \<Rightarrow> int \<times> nat" where
  "pick_step s i cn =
    (if task s ! i = NULL then cn
     else if state (tsk s (task s ! i)) = TASK_RUNNING \<and> counter (tsk s (task s ! i)) > fst cn
     then (counter (tsk s (task s ! i)), i) else cn)"

definition pick :: "sched_state \<Rightarrow> int \<times> nat" where
  "pick s = fold (pick_step s) slots_down (-1, 0)"

definition recharge_task :: "task_struct \<Rightarrow> task_struct" where
  "recharge_task t = t\<lparr>counter := s32 (counter t div 2 + priority t)\<rparr>"

definition recharge :: "sched_state \<Rightarrow> sched_state" where
  "recharge s = for_tasks recharge_task slots_down s"

fun schedule_loop :: "nat \<Rightarrow> sched_state \<Rightarrow> (nat \<times> sched_state) option" where
  "schedule_loop 0 s = None"
| "schedule_loop (Suc fuel) s =
    (let (c, nxt) = pick s in
     if c \<noteq> 0 then Some (nxt, s) else schedule_loop fuel (recharge s))"

definition switch_to :: "nat \<Rightarrow> sched_state \<Rightarrow> sched_state" where
  "switch_to n s = s\<lparr>current := task s ! n\<rparr>"

definition schedule :: "nat \<Rightarrow> sched_state \<Rightarrow> sched_state option" where
  "schedule fuel s =
    (case schedule_loop fuel (wake_expired s) of
       None \<Rightarrow> None
     | Some (nxt, s') \<Rightarrow> Some (switch_to nxt s'))"

section \<open>Wait queues\<close>

text \<open>
  A wait queue is a pointer variable (\<^verbatim>\<open>&bh->b_wait\<close> and the like); \<open>wait_queue s q\<close> is the
  content of the variable at address \<open>q\<close>.  \<^verbatim>\<open>wake_up\<close> walks the chain of \<^verbatim>\<open>next_wait\<close>
  links up to a null pointer or the idle task.
\<close>

fun wake_chain :: "nat \<Rightarrow> ptr \<Rightarrow> sched_state \<Rightarrow> sched_state option" where
  "wake_chain 0 p s = None"
| "wake_chain (Suc fuel) p s =
    (if p \<noteq> NULL \<and> p \<noteq> task s ! 0 then
       let s1 = (if state (tsk s p) = TASK_STOPPED then s
                 else if state (tsk s p) = TASK_ZOMBIE then s
                 else upd_task p (\<lambda>t. t\<lparr>state := TASK_RUNNING\<rparr>) s);
           tmp = next_wait (tsk s1 p);
           s2 = upd_task p (\<lambda>t. t\<lparr>next_wait := task s1 ! 0\<rparr>) s1
       in wake_chain fuel tmp s2
     else Some s)"

definition wake_up :: "nat \<Rightarrow> ptr \<Rightarrow> sched_state \<Rightarrow> sched_state option" where
  "wake_up fuel q s =
    (if q \<noteq> NULL \<and> wait_queue s q \<noteq> NULL then
       wake_chain fuel (wait_queue s q) (s\<lparr>wait_queue := (wait_queue s)(q := NULL)\<rparr>)
     else Some s)"

text \<open>
  \<^verbatim>\<open>__sleep_on\<close> is split at its call of \<^verbatim>\<open>schedule()\<close>: what it does before giving up the
  processor (\<open>None\<close> is the panic when the idle task tries to sleep), and what it does once
  the process runs again.
\<close>

definition sleep_on_enter :: "ptr \<Rightarrow> task_run_state \<Rightarrow> sched_state \<Rightarrow> sched_state option" where
  "sleep_on_enter q st s =
    (if q = NULL then Some s
     else if current s = task s ! 0 then None
     else
       let s = upd_cur (\<lambda>t. t\<lparr>next_wait := wait_queue s q\<rparr>) s;
           s = upd_task (task s ! 0) (\<lambda>t. t\<lparr>next_wait := NULL\<rparr>) s;
           s = s\<lparr>wait_queue := (wait_queue s)(q := current s)\<rparr>
       in Some (upd_cur (\<lambda>t. t\<lparr>state := st\<rparr>) s))"

definition sleep_on_leave :: "nat \<Rightarrow> ptr \<Rightarrow> sched_state \<Rightarrow> sched_state option" where
  "sleep_on_leave fuel q s =
    (if q = NULL then Some s
     else
       case (if next_wait (cur s) \<noteq> task s ! 0 then wake_up fuel q s else Some s) of
         None \<Rightarrow> None
       | Some s \<Rightarrow> Some (upd_cur (\<lambda>t. t\<lparr>next_wait := NULL\<rparr>) s))"

section \<open>System calls of sched.c\<close>

definition sys_alarm :: "int \<Rightarrow> sched_state \<Rightarrow> int \<times> sched_state" where
  "sys_alarm seconds s =
    (let old = sint (alarm (cur s));
         old = (if old \<noteq> 0 then sint (word_of_int ((uint (word_of_int old - jiffies s)) div 100) :: u32) else old)
     in (old, upd_cur (\<lambda>t. t\<lparr>alarm := if seconds > 0 then jiffies s + word_of_int (HZ * seconds) else 0\<rparr>) s))"

definition sys_getpid :: "sched_state \<Rightarrow> int" where
  "sys_getpid s = pid (cur s)"

definition sys_getppid :: "sched_state \<Rightarrow> int" where
  "sys_getppid s = pid (tsk s (p_pptr (cur s)))"

definition sys_getuid :: "sched_state \<Rightarrow> int" where
  "sys_getuid s = uint (uid (cur s))"

definition sys_geteuid :: "sched_state \<Rightarrow> int" where
  "sys_geteuid s = uint (euid (cur s))"

definition sys_getgid :: "sched_state \<Rightarrow> int" where
  "sys_getgid s = uint (gid (cur s))"

definition sys_getegid :: "sched_state \<Rightarrow> int" where
  "sys_getegid s = uint (egid (cur s))"

definition sys_nice :: "int \<Rightarrow> sched_state \<Rightarrow> int \<times> sched_state" where
  "sys_nice increment s =
    (if increment < 0 \<and> \<not> suser s then (- EPERM, s)
     else
       let increment = (if increment > priority (cur s) then s32 (priority (cur s) - 1) else increment)
       in (0, upd_cur (\<lambda>t. t\<lparr>priority := s32 (priority t - increment)\<rparr>) s))"

text \<open>\<^verbatim>\<open>sched_init\<close> clears every slot but the first; the descriptor-table writes are not modelled.\<close>

definition sched_init :: "sched_state \<Rightarrow> sched_state" where
  "sched_init s = fold (\<lambda>i s. s\<lparr>task := (task s)[i := NULL]\<rparr>) [1..<64] s"

section \<open>Walking the table\<close>

definition live :: "sched_state \<Rightarrow> ptr set" where
  "live s = {p. p \<noteq> NULL \<and> (\<exists>i \<in> {1..<64}. task s ! i = p)}"

definition runnable :: "sched_state \<Rightarrow> nat \<Rightarrow> bool" where
  "runnable s i \<longleftrightarrow> task s ! i \<noteq> NULL \<and> state (tsk s (task s ! i)) = TASK_RUNNING"

lemma for_tasks_frame [simp]:
  "task (for_tasks f is s) = task s"
  "current (for_tasks f is s) = current s"
  "jiffies (for_tasks f is s) = jiffies s"
  "wait_queue (for_tasks f is s) = wait_queue s"
  "last_pid (for_tasks f is s) = last_pid s"
  by (induction "is" arbitrary: s) (auto simp: for_tasks_def)

lemma for_tasks_Cons:
  "for_tasks f (i # is) s = for_tasks f is (if task s ! i \<noteq> NULL then upd_task (task s ! i) f s else s)"
  by (simp add: for_tasks_def)

lemma for_tasks_tsk:
  assumes "inj_on (\<lambda>i. task s ! i) {i \<in> set is. task s ! i \<noteq> NULL}" "distinct is"
  shows "tsk (for_tasks f is s) p =
    (if p \<noteq> NULL \<and> p \<in> (\<lambda>i. task s ! i) ` set is then f (tsk s p) else tsk s p)"
  using assms
proof (induction "is" arbitrary: s)
  case Nil
  then show ?case by (simp add: for_tasks_def)
next
  case (Cons i "is")
  let ?s = "if task s ! i \<noteq> NULL then upd_task (task s ! i) f s else s"
  have t: "task ?s = task s" by simp
  have IH: "tsk (for_tasks f is ?s) p =
    (if p \<noteq> NULL \<and> p \<in> (\<lambda>i. task s ! i) ` set is then f (tsk ?s p) else tsk ?s p)"
  proof -
    have "inj_on (\<lambda>i. task s ! i) {i \<in> set is. task s ! i \<noteq> NULL}"
      by (rule inj_on_subset [OF Cons.prems(1)]) auto
    with Cons.IH [of ?s] Cons.prems(2) show ?thesis unfolding t by simp
  qed
  have "task s ! i \<notin> (\<lambda>i. task s ! i) ` set is" if n: "task s ! i \<noteq> NULL"
  proof
    assume "task s ! i \<in> (\<lambda>i. task s ! i) ` set is"
    then obtain j where j: "j \<in> set is" "task s ! i = task s ! j" by auto
    have "i = j" by (rule inj_onD [OF Cons.prems(1) j(2)]) (use j n in auto)
    with j Cons.prems(2) show False by simp
  qed
  then show ?case unfolding for_tasks_Cons IH by auto
qed

lemma for_tasks_live:
  assumes "task_table_ok s"
  shows "tsk (for_tasks f slots_down s) p = (if p \<in> live s then f (tsk s p) else tsk s p)"
proof -
  have "inj_on (\<lambda>i. task s ! i) {i \<in> set slots_down. task s ! i \<noteq> NULL}"
    using assms by (auto simp: task_table_ok_def inj_on_def)
  then show ?thesis by (subst for_tasks_tsk) (auto simp: live_def)
qed

lemma wake_expired_frame [simp]:
  "task (wake_expired s) = task s" "current (wake_expired s) = current s"
  "jiffies (wake_expired s) = jiffies s" "live (wake_expired s) = live s"
  "task_table_ok (wake_expired s) = task_table_ok s"
  by (simp_all add: wake_expired_def live_def task_table_ok_def)

lemma recharge_frame [simp]:
  "task (recharge s) = task s" "current (recharge s) = current s" "jiffies (recharge s) = jiffies s"
  "live (recharge s) = live s" "task_table_ok (recharge s) = task_table_ok s"
  by (simp_all add: recharge_def live_def task_table_ok_def)

lemma slot_live: "1 \<le> i \<Longrightarrow> i < 64 \<Longrightarrow> task s ! i \<noteq> NULL \<Longrightarrow> task s ! i \<in> live s"
  by (auto simp: live_def)

lemma liveE:
  assumes "p \<in> live s"
  obtains i where "1 \<le> i" "i < 64" "task s ! i = p" "p \<noteq> NULL"
  using assms by (auto simp: live_def)

subsection \<open>The selection loop\<close>

definition best_of :: "sched_state \<Rightarrow> nat set \<Rightarrow> int \<times> nat \<Rightarrow> bool" where
  "best_of s I cn \<longleftrightarrow>
    (\<forall>i \<in> I. runnable s i \<longrightarrow> counter (tsk s (task s ! i)) \<le> fst cn) \<and>
    (cn = (-1, 0) \<or> snd cn \<in> I \<and> runnable s (snd cn) \<and> fst cn = counter (tsk s (task s ! snd cn)) \<and> 0 \<le> fst cn)"

lemma pick_fold_best:
  "best_of s I cn \<Longrightarrow> best_of s (I \<union> set is) (fold (pick_step s) is cn)"
proof (induction "is" arbitrary: I cn)
  case Nil
  then show ?case by simp
next
  case (Cons i "is")
  have "best_of s (insert i I) (pick_step s i cn)"
    using Cons.prems by (auto simp: best_of_def pick_step_def runnable_def)
  from Cons.IH [OF this] show ?case by simp
qed

lemma pick_best: "best_of s {1..<64} (pick s)"
  using pick_fold_best [of s "{}" "(-1, 0)" slots_down] by (simp add: best_of_def pick_def)

lemma pick_idle: "pick s = (c, n) \<Longrightarrow> c < 0 \<Longrightarrow> n = 0 \<and> (\<forall>i \<in> {1..<64}. runnable s i \<longrightarrow> counter (tsk s (task s ! i)) < 0)"
  using pick_best [of s] by (force simp: best_of_def)

lemma pick_runs:
  "pick s = (c, n) \<Longrightarrow> 0 \<le> c \<Longrightarrow> n \<in> {1..<64} \<and> runnable s n \<and> counter (tsk s (task s ! n)) = c \<and>
     (\<forall>i \<in> {1..<64}. runnable s i \<longrightarrow> counter (tsk s (task s ! i)) \<le> c)"
  using pick_best [of s] by (auto simp: best_of_def)

lemma pick_zeroI:
  assumes "\<And>i. i \<in> {1..<64} \<Longrightarrow> runnable s i \<Longrightarrow> counter (tsk s (task s ! i)) = 0"
    and "i \<in> {1..<64}" "runnable s i"
  shows "fst (pick s) = 0"
proof (cases "pick s")
  case (Pair c n)
  show ?thesis
  proof (cases "c < 0")
    case True
    with pick_idle [OF Pair] assms show ?thesis by force
  next
    case False
    with pick_runs [OF Pair] assms Pair show ?thesis by auto
  qed
qed

section \<open>Termination and fairness of schedule\<close>

definition sched_ok :: "task_struct \<Rightarrow> bool" where
  "sched_ok t \<longleftrightarrow> 0 \<le> counter t \<and> counter t < 2 ^ 30 \<and> 0 < priority t \<and> priority t < 2 ^ 29"

definition sched_inv :: "sched_state \<Rightarrow> bool" where
  "sched_inv s \<longleftrightarrow> task_table_ok s \<and> (\<forall>p \<in> live s. sched_ok (tsk s p))"

lemma expire_task_slice [simp]: "counter (expire_task now t) = counter t" "priority (expire_task now t) = priority t"
  by (simp_all add: expire_task_def Let_def)

lemma recharge_counter:
  assumes "sched_ok t"
  shows "counter (recharge_task t) = counter t div 2 + priority t" "sched_ok (recharge_task t)"
    "0 < counter (recharge_task t)"
proof -
  have b: "0 < counter t div 2 + priority t" "counter t div 2 + priority t < 2 ^ 30"
    using assms by (auto simp: sched_ok_def)
  then have "in_s32 (counter t div 2 + priority t)" by (simp add: in_s32_def)
  then show "counter (recharge_task t) = counter t div 2 + priority t" "sched_ok (recharge_task t)"
    "0 < counter (recharge_task t)"
    using b assms by (simp_all add: recharge_task_def sched_ok_def)
qed

lemma wake_expired_tsk:
  "task_table_ok s \<Longrightarrow> tsk (wake_expired s) p = (if p \<in> live s then expire_task (jiffies s) (tsk s p) else tsk s p)"
  by (simp add: wake_expired_def for_tasks_live)

lemma recharge_tsk:
  "task_table_ok s \<Longrightarrow> tsk (recharge s) p = (if p \<in> live s then recharge_task (tsk s p) else tsk s p)"
  by (simp add: recharge_def for_tasks_live)

lemma sched_inv_wake_expired: "sched_inv s \<Longrightarrow> sched_inv (wake_expired s)"
  by (simp add: sched_inv_def wake_expired_tsk sched_ok_def)

lemma sched_inv_recharge: "sched_inv s \<Longrightarrow> sched_inv (recharge s)"
  by (simp add: sched_inv_def recharge_tsk recharge_counter)

lemma sched_inv_switch: "sched_inv (switch_to n s) = sched_inv s"
  by (simp add: sched_inv_def switch_to_def task_table_ok_def live_def)

lemma recharge_positive:
  assumes "sched_inv s" "i \<in> {1..<64}" "runnable (recharge s) i"
  shows "0 < counter (tsk (recharge s) (task s ! i))"
  using assms recharge_counter(3) [of "tsk s (task s ! i)"]
  by (simp add: sched_inv_def recharge_tsk runnable_def slot_live)

lemma pick_after_recharge:
  assumes "sched_inv s"
  shows "fst (pick (recharge s)) \<noteq> 0"
proof (cases "pick (recharge s)")
  case (Pair c n)
  show ?thesis
  proof (cases "0 \<le> c")
    case True
    with pick_runs [OF Pair] recharge_positive [OF assms, of n] Pair show ?thesis by auto
  next
    case False
    with Pair show ?thesis by simp
  qed
qed

lemma schedule_loop_Suc:
  "schedule_loop (Suc fuel) s =
    (if fst (pick s) \<noteq> 0 then Some (snd (pick s), s) else schedule_loop fuel (recharge s))"
  by (simp add: case_prod_beta Let_def)

declare schedule_loop.simps(2) [simp del]

lemma schedule_loop_two:
  assumes "sched_inv s"
  shows "\<exists>n s'. schedule_loop 2 s = Some (n, s') \<and> fst (pick s') \<noteq> 0 \<and> snd (pick s') = n \<and> (s' = s \<or> s' = recharge s)"
proof -
  let ?t = "if fst (pick s) \<noteq> 0 then s else recharge s"
  have "schedule_loop 2 s = Some (snd (pick ?t), ?t)"
    unfolding numeral_2_eq_2 schedule_loop_Suc using pick_after_recharge [OF assms] by simp
  moreover have "fst (pick ?t) \<noteq> 0" using pick_after_recharge [OF assms] by simp
  ultimately show ?thesis by (intro exI [of _ "snd (pick ?t)"] exI [of _ ?t]) simp
qed

lemma schedule_loop_mono: "schedule_loop n s = Some r \<Longrightarrow> n \<le> m \<Longrightarrow> schedule_loop m s = Some r"
proof (induction n arbitrary: s m)
  case 0
  then show ?case by simp
next
  case (Suc n)
  from Suc.prems obtain k where "m = Suc k" "n \<le> k" by (cases m) auto
  with Suc show ?case by (simp add: schedule_loop_Suc split: if_splits)
qed

lemma schedule_loop_Some:
  assumes "schedule_loop n s = Some (nxt, s')" "sched_inv s"
  shows "sched_inv s' \<and> fst (pick s') \<noteq> 0 \<and> snd (pick s') = nxt \<and> task s' = task s \<and>
    (\<forall>p. state (tsk s' p) = state (tsk s p))"
  using assms
proof (induction n arbitrary: s)
  case 0
  then show ?case by simp
next
  case (Suc n)
  have st: "state (tsk (recharge s) p) = state (tsk s p)" for p
    using Suc by (simp add: recharge_tsk sched_inv_def recharge_task_def)
  show ?case
  proof (cases "fst (pick s) = 0")
    case True
    with Suc.prems have "schedule_loop n (recharge s) = Some (nxt, s')" "sched_inv (recharge s)"
      by (simp_all add: schedule_loop_Suc sched_inv_recharge)
    from Suc.IH [OF this] st show ?thesis by simp
  next
    case False
    with Suc.prems show ?thesis by (auto simp: schedule_loop_Suc)
  qed
qed

text \<open>
  C4. In a state where every task in slots 1 to 63 has a positive priority and a time
  slice within bounds, \<^verbatim>\<open>schedule()\<close> returns after at most two rounds of its loop.  It
  switches either to a runnable task whose remaining time slice is positive and maximal
  among the runnable tasks, or, exactly when no task in slots 1 to 63 is runnable, to the
  idle task; and the bounds are kept.
\<close>

theorem schedule_total_maximal:
  assumes "sched_inv s"
  shows "\<exists>s'. schedule 2 s = Some s' \<and> sched_inv s' \<and>
    (if \<exists>i \<in> {1..<64}. runnable (wake_expired s) i
     then \<exists>n \<in> {1..<64}. current s' = task s' ! n \<and> runnable s' n \<and> 0 < counter (cur s') \<and>
            (\<forall>i \<in> {1..<64}. runnable s' i \<longrightarrow> counter (tsk s' (task s' ! i)) \<le> counter (cur s'))
     else current s' = task s' ! 0)"
proof -
  let ?w = "wake_expired s"
  have w: "sched_inv ?w" using assms by (rule sched_inv_wake_expired)
  obtain n s' where l: "schedule_loop 2 ?w = Some (n, s')" using schedule_loop_two [OF w] by blast
  note f = schedule_loop_Some [OF l w]
  obtain c where p: "pick s' = (c, n)" "c \<noteq> 0" using f by (metis prod.collapse)
  have r: "runnable s' i = runnable ?w i" for i using f by (simp add: runnable_def)
  have sched: "schedule 2 s = Some (switch_to n s')" by (simp add: schedule_def l)
  have inv: "sched_inv (switch_to n s')"
    using f by (simp add: sched_inv_switch)
  have nonneg: "0 \<le> counter (tsk s' (task s' ! i))" if "i \<in> {1..<64}" "runnable s' i" for i
    using f that slot_live [of i s'] by (auto simp: sched_inv_def sched_ok_def runnable_def)
  show ?thesis
  proof (cases "0 \<le> c")
    case True
    with pick_runs [OF p(1)] p(2) have "n \<in> {1..<64}" "runnable s' n" "0 < c"
      "counter (tsk s' (task s' ! n)) = c"
      "\<forall>i \<in> {1..<64}. runnable s' i \<longrightarrow> counter (tsk s' (task s' ! i)) \<le> c" by auto
    moreover from this have "\<exists>i \<in> {1..<64}. runnable ?w i" using r by blast
    ultimately show ?thesis
      using sched inv by (intro exI [of _ "switch_to n s'"]) (auto simp: switch_to_def cur_def runnable_def)
  next
    case False
    have "\<not> runnable s' i" if "i \<in> {1..<64}" for i
      using pick_idle [OF p(1)] nonneg [OF that] that False by force
    then have "\<not> (\<exists>i \<in> {1..<64}. runnable ?w i)" using r by blast
    moreover have "n = 0" using pick_idle [OF p(1)] False by simp
    ultimately show ?thesis
      using sched inv by (intro exI [of _ "switch_to n s'"]) (simp add: switch_to_def)
  qed
qed

lemma two_tasks_live: "live two_tasks = {2, 3}"
  by (auto simp: live_def nth_two_tasks intro: bexI [where x = 1] bexI [where x = 2])

lemma two_tasks_inv: "sched_inv two_tasks"
  by (simp add: sched_inv_def two_tasks_ok two_tasks_live sched_ok_def init_task_def)

theorem schedule_total_maximal_witness:
  "\<exists>s'. schedule 2 two_tasks = Some s' \<and> sched_inv s'"
  using schedule_total_maximal [OF two_tasks_inv] by blast

section \<open>A task of priority zero stops the machine\<close>

lemma schedule_loop_hangs:
  assumes "task_table_ok s" "i \<in> {1..<64}" "runnable s i"
    and "\<And>j. j \<in> {1..<64} \<Longrightarrow> runnable s j \<Longrightarrow> counter (tsk s (task s ! j)) = 0 \<and> priority (tsk s (task s ! j)) = 0"
  shows "schedule_loop fuel s = None"
  using assms
proof (induction fuel arbitrary: s)
  case 0
  then show ?case by simp
next
  case (Suc fuel)
  have z: "fst (pick s) = 0" using Suc.prems by (intro pick_zeroI) auto
  have same: "runnable (recharge s) j = runnable s j" for j
    using Suc.prems(1) by (simp add: runnable_def recharge_tsk recharge_task_def)
  have "schedule_loop fuel (recharge s) = None"
  proof (rule Suc.IH)
    show "task_table_ok (recharge s)" "i \<in> {1..<64}" "runnable (recharge s) i"
      using Suc.prems same by simp_all
    show "counter (tsk (recharge s) (task (recharge s) ! j)) = 0 \<and>
        priority (tsk (recharge s) (task (recharge s) ! j)) = 0"
      if "j \<in> {1..<64}" "runnable (recharge s) j" for j
      using Suc.prems(4) [of j] that same Suc.prems(1)
      by (simp add: recharge_tsk recharge_task_def in_s32_def)
  qed
  with z show ?case by (simp add: schedule_loop_Suc)
qed

lemma expire_task_asleep:
  "state t \<noteq> TASK_INTERRUPTIBLE \<Longrightarrow> state (expire_task now t) = state t"
  by (simp add: expire_task_def Let_def)

text \<open>
  C39. \<^verbatim>\<open>sys_nice\<close> can set the priority of its caller to zero (an increment equal to the
  priority), and then \<^verbatim>\<open>schedule()\<close> never returns: if the caller has used up its time
  slice and every other task is gone, stopped, dead or in uninterruptible sleep, no amount of fuel
  gives a result.
\<close>

theorem sys_nice_can_hang_schedule:
  assumes "task_table_ok s" "i \<in> {1..<64}" "current s = task s ! i" "runnable s i"
    and "counter (cur s) = 0" "0 < priority (cur s)" "priority (cur s) < 2 ^ 31"
    and "\<And>j. j \<in> {1..<64} \<Longrightarrow> j \<noteq> i \<Longrightarrow> task s ! j = NULL \<or>
          state (tsk s (task s ! j)) \<in> {TASK_UNINTERRUPTIBLE, TASK_STOPPED, TASK_ZOMBIE}"
  shows "fst (sys_nice (priority (cur s)) s) = 0 \<and>
    (\<forall>fuel. schedule fuel (snd (sys_nice (priority (cur s)) s)) = None)"
proof -
  define u where "u = upd_task (task s ! i) (\<lambda>t. t\<lparr>priority := 0\<rparr>) s"
  have n: "sys_nice (priority (cur s)) s = (0, u)"
    using assms(3,6,7) by (simp add: u_def sys_nice_def cur_def in_s32_def upd_task_def)
  have u: "task u = task s" "jiffies u = jiffies s" "live u = live s"
    and ok: "task_table_ok u"
    using assms(1) by (simp_all add: u_def task_table_ok_def live_def)
  note w = wake_expired_tsk [OF ok]
  have other: "\<not> runnable (wake_expired u) j" if "j \<in> {1..<64}" "j \<noteq> i" for j
  proof -
    have "task s ! j = NULL \<or> task s ! j \<noteq> task s ! i"
      using assms(1,2) that by (auto simp: task_table_ok_def)
    then show ?thesis
      using assms(8) [OF that] by (auto simp: runnable_def u w) (auto simp: u_def expire_task_asleep)
  qed
  have self: "runnable (wake_expired u) i" "counter (tsk (wake_expired u) (task s ! i)) = 0"
    "priority (tsk (wake_expired u) (task s ! i)) = 0"
    using assms(3-5) by (auto simp: runnable_def u w) (auto simp: u_def cur_def expire_task_asleep)
  have "schedule_loop fuel (wake_expired u) = None" for fuel
  proof (rule schedule_loop_hangs [OF _ assms(2) self(1)])
    show "task_table_ok (wake_expired u)" using ok by simp
  next
    fix j assume "j \<in> {1..<64}" "runnable (wake_expired u) j"
    then show "counter (tsk (wake_expired u) (task (wake_expired u) ! j)) = 0 \<and>
        priority (tsk (wake_expired u) (task (wake_expired u) ! j)) = 0"
      using other self by (cases "j = i") (auto simp: u)
  qed
  then show ?thesis by (simp add: n schedule_def)
qed

definition lone_task :: sched_state where
  "lone_task = upd_task 3 (\<lambda>t. t\<lparr>state := TASK_ZOMBIE\<rparr>) (upd_task 2 (\<lambda>t. t\<lparr>counter := 0\<rparr>) two_tasks)"

theorem sys_nice_can_hang_schedule_witness:
  "schedule 1000 (snd (sys_nice 15 lone_task)) = None"
proof -
  have "fst (sys_nice (priority (cur lone_task)) lone_task) = 0 \<and>
    (\<forall>fuel. schedule fuel (snd (sys_nice (priority (cur lone_task)) lone_task)) = None)"
  proof (rule sys_nice_can_hang_schedule [of lone_task 1])
    show "task_table_ok lone_task" using two_tasks_ok by (simp add: lone_task_def task_table_ok_def)
  qed (auto simp: lone_task_def runnable_def cur_def nth_two_tasks init_task_def)
  then show ?thesis by (simp add: lone_task_def cur_def init_task_def)
qed

section \<open>Wait queues wake their sleepers\<close>

definition waiters :: "sched_state \<Rightarrow> ptr \<Rightarrow> ptr list \<Rightarrow> bool" where
  "waiters s q xs \<longleftrightarrow> distinct xs \<and> task s ! 0 \<notin> set xs \<and>
    (\<exists>e. path (\<lambda>p. next_wait (tsk s p)) (wait_queue s q) xs e \<and> (e = NULL \<or> e = task s ! 0))"

definition wake_one :: "ptr \<Rightarrow> task_struct \<Rightarrow> task_struct" where
  "wake_one idle t =
    (if state t = TASK_STOPPED \<or> state t = TASK_ZOMBIE then t else t\<lparr>state := TASK_RUNNING\<rparr>)
      \<lparr>next_wait := idle\<rparr>"

lemma wake_chain_step:
  "p \<noteq> NULL \<Longrightarrow> p \<noteq> task s ! 0 \<Longrightarrow>
    wake_chain (Suc fuel) p s = wake_chain fuel (next_wait (tsk s p)) (upd_task p (wake_one (task s ! 0)) s)"
  by (simp add: wake_one_def Let_def upd_task_def)

declare wake_chain.simps(2) [simp del]

lemma wake_chain_stop: "p = NULL \<or> p = task s ! 0 \<Longrightarrow> wake_chain (Suc fuel) p s = Some s"
  by (auto simp: wake_chain.simps(2))

lemma wake_chain_wakes:
  assumes "path (\<lambda>p. next_wait (tsk s p)) p xs e" "e = NULL \<or> e = task s ! 0"
    and "distinct xs" "task s ! 0 \<notin> set xs" "length xs < fuel"
  shows "wake_chain fuel p s = Some (fold (\<lambda>p. upd_task p (wake_one (task s ! 0))) xs s)"
  using assms
proof (induction xs arbitrary: p s fuel)
  case Nil
  then obtain f where "fuel = Suc f" by (cases fuel) auto
  with Nil show ?case by (simp add: wake_chain_stop)
next
  case (Cons x xs)
  obtain f where f: "fuel = Suc f" "length xs < f" using Cons.prems(5) by (cases fuel) auto
  let ?s = "upd_task x (wake_one (task s ! 0)) s"
  have p: "p = x" "x \<noteq> NULL" "x \<noteq> task s ! 0" "x \<notin> set xs" using Cons.prems by auto
  have "path (\<lambda>p. next_wait (tsk ?s p)) (next_wait (tsk s x)) xs e"
    using Cons.prems(1) p(4) by (subst path_cong [where g = "\<lambda>p. next_wait (tsk s p)"]) auto
  from Cons.IH [OF this] Cons.prems f(2) have
    "wake_chain f (next_wait (tsk s x)) ?s = Some (fold (\<lambda>p. upd_task p (wake_one (task s ! 0))) xs ?s)"
    by simp
  then show ?case using wake_chain_step [of x s f] p f(1) by simp
qed

lemma fold_upd_task:
  assumes "distinct xs"
  shows "tsk (fold (\<lambda>p. upd_task p f) xs s) p = (if p \<in> set xs then f (tsk s p) else tsk s p)"
    "task (fold (\<lambda>p. upd_task p f) xs s) = task s"
    "wait_queue (fold (\<lambda>p. upd_task p f) xs s) = wait_queue s"
    "current (fold (\<lambda>p. upd_task p f) xs s) = current s"
  using assms by (induction xs arbitrary: s) auto

lemma wake_up_wakes_all:
  assumes "waiters s q xs" "q \<noteq> NULL" "length xs < fuel"
  shows "\<exists>s'. wake_up fuel q s = Some s' \<and> wait_queue s' q = NULL \<and>
    (\<forall>p \<in> set xs. next_wait (tsk s' p) = task s ! 0 \<and>
       (state (tsk s p) \<notin> {TASK_STOPPED, TASK_ZOMBIE} \<longrightarrow> state (tsk s' p) = TASK_RUNNING)) \<and>
    (\<forall>p. p \<notin> set xs \<longrightarrow> tsk s' p = tsk s p)"
proof (cases "wait_queue s q = NULL")
  case True
  then have "xs = []" using assms(1) by (cases xs) (auto simp: waiters_def)
  with True show ?thesis by (simp add: wake_up_def)
next
  case False
  let ?s = "s\<lparr>wait_queue := (wait_queue s)(q := NULL)\<rparr>"
  let ?r = "fold (\<lambda>p. upd_task p (wake_one (task s ! 0))) xs ?s"
  obtain e where e: "path (\<lambda>p. next_wait (tsk ?s p)) (wait_queue s q) xs e" "e = NULL \<or> e = task s ! 0"
    and d: "distinct xs" "task s ! 0 \<notin> set xs"
    using assms(1) by (auto simp: waiters_def)
  have "wake_chain fuel (wait_queue s q) ?s = Some ?r"
    using wake_chain_wakes [OF e(1), of fuel] e(2) d assms(3) by simp
  then have "wake_up fuel q s = Some ?r" using assms(2) False by (simp add: wake_up_def)
  moreover have "wait_queue ?r q = NULL" using d(1) by (simp add: fold_upd_task)
  moreover have "tsk ?r p = (if p \<in> set xs then wake_one (task s ! 0) (tsk s p) else tsk s p)" for p
    using d(1) by (simp add: fold_upd_task)
  ultimately show ?thesis by (intro exI [of _ ?r]) (auto simp: wake_one_def)
qed

lemma sleep_on_enter_waiters:
  assumes "waiters s q xs" "q \<noteq> NULL" "current s \<noteq> NULL" "current s \<noteq> task s ! 0" "current s \<notin> set xs"
    and "sleep_on_enter q st s = Some s'"
  shows "waiters s' q (current s # xs)"
proof -
  obtain e where e: "path (\<lambda>p. next_wait (tsk s p)) (wait_queue s q) xs e" "e = NULL \<or> e = task s ! 0"
    using assms(1) by (auto simp: waiters_def)
  have nw: "next_wait (tsk s' p) =
      (if p = current s then wait_queue s q else if p = task s ! 0 then NULL else next_wait (tsk s p))" for p
    using assms(2,4,6) by (auto simp: sleep_on_enter_def Let_def split: if_splits)
  have w: "wait_queue s' q = current s" "task s' = task s"
    using assms(2,4,6) by (auto simp: sleep_on_enter_def Let_def)
  have "path (\<lambda>p. next_wait (tsk s' p)) (wait_queue s q) xs e"
    using e(1) assms(1,5) by (subst path_cong [where g = "\<lambda>p. next_wait (tsk s p)"]) (auto simp: nw waiters_def)
  then show ?thesis
    using assms e(2) unfolding waiters_def w by (auto simp: nw w)
qed

text \<open>
  C30. A process that goes to sleep is not lost: after \<^verbatim>\<open>__sleep_on\<close> has queued the current
  task, \<^verbatim>\<open>wake_up\<close> on the same queue makes it runnable again, together with every earlier
  sleeper that is not stopped or dead.
\<close>

theorem sleep_on_then_wake_up:
  assumes "waiters s q xs" "q \<noteq> NULL" "current s \<noteq> NULL" "current s \<noteq> task s ! 0" "current s \<notin> set xs"
    and "sleep_on_enter q TASK_UNINTERRUPTIBLE s = Some s1" "Suc (length xs) < fuel"
  shows "state (tsk s1 (current s)) = TASK_UNINTERRUPTIBLE \<and>
    (\<exists>s2. wake_up fuel q s1 = Some s2 \<and> state (tsk s2 (current s)) = TASK_RUNNING \<and>
       next_wait (tsk s2 (current s)) = task s ! 0 \<and>
       (\<forall>p \<in> set xs. state (tsk s p) \<notin> {TASK_STOPPED, TASK_ZOMBIE} \<longrightarrow> state (tsk s2 p) = TASK_RUNNING))"
proof -
  have e: "task s1 = task s" "state (tsk s1 (current s)) = TASK_UNINTERRUPTIBLE"
    "\<forall>p. p \<noteq> current s \<longrightarrow> state (tsk s1 p) = state (tsk s p)"
    using assms(2,4,6) by (auto simp: sleep_on_enter_def Let_def)
  have w: "waiters s1 q (current s # xs)" by (rule sleep_on_enter_waiters [OF assms(1-6)])
  obtain s2 where s2: "wake_up fuel q s1 = Some s2"
    "\<forall>p \<in> set (current s # xs). next_wait (tsk s2 p) = task s1 ! 0 \<and>
       (state (tsk s1 p) \<notin> {TASK_STOPPED, TASK_ZOMBIE} \<longrightarrow> state (tsk s2 p) = TASK_RUNNING)"
    using wake_up_wakes_all [OF w assms(2), of fuel] assms(7) by auto
  have "state (tsk s2 p) = TASK_RUNNING" if "p \<in> set xs" "state (tsk s p) \<notin> {TASK_STOPPED, TASK_ZOMBIE}" for p
    using s2(2) that e(3) assms(5) by (metis list.set_intros(2))
  moreover have "state (tsk s2 (current s)) = TASK_RUNNING \<and> next_wait (tsk s2 (current s)) = task s ! 0"
    using s2(2) e(1,2) by simp
  ultimately show ?thesis using e(2) s2(1) by blast
qed

theorem sleep_on_then_wake_up_witness:
  "\<exists>s1 s2. sleep_on_enter 7 TASK_UNINTERRUPTIBLE two_tasks = Some s1 \<and> wake_up 2 7 s1 = Some s2 \<and>
     state (tsk s2 2) = TASK_RUNNING"
proof -
  obtain s1 where s1: "sleep_on_enter 7 TASK_UNINTERRUPTIBLE two_tasks = Some s1"
    by (simp add: sleep_on_enter_def nth_two_tasks Let_def)
  have "waiters two_tasks 7 []" by (simp add: waiters_def)
  from sleep_on_then_wake_up [OF this _ _ _ _ s1, of 2] s1 show ?thesis
    by (auto simp: nth_two_tasks)
qed

end
