(* ===== verification/Signals.thy ===== *)
theory Signals
  imports Sched
begin

text \<open>
  Signals: sending them (\<^verbatim>\<open>kernel/exit.c\<close>: \<^verbatim>\<open>send_sig\<close>, \<^verbatim>\<open>kill_pg\<close>, \<^verbatim>\<open>kill_proc\<close>, \<^verbatim>\<open>sys_kill\<close> and the
  process-group queries) and receiving them (\<^verbatim>\<open>kernel/signal.c\<close>: masks, dispositions and
  \<^verbatim>\<open>do_signal\<close>).  The loops over the task table read \<^verbatim>\<open>(*p)->pgrp\<close> without testing the slot
  for a null pointer; the model does the same and reads the store at \<open>NULL\<close>.
\<close>

section \<open>Sending signals\<close>

definition stop_bits :: u32 where
  "stop_bits = sigbit SIGSTOP OR sigbit SIGTSTP OR sigbit SIGTTIN OR sigbit SIGTTOU"

text \<open>The two halves of a delivery: recording the signal, and stopping a traced receiver.\<close>

definition post_signal :: "int \<Rightarrow> ptr \<Rightarrow> sched_state \<Rightarrow> sched_state" where
  "post_signal sig p s =
    (let s = (if sig = SIGKILL \<or> sig = SIGCONT then
                upd_task p (\<lambda>t. t\<lparr>state := (if state t = TASK_STOPPED then TASK_RUNNING else state t),
                                  exit_code := 0,
                                  signal := signal t AND NOT stop_bits\<rparr>) s
              else s);
         s = (if SIGSTOP \<le> sig \<and> sig \<le> SIGTTOU then
                upd_task p (\<lambda>t. t\<lparr>signal := signal t AND NOT (sigbit SIGCONT)\<rparr>) s
              else s)
     in upd_task p (\<lambda>t. t\<lparr>signal := signal t OR sigbit sig\<rparr>) s)"

definition stop_traced :: "int \<Rightarrow> ptr \<Rightarrow> sched_state \<Rightarrow> sched_state" where
  "stop_traced sig p s =
    (if flags (tsk s p) AND PF_PTRACED \<noteq> 0 then
       let s = upd_task p (\<lambda>t. t\<lparr>exit_code := sig\<rparr>) s;
           par = p_pptr (tsk s p);
           s = (if par \<noteq> NULL \<and> state (tsk s par) = TASK_INTERRUPTIBLE
                then upd_task par (\<lambda>t. t\<lparr>state := TASK_RUNNING\<rparr>) s else s)
       in if state (tsk s p) = TASK_INTERRUPTIBLE \<or> state (tsk s p) = TASK_RUNNING
          then upd_task p (\<lambda>t. t\<lparr>state := TASK_STOPPED\<rparr>) s else s
     else s)"

definition send_sig :: "int \<Rightarrow> ptr \<Rightarrow> bool \<Rightarrow> sched_state \<Rightarrow> int \<times> sched_state" where
  "send_sig sig p priv s =
    (if p = NULL \<or> sig < 0 \<or> sig > 32 then (- EINVAL, s)
     else if \<not> priv \<and> euid (cur s) \<noteq> euid (tsk s p) \<and> \<not> suser s then (- EPERM, s)
     else if sig = 0 then (0, s)
     else (0, stop_traced sig p (post_signal sig p s)))"

definition slot_task :: "sched_state \<Rightarrow> nat \<Rightarrow> task_struct" where
  "slot_task s i = tsk s (task s ! i)"

definition session_of_pgrp :: "int \<Rightarrow> sched_state \<Rightarrow> int" where
  "session_of_pgrp pg s =
    (case find (\<lambda>i. pgrp (slot_task s i) = pg) slots_down of
       None \<Rightarrow> -1 | Some i \<Rightarrow> session (slot_task s i))"

definition kill_pg_step :: "int \<Rightarrow> int \<Rightarrow> bool \<Rightarrow> nat \<Rightarrow> int \<times> nat \<times> sched_state \<Rightarrow> int \<times> nat \<times> sched_state" where
  "kill_pg_step pg sig priv i = (\<lambda>(retval, found, s).
    if pgrp (slot_task s i) = pg then
      (case (if sig \<noteq> 0 then send_sig sig (task s ! i) priv s else (0, s)) of (err, s') \<Rightarrow>
         if err \<noteq> 0 then (err, found, s') else (retval, found + 1, s'))
    else (retval, found, s))"

definition kill_pg :: "int \<Rightarrow> int \<Rightarrow> bool \<Rightarrow> sched_state \<Rightarrow> int \<times> sched_state" where
  "kill_pg pg sig priv s =
    (if sig < 1 \<or> sig > 32 \<or> pg \<le> 0 then (- EINVAL, s)
     else case fold (kill_pg_step pg sig priv) slots_down (- ESRCH, 0, s) of
       (retval, found, s') \<Rightarrow> (if found \<noteq> 0 then 0 else retval, s'))"

definition kill_proc :: "int \<Rightarrow> int \<Rightarrow> bool \<Rightarrow> sched_state \<Rightarrow> int \<times> sched_state" where
  "kill_proc pd sig priv s =
    (if sig < 0 \<or> sig > 32 then (- EINVAL, s)
     else case find (\<lambda>i. pid (slot_task s i) = pd) slots_down of
       None \<Rightarrow> (- ESRCH, s)
     | Some i \<Rightarrow> if sig \<noteq> 0 then send_sig sig (task s ! i) priv s else (0, s))"

definition kill_all_step :: "int \<Rightarrow> nat \<Rightarrow> int \<times> nat \<times> sched_state \<Rightarrow> int \<times> nat \<times> sched_state" where
  "kill_all_step sig i = (\<lambda>(retval, count, s).
    if pid (slot_task s i) > 1 \<and> task s ! i \<noteq> current s then
      (case send_sig sig (task s ! i) False s of (err, s') \<Rightarrow>
         (if err \<noteq> - EPERM then err else retval, count + 1, s'))
    else (retval, count, s))"

definition sys_kill :: "int \<Rightarrow> int \<Rightarrow> sched_state \<Rightarrow> int \<times> sched_state" where
  "sys_kill pd sig s =
    (if pd = 0 then kill_pg (pgrp (cur s)) sig False s
     else if pd = -1 then
       (case fold (kill_all_step sig) slots_down (0, 0, s) of
          (retval, count, s') \<Rightarrow> (if count \<noteq> 0 then retval else - ESRCH, s'))
     else if pd < 0 then kill_pg (s32 (- pd)) sig False s
     else kill_proc pd sig False s)"

definition is_orphaned_pgrp :: "int \<Rightarrow> sched_state \<Rightarrow> bool" where
  "is_orphaned_pgrp pg s \<longleftrightarrow>
    \<not> list_ex (\<lambda>i. \<not> (task s ! i = NULL \<or> pgrp (slot_task s i) \<noteq> pg \<or> state (slot_task s i) = TASK_ZOMBIE \<or>
                     pid (tsk s (p_pptr (slot_task s i))) = 1) \<and>
                   pgrp (tsk s (p_pptr (slot_task s i))) \<noteq> pg \<and>
                   session (tsk s (p_pptr (slot_task s i))) = session (slot_task s i)) slots_down"

definition has_stopped_jobs :: "int \<Rightarrow> sched_state \<Rightarrow> bool" where
  "has_stopped_jobs pg s \<longleftrightarrow>
    list_ex (\<lambda>i. pgrp (slot_task s i) = pg \<and> state (slot_task s i) = TASK_STOPPED) slots_down"

section \<open>Masks and dispositions\<close>

definition sys_sgetmask :: "sched_state \<Rightarrow> u32" where
  "sys_sgetmask s = blocked (cur s)"

definition sys_ssetmask :: "u32 \<Rightarrow> sched_state \<Rightarrow> u32 \<times> sched_state" where
  "sys_ssetmask newmask s =
    (blocked (cur s),
     upd_cur (\<lambda>t. t\<lparr>blocked := newmask AND NOT (sigbit SIGKILL) AND NOT (sigbit SIGSTOP)\<rparr>) s)"

text \<open>\<^verbatim>\<open>sys_sigpending\<close> writes one word to user space: the model returns the word.\<close>

definition sys_sigpending :: "sched_state \<Rightarrow> int \<times> u32" where
  "sys_sigpending s = (0, blocked (cur s) AND signal (cur s))"

text \<open>
  \<^verbatim>\<open>sys_pause\<close>: \<open>away\<close> is what the rest of the system does to the state between the call
  of \<^verbatim>\<open>schedule()\<close> and the moment this process runs again.
\<close>

definition ignored_mask :: "sigaction list \<Rightarrow> u32" where
  "ignored_mask sas = fold (\<lambda>i m. if sa_handler (sas ! i) = 1 then m OR push_bit i 1 else m) [0..<32] 0"

definition sys_pause :: "(sched_state \<Rightarrow> sched_state) \<Rightarrow> sched_state \<Rightarrow> int \<times> sched_state" where
  "sys_pause away s =
    (let old_blocked = blocked (cur s);
         s = upd_cur (\<lambda>t. t\<lparr>blocked := blocked t OR ignored_mask (sigactions t)\<rparr>) s;
         s = upd_cur (\<lambda>t. t\<lparr>state := TASK_INTERRUPTIBLE\<rparr>) s;
         s = away s;
         s = upd_cur (\<lambda>t. t\<lparr>blocked := old_blocked\<rparr>) s
     in (- EINTR, s))"

text \<open>
  \<^verbatim>\<open>sys_sigsuspend\<close> writes back through the addresses of its own parameters, so that the
  restarted call sees \<^verbatim>\<open>restart\<close> and \<^verbatim>\<open>old_mask\<close>: the model returns the pair beside the result.
\<close>

definition sys_sigsuspend ::
  "(sched_state \<Rightarrow> sched_state) \<Rightarrow> int \<Rightarrow> u32 \<Rightarrow> u32 \<Rightarrow> sched_state \<Rightarrow> int \<times> (int \<times> u32) \<times> sched_state" where
  "sys_sigsuspend away restart old_mask sigset s =
    (if restart \<noteq> 0 then (- EINTR, (restart, old_mask), upd_cur (\<lambda>t. t\<lparr>blocked := old_mask\<rparr>) s)
     else
       let old_mask = blocked (cur s);
           s = upd_cur (\<lambda>t. t\<lparr>blocked := sigset\<rparr>) s;
           (r, s) = sys_pause away s
       in (- ERESTARTNOINTR, (0, old_mask), s))"

definition sys_signal :: "int \<Rightarrow> u32 \<Rightarrow> u32 \<Rightarrow> sched_state \<Rightarrow> int \<times> sched_state" where
  "sys_signal signum handler restorer s =
    (if signum < 1 \<or> signum > 32 \<or> signum = SIGKILL \<or> signum = SIGSTOP then (- EINVAL, s)
     else
       let i = nat (signum - 1);
           tmp = \<lparr>sa_handler = handler, sa_mask = 0, sa_flags = SA_ONESHOT OR SA_NOMASK, sa_restorer = restorer\<rparr>
       in (sint (sa_handler (sigactions (cur s) ! i)),
           upd_cur (\<lambda>t. t\<lparr>sigactions := (sigactions t)[i := tmp]\<rparr>) s))"

text \<open>
  \<^verbatim>\<open>sys_sigaction\<close> reads the new action from user space (the argument \<open>action\<close>) and, when
  \<^verbatim>\<open>oldaction\<close> is not null, writes the old one there (the returned option).
\<close>

definition sys_sigaction ::
  "int \<Rightarrow> sigaction \<Rightarrow> bool \<Rightarrow> sched_state \<Rightarrow> int \<times> sigaction option \<times> sched_state" where
  "sys_sigaction signum action want_old s =
    (if signum < 1 \<or> signum > 32 \<or> signum = SIGKILL \<or> signum = SIGSTOP then (- EINVAL, None, s)
     else
       let i = nat (signum - 1);
           tmp = sigactions (cur s) ! i;
           new = (if sa_flags action AND SA_NOMASK \<noteq> 0 then action\<lparr>sa_mask := 0\<rparr>
                  else action\<lparr>sa_mask := sa_mask action OR sigbit signum\<rparr>)
       in (0, if want_old then Some tmp else None,
           upd_cur (\<lambda>t. t\<lparr>sigactions := (sigactions t)[i := new]\<rparr>) s))"

section \<open>Delivery: do_signal\<close>

text \<open>
  The saved user registers on the kernel stack that \<^verbatim>\<open>do_signal\<close> rewrites in place, and the
  words it pushes on the user stack.
\<close>

record sig_regs =
  eax :: u32
  ecx :: u32
  edx :: u32
  orig_eax :: u32
  eip :: u32
  eflags :: u32
  esp :: u32

datatype sig_outcome =
    SigReturn int sig_regs "u32 list" sched_state
  | SigExit int

definition core_dump :: "int \<Rightarrow> int" where
  "core_dump signr = 0"

definition restart_regs :: "int \<Rightarrow> sigaction \<Rightarrow> sig_regs \<Rightarrow> sig_regs \<times> u32" where
  "restart_regs signr sa r =
    (if orig_eax r \<noteq> -1 \<and> (eax r = word_of_int (- ERESTARTSYS) \<or> eax r = word_of_int (- ERESTARTNOINTR)) then
       if eax r = word_of_int (- ERESTARTSYS) \<and>
          (sa_flags sa AND SA_INTERRUPT \<noteq> 0 \<or> signr < SIGCONT \<or> signr > SIGTTOU)
       then (r\<lparr>eax := word_of_int (- EINTR)\<rparr>, eip r)
       else (r\<lparr>eax := orig_eax r, eip := eip r - 2\<rparr>, eip r - 2)
     else (r, eip r))"

text \<open>The \<^verbatim>\<open>switch\<close> of the default dispositions, and the frame built for a user handler.\<close>

definition default_action :: "int \<Rightarrow> sig_regs \<Rightarrow> sched_state \<Rightarrow> sig_outcome" where
  "default_action signr r s =
    (if signr = SIGCONT \<or> signr = SIGCHLD then SigReturn 1 r [] s
     else if signr \<in> {SIGSTOP, SIGTSTP, SIGTTIN, SIGTTOU} then
       let s = upd_cur (\<lambda>t. t\<lparr>state := TASK_STOPPED, exit_code := signr\<rparr>) s;
           par = p_pptr (cur s);
           s = (if sa_flags (sigactions (tsk s par) ! nat (SIGCHLD - 1)) AND SA_NOCLDSTOP = 0
                then upd_task par (\<lambda>t. t\<lparr>signal := signal t OR sigbit SIGCHLD\<rparr>) s else s)
       in SigReturn 1 r [] s
     else if signr \<in> {SIGQUIT, SIGILL, SIGTRAP, SIGIOT, SIGFPE, SIGSEGV} \<and> core_dump signr \<noteq> 0
     then SigExit (or signr 0x80)
     else SigExit signr)"

definition setup_frame :: "int \<Rightarrow> sigaction \<Rightarrow> u32 \<Rightarrow> sig_regs \<Rightarrow> sched_state \<Rightarrow> sig_outcome" where
  "setup_frame signr sa old_eip r s =
    (let s = (if sa_flags sa AND SA_ONESHOT \<noteq> 0
              then upd_cur (\<lambda>t. t\<lparr>sigactions := (sigactions t)[nat (signr - 1) := sa\<lparr>sa_handler := 0\<rparr>]\<rparr>) s
              else s);
         longs = (if sa_flags sa AND SA_NOMASK \<noteq> 0 then 7 else 8);
         r = r\<lparr>eip := sa_handler sa, esp := esp r - 4 * longs\<rparr>;
         frame = [sa_restorer sa, word_of_int signr] @
                 (if sa_flags sa AND SA_NOMASK = 0 then [blocked (cur s)] else []) @
                 [eax r, ecx r, edx r, eflags r, old_eip]
     in SigReturn 0 r frame (upd_cur (\<lambda>t. t\<lparr>blocked := blocked t OR sa_mask sa\<rparr>) s))"

definition do_signal :: "int \<Rightarrow> sig_regs \<Rightarrow> sched_state \<Rightarrow> sig_outcome" where
  "do_signal signr r s =
    (let sa = sigactions (cur s) ! nat (signr - 1);
         (r, old_eip) = restart_regs signr sa r
     in if sa_handler sa = 1 then SigReturn 1 r [] s
        else if sa_handler sa = 0 then default_action signr r s
        else setup_frame signr sa old_eip r s)"

section \<open>Bits of a signal set\<close>

lemma sigbit_disjoint: "1 \<le> a \<Longrightarrow> 1 \<le> b \<Longrightarrow> a \<noteq> b \<Longrightarrow> sigbit a AND sigbit b = 0"
  unfolding sigbit_def by (rule bit_word_eqI) (auto simp: bit_simps)

definition deliver_bits :: "int \<Rightarrow> u32 \<Rightarrow> u32" where
  "deliver_bits sig m =
    (let m = (if sig = SIGKILL \<or> sig = SIGCONT then m AND NOT stop_bits else m);
         m = (if SIGSTOP \<le> sig \<and> sig \<le> SIGTTOU then m AND NOT (sigbit SIGCONT) else m)
     in m OR sigbit sig)"

text \<open>The stop signals and the continue signal exclude each other in a pending set.\<close>

definition stop_cont_exclusive :: "u32 \<Rightarrow> bool" where
  "stop_cont_exclusive m \<longleftrightarrow> m AND sigbit SIGCONT = 0 \<or> m AND stop_bits = 0"

inductive delivers :: "u32 \<Rightarrow> u32 \<Rightarrow> bool" where
  none: "delivers m m"
| more: "delivers m m' \<Longrightarrow> 1 \<le> sig \<Longrightarrow> sig \<le> 32 \<Longrightarrow> delivers m (deliver_bits sig m')"

lemma delivers_one: "1 \<le> sig \<Longrightarrow> sig \<le> 32 \<Longrightarrow> delivers m (deliver_bits sig m)"
  by (intro delivers.intros)

lemma delivers_trans: "delivers m' m'' \<Longrightarrow> delivers m m' \<Longrightarrow> delivers m m''"
  by (induction rule: delivers.induct) (auto intro: delivers.intros)

lemma sigbit_stop_bits:
  "sigbit SIGCONT AND stop_bits = 0" "sigbit SIGKILL AND stop_bits = 0"
  "1 \<le> sig \<Longrightarrow> sig < SIGSTOP \<or> SIGTTOU < sig \<Longrightarrow> sigbit sig AND stop_bits = 0"
  by (auto simp: stop_bits_def bit.conj_disj_distrib sigbit_disjoint)

lemma and_or_zero: "(a OR b) AND c = 0 \<longleftrightarrow> a AND c = 0 \<and> b AND c = (0 :: u32)"
  by (simp add: bit.conj_disj_distrib2) (metis and.commute or_eq_0_iff)

lemma deliver_exclusive:
  assumes "stop_cont_exclusive m" "1 \<le> sig" "sig \<le> 32"
  shows "stop_cont_exclusive (deliver_bits sig m)"
proof -
  consider "sig = SIGKILL \<or> sig = SIGCONT" | "SIGSTOP \<le> sig \<and> sig \<le> SIGTTOU"
    | "sig \<noteq> SIGKILL" "sig \<noteq> SIGCONT" "sig < SIGSTOP \<or> SIGTTOU < sig" by linarith
  then show ?thesis
  proof cases
    case 1
    then show ?thesis
      using sigbit_stop_bits by (auto simp: stop_cont_exclusive_def deliver_bits_def and_or_zero and.assoc)
  next
    case 2
    then have "sigbit sig AND sigbit SIGCONT = 0" using sigbit_disjoint [of sig SIGCONT] by auto
    with 2 show ?thesis
      by (auto simp: stop_cont_exclusive_def deliver_bits_def and_or_zero and.assoc)
  next
    case 3
    then have "sigbit sig AND sigbit SIGCONT = 0" "sigbit sig AND stop_bits = 0"
      using sigbit_disjoint [of sig SIGCONT] sigbit_stop_bits(3) assms by auto
    with 3 assms(1) show ?thesis
      by (auto simp: stop_cont_exclusive_def deliver_bits_def and_or_zero)
  qed
qed

lemma delivers_exclusive: "delivers m m' \<Longrightarrow> stop_cont_exclusive m \<Longrightarrow> stop_cont_exclusive m'"
  by (induction rule: delivers.induct) (auto intro: deliver_exclusive)

section \<open>The contract of the signal senders\<close>

text \<open>
  What every sending operation promises to the rest of the kernel: it changes pending
  sets only by delivering signals, and leaves the table, the links between processes and
  the scheduling parameters alone.
\<close>

definition task_signalled :: "task_struct \<Rightarrow> task_struct \<Rightarrow> bool" where
  "task_signalled t t' \<longleftrightarrow> delivers (signal t) (signal t') \<and>
    counter t' = counter t \<and> priority t' = priority t \<and>
    p_pptr t' = p_pptr t \<and> p_cptr t' = p_cptr t \<and> p_ysptr t' = p_ysptr t \<and> p_osptr t' = p_osptr t \<and>
    pid t' = pid t \<and> pgrp t' = pgrp t \<and> session t' = session t \<and> euid t' = euid t \<and> flags t' = flags t \<and>
    (state t = TASK_ZOMBIE \<longrightarrow> state t' = TASK_ZOMBIE)"

definition signalled :: "sched_state \<Rightarrow> sched_state \<Rightarrow> bool" where
  "signalled s s' \<longleftrightarrow> task s' = task s \<and> current s' = current s \<and> jiffies s' = jiffies s \<and>
    wait_queue s' = wait_queue s \<and> (\<forall>p. task_signalled (tsk s p) (tsk s' p))"

lemma task_signalled_refl [simp]: "task_signalled t t"
  by (simp add: task_signalled_def delivers.none)

lemma task_signalled_trans: "task_signalled t u \<Longrightarrow> task_signalled u v \<Longrightarrow> task_signalled t v"
  by (simp add: task_signalled_def) (blast intro: delivers_trans)

lemma signalled_refl [simp]: "signalled s s"
  by (simp add: signalled_def)

lemma signalled_trans: "signalled s t \<Longrightarrow> signalled t u \<Longrightarrow> signalled s u"
  by (simp add: signalled_def) (blast intro: task_signalled_trans)

lemma signalled_upd: "task_signalled (tsk s p) (f (tsk s p)) \<Longrightarrow> signalled s (upd_task p f s)"
  by (simp add: signalled_def)

locale signal_sender =
  fixes sender :: "sched_state \<Rightarrow> int \<times> sched_state"
  assumes contract: "signalled s (snd (sender s))"
begin

lemma table: "task (snd (sender s)) = task s" "current (snd (sender s)) = current s"
  using contract [of s] by (simp_all add: signalled_def)

lemma member: "task_signalled (tsk s p) (tsk (snd (sender s)) p)"
  using contract [of s] by (simp add: signalled_def)

lemma keeps_exclusive:
  "stop_cont_exclusive (signal (tsk s p)) \<Longrightarrow> stop_cont_exclusive (signal (tsk (snd (sender s)) p))"
  using member [of s p] by (auto simp: task_signalled_def intro: delivers_exclusive)

lemma keeps_sched_inv: "sched_inv s \<Longrightarrow> sched_inv (snd (sender s))"
proof -
  assume "sched_inv s"
  moreover have "sched_ok (tsk (snd (sender s)) p) = sched_ok (tsk s p)" for p
    using member [of s p] by (simp add: sched_ok_def task_signalled_def)
  ultimately show ?thesis by (simp add: sched_inv_def task_table_ok_def live_def table)
qed

end

subsection \<open>send\_sig\<close>

lemma post_signal_upd:
  "post_signal sig p s = upd_task p (\<lambda>t. t\<lparr>
     state := (if (sig = SIGKILL \<or> sig = SIGCONT) \<and> state t = TASK_STOPPED then TASK_RUNNING else state t),
     exit_code := (if sig = SIGKILL \<or> sig = SIGCONT then 0 else exit_code t),
     signal := deliver_bits sig (signal t)\<rparr>) s"
  by (simp add: post_signal_def upd_task_def deliver_bits_def Let_def)

lemma post_signal_signalled:
  "1 \<le> sig \<Longrightarrow> sig \<le> 32 \<Longrightarrow> signalled s (post_signal sig p s)"
  unfolding post_signal_upd by (rule signalled_upd) (simp add: task_signalled_def delivers_one)

lemma signalled_upd_trans:
  "signalled s t \<Longrightarrow> task_signalled (tsk t p) (f (tsk t p)) \<Longrightarrow> signalled s (upd_task p f t)"
  by (rule signalled_trans [OF _ signalled_upd])

lemma stop_traced_signalled: "signalled s (stop_traced sig p s)"
proof -
  have f: "state t \<noteq> TASK_ZOMBIE \<Longrightarrow> task_signalled t (t\<lparr>state := x\<rparr>)" "task_signalled t (t\<lparr>exit_code := y\<rparr>)" for t x y
    by (simp_all add: task_signalled_def delivers.none)
  show ?thesis
    unfolding stop_traced_def Let_def by (auto intro!: signalled_upd_trans f simp del: upd_task_simps(6))
qed

lemma stop_traced_signal: "signal (tsk (stop_traced sig p s) q) = signal (tsk s q)"
  unfolding stop_traced_def Let_def by simp

lemma send_sig_cases:
  obtains (refused) "snd (send_sig sig p priv s) = s" "fst (send_sig sig p priv s) < 0"
  | (null) "send_sig sig p priv s = (0, s)" "sig = 0"
  | (sent) "send_sig sig p priv s = (0, stop_traced sig p (post_signal sig p s))" "1 \<le> sig" "sig \<le> 32" "p \<noteq> NULL"
proof (cases "p = NULL \<or> sig < 0 \<or> sig > 32 \<or> \<not> priv \<and> euid (cur s) \<noteq> euid (tsk s p) \<and> \<not> suser s")
  case True
  then show ?thesis by (intro refused) (auto simp: send_sig_def)
next
  case False
  show ?thesis
  proof (cases "sig = 0")
    case True
    with False show ?thesis by (intro null) (simp_all add: send_sig_def)
  next
    case z: False
    with False show ?thesis by (intro sent) (simp_all add: send_sig_def)
  qed
qed

lemma send_sig_result:
  "fst (send_sig sig p priv s) = 0 \<longleftrightarrow>
    p \<noteq> NULL \<and> 0 \<le> sig \<and> sig \<le> 32 \<and> (priv \<or> euid (cur s) = euid (tsk s p) \<or> suser s)"
  by (auto simp: send_sig_def)

lemma send_sig_signalled: "signalled s (snd (send_sig sig p priv s))"
  by (rule send_sig_cases [of sig p priv s])
    (auto intro: signalled_trans post_signal_signalled stop_traced_signalled)

lemma send_sig_signal:
  "signal (tsk (snd (send_sig sig p priv s)) q) =
    (if q = p \<and> fst (send_sig sig p priv s) = 0 \<and> sig \<noteq> 0 then deliver_bits sig (signal (tsk s p))
     else signal (tsk s q))"
  by (rule send_sig_cases [of sig p priv s]) (auto simp: stop_traced_signal post_signal_upd)

interpretation send: signal_sender "send_sig sig p priv" for sig p priv
  by unfold_locales (rule send_sig_signalled)

subsection \<open>The group and process senders\<close>

lemma fold_signalled:
  assumes "\<And>i r n s. signalled s (snd (snd (f i (r, n, s))))"
  shows "signalled s (snd (snd (fold f is (r, n, s))))"
proof (induction "is" arbitrary: r n s)
  case Nil
  then show ?case by simp
next
  case (Cons i "is")
  obtain r' n' s' where e: "f i (r, n, s) = (r', n', s')" by (metis prod.collapse)
  have "signalled s s'" using assms [of s i r n] e by simp
  then show ?case using Cons.IH [of s' r' n'] e by (auto intro: signalled_trans)
qed

lemma kill_pg_step_signalled: "signalled s (snd (snd (kill_pg_step pg sig priv i (r, n, s))))"
  using send_sig_signalled [of s sig "task s ! i" priv]
  by (auto simp: kill_pg_step_def split: prod.split)

lemma kill_all_step_signalled: "signalled s (snd (snd (kill_all_step sig i (r, n, s))))"
  using send_sig_signalled [of s sig "task s ! i" False]
  by (auto simp: kill_all_step_def split: prod.split)

lemma kill_pg_signalled: "signalled s (snd (kill_pg pg sig priv s))"
  using fold_signalled [where f = "kill_pg_step pg sig priv", OF kill_pg_step_signalled, of s slots_down "- ESRCH" 0]
  by (auto simp: kill_pg_def split: prod.split)

interpretation kill_pg: signal_sender "kill_pg pg sig priv" for pg sig priv
  by unfold_locales (rule kill_pg_signalled)

interpretation kill_proc: signal_sender "kill_proc pd sig priv" for pd sig priv
  by unfold_locales (simp add: kill_proc_def send_sig_signalled split: option.split)

interpretation sys_kill: signal_sender "sys_kill pd sig" for pd sig
proof
  fix s
  show "signalled s (snd (sys_kill pd sig s))"
    using fold_signalled [where f = "kill_all_step sig", OF kill_all_step_signalled, of s slots_down 0 0]
    by (auto simp: sys_kill_def kill_pg.contract kill_proc.contract split: prod.split)
qed

text \<open>
  C24. No sequence of \<^verbatim>\<open>kill\<close> calls leaves a process with both \<^verbatim>\<open>SIGCONT\<close> and a stop signal
  pending: whatever process, group or broadcast \<^verbatim>\<open>sys_kill\<close> addresses, the exclusion of the two
  kinds is kept in every task, and so are the bounds the scheduler relies on.
\<close>

theorem sys_kill_keeps_invariants:
  assumes "\<forall>p. stop_cont_exclusive (signal (tsk s p))" "sched_inv s"
  shows "(\<forall>p. stop_cont_exclusive (signal (tsk (snd (sys_kill pd sig s)) p))) \<and>
    sched_inv (snd (sys_kill pd sig s))"
  using assms sys_kill.keeps_exclusive sys_kill.keeps_sched_inv by blast

theorem sys_kill_keeps_invariants_witness:
  "stop_cont_exclusive (signal (tsk (snd (sys_kill 1 19 two_tasks)) 2))"
proof -
  have "\<forall>p. stop_cont_exclusive (signal (tsk two_tasks p))"
    by (simp add: stop_cont_exclusive_def init_task_def)
  from sys_kill_keeps_invariants [OF this two_tasks_inv, of 1 19] show ?thesis by blast
qed

lemma signalled_pgrp: "signalled s s' \<Longrightarrow> pgrp (slot_task s' i) = pgrp (slot_task s i)"
  by (simp add: signalled_def task_signalled_def slot_task_def)

lemma slot_nonnull: "pgrp (tsk s NULL) \<noteq> pg \<Longrightarrow> pgrp (slot_task s i) = pg \<Longrightarrow> task s ! i \<noteq> NULL"
  by (metis slot_task_def)

lemma kill_pg_step_priv:
  assumes "1 \<le> sig" "sig \<le> 32" "pgrp (tsk s NULL) \<noteq> pg"
  shows "kill_pg_step pg sig True i (r, n, s) =
    (if pgrp (slot_task s i) = pg then (r, n + 1, snd (send_sig sig (task s ! i) True s)) else (r, n, s))"
proof -
  have "fst (send_sig sig (task s ! i) True s) = 0" if "pgrp (slot_task s i) = pg"
    using assms slot_nonnull [OF assms(3) that] by (subst send_sig_result) auto
  then show ?thesis using assms by (auto simp: kill_pg_step_def split: prod.split)
qed

lemma kill_pg_fold:
  assumes "1 \<le> sig" "sig \<le> 32" "pgrp (tsk s NULL) \<noteq> pg" "distinct is"
    and "inj_on (\<lambda>i. task s ! i) {i \<in> set is. task s ! i \<noteq> NULL}"
  shows "\<exists>s'. fold (kill_pg_step pg sig True) is (r, n, s) =
      (r, n + length (filter (\<lambda>i. pgrp (slot_task s i) = pg) is), s') \<and> signalled s s' \<and>
    (\<forall>p. signal (tsk s' p) = (if p \<in> (\<lambda>i. task s ! i) ` {i \<in> set is. pgrp (slot_task s i) = pg}
        then deliver_bits sig (signal (tsk s p)) else signal (tsk s p)))"
  using assms
proof (induction "is" arbitrary: n s)
  case Nil
  then show ?case by simp
next
  case (Cons i "is")
  have inj: "inj_on (\<lambda>i. task s ! i) {i \<in> set is. task s ! i \<noteq> NULL}"
    by (rule inj_on_subset [OF Cons.prems(5)]) auto
  note st = kill_pg_step_priv [OF Cons.prems(1-3)]
  show ?case
  proof (cases "pgrp (slot_task s i) = pg")
    case False
    with Cons.IH [OF Cons.prems(1-3) _ inj, of n] Cons.prems(4) show ?thesis by (auto simp: st)
  next
    case True
    let ?p = "task s ! i" and ?s1 = "snd (send_sig sig (task s ! i) True s)"
    have s1: "signalled s ?s1" by (rule send_sig_signalled)
    then have t1: "task ?s1 = task s" by (simp add: signalled_def)
    have g1: "pgrp (slot_task ?s1 j) = pgrp (slot_task s j)" for j using s1 by (rule signalled_pgrp)
    have n1: "pgrp (tsk ?s1 NULL) \<noteq> pg" using s1 Cons.prems(3) by (simp add: signalled_def task_signalled_def)
    have nz: "?p \<noteq> NULL" using slot_nonnull [OF Cons.prems(3) True] .
    have sent: "signal (tsk ?s1 q) = (if q = ?p then deliver_bits sig (signal (tsk s q)) else signal (tsk s q))" for q
      using Cons.prems(1,2) nz by (subst send_sig_signal) (auto simp: send_sig_result)
    have fresh: "?p \<notin> (\<lambda>i. task s ! i) ` {j \<in> set is. pgrp (slot_task s j) = pg}"
    proof
      assume "?p \<in> (\<lambda>i. task s ! i) ` {j \<in> set is. pgrp (slot_task s j) = pg}"
      then obtain j where j: "j \<in> set is" "task s ! i = task s ! j" by auto
      have "i = j" by (rule inj_onD [OF Cons.prems(5) j(2)]) (use j nz in auto)
      with j Cons.prems(4) show False by simp
    qed
    obtain s' where s': "fold (kill_pg_step pg sig True) is (r, n + 1, ?s1) =
        (r, n + 1 + length (filter (\<lambda>i. pgrp (slot_task s i) = pg) is), s')" "signalled ?s1 s'"
      "\<forall>p. signal (tsk s' p) = (if p \<in> (\<lambda>i. task s ! i) ` {i \<in> set is. pgrp (slot_task s i) = pg}
        then deliver_bits sig (signal (tsk ?s1 p)) else signal (tsk ?s1 p))"
      using Cons.IH [OF Cons.prems(1,2) n1, of "n + 1"] Cons.prems(4) inj unfolding t1 g1 by auto
    show ?thesis
    proof (intro exI conjI allI)
      show "fold (kill_pg_step pg sig True) (i # is) (r, n, s) =
        (r, n + length (filter (\<lambda>i. pgrp (slot_task s i) = pg) (i # is)), s')"
        using s'(1) True by (simp add: st)
      show "signalled s s'" using s1 s'(2) by (rule signalled_trans)
      fix p
      show "signal (tsk s' p) = (if p \<in> (\<lambda>i. task s ! i) ` {j \<in> set (i # is). pgrp (slot_task s j) = pg}
        then deliver_bits sig (signal (tsk s p)) else signal (tsk s p))"
        using s'(3) sent fresh True by auto
    qed
  qed
qed

text \<open>
  \<^verbatim>\<open>kill_pg\<close> with privilege reaches exactly the processes of the group: every task in
  slots 1 to 63 with that process group gets the signal in its pending set, no other pending set
  changes, and the result is 0 if there was such a task and \<^verbatim>\<open>-ESRCH\<close> otherwise.  The
  hypothesis on \<open>tsk s NULL\<close> says that the memory at address 0, which the loop reads for an
  empty slot, does not look like a member of the group.
\<close>

theorem kill_pg_reaches_group:
  assumes "task_table_ok s" "1 \<le> sig" "sig \<le> 32" "0 < pg" "pgrp (tsk s NULL) \<noteq> pg"
  shows "fst (kill_pg pg sig True s) = (if \<exists>p \<in> live s. pgrp (tsk s p) = pg then 0 else - ESRCH) \<and>
    (\<forall>p. signal (tsk (snd (kill_pg pg sig True s)) p) =
      (if p \<in> live s \<and> pgrp (tsk s p) = pg then deliver_bits sig (signal (tsk s p)) else signal (tsk s p)))"
proof -
  have inj: "inj_on (\<lambda>i. task s ! i) {i \<in> set slots_down. task s ! i \<noteq> NULL}"
    using assms(1) by (auto simp: task_table_ok_def inj_on_def)
  have mem: "p \<in> (\<lambda>i. task s ! i) ` {i \<in> set slots_down. pgrp (slot_task s i) = pg} \<longleftrightarrow>
      p \<in> live s \<and> pgrp (tsk s p) = pg" for p
    using slot_nonnull [OF assms(5)] by (auto simp: live_def slot_task_def)
  have "filter (\<lambda>i. pgrp (slot_task s i) = pg) slots_down \<noteq> [] \<longleftrightarrow>
      (\<exists>p. p \<in> (\<lambda>i. task s ! i) ` {i \<in> set slots_down. pgrp (slot_task s i) = pg})"
    by (auto simp: filter_empty_conv)
  then have ex: "filter (\<lambda>i. pgrp (slot_task s i) = pg) slots_down \<noteq> [] \<longleftrightarrow> (\<exists>p \<in> live s. pgrp (tsk s p) = pg)"
    unfolding mem by blast
  obtain s' where s': "fold (kill_pg_step pg sig True) slots_down (- ESRCH, 0, s) =
      (- ESRCH, 0 + length (filter (\<lambda>i. pgrp (slot_task s i) = pg) slots_down), s')"
    "\<forall>p. signal (tsk s' p) = (if p \<in> (\<lambda>i. task s ! i) ` {i \<in> set slots_down. pgrp (slot_task s i) = pg}
        then deliver_bits sig (signal (tsk s p)) else signal (tsk s p))"
    using kill_pg_fold [OF assms(2,3,5) distinct_slots_down inj, of "- ESRCH" 0] by blast
  have "kill_pg pg sig True s =
      (if filter (\<lambda>i. pgrp (slot_task s i) = pg) slots_down \<noteq> [] then 0 else - ESRCH, s')"
    using assms(2-4) s'(1) by (simp add: kill_pg_def)
  then show ?thesis using s'(2) unfolding mem ex by simp
qed

theorem kill_pg_reaches_group_witness:
  "fst (kill_pg 7 9 True (upd_task 3 (\<lambda>t. t\<lparr>pgrp := 7\<rparr>) two_tasks)) = 0"
proof -
  let ?s = "upd_task 3 (\<lambda>t. t\<lparr>pgrp := 7\<rparr>) two_tasks"
  have "task_table_ok ?s" "live ?s = {2, 3}"
    using two_tasks_ok two_tasks_live by (simp_all add: task_table_ok_def live_def)
  with kill_pg_reaches_group [of ?s 9 7] show ?thesis by (simp add: init_task_def)
qed

section \<open>SIGKILL and SIGSTOP\<close>

text \<open>
  \<^verbatim>\<open>sys_sigsuspend\<close>, unlike \<^verbatim>\<open>sys_ssetmask\<close>, installs the caller's mask unfiltered: when it
  returns for a signal the mask is exactly the argument, so \<^verbatim>\<open>SIGKILL\<close> and \<^verbatim>\<open>SIGSTOP\<close> can be blocked.
\<close>

theorem sys_sigsuspend_unfiltered:
  assumes "\<And>s. current (away s) = current s"
  shows "blocked (cur (snd (snd (sys_sigsuspend away 0 old_mask sigset s)))) = sigset"
  using assms by (simp add: sys_sigsuspend_def sys_pause_def cur_def Let_def)

theorem sys_sigsuspend_unfiltered_witness:
  "blocked (cur (snd (snd (sys_sigsuspend id 0 0 (sigbit SIGKILL) two_tasks)))) AND sigbit SIGKILL \<noteq> 0"
  using sys_sigsuspend_unfiltered [of id 0 "sigbit SIGKILL" two_tasks] by (simp add: sigbit_def)

section \<open>Delivery to a handler\<close>

text \<open>
  The interrupted system call is to be made again: always for \<^verbatim>\<open>ERESTARTNOINTR\<close>, for \<^verbatim>\<open>ERESTARTSYS\<close> only when the signal is one of job control and
  the handler was not installed with \<^verbatim>\<open>SA_INTERRUPT\<close>.
\<close>

definition call_again :: "int \<Rightarrow> sigaction \<Rightarrow> sig_regs \<Rightarrow> bool" where
  "call_again signr sa r \<longleftrightarrow> orig_eax r \<noteq> -1 \<and>
    (eax r = - 513 \<or> eax r = - 512 \<and> sa_flags sa AND SA_INTERRUPT = 0 \<and> signr \<in> {18..22})"

text \<open>
  C35. When a process has a handler installed, \<^verbatim>\<open>do_signal\<close> resumes it at the handler with
  the user stack lowered by exactly the words pushed.  The frame holds, in this order, the restorer,
  the signal number, the interrupted mask unless \<^verbatim>\<open>SA_NOMASK\<close> is set, \<^verbatim>\<open>eax\<close>, \<^verbatim>\<open>ecx\<close>, \<^verbatim>\<open>edx\<close>, the flags and the return address.
  A system call that is to be made again has its number back in \<^verbatim>\<open>eax\<close> and the return address two bytes
  back, on the call instruction; one interrupted with \<^verbatim>\<open>ERESTARTSYS\<close> that is not made again fails with \<^verbatim>\<open>-EINTR\<close>; in all other cases
  \<^verbatim>\<open>eax\<close> and the return address are those of the interrupted program.  The action's mask is blocked, a one-shot handler is
  reset, and the other handlers stay.
\<close>

theorem do_signal_handler_frame:
  assumes "sa = sigactions (cur s) ! nat (signr - 1)" "sa_handler sa \<noteq> 0" "sa_handler sa \<noteq> 1"
    and "nat (signr - 1) < length (sigactions (cur s))"
  shows "\<exists>r' s' a ret. do_signal signr r s = SigReturn 0 r'
      ([sa_restorer sa, word_of_int signr] @ (if sa_flags sa AND SA_NOMASK = 0 then [blocked (cur s)] else []) @ [a, ecx r, edx r, eflags r, ret]) s' \<and>
    (if call_again signr sa r then a = orig_eax r \<and> ret = eip r - 2
     else if orig_eax r \<noteq> -1 \<and> eax r = - 512 then a = - 4 \<and> ret = eip r
     else a = eax r \<and> ret = eip r) \<and>
    eip r' = sa_handler sa \<and> esp r' = esp r - (if sa_flags sa AND SA_NOMASK = 0 then 32 else 28) \<and>
    blocked (cur s') = blocked (cur s) OR sa_mask sa \<and>
    sigactions (cur s') = (if sa_flags sa AND SA_ONESHOT = 0 then sigactions (cur s)
      else (sigactions (cur s))[nat (signr - 1) := sa\<lparr>sa_handler := 0\<rparr>])"
proof -
  obtain r1 e1 where r1: "restart_regs signr sa r = (r1, e1)" by (metis prod.collapse)
  have keep: "eflags r1 = eflags r" "esp r1 = esp r" "ecx r1 = ecx r" "edx r1 = edx r"
    and ret: "if call_again signr sa r then eax r1 = orig_eax r \<and> e1 = eip r - 2
     else if orig_eax r \<noteq> -1 \<and> eax r = - 512 then eax r1 = - 4 \<and> e1 = eip r
     else eax r1 = eax r \<and> e1 = eip r"
    using r1 by (auto simp: restart_regs_def call_again_def split: if_splits)
  have "do_signal signr r s = setup_frame signr sa e1 r1 s"
    using assms(2,3) r1 by (simp add: do_signal_def assms(1) Let_def)
  then show ?thesis
    using keep ret assms(1,4) by (auto simp: setup_frame_def Let_def cur_def)
qed

definition handler_task :: sched_state where
  "handler_task = upd_task 2 (\<lambda>t. t\<lparr>sigactions := (sigactions t)[14 :=
     \<lparr>sa_handler = 0x1000, sa_mask = 4, sa_flags = 0, sa_restorer = 0x2000\<rparr>]\<rparr>) two_tasks"

theorem do_signal_handler_frame_witness:
  "\<exists>r' s'. do_signal 15 \<lparr>eax = - 512, ecx = 2, edx = 3, orig_eax = 7, eip = 0x400, eflags = 0x202, esp = 0x8000\<rparr>
     handler_task = SigReturn 0 r' [0x2000, 15, 0, - 4, 2, 3, 0x202, 0x400] s' \<and> eip r' = 0x1000 \<and> esp r' = 0x7fe0"
  using do_signal_handler_frame [OF refl, of handler_task 15
    "\<lparr>eax = - 512, ecx = 2, edx = 3, orig_eax = 7, eip = 0x400, eflags = 0x202, esp = 0x8000\<rparr>"]
  by (auto simp: handler_task_def cur_def init_task_def call_again_def)

text \<open>
  The mask of an action is stored as the caller gives it and blocked while the handler runs, without the filter of \<^verbatim>\<open>sys_ssetmask\<close>: a handler
  whose mask contains \<^verbatim>\<open>SIGKILL\<close> cannot be killed until it returns.
\<close>

lemma handler_mask_blocks_kill:
  assumes "sa = sigactions (cur s) ! nat (signr - 1)" "sa_handler sa \<noteq> 0" "sa_handler sa \<noteq> 1" "bit (sa_mask sa) (nat (SIGKILL - 1))"
  shows "\<exists>r' frame s'. do_signal signr r s = SigReturn 0 r' frame s' \<and> bit (blocked (cur s')) (nat (SIGKILL - 1))"
  using assms by (cases "restart_regs signr sa r") (auto simp: do_signal_def setup_frame_def Let_def cur_def bit_or_iff)

end
