(* ===== verification/Tty.thy ===== *)
theory Tty
  imports Console Signals Pipe
begin

text \<open>
  Terminals: the character queues of \<^verbatim>\<open>include/linux/tty.h\<close>, the line discipline, reading and writing in \<^verbatim>\<open>kernel/chr_drv/tty_io.c\<close>,
  the pseudo terminals of \<^verbatim>\<open>kernel/chr_drv/pty.c\<close> and the ioctls of \<^verbatim>\<open>kernel/chr_drv/tty_ioctl.c\<close>.

  A terminal writes its output through a function pointer.  The model passes the function as an argument (\<open>driver\<close>) and ties the knot in \<open>tty_driver\<close>,
  where the console answers a request of the remote side by cooking the answer, and the two ends of a pseudo terminal copy to each other; the
  fuel counts the nested calls.  The serial driver touches ports only.  The terminal settings are in the record of the consoles, which resets them
  on \<^verbatim>\<open>ESC c\<close>.  Interrupts are not modelled: \<^verbatim>\<open>cli\<close> and \<^verbatim>\<open>sti\<close> are left out.
\<close>

section \<open>State\<close>

record tty_queue =
  q_data :: u32
  q_head :: u32
  q_tail :: u32
  proc_list :: ptr
  q_buf :: "u8 list"

record winsize =
  ws_row :: u16
  ws_col :: u16
  ws_xpixel :: u16
  ws_ypixel :: u16

datatype write_fn = no_write | con_write_fn | rs_write_fn | mpty_write_fn | spty_write_fn

record tty_struct =
  tt_pgrp :: int
  tt_session :: int
  stopped :: bool
  busy :: u32
  winsz :: winsize
  write_op :: write_fn
  read_q :: ptr
  write_q :: ptr
  secondary :: ptr

record ttys =
  tty_queues :: "ptr \<Rightarrow> tty_queue"
  tty_table :: "nat \<Rightarrow> tty_struct"
  consoles :: con
  sched :: sched_state
  cr_flag :: bool
  table_list :: "ptr list"

type_synonym driver = "nat \<Rightarrow> ttys \<Rightarrow> ttys outcome"

abbreviation tt :: "nat \<Rightarrow> ttys \<Rightarrow> tty_struct" where "tt n s \<equiv> tty_table s n"
abbreviation que :: "ptr \<Rightarrow> ttys \<Rightarrow> tty_queue" where "que p s \<equiv> tty_queues s p"
abbreviation rq :: "nat \<Rightarrow> ttys \<Rightarrow> tty_queue" where "rq n s \<equiv> que (read_q (tt n s)) s"
abbreviation wq :: "nat \<Rightarrow> ttys \<Rightarrow> tty_queue" where "wq n s \<equiv> que (write_q (tt n s)) s"
abbreviation sq :: "nat \<Rightarrow> ttys \<Rightarrow> tty_queue" where "sq n s \<equiv> que (secondary (tt n s)) s"
abbreviation termios_of :: "nat \<Rightarrow> ttys \<Rightarrow> termios" where "termios_of n s \<equiv> tty_termios (consoles s) n"

definition upd_queue :: "ptr \<Rightarrow> (tty_queue \<Rightarrow> tty_queue) \<Rightarrow> ttys \<Rightarrow> ttys" where
  "upd_queue p f s = s\<lparr>tty_queues := (tty_queues s)(p := f (tty_queues s p))\<rparr>"

definition upd_tty :: "nat \<Rightarrow> (tty_struct \<Rightarrow> tty_struct) \<Rightarrow> ttys \<Rightarrow> ttys" where
  "upd_tty n f s = s\<lparr>tty_table := (tty_table s)(n := f (tty_table s n))\<rparr>"

definition upd_sched :: "(sched_state \<Rightarrow> sched_state) \<Rightarrow> ttys \<Rightarrow> ttys" where
  "upd_sched f s = s\<lparr>sched := f (sched s)\<rparr>"

subsection \<open>Queues\<close>

definition INC :: "u32 \<Rightarrow> u32" where "INC a = (a + 1) AND 1023"
definition DEC :: "u32 \<Rightarrow> u32" where "DEC a = (a - 1) AND 1023"
definition EMPTY :: "tty_queue \<Rightarrow> bool" where "EMPTY q \<longleftrightarrow> q_head q = q_tail q"
definition LEFT :: "tty_queue \<Rightarrow> u32" where "LEFT q = (q_tail q - q_head q - 1) AND 1023"
definition LAST :: "tty_queue \<Rightarrow> u8" where "LAST q = q_buf q ! unat (1023 AND (q_head q - 1))"
definition FULL :: "tty_queue \<Rightarrow> bool" where "FULL q \<longleftrightarrow> LEFT q = 0"
definition CHARS :: "tty_queue \<Rightarrow> u32" where "CHARS q = (q_head q - q_tail q) AND 1023"

definition GETCH :: "tty_queue \<Rightarrow> u8 \<times> tty_queue" where
  "GETCH q = (q_buf q ! unat (q_tail q), q\<lparr>q_tail := INC (q_tail q)\<rparr>)"

definition PUTCH :: "u8 \<Rightarrow> tty_queue \<Rightarrow> tty_queue" where
  "PUTCH c q = q\<lparr>q_buf := (q_buf q)[unat (q_head q) := c], q_head := INC (q_head q)\<rparr>"

definition putch :: "ptr \<Rightarrow> u8 \<Rightarrow> ttys \<Rightarrow> ttys" where
  "putch p c s = upd_queue p (PUTCH c) s"

definition getch :: "ptr \<Rightarrow> ttys \<Rightarrow> u8 \<times> ttys" where
  "getch p s = (fst (GETCH (que p s)), upd_queue p (\<lambda>q. snd (GETCH q)) s)"

subsection \<open>Settings\<close>

definition L_FLAG :: "nat \<Rightarrow> u32 \<Rightarrow> ttys \<Rightarrow> bool" where "L_FLAG n f s \<longleftrightarrow> c_lflag (termios_of n s) AND f \<noteq> 0"
definition I_FLAG :: "nat \<Rightarrow> u32 \<Rightarrow> ttys \<Rightarrow> bool" where "I_FLAG n f s \<longleftrightarrow> c_iflag (termios_of n s) AND f \<noteq> 0"
definition O_FLAG :: "nat \<Rightarrow> u32 \<Rightarrow> ttys \<Rightarrow> bool" where "O_FLAG n f s \<longleftrightarrow> c_oflag (termios_of n s) AND f \<noteq> 0"
definition C_HUP :: "nat \<Rightarrow> ttys \<Rightarrow> bool" where "C_HUP n s \<longleftrightarrow> c_cflag (termios_of n s) AND 15 = 0"

abbreviation (input) ISIG :: u32 where "ISIG \<equiv> 1"
abbreviation (input) ICANON :: u32 where "ICANON \<equiv> 2"
abbreviation (input) ECHO :: u32 where "ECHO \<equiv> 8"
abbreviation (input) ECHONL :: u32 where "ECHONL \<equiv> 64"
abbreviation (input) TOSTOP :: u32 where "TOSTOP \<equiv> 256"
abbreviation (input) ECHOCTL :: u32 where "ECHOCTL \<equiv> 512"
abbreviation (input) ECHOKE :: u32 where "ECHOKE \<equiv> 2048"
abbreviation (input) ISTRIP :: u32 where "ISTRIP \<equiv> 32"
abbreviation (input) INLCR :: u32 where "INLCR \<equiv> 64"
abbreviation (input) IGNCR :: u32 where "IGNCR \<equiv> 128"
abbreviation (input) ICRNL :: u32 where "ICRNL \<equiv> 256"
abbreviation (input) IUCLC :: u32 where "IUCLC \<equiv> 512"
abbreviation (input) IXON :: u32 where "IXON \<equiv> 1024"
abbreviation (input) OPOST :: u32 where "OPOST \<equiv> 1"
abbreviation (input) OLCUC :: u32 where "OLCUC \<equiv> 2"
abbreviation (input) ONLCR :: u32 where "ONLCR \<equiv> 4"
abbreviation (input) OCRNL :: u32 where "OCRNL \<equiv> 8"
abbreviation (input) ONLRET :: u32 where "ONLRET \<equiv> 32"
abbreviation (input) VINTR :: nat where "VINTR \<equiv> 0"
abbreviation (input) VQUIT :: nat where "VQUIT \<equiv> 1"
abbreviation (input) VERASE :: nat where "VERASE \<equiv> 2"
abbreviation (input) VKILL :: nat where "VKILL \<equiv> 3"
abbreviation (input) VEOF :: nat where "VEOF \<equiv> 4"
abbreviation (input) VTIME :: nat where "VTIME \<equiv> 5"
abbreviation (input) VMIN :: nat where "VMIN \<equiv> 6"
abbreviation (input) VSTART :: nat where "VSTART \<equiv> 8"
abbreviation (input) VSTOP :: nat where "VSTOP \<equiv> 9"
abbreviation (input) VSUSP :: nat where "VSUSP \<equiv> 10"

text \<open>A control character that is not disabled (\<^verbatim>\<open>_POSIX_VDISABLE\<close>, zero).\<close>

definition is_cc :: "nat \<Rightarrow> nat \<Rightarrow> u8 \<Rightarrow> ttys \<Rightarrow> bool" where
  "is_cc n i c s \<longleftrightarrow> c_cc (termios_of n s) ! i \<noteq> 0 \<and> c = c_cc (termios_of n s) ! i"

text \<open>Above 127 the macros index the table of character classes with a negative number; the model leaves such characters alone.\<close>

definition tolower :: "u8 \<Rightarrow> u8" where "tolower c = (if 65 \<le> c \<and> c \<le> 90 then c + 32 else c)"
definition toupper :: "u8 \<Rightarrow> u8" where "toupper c = (if 97 \<le> c \<and> c \<le> 122 then c - 32 else c)"

definition pending :: "ttys \<Rightarrow> bool" where
  "pending s \<longleftrightarrow> signal (cur (sched s)) AND NOT (blocked (cur (sched s))) \<noteq> 0"

definition wake :: "ptr \<Rightarrow> ttys \<Rightarrow> ttys outcome" where
  "wake p s = (case wake_up 65 (proc_list (que p s)) (sched s) of None \<Rightarrow> Asleep | Some t \<Rightarrow> Done (s\<lparr>sched := t\<rparr>))"

definition sleep_tty :: "ptr \<Rightarrow> (ttys \<Rightarrow> ttys) \<Rightarrow> ttys \<Rightarrow> ttys outcome" where
  "sleep_tty p away s =
    (case sleep_on_enter (proc_list (que p s)) TASK_INTERRUPTIBLE (sched s) of
       None \<Rightarrow> Panicked
     | Some t \<Rightarrow>
         let s = away (s\<lparr>sched := t\<rparr>)
         in case sleep_on_leave 65 (proc_list (que p s)) (sched s) of None \<Rightarrow> Asleep | Some t \<Rightarrow> Done (s\<lparr>sched := t\<rparr>))"

fun sleep_if_empty :: "(ttys \<Rightarrow> ttys) list \<Rightarrow> ptr \<Rightarrow> ttys \<Rightarrow> ((ttys \<Rightarrow> ttys) list \<times> ttys) outcome" where
  "sleep_if_empty aways p s =
    (if \<not> pending s \<and> EMPTY (que p s) then
       (case aways of [] \<Rightarrow> Asleep | a # rest \<Rightarrow> then_do (sleep_tty p a s) (sleep_if_empty rest p))
     else Done (aways, s))"

fun sleep_while_full :: "(ttys \<Rightarrow> ttys) list \<Rightarrow> ptr \<Rightarrow> ttys \<Rightarrow> ((ttys \<Rightarrow> ttys) list \<times> ttys) outcome" where
  "sleep_while_full aways p s =
    (if \<not> pending s \<and> LEFT (que p s) < 128 then
       (case aways of [] \<Rightarrow> Asleep | a # rest \<Rightarrow> then_do (sleep_tty p a s) (sleep_while_full rest p))
     else Done (aways, s))"

definition sleep_if_full :: "(ttys \<Rightarrow> ttys) list \<Rightarrow> ptr \<Rightarrow> ttys \<Rightarrow> ((ttys \<Rightarrow> ttys) list \<times> ttys) outcome" where
  "sleep_if_full aways p s = (if \<not> FULL (que p s) then Done (aways, s) else sleep_while_full aways p s)"

section \<open>The line discipline\<close>

definition TTY_WRITE_FLUSH :: "driver \<Rightarrow> driver" where
  "TTY_WRITE_FLUSH wr n s =
    (if \<not> EMPTY (wq n s) \<and> busy (tt n s) AND 1 = 0 then
       then_do (wr n (upd_tty n (\<lambda>t. t\<lparr>busy := busy t OR 1\<rparr>) s)) (\<lambda>s. Done (upd_tty n (\<lambda>t. t\<lparr>busy := busy t AND NOT 1\<rparr>) s))
     else Done s)"

text \<open>The translations of the input flags; \<open>None\<close> is an ignored carriage return.\<close>

definition in_char :: "nat \<Rightarrow> u8 \<Rightarrow> ttys \<Rightarrow> u8 option" where
  "in_char n c s =
    (let c = (if I_FLAG n ISTRIP s then c AND 0x7F else c)
     in map_option (\<lambda>c. if I_FLAG n IUCLC s then tolower c else c)
       (if c = 13 then if I_FLAG n ICRNL s then Some 10 else if I_FLAG n IGNCR s then None else Some c
        else if c = 10 \<and> I_FLAG n INLCR s then Some 13 else Some c))"

definition line_end :: "nat \<Rightarrow> u8 \<Rightarrow> ttys \<Rightarrow> bool" where
  "line_end n c s \<longleftrightarrow> c = 10 \<or> is_cc n VEOF c s"

definition erase_echo :: "driver \<Rightarrow> nat \<Rightarrow> u8 \<Rightarrow> ttys \<Rightarrow> ttys outcome" where
  "erase_echo wr n c s =
    (if L_FLAG n ECHO s then
       let s = (if c < 32 then putch (write_q (tt n s)) 127 s else s)
       in TTY_WRITE_FLUSH wr n (putch (write_q (tt n s)) 127 s)
     else Done s)"

definition erase_last :: "driver \<Rightarrow> driver" where
  "erase_last wr n s =
    then_do (erase_echo wr n (LAST (sq n s)) s) (\<lambda>s. Done (upd_queue (secondary (tt n s)) (\<lambda>q. q\<lparr>q_head := DEC (q_head q)\<rparr>) s))"

definition nothing_to_erase :: "nat \<Rightarrow> ttys \<Rightarrow> bool" where
  "nothing_to_erase n s \<longleftrightarrow> EMPTY (sq n s) \<or> line_end n (LAST (sq n s)) s"

fun kill_line :: "driver \<Rightarrow> nat \<Rightarrow> driver" where
  "kill_line wr 0 n s = Asleep"
| "kill_line wr (Suc fuel) n s = (if nothing_to_erase n s then Done s else then_do (erase_last wr n s) (kill_line wr fuel n))"

definition accept_char :: "driver \<Rightarrow> nat \<Rightarrow> u8 \<Rightarrow> ttys \<Rightarrow> ttys outcome" where
  "accept_char wr n c s =
    (let s = (if line_end n c s then upd_queue (secondary (tt n s)) (\<lambda>q. q\<lparr>q_data := q_data q + 1\<rparr>) s else s);
         w = write_q (tt n s);
         s = (if (L_FLAG n ECHO s \<or> L_FLAG n ECHONL s) \<and> c = 10 then putch w 13 (putch w 10 s)
              else if L_FLAG n ECHO s then
                if c < 32 \<and> L_FLAG n ECHOCTL s then putch w (c + 64) (putch w 94 s) else putch w c s
              else s)
     in TTY_WRITE_FLUSH wr n (putch (secondary (tt n s)) c s))"

definition cook_char :: "driver \<Rightarrow> nat \<Rightarrow> u8 \<Rightarrow> ttys \<Rightarrow> ttys outcome" where
  "cook_char wr n c s =
    (if L_FLAG n ICANON s \<and> is_cc n VKILL c s then kill_line wr 1024 n s
     else if L_FLAG n ICANON s \<and> is_cc n VERASE c s then (if nothing_to_erase n s then Done s else erase_last wr n s)
     else if I_FLAG n IXON s \<and> is_cc n VSTOP c s then Done (upd_tty n (\<lambda>t. t\<lparr>stopped := True\<rparr>) s)
     else if I_FLAG n IXON s \<and> is_cc n VSTART c s then TTY_WRITE_FLUSH wr n (upd_tty n (\<lambda>t. t\<lparr>stopped := False\<rparr>) s)
     else if L_FLAG n ISIG s \<and> is_cc n VINTR c s then Done (upd_sched (\<lambda>t. snd (kill_pg (tt_pgrp (tt n s)) 2 True t)) s)
     else if L_FLAG n ISIG s \<and> is_cc n VQUIT c s then Done (upd_sched (\<lambda>t. snd (kill_pg (tt_pgrp (tt n s)) SIGQUIT True t)) s)
     else if L_FLAG n ISIG s \<and> is_cc n VSUSP c s then
       Done (if \<not> is_orphaned_pgrp (tt_pgrp (tt n s)) (sched s) then upd_sched (\<lambda>t. snd (kill_pg (tt_pgrp (tt n s)) SIGTSTP True t)) s else s)
     else accept_char wr n c s)"

fun cook_loop :: "driver \<Rightarrow> nat \<Rightarrow> driver" where
  "cook_loop wr 0 n s = Asleep"
| "cook_loop wr (Suc fuel) n s =
    (if EMPTY (rq n s) then Done s
     else if FULL (sq n s) then
       let p = wait_queue (sched s) (proc_list (sq n s))
       in Done (if p \<noteq> NULL \<and> p \<noteq> current (sched s) then upd_sched (upd_cur (\<lambda>t. t\<lparr>counter := 0\<rparr>)) s else s)
     else case getch (read_q (tt n s)) s of (c, s) \<Rightarrow>
       (case in_char n c s of
          None \<Rightarrow> cook_loop wr fuel n s
        | Some c \<Rightarrow> then_do (cook_char wr n c s) (cook_loop wr fuel n)))"

definition copy_to_cooked :: "driver \<Rightarrow> nat \<Rightarrow> driver" where
  "copy_to_cooked wr fuel n s =
    (if write_op (tt n s) = no_write \<or> read_q (tt n s) = NULL \<or> write_q (tt n s) = NULL \<or> secondary (tt n s) = NULL then Done s
     else
       then_do (cook_loop wr fuel n s) (\<lambda>s.
       then_do (TTY_WRITE_FLUSH wr n s) (\<lambda>s.
       then_do (if \<not> EMPTY (sq n s) then wake (secondary (tt n s)) s else Done s) (\<lambda>s.
         if LEFT (wq n s) > 512 then wake (write_q (tt n s)) s else Done s))))"

section \<open>The drivers\<close>

text \<open>The loop of \<^verbatim>\<open>con_write\<close> over the write queue; the answers \<^verbatim>\<open>respond\<close> has queued are put in the read queue and cooked at once.\<close>

definition answer :: "driver \<Rightarrow> nat \<times> u8 list \<Rightarrow> ttys \<Rightarrow> ttys outcome" where
  "answer ck r s = (case r of (n, bs) \<Rightarrow> ck n (fold (putch (read_q (tt n s))) bs s))"

fun answers :: "driver \<Rightarrow> (nat \<times> u8 list) list \<Rightarrow> ttys \<Rightarrow> ttys outcome" where
  "answers ck [] s = Done s"
| "answers ck (r # rs) s = then_do (answer ck r s) (answers ck rs)"

fun con_loop :: "driver \<Rightarrow> nat \<Rightarrow> driver" where
  "con_loop ck 0 n s = Asleep"
| "con_loop ck (Suc fuel) n s =
    (if EMPTY (wq n s) \<or> stopped (tt n s) then Done s
     else case getch (write_q (tt n s)) s of (c, s) \<Rightarrow>
       (case con_char n c (consoles s) of
          None \<Rightarrow> Asleep
        | Some k \<Rightarrow> then_do (answers ck (replies k) (s\<lparr>consoles := k\<lparr>replies := []\<rparr>\<rparr>)) (con_loop ck fuel n)))"

definition con_out :: "driver \<Rightarrow> nat \<Rightarrow> driver" where
  "con_out ck fuel n s =
    then_do (wake (write_q (tt n s)) s) (\<lambda>s.
      if n \<ge> 8 then Done s
      else then_do (con_loop ck fuel n s) (\<lambda>s. Done (s\<lparr>consoles := blank_timer (set_cursor n (consoles s))\<rparr>)))"

definition rs_write :: driver where
  "rs_write n s = Done s"

fun pty_loop :: "driver \<Rightarrow> nat \<Rightarrow> nat \<Rightarrow> nat \<Rightarrow> ttys \<Rightarrow> ttys outcome" where
  "pty_loop ck 0 a b s = Asleep"
| "pty_loop ck (Suc fuel) a b s =
    (if stopped (tt a s) \<or> EMPTY (wq a s) then Done s
     else if FULL (rq b s) then
       (if FULL (sq b s) then Done s else then_do (ck b s) (pty_loop ck fuel a b))
     else case getch (write_q (tt a s)) s of (c, s) \<Rightarrow>
       let s = putch (read_q (tt b s)) c s
       in if signal (cur (sched s)) \<noteq> 0 \<and> NOT (blocked (cur (sched s))) \<noteq> 0 then Done s else pty_loop ck fuel a b s)"

definition pty_copy :: "driver \<Rightarrow> nat \<Rightarrow> nat \<Rightarrow> nat \<Rightarrow> ttys \<Rightarrow> ttys outcome" where
  "pty_copy ck fuel a b s =
    then_do (pty_loop ck fuel a b s) (\<lambda>s. then_do (ck b s) (\<lambda>s. wake (write_q (tt a s)) s))"

definition mpty_write :: "driver \<Rightarrow> nat \<Rightarrow> driver" where
  "mpty_write ck fuel n s = (if n div 64 \<noteq> 2 then Done s else pty_copy ck fuel n (n + 64) s)"

definition spty_write :: "driver \<Rightarrow> nat \<Rightarrow> driver" where
  "spty_write ck fuel n s = (if n div 64 \<noteq> 3 then Done s else pty_copy ck fuel n (n - 64) s)"

text \<open>The call through the function pointer of the terminal.\<close>

primrec tty_driver :: "nat \<Rightarrow> driver" where
  "tty_driver 0 = (\<lambda>n s. Asleep)"
| "tty_driver (Suc fuel) = (\<lambda>n s.
    (case write_op (tt n s) of
       no_write \<Rightarrow> Panicked
     | con_write_fn \<Rightarrow> con_out (copy_to_cooked (tty_driver fuel) fuel) fuel n s
     | rs_write_fn \<Rightarrow> rs_write n s
     | mpty_write_fn \<Rightarrow> mpty_write (copy_to_cooked (tty_driver fuel) fuel) fuel n s
     | spty_write_fn \<Rightarrow> spty_write (copy_to_cooked (tty_driver fuel) fuel) fuel n s))"

section \<open>Reading and writing\<close>

definition TTY_TABLE :: "nat \<Rightarrow> ttys \<Rightarrow> nat" where
  "TTY_TABLE nr s = (if nr \<noteq> 0 then if nr < 64 then nr - 1 else nr else fg_console (consoles s))"

definition do_tty_interrupt :: "driver \<Rightarrow> nat \<Rightarrow> driver" where
  "do_tty_interrupt wr fuel nr s = copy_to_cooked wr fuel (TTY_TABLE nr s) s"

definition TTY_READ_FLUSH :: "driver \<Rightarrow> nat \<Rightarrow> driver" where
  "TTY_READ_FLUSH wr fuel n s =
    (if \<not> EMPTY (rq n s) \<and> busy (tt n s) AND 2 = 0 then
       then_do (copy_to_cooked wr fuel n (upd_tty n (\<lambda>t. t\<lparr>busy := busy t OR 2\<rparr>) s)) (\<lambda>s. Done (upd_tty n (\<lambda>t. t\<lparr>busy := busy t AND NOT 2\<rparr>) s))
     else Done s)"

definition do_keyboard_interrupt :: "driver \<Rightarrow> nat \<Rightarrow> ttys \<Rightarrow> ttys outcome" where
  "do_keyboard_interrupt wr fuel s =
    then_do (TTY_READ_FLUSH wr fuel (TTY_TABLE 0 s) s) (\<lambda>s. Done (s\<lparr>consoles := blank_timer (consoles s)\<rparr>))"

text \<open>The receive timers of the four serial lines.\<close>

definition com_timer :: "driver \<Rightarrow> nat \<Rightarrow> nat \<Rightarrow> ttys \<Rightarrow> ttys outcome" where
  "com_timer wr fuel i s = TTY_READ_FLUSH wr fuel (64 + i) s"

text \<open>
  The header declares \<^verbatim>\<open>update_screen\<close> without a parameter and \<^verbatim>\<open>change_console\<close> passes none; \<open>stack_arg\<close> is what the function then finds in the place of its argument.
\<close>

definition change_console :: "nat \<Rightarrow> nat \<Rightarrow> ttys \<Rightarrow> ttys" where
  "change_console stack_arg new_console s =
    (if new_console = fg_console (consoles s) \<or> new_console \<ge> NR_CONSOLES (consoles s) then s
     else
       let s = s\<lparr>consoles := (consoles s)\<lparr>fg_console := new_console\<rparr>, table_list := (table_list s)[0 := 1 + new_console * 3, 1 := 2 + new_console * 3]\<rparr>
       in s\<lparr>consoles := update_screen stack_arg (consoles s)\<rparr>)"

definition tty_signal :: "int \<Rightarrow> ttys \<Rightarrow> int \<times> ttys" where
  "tty_signal sig s =
    (if is_orphaned_pgrp (pgrp (cur (sched s))) (sched s) then (- EIO, s)
     else
       let s = upd_sched (\<lambda>t. snd (kill_pg (pgrp (cur (sched s))) sig True t)) s;
           c = cur (sched s); h = sa_handler (sigactions c ! nat (sig - 1))
       in (if blocked c AND sigbit sig \<noteq> 0 \<or> h = 1 then - EIO else if h \<noteq> 0 then - EINTR else - ERESTARTSYS, s))"

text \<open>
  The inner loop of \<^verbatim>\<open>tty_read\<close>: the characters read so far, the number still wanted.  The character is a signed \<^verbatim>\<open>char\<close> there, so a control
  character above 127 does not match.
\<close>

fun read_chars :: "nat \<Rightarrow> nat \<Rightarrow> u8 list \<Rightarrow> ttys \<Rightarrow> u8 list \<times> nat \<times> ttys" where
  "read_chars n 0 got s = (got, 0, s)"
| "read_chars n (Suc k) got s =
    (case getch (secondary (tt n s)) s of (c, s) \<Rightarrow>
     let eof = (c < 128 \<and> is_cc n VEOF c s);
         s = (if eof \<or> c = 10 then upd_queue (secondary (tt n s)) (\<lambda>q. q\<lparr>q_data := q_data q - 1\<rparr>) s else s)
     in if eof \<and> L_FLAG n ICANON s then (got, Suc k, s)
        else if k = 0 \<or> c = 10 \<and> L_FLAG n ICANON s \<or> EMPTY (sq n s) then (got @ [c], k, s)
        else read_chars n k (got @ [c]) s)"

definition set_timeout :: "u32 \<Rightarrow> ttys \<Rightarrow> ttys" where
  "set_timeout v s = upd_sched (upd_cur (\<lambda>t. t\<lparr>timeout := v\<rparr>)) s"

fun tty_read_loop :: "driver \<Rightarrow> nat \<Rightarrow> (ttys \<Rightarrow> ttys) list \<Rightarrow> nat \<Rightarrow> nat \<Rightarrow> nat \<Rightarrow> u32 \<Rightarrow> nat \<Rightarrow> u8 list \<Rightarrow> ttys \<Rightarrow> (u8 list \<times> ttys) outcome" where
  "tty_read_loop wr 0 aways channel n least time nr got s = Asleep"
| "tty_read_loop wr (Suc fuel) aways channel n least time nr got s =
    (if nr = 0 then Done (got, s)
     else then_do (if channel \<ge> 128 then wr (channel XOR 0x40) s else Done s) (\<lambda>s.
       if EMPTY (sq n s) \<or> L_FLAG n ICANON s \<and> \<not> FULL (rq n s) \<and> q_data (sq n s) = 0 then
         if timeout (cur (sched s)) = 0 \<or> pending s then Done (got, s)
         else if channel \<ge> 192 \<and> C_HUP (channel XOR 0x40) s then Done (got, s)
         else case aways of
           [] \<Rightarrow> Asleep
         | a # rest \<Rightarrow> then_do (sleep_tty (secondary (tt n s)) a s) (tty_read_loop wr fuel rest channel n least time nr got)
       else case read_chars n nr got s of (got, nr, s) \<Rightarrow>
         then_do (wake (read_q (tt n s)) s) (\<lambda>s.
           let s = (if time \<noteq> 0 then set_timeout (time + jiffies (sched s)) s else s)
           in if L_FLAG n ICANON s \<or> length got \<ge> least then Done (got, s)
              else tty_read_loop wr fuel aways channel n least time nr got s)))"

text \<open>The least number of characters and the time limit between them; the first time limit is set at once.\<close>

definition read_limits :: "nat \<Rightarrow> nat \<Rightarrow> ttys \<Rightarrow> nat \<times> u32 \<times> ttys" where
  "read_limits n nr s =
    (let time = 10 * ucast (c_cc (termios_of n s) ! VTIME); least = unat (c_cc (termios_of n s) ! VMIN) in
     if L_FLAG n ICANON s then (nr, 0, set_timeout 0xFFFFFFFF s)
     else if least \<noteq> 0 then (min least nr, time, set_timeout 0xFFFFFFFF s)
     else (nr, 0, if time \<noteq> 0 then set_timeout (time + jiffies (sched s)) s else s))"

definition tty_read :: "driver \<Rightarrow> nat \<Rightarrow> (ttys \<Rightarrow> ttys) list \<Rightarrow> nat \<Rightarrow> int \<Rightarrow> ttys \<Rightarrow> (int \<times> u8 list \<times> ttys) outcome" where
  "tty_read wr fuel aways channel nr s =
    (let n = TTY_TABLE channel s in
     if channel > 255 then Done (- EIO, [], s)
     else if write_q (tt n s) = NULL \<and> read_q (tt n s) = NULL \<and> secondary (tt n s) = NULL then Done (- EIO, [], s)
     else if tty (cur (sched s)) = int channel \<and> tt_pgrp (tt n s) \<noteq> pgrp (cur (sched s)) then
       (case tty_signal SIGTTIN s of (r, s) \<Rightarrow> Done (r, [], s))
     else case read_limits n (nat nr) s of (least, time, s) \<Rightarrow>
       then_do (tty_read_loop wr fuel aways channel n least time (nat nr) [] s) (\<lambda>(got, s).
         let s = set_timeout 0 s
         in Done (if pending s \<and> got = [] then - ERESTARTSYS else int (length got), got, s)))"

text \<open>The inner loop of \<^verbatim>\<open>tty_write\<close>: characters are post-processed into the write queue until it is full; the result has those that are left.\<close>

definition out_char :: "nat \<Rightarrow> u8 \<Rightarrow> ttys \<Rightarrow> u8" where
  "out_char n c s = (if c = 13 \<and> O_FLAG n OCRNL s then 10 else if c = 10 \<and> O_FLAG n ONLRET s then 13 else c)"

function fill_write :: "nat \<Rightarrow> u8 list \<Rightarrow> ttys \<Rightarrow> u8 list \<times> ttys" where
  "fill_write n bs s =
    (case bs of
       [] \<Rightarrow> ([], s)
     | b # rest \<Rightarrow>
         if FULL (wq n s) then (bs, s)
         else
           let c = (if O_FLAG n OPOST s then out_char n b s else b) in
           if O_FLAG n OPOST s \<and> c = 10 \<and> \<not> cr_flag s \<and> O_FLAG n ONLCR s
           then fill_write n bs (putch (write_q (tt n s)) 13 (s\<lparr>cr_flag := True\<rparr>))
           else fill_write n rest (putch (write_q (tt n s)) (if O_FLAG n OPOST s \<and> O_FLAG n OLCUC s then toupper c else c) (s\<lparr>cr_flag := False\<rparr>)))"
  by pat_completeness auto
termination
  by (relation "measure (\<lambda>(n, bs, s). 2 * length bs + (if cr_flag s then 0 else 1))") (auto simp: putch_def upd_queue_def)

fun tty_write_loop :: "driver \<Rightarrow> (ttys \<Rightarrow> ttys) list \<Rightarrow> nat \<Rightarrow> nat \<Rightarrow> u8 list \<Rightarrow> ttys \<Rightarrow> (u8 list \<times> ttys) outcome" where
  "tty_write_loop wr aways 0 n bs s = Asleep"
| "tty_write_loop wr aways (Suc fuel) n bs s =
    (if bs = [] then Done ([], s)
     else then_do (sleep_if_full aways (write_q (tt n s)) s) (\<lambda>(aways, s).
       if pending s then Done (bs, s)
       else case fill_write n bs s of (bs, s) \<Rightarrow>
         then_do (wr n s) (\<lambda>s.
           if bs = [] then Done ([], s)
           else case aways of [] \<Rightarrow> Asleep | a # rest \<Rightarrow> tty_write_loop wr rest fuel n bs (a s))))"

definition tty_write :: "driver \<Rightarrow> (ttys \<Rightarrow> ttys) list \<Rightarrow> nat \<Rightarrow> u8 list \<Rightarrow> ttys \<Rightarrow> (int \<times> ttys) outcome" where
  "tty_write wr aways channel buf s =
    (let n = TTY_TABLE channel s in
     if channel > 255 then Done (- EIO, s)
     else if read_q (tt n s) = NULL \<and> write_q (tt n s) = NULL \<and> secondary (tt n s) = NULL then Done (- EIO, s)
     else if L_FLAG n TOSTOP s \<and> tty (cur (sched s)) = int channel \<and> tt_pgrp (tt n s) \<noteq> pgrp (cur (sched s)) then Done (tty_signal SIGTTOU s)
     else then_do (tty_write_loop wr aways (Suc (length aways)) n buf s) (\<lambda>(rest, s). Done (int (length buf - length rest), s)))"

section \<open>Initialisation\<close>

text \<open>Queue \<open>i\<close> of \<^verbatim>\<open>tty_queues\<close> has the pointer \<open>i + 1\<close>; the wait queue in it is kept by the scheduler under the address \<open>proc_list\<close>.\<close>

definition init_queue :: "nat \<Rightarrow> u32 \<Rightarrow> ttys \<Rightarrow> ttys" where
  "init_queue i d s =
    upd_sched (\<lambda>t. t\<lparr>wait_queue := (wait_queue t)(proc_list (que (i + 1) s) := NULL)\<rparr>)
      (upd_queue (i + 1) (\<lambda>q. q\<lparr>q_data := d, q_head := 0, q_tail := 0, q_buf := replicate 1024 0\<rparr>) s)"

definition set_tty :: "nat \<Rightarrow> termios \<Rightarrow> winsize \<Rightarrow> write_fn \<Rightarrow> ptr \<Rightarrow> ttys \<Rightarrow> ttys" where
  "set_tty n tm ws w p s =
    s\<lparr>tty_table := (tty_table s)(n := \<lparr>tt_pgrp = -1, tt_session = 0, stopped = False, busy = 0, winsz = ws, write_op = w,
        read_q = p, write_q = (if p = NULL then NULL else p + 1), secondary = (if p = NULL then NULL else p + 2)\<rparr>),
      consoles := (consoles s)\<lparr>tty_termios := (tty_termios (consoles s))(n := tm)\<rparr>\<rparr>"

definition raw_termios :: "u32 \<Rightarrow> u32 \<Rightarrow> termios" where
  "raw_termios cflag lflag = \<lparr>c_iflag = 0, c_oflag = 0, c_cflag = cflag, c_lflag = lflag, c_line = 0, c_cc = INIT_C_CC\<rparr>"

definition tty_init :: "boot_params \<Rightarrow> ttys \<Rightarrow> ttys" where
  "tty_init p s =
    (let s = fold (\<lambda>i. init_queue i 0) [0..<60] s;
         s = fold (\<lambda>(i, d). init_queue (24 + i) d)
               [(0, 0x3F8), (1, 0x3F8), (3, 0x2F8), (4, 0x2F8), (6, 0x3E8), (7, 0x3E8), (9, 0x2E8), (10, 0x2E8)] s;
         s = fold (\<lambda>i. set_tty i (raw_termios 0 0) \<lparr>ws_row = 0, ws_col = 0, ws_xpixel = 0, ws_ypixel = 0\<rparr> no_write NULL) [0..<256] s;
         s = s\<lparr>consoles := con_init p (consoles s)\<rparr>;
         ws = \<lparr>ws_row = word_of_int (video_num_lines (consoles s)), ws_col = word_of_int (video_num_columns (consoles s)), ws_xpixel = 0, ws_ypixel = 0\<rparr>;
         ws80 = \<lparr>ws_row = 25, ws_col = 80, ws_xpixel = 0, ws_ypixel = 0\<rparr>;
         s = fold (\<lambda>i. set_tty i (DEF_TERMIOS\<lparr>c_cflag := 15 OR 48\<rparr>) ws con_write_fn (1 + 3 * i)) [0..<NR_CONSOLES (consoles s)] s;
         s = fold (\<lambda>i. set_tty (64 + i) (raw_termios (11 OR 48) 0) ws80 rs_write_fn (25 + 3 * i)) [0..<4] s
     in fold (\<lambda>i s. set_tty (192 + i) (raw_termios (13 OR 48) (IXON OR ISIG OR ICANON)) ws80 spty_write_fn (49 + 3 * i)
          (set_tty (128 + i) (raw_termios (13 OR 48) 0) ws80 mpty_write_fn (37 + 3 * i) s)) [0..<4] s)"

section \<open>Control operations\<close>

record termio =
  tio_iflag :: u16
  tio_oflag :: u16
  tio_cflag :: u16
  tio_lflag :: u16
  tio_line :: u8
  tio_cc :: "u8 list"

text \<open>What user memory holds at the argument address, read as the structure the command expects, and what a command writes there.\<close>

record user_arg =
  ua_termios :: termios
  ua_termio :: termio
  ua_pgrp :: int
  ua_winsize :: winsize
  ua_byte :: u8

datatype user_out = OutNone | OutTermios termios | OutTermio termio | OutInt int | OutWinsize winsize | OutTasks "task_struct option list"

definition upd_termios :: "nat \<Rightarrow> (termios \<Rightarrow> termios) \<Rightarrow> ttys \<Rightarrow> ttys" where
  "upd_termios n f s = s\<lparr>consoles := (consoles s)\<lparr>tty_termios := (tty_termios (consoles s))(n := f (tty_termios (consoles s) n))\<rparr>\<rparr>"

definition flush :: "ptr \<Rightarrow> ttys \<Rightarrow> ttys" where
  "flush p s = upd_queue p (\<lambda>q. q\<lparr>q_head := q_tail q\<rparr>) s"

fun wait_until_sent :: "(ttys \<Rightarrow> ttys) list \<Rightarrow> nat \<Rightarrow> ttys \<Rightarrow> ttys outcome" where
  "wait_until_sent aways n s =
    (if \<not> pending s \<and> \<not> EMPTY (wq n s) then
       (case aways of
          [] \<Rightarrow> Asleep
        | a # rest \<Rightarrow> then_do (sleep_tty (write_q (tt n s)) a (upd_sched (upd_cur (\<lambda>t. t\<lparr>counter := 0\<rparr>)) s)) (wait_until_sent rest n))
     else Done s)"

text \<open>A background process that changes settings is stopped first; \<open>Inl\<close> is the early return.\<close>

definition job_control :: "nat \<Rightarrow> nat \<Rightarrow> ttys \<Rightarrow> (int \<times> ttys) + ttys" where
  "job_control n channel s =
    (if tty (cur (sched s)) = int channel \<and> tt_pgrp (tt n s) \<noteq> pgrp (cur (sched s)) then
       (case tty_signal SIGTTOU s of (r, s) \<Rightarrow> if r = - ERESTARTSYS \<or> r = - EINTR then Inl (r, s) else Inr s)
     else Inr s)"

definition set_termios :: "nat \<Rightarrow> termios \<Rightarrow> nat \<Rightarrow> ttys \<Rightarrow> int \<times> ttys" where
  "set_termios n tm channel s =
    (case job_control n channel s of Inl e \<Rightarrow> e | Inr s \<Rightarrow> (0, upd_termios n (\<lambda>_. tm) s))"

definition get_termio :: "nat \<Rightarrow> ttys \<Rightarrow> termio" where
  "get_termio n s =
    (let t = termios_of n s in \<lparr>tio_iflag = ucast (c_iflag t), tio_oflag = ucast (c_oflag t), tio_cflag = ucast (c_cflag t), tio_lflag = ucast (c_lflag t),
       tio_line = c_line t, tio_cc = take 8 (c_cc t)\<rparr>)"

definition low_half :: "u32 \<Rightarrow> u16 \<Rightarrow> u32" where
  "low_half w v = (w AND 0xFFFF0000) OR ucast v"

definition set_termio :: "nat \<Rightarrow> termio \<Rightarrow> nat \<Rightarrow> ttys \<Rightarrow> int \<times> ttys" where
  "set_termio n tm channel s =
    (case job_control n channel s of
       Inl e \<Rightarrow> e
     | Inr s \<Rightarrow> (0, upd_termios n (\<lambda>t. t\<lparr>c_iflag := low_half (c_iflag t) (tio_iflag tm), c_oflag := low_half (c_oflag t) (tio_oflag tm),
         c_cflag := low_half (c_cflag t) (tio_cflag tm), c_lflag := low_half (c_lflag t) (tio_lflag tm), c_line := tio_line tm,
         c_cc := take 8 (tio_cc tm) @ drop 8 (c_cc t)\<rparr>) s))"

definition set_window_size :: "nat \<Rightarrow> int \<Rightarrow> winsize \<Rightarrow> ttys \<Rightarrow> int \<times> ttys" where
  "set_window_size n arg ws s =
    (if arg = 0 then (- EINVAL, s)
     else if winsz (tt n s) = ws then (0, s)
     else (0, upd_sched (\<lambda>t. snd (kill_pg (tt_pgrp (tt n s)) 28 True t)) (upd_tty n (\<lambda>t. t\<lparr>winsz := ws\<rparr>) s)))"

definition do_get_ps_info :: "ttys \<Rightarrow> task_struct option list" where
  "do_get_ps_info s = map (\<lambda>p. if p \<noteq> NULL then Some (tsk (sched s) p) else None) (task (sched s))"

definition other_write_q :: "nat \<Rightarrow> ttys \<Rightarrow> ttys" where
  "other_write_q dev s = (if dev \<ge> 128 then flush (write_q (tt (dev XOR 0x40) s)) s else s)"

definition flush_input :: "nat \<Rightarrow> nat \<Rightarrow> ttys \<Rightarrow> ttys" where
  "flush_input dev n s = other_write_q dev (flush (secondary (tt n s)) (flush (read_q (tt n s)) s))"

definition flow_control :: "driver \<Rightarrow> nat \<Rightarrow> int \<Rightarrow> ttys \<Rightarrow> (int \<times> ttys) outcome" where
  "flow_control wr n arg s =
    (let cc = (\<lambda>i. c_cc (termios_of n s) ! i) in
     if arg = 0 then then_do (TTY_WRITE_FLUSH wr n (upd_tty n (\<lambda>t. t\<lparr>stopped := True\<rparr>) s)) (\<lambda>s. Done (0, s))
     else if arg = 1 then then_do (TTY_WRITE_FLUSH wr n (upd_tty n (\<lambda>t. t\<lparr>stopped := False\<rparr>) s)) (\<lambda>s. Done (0, s))
     else if arg = 2 then Done (0, if cc VSTOP \<noteq> 0 then putch (write_q (tt n s)) (cc VSTOP) s else s)
     else if arg = 3 then Done (0, if cc VSTART \<noteq> 0 then putch (write_q (tt n s)) (cc VSTART) s else s)
     else Done (- EINVAL, s))"

definition set_tty_pgrp :: "nat \<Rightarrow> nat \<Rightarrow> int \<Rightarrow> ttys \<Rightarrow> int \<times> ttys" where
  "set_tty_pgrp n dev pg s =
    (let c = cur (sched s) in
     if tty c < 0 \<or> tty c \<noteq> int dev \<or> tt_session (tt n s) \<noteq> session c then (- 25, s)
     else if pg < 0 then (- EINVAL, s)
     else if session_of_pgrp pg (sched s) \<noteq> session c then (- EPERM, s)
     else (0, upd_tty n (\<lambda>t. t\<lparr>tt_pgrp := pg\<rparr>) s))"

definition tty_cmd :: "driver \<Rightarrow> (ttys \<Rightarrow> ttys) list \<Rightarrow> (ttys \<Rightarrow> int) \<Rightarrow> nat \<Rightarrow> nat \<Rightarrow> int \<Rightarrow> int \<Rightarrow> user_arg \<Rightarrow> ttys \<Rightarrow> (int \<times> user_out \<times> ttys) outcome" where
  "tty_cmd wr aways do_screendump dev n cmd arg u s =
    (let ret = (\<lambda>(r, s). Done (r, OutNone, s)); inval = Done (- EINVAL, OutNone, s) in
     if cmd = 0x5401 then Done (0, OutTermios (termios_of n s), s)
     else if cmd = 0x5404 then then_do (wait_until_sent aways n (flush_input dev n s)) (\<lambda>s. ret (set_termios n (ua_termios u) dev s))
     else if cmd = 0x5403 then then_do (wait_until_sent aways n s) (\<lambda>s. ret (set_termios n (ua_termios u) dev s))
     else if cmd = 0x5402 then ret (set_termios n (ua_termios u) dev s)
     else if cmd = 0x5405 then Done (0, OutTermio (get_termio n s), s)
     else if cmd = 0x5408 then then_do (wait_until_sent aways n (flush_input dev n s)) (\<lambda>s. ret (set_termio n (ua_termio u) dev s))
     else if cmd = 0x5407 then then_do (wait_until_sent aways n s) (\<lambda>s. ret (set_termio n (ua_termio u) dev s))
     else if cmd = 0x5406 then ret (set_termio n (ua_termio u) dev s)
     else if cmd = 0x5409 then then_do (if arg = 0 then wait_until_sent aways n s else Done s) (\<lambda>s. ret (0, s))
     else if cmd = 0x540A then then_do (flow_control wr n arg s) ret
     else if cmd = 0x540B then
       (if arg = 0 then ret (0, flush_input dev n s)
        else if arg = 1 then ret (0, flush (write_q (tt n s)) s)
        else if arg = 2 then ret (0, other_write_q dev (flush (write_q (tt n s)) (flush (secondary (tt n s)) (flush (read_q (tt n s)) s))))
        else inval)
     else if cmd = 0x540F then Done (0, OutInt (tt_pgrp (tt n s)), s)
     else if cmd = 0x5410 then ret (set_tty_pgrp n dev (ua_pgrp u) s)
     else if cmd = 0x5411 then Done (0, OutInt (uint (CHARS (wq n s))), s)
     else if cmd = 0x541B then Done (0, OutInt (uint (CHARS (sq n s))), s)
     else if cmd = 0x5413 then (if arg = 0 then inval else Done (0, OutWinsize (winsz (tt n s)), s))
     else if cmd = 0x5414 then
       ret (set_window_size n arg (ua_winsize u) (if dev \<ge> 128 then snd (set_window_size (dev XOR 0x40) arg (ua_winsize u) s) else s))
     else if cmd = 0x541C then
       (if ua_byte u = 0 then ret (do_screendump s, s)
        else if ua_byte u = 1 then Done (0, OutTasks (do_get_ps_info s), s)
        else inval)
     else inval)"

definition tty_ioctl :: "driver \<Rightarrow> (ttys \<Rightarrow> ttys) list \<Rightarrow> (ttys \<Rightarrow> int) \<Rightarrow> nat \<Rightarrow> int \<Rightarrow> int \<Rightarrow> user_arg \<Rightarrow> ttys \<Rightarrow> (int \<times> user_out \<times> ttys) outcome" where
  "tty_ioctl wr aways do_screendump dev cmd arg u s =
    (if dev div 256 = 5 \<and> tty (cur (sched s)) < 0 then Panicked
     else
       let dev = (if dev div 256 = 5 then nat (tty (cur (sched s))) else dev mod 256);
           n = TTY_TABLE dev s
       in if write_q (tt n s) = NULL \<or> read_q (tt n s) = NULL \<or> secondary (tt n s) = NULL then Done (- EINVAL, OutNone, s)
          else tty_cmd wr aways do_screendump dev n cmd arg u s)"

end
