(* ===== verification/Console_Screens.thy ===== *)
theory Console_Screens
  imports Console
begin

text \<open>
  What the consoles of \<^verbatim>\<open>kernel/chr_drv/console.c\<close> show: the effect of scrolling on the character cells of a screen, and the consoles together, with
  the switch between them, from initialisation on.
\<close>

section \<open>What scrolling shows\<close>

text \<open>The cell in row \<open>r\<close> and column \<open>c\<close> of the screen of a console.\<close>

definition cell :: "nat \<Rightarrow> con \<Rightarrow> int \<Rightarrow> int \<Rightarrow> u16" where
  "cell n s r c = vmem s (vc_origin (vc n s) + r * video_size_row s + 2 * c)"

lemma movsl_copies:
  assumes "d + 4 \<le> s" "k < 2 * cnt"
  shows "movsl cnt d s m (d + 2 * int k) = m (s + 2 * int k)"
  using assms(2)
proof (induction cnt)
  case (Suc j)
  have st: "movsl (Suc j) d s m = (movsl j d s m)(d + 4 * int j := movsl j d s m (s + 4 * int j), d + 4 * int j + 2 := movsl j d s m (s + 4 * int j + 2))"
    by (simp add: movsl_def)
  have src: "movsl j d s m (s + 4 * int j) = m (s + 4 * int j)" "movsl j d s m (s + 4 * int j + 2) = m (s + 4 * int j + 2)"
    by (rule movsl_outside; use assms(1) in linarith)+
  consider "k < 2 * j" | "k = 2 * j" | "k = 2 * j + 1" using Suc.prems by (auto simp: less_Suc_eq)
  then show ?case
  proof cases
    case 1
    then have "d + 2 * int k \<noteq> d + 4 * int j" "d + 2 * int k \<noteq> d + 4 * int j + 2" by linarith+
    then show ?thesis unfolding st using Suc.IH [OF 1] by simp
  next
    case 2
    then show ?thesis unfolding st src by simp
  next
    case 3
    then show ?thesis unfolding st src by (simp add: ac_simps)
  qed
qed simp

text \<open>A move of whole lines up by one and the filling of the last one, seen from the address \<open>a\<close> where the first line goes.\<close>

lemma scroll_lines:
  assumes row: "row = 2 * cols" "8 \<le> cols" "even cols" and k: "0 \<le> k" and src: "a + row \<le> b" and r: "0 \<le> r" "r \<le> k" and c: "0 \<le> c" "c < cols"
  shows "stosw (nat cols) (a + 4 * int (nat (k * cols div 2))) w (movsl (nat (k * cols div 2)) a b m) (a + r * row + 2 * c) =
    (if r < k then m (b + r * row + 2 * c) else w)"
proof -
  define cnt where "cnt = nat (k * cols div 2)"
  have "even (k * cols)" using row(3) by simp
  then have "2 * (k * cols div 2) = k * cols" by simp
  moreover have "0 \<le> k * cols" using k row(2) by simp
  ultimately have cnt: "2 * int cnt = k * cols" "4 * int cnt = k * row" using row(1) by (auto simp: cnt_def)
  show ?thesis unfolding cnt_def [symmetric] cnt(2)
  proof (cases "r < k")
    case True
    define j where "j = nat (r * cols + c)"
    have nn: "0 \<le> r * cols + c" using r(1) c row(2) by simp
    have "(r + 1) * cols \<le> k * cols" by (rule row_le) (use True row(2) in auto)
    then have "r * cols + c < k * cols" using c by (simp add: distrib_right)
    then have jc: "j < 2 * cnt" using nn cnt(1) by (simp add: j_def)
    have ja: "2 * int j = r * row + 2 * c" using nn row(1) by (simp add: j_def)
    have "a + r * row + 2 * c < a + k * row" using jc ja cnt by linarith
    then have "stosw (nat cols) (a + k * row) w (movsl cnt a b m) (a + r * row + 2 * c) = movsl cnt a b m (a + r * row + 2 * c)"
      by (intro stosw_outside) simp
    also have "\<dots> = m (b + r * row + 2 * c)" using movsl_copies [OF _ jc, of a b m] src row ja by (simp add: add.assoc)
    finally show "stosw (nat cols) (a + k * row) w (movsl cnt a b m) (a + r * row + 2 * c) = (if r < k then m (b + r * row + 2 * c) else w)"
      using True by simp
  next
    case False
    then have "r = k" using r by simp
    then have "\<exists>i < nat cols. a + r * row + 2 * c = a + k * row + 2 * int i" using c by (intro exI [of _ "nat c"]) auto
    then show "stosw (nat cols) (a + k * row) w (movsl cnt a b m) (a + r * row + 2 * c) = (if r < k then m (b + r * row + 2 * c) else w)"
      using False by (simp add: stosw_apply)
  qed
qed

text \<open>Lines copied, and the origin moved.\<close>

lemma scrup_copies:
  assumes ok: "con_ok n s" and ev: "even (video_num_columns s)" and tb: "0 \<le> t" "t < b" "b \<le> video_num_lines s"
    and rc: "0 \<le> r" "r < video_num_lines s" "0 \<le> c" "c < video_num_columns s"
    and soft: "\<not> (is_ega s \<and> t = 0 \<and> b = video_num_lines s)"
  shows "cell n (scrup n t b s) r c =
    (if t \<le> r \<and> r + 1 < b then cell n s (r + 1) c else if r + 1 = b then vc_video_erase_char (vc n s) else cell n s r c)"
proof -
  note cd = con_okD [OF ok]
  note v = vc_okD [OF cd(4)]
  let ?row = "video_size_row s" and ?v = "vc n s" and ?cols = "video_num_columns s"
  have r0: "0 \<le> ?row" using cd by simp
  have nc: "\<not> (b > video_num_lines s \<or> t \<ge> b)" using tb by auto
  let ?a = "vc_origin ?v + ?row * t"
  let ?m = "\<lambda>m. stosw (nat ?cols) (?a + 4 * int (nat ((b - t - 1) * ?cols div 2))) (vc_video_erase_char ?v) (movsl (nat ((b - t - 1) * ?cols div 2)) ?a (vc_origin ?v + ?row * (t + 1)) m)"
  have sc: "scrup n t b s = upd_mem ?m s"
    unfolding scrup_def if_not_P [OF nc] if_not_P [OF soft] Let_def by (simp add: upd_mem_def)
  show ?thesis
  proof (cases "t \<le> r \<and> r < b")
    case True
    have e: "?a + (r - t) * ?row = vc_origin ?v + r * ?row" "vc_origin ?v + ?row * (t + 1) + (r - t) * ?row = vc_origin ?v + (r + 1) * ?row"
      by (simp_all add: algebra_simps)
    have "?m (vmem s) (?a + (r - t) * ?row + 2 * c) = (if r - t < b - t - 1 then vmem s (vc_origin ?v + ?row * (t + 1) + (r - t) * ?row + 2 * c) else vc_video_erase_char ?v)"
      by (rule scroll_lines [OF cd(3,1) ev]) (use True tb rc in \<open>auto simp: distrib_left\<close>)
    then have "?m (vmem s) (vc_origin ?v + r * ?row + 2 * c) = (if r + 1 < b then vmem s (vc_origin ?v + (r + 1) * ?row + 2 * c) else vc_video_erase_char ?v)"
      unfolding e by (auto split: if_splits)
    then show ?thesis using True unfolding sc cell_def by auto
  next
    case False
    note sb = scroll_bounds [OF ok tb]
    have q: "2 * int (nat ?cols) = ?row" using cd by simp
    have "r < t \<or> b \<le> r" using False by auto
    then have "vc_origin ?v + r * ?row + 2 * c < ?a \<or> vc_origin ?v + ?row * b \<le> vc_origin ?v + r * ?row + 2 * c"
    proof
      assume "r < t"
      then have "(r + 1) * ?row \<le> t * ?row" by (intro row_le [OF r0]) simp
      then show ?thesis using rc(4) cd(3) by (simp add: distrib_right mult.commute)
    next
      assume "b \<le> r"
      then have "b * ?row \<le> r * ?row" by (rule row_le [OF r0])
      then show ?thesis using rc(3) by (simp add: mult.commute)
    qed
    then have "?m (vmem s) (vc_origin ?v + r * ?row + 2 * c) = vmem s (vc_origin ?v + r * ?row + 2 * c)"
      using sb q by (subst stosw_outside, linarith, subst movsl_outside, linarith, simp)
    then show ?thesis using False tb(2) unfolding sc cell_def by auto
  qed
qed

lemma scrup_moves:
  assumes ok: "con_ok n s" and ev: "even (video_num_columns s)" and tb: "0 \<le> t" "t < b" "b \<le> video_num_lines s"
    and rc: "0 \<le> r" "r < video_num_lines s" "0 \<le> c" "c < video_num_columns s"
    and hard: "is_ega s \<and> t = 0 \<and> b = video_num_lines s"
  shows "cell n (scrup n t b s) r c =
    (if t \<le> r \<and> r + 1 < b then cell n s (r + 1) c else if r + 1 = b then vc_video_erase_char (vc n s) else cell n s r c)"
proof -
  note cd = con_okD [OF ok]
  note v = vc_okD [OF cd(4)]
  let ?row = "video_size_row s" and ?v = "vc n s" and ?cols = "video_num_columns s"
  have r0: "0 \<le> ?row" using cd by simp
  have nc: "\<not> (b > video_num_lines s \<or> t \<ge> b)" using tb by auto
  have tb0: "t = 0" "b = video_num_lines s" using hard by auto
  let ?s1 = "upd_vc n (\<lambda>v. v\<lparr>vc_origin := vc_origin v + ?row, vc_pos := vc_pos v + ?row, vc_scr_end := vc_scr_end v + ?row\<rparr>) s"
  have so: "cell n (set_origin n u) r c = cell n u r c" for u by (simp add: cell_def set_origin_def)
  show ?thesis
  proof (cases "vc_scr_end ?v + ?row > vc_video_mem_end ?v")
    case False
    have sc: "scrup n t b s = set_origin n (upd_mem (stosw (nat ?cols) (vc_scr_end ?v) (vc_video_erase_char ?v)) ?s1)"
      unfolding scrup_def if_not_P [OF nc] if_P [OF hard] Let_def using False by simp
    have e: "vc_origin ?v + ?row + r * ?row + 2 * c = vc_origin ?v + (r + 1) * ?row + 2 * c" by (simp add: distrib_right)
    show ?thesis
    proof (cases "r + 1 = video_num_lines s")
      case True
      then have "\<exists>i < nat ?cols. vc_origin ?v + (r + 1) * ?row + 2 * c = vc_scr_end ?v + 2 * int i" using rc v(6) by (intro exI [of _ "nat c"]) auto
      then show ?thesis unfolding sc so using True tb0 by (simp add: cell_def e stosw_apply)
    next
      case last: False
      then have "(r + 1 + 1) * ?row \<le> video_num_lines s * ?row" by (intro row_le [OF r0]) (use rc in simp)
      then have "vc_origin ?v + (r + 1) * ?row + 2 * c < vc_scr_end ?v" using rc(4) cd(3) v(6) by (simp add: distrib_right)
      then show ?thesis unfolding sc so using last tb0 rc by (simp add: cell_def e stosw_outside)
    qed
  next
    case True
    let ?d = "vc_video_mem_start ?v" and ?k = "video_num_lines s - 1"
    let ?m = "\<lambda>m. stosw (nat ?cols) (?d + 4 * int (nat (?k * ?cols div 2))) (vc_video_erase_char ?v) (movsl (nat (?k * ?cols div 2)) ?d (vc_origin ?v + ?row) m)"
    have sc: "vmem (scrup n t b s) = ?m (vmem s)" "vc_origin (vc n (scrup n t b s)) = ?d" "video_size_row (scrup n t b s) = ?row"
      unfolding scrup_def if_not_P [OF nc] if_P [OF hard] Let_def using True by simp_all
    have "?m (vmem s) (?d + r * ?row + 2 * c) = (if r < ?k then vmem s (vc_origin ?v + ?row + r * ?row + 2 * c) else vc_video_erase_char ?v)"
      by (rule scroll_lines [OF cd(3,1) ev]) (use rc v(7) in auto)
    moreover have "vc_origin ?v + ?row + r * ?row + 2 * c = vc_origin ?v + (r + 1) * ?row + 2 * c" by (simp add: distrib_right)
    ultimately have "cell n (scrup n t b s) r c = (if r < ?k then cell n s (r + 1) c else vc_video_erase_char ?v)"
      by (simp only: cell_def sc)
    then show ?thesis using tb0 rc by auto
  qed
qed

text \<open>
  C21. Scrolling up: after \<^verbatim>\<open>scrup(currcons, t, b)\<close> line \<open>r\<close> of the region shows what line \<open>r + 1\<close> showed, the last line of the region is erased and all
  other lines are as before, whether the lines are copied or, on an EGA with the whole screen scrolling, the origin of the display moves through the video memory,
  also when it reaches the end and the screen is copied back to the start.
\<close>

theorem scrup_scrolls:
  assumes ok: "con_ok n s" and ev: "even (video_num_columns s)" and tb: "0 \<le> t" "t < b" "b \<le> video_num_lines s"
    and rc: "0 \<le> r" "r < video_num_lines s" "0 \<le> c" "c < video_num_columns s"
  shows "cell n (scrup n t b s) r c =
    (if t \<le> r \<and> r + 1 < b then cell n s (r + 1) c else if r + 1 = b then vc_video_erase_char (vc n s) else cell n s r c)"
  using scrup_copies [OF assms] scrup_moves [OF assms] by blast

section \<open>All consoles together\<close>

text \<open>
  The console in the foreground has the video memory, every other console the part of \<^verbatim>\<open>vc_scrmembuf\<close> that \<^verbatim>\<open>vc_scrbuf\<close> says; these memories do not overlap.
\<close>

definition memory_of :: "con \<Rightarrow> nat \<Rightarrow> int \<times> int" where
  "memory_of s n = (if n = fg_console s then (video_mem_base s, video_mem_term s) else (vc_scrbuf s n, vc_scrbuf s n + screen_size s))"

definition apart :: "con \<Rightarrow> bool" where
  "apart s \<longleftrightarrow> (\<forall>n < NR_CONSOLES s. vc_scrbuf s n + screen_size s \<le> video_mem_base s \<or> video_mem_term s \<le> vc_scrbuf s n) \<and>
    (\<forall>n < NR_CONSOLES s. \<forall>m < n. vc_scrbuf s m + screen_size s \<le> vc_scrbuf s n)"

definition consoles_ok :: "con \<Rightarrow> bool" where
  "consoles_ok s \<longleftrightarrow> fg_console s < NR_CONSOLES s \<and> NR_CONSOLES s \<le> 8 \<and> screen_size s = video_num_lines s * video_size_row s \<and>
    video_mem_base s + screen_size s \<le> video_mem_term s \<and> apart s \<and>
    (\<forall>n < NR_CONSOLES s. con_ok n s \<and> (vc_video_mem_start (vc n s), vc_video_mem_end (vc n s)) = memory_of s n)"

lemma consoles_okD:
  assumes "consoles_ok s"
  shows "fg_console s < NR_CONSOLES s" "NR_CONSOLES s \<le> 8" "screen_size s = video_num_lines s * video_size_row s"
    "video_mem_base s + screen_size s \<le> video_mem_term s" "apart s" "n < NR_CONSOLES s \<Longrightarrow> con_ok n s"
    "n < NR_CONSOLES s \<Longrightarrow> vc_video_mem_start (vc n s) = fst (memory_of s n)" "n < NR_CONSOLES s \<Longrightarrow> vc_video_mem_end (vc n s) = snd (memory_of s n)"
  using assms unfolding consoles_ok_def by (simp_all add: prod_eq_iff)

lemma memories_disjoint:
  assumes ok: "consoles_ok s" and nm: "n < NR_CONSOLES s" "m < NR_CONSOLES s" "n \<noteq> m" and a: "fst (memory_of s m) \<le> a" "a < snd (memory_of s m)"
  shows "a < fst (memory_of s n) \<or> snd (memory_of s n) \<le> a"
proof -
  note ap = consoles_okD(5) [OF ok, unfolded apart_def]
  have b: "vc_scrbuf s n + screen_size s \<le> vc_scrbuf s m \<or> vc_scrbuf s m + screen_size s \<le> vc_scrbuf s n"
    using ap nm by (cases "n < m") auto
  have v: "vc_scrbuf s k + screen_size s \<le> video_mem_base s \<or> video_mem_term s \<le> vc_scrbuf s k" if "k < NR_CONSOLES s" for k
    using ap that by blast
  show ?thesis using a b v [OF nm(1)] v [OF nm(2)] nm(3) by (auto simp: memory_of_def split: if_splits)
qed

text \<open>The cells of a screen are in the memory of its console.\<close>

lemma cell_in_memory:
  assumes ok: "con_ok n s" and rc: "0 \<le> r" "r < video_num_lines s" "0 \<le> c" "c < video_num_columns s"
  shows "vc_origin (vc n s) \<le> vc_origin (vc n s) + r * video_size_row s + 2 * c" "vc_origin (vc n s) + r * video_size_row s + 2 * c < vc_scr_end (vc n s)"
proof -
  note cd = con_okD [OF ok] and v = vc_okD [OF con_okD(4) [OF ok]]
  have r0: "0 \<le> video_size_row s" using cd by simp
  have "0 * video_size_row s \<le> r * video_size_row s" "(r + 1) * video_size_row s \<le> video_num_lines s * video_size_row s"
    by (rule row_le [OF r0], use rc in simp)+
  then show "vc_origin (vc n s) \<le> vc_origin (vc n s) + r * video_size_row s + 2 * c" "vc_origin (vc n s) + r * video_size_row s + 2 * c < vc_scr_end (vc n s)"
    using rc cd(3) v(6) by (simp_all add: distrib_right)
qed

lemma good_other_cells:
  assumes ok: "consoles_ok s" and g: "good n s s'" and nm: "n < NR_CONSOLES s" "m < NR_CONSOLES s" "m \<noteq> n"
    and rc: "0 \<le> r" "r < video_num_lines s" "0 \<le> c" "c < video_num_columns s"
  shows "cell m s' r c = cell m s r c"
proof -
  let ?a = "vc_origin (vc m s) + r * video_size_row s + 2 * c"
  have lo: "layout s' = layout s" and vm: "vc m s' = vc m s"
    and out: "?a < vc_video_mem_start (vc n s) \<or> vc_video_mem_end (vc n s) \<le> ?a \<Longrightarrow> vmem s' ?a = vmem s ?a"
    using g nm(3) unfolding good_def confined_def by auto
  have ro: "video_size_row s' = video_size_row s" using lo by (simp add: layout_def)
  note cm = cell_in_memory [OF consoles_okD(6) [OF ok nm(2)] rc] and v = vc_okD [OF con_okD(4) [OF consoles_okD(6) [OF ok nm(2)]]]
  have "fst (memory_of s m) \<le> ?a" "?a < snd (memory_of s m)"
    using cm v(7,8) consoles_okD(7,8) [OF ok nm(2)] by linarith+
  from memories_disjoint [OF ok nm(1,2) nm(3) [symmetric] this]
  have "vmem s' ?a = vmem s ?a" by (intro out) (simp add: consoles_okD(7,8) [OF ok nm(1)])
  then show ?thesis by (simp add: cell_def ro vm)
qed

lemma good_consoles_ok:
  assumes ok: "consoles_ok s" and g: "good n s s'" and n: "n < NR_CONSOLES s"
  shows "consoles_ok s'"
proof -
  have lo: "layout s' = layout s" and cn: "con_ok n s'" and vm: "\<And>m. m \<noteq> n \<Longrightarrow> vc m s' = vc m s"
    and st: "vc_video_mem_start (vc n s') = vc_video_mem_start (vc n s)" "vc_video_mem_end (vc n s') = vc_video_mem_end (vc n s)"
    using g unfolding good_def confined_def by auto
  note fl = lo [unfolded layout_def prod.inject]
  have mo: "memory_of s' k = memory_of s k" and ap: "apart s' = apart s" for k using fl by (simp_all add: memory_of_def apart_def)
  have "con_ok k s'" "vc_video_mem_start (vc k s') = fst (memory_of s' k)" "vc_video_mem_end (vc k s') = snd (memory_of s' k)" if "k < NR_CONSOLES s" for k
    unfolding mo using cn vm [of k] st consoles_okD(6,7,8) [OF ok that] fl
    by (cases "k = n"; simp add: con_ok_def geometry_def vc_ok_cong [of s' s])+
  then show ?thesis unfolding consoles_ok_def using fl ap consoles_okD(1-5) [OF ok] by (simp add: prod_eq_iff)
qed

subsection \<open>Output\<close>

lemma con_write_good:
  assumes "con_ok n s"
  shows "\<exists>q' s'. con_write n stopped q s = Some (q', s') \<and> good n s s' \<and> (n < 8 \<and> \<not> stopped \<longrightarrow> q' = [])"
proof -
  have fin: "good n s (blank_timer (set_cursor n t))" if "good n s t" for t
    by (rule good_then [OF good_then [OF that good_same_screen [OF _ same_screen_ops(2)]] good_same_screen [OF _ same_screen_ops(5)]])
  obtain t where "con_chars n q s = Some t" "good n s t" using con_chars_good [OF assms] by blast
  then show ?thesis using fin [of t] fin [OF good_refl [OF assms]] good_refl [OF assms] by (simp add: con_write_def)
qed

lemma wrap_once:
  assumes "con_ok n s"
  shows "wrap_line n s = Some (if vc_x (vc n s) \<ge> video_num_columns s
    then lf n (upd_vc n (\<lambda>v. v\<lparr>vc_x := vc_x v - video_num_columns s, vc_pos := vc_pos v - video_size_row s\<rparr>) s) else s)"
  using con_okD(1) [OF assms] vc_okD(2) [OF con_okD(4) [OF assms]]
  by (subst wrap_line.simps, subst wrap_line.simps) (simp add: lf_x)

lemma print_chars_good: "con_ok n s \<Longrightarrow> good n s (print_chars n cs s)"
proof (induction cs arbitrary: s)
  case (Cons c cs)
  let ?w = "if vc_x (vc n s) \<ge> video_num_columns s
    then lf n (upd_vc n (\<lambda>v. v\<lparr>vc_x := vc_x v - video_num_columns s, vc_pos := vc_pos v - video_size_row s\<rparr>) s) else s"
  have w: "good n s ?w" "vc_x (vc n ?w) < video_num_columns ?w" using wrap_line_good [OF Cons.prems] wrap_once [OF Cons.prems] by auto
  have p: "good n s (put_cell n c ?w)" by (rule good_trans [OF w(1) put_cell_good [OF good_con_ok [OF w(1)] w(2)]])
  have l: "good n s (cr n s)" "good n s (lf n (cr n s))"
    using cr_good [OF Cons.prems] good_then [OF cr_good [OF Cons.prems] lf_good] by auto
  show ?case unfolding print_chars.simps
    by (intro good_if good_refl [OF Cons.prems] good_then [OF l(1) Cons.IH] good_then [OF l(2) Cons.IH] good_then [OF p Cons.IH])
qed (simp add: good_refl)

lemma console_print_good: "con_ok (fg_console s) s \<Longrightarrow> good (fg_console s) s (console_print b s)"
  unfolding console_print_def by (rule good_then [OF print_chars_good good_same_screen]) (auto intro: same_screen_ops)

subsection \<open>Switching\<close>

lemma kbdsave_simps [simp]:
  "layout (kbdsave k s) = layout s" "vmem (kbdsave k s) = vmem s" "same_place (vc n s) (vc n (kbdsave k s))"
  by (simp_all add: kbdsave_def layout_def same_place_def upd_vc_def Let_def)

lemma memcpy_simps: "d \<le> a \<Longrightarrow> a < d + cnt \<Longrightarrow> memcpy d s cnt m a = m (s + (a - d))" "a < d \<or> d + cnt \<le> a \<Longrightarrow> memcpy d s cnt m a = m a"
  by (auto simp: memcpy_def)

lemma kbdsave_other [simp]: "n \<noteq> fg_console s \<Longrightarrow> vc n (kbdsave k s) = vc n s"
  by (simp add: kbdsave_def upd_vc_def Let_def)

text \<open>A screen moved to another place in memory, from \<open>a\<close> to \<open>b\<close>.\<close>

definition placed :: "int \<Rightarrow> int \<Rightarrow> con \<Rightarrow> vc_struct \<Rightarrow> vc_struct" where
  "placed a b s v = v\<lparr>vc_video_mem_start := a, vc_video_mem_end := b, vc_origin := a, vc_scr_end := a + screen_size s,
    vc_pos := a + vc_y v * video_size_row s + 2 * vc_x v\<rparr>"

lemma placed_same: "layout t = layout s \<Longrightarrow> same_place v w \<Longrightarrow> same_place (placed a b s v) (placed a b t w)"
  by (simp add: placed_def same_place_def layout_def)

lemma get_scrmem_state:
  "vmem (get_scrmem (fg_console s) s) = memcpy (vc_scrbuf s (fg_console s)) (vc_origin (vc (fg_console s) s)) (screen_size s) (vmem s)"
  "layout (get_scrmem n s) = layout s"
  "vc m (get_scrmem n s) = (if m = n then placed (vc_scrbuf s (fg_console s)) (vc_scrbuf s (fg_console s) + screen_size s) s (vc m s) else vc m s)"
  by (simp_all add: get_scrmem_def placed_def Let_def upd_vc_def upd_mem_def layout_def)

lemma set_scrmem_state:
  "vmem (set_scrmem n s) = memcpy (video_mem_base s) (vc_scrbuf s (fg_console s)) (screen_size s) (vmem s)"
  "layout (set_scrmem n s) = layout s"
  "vc m (set_scrmem n s) = (if m = n then placed (video_mem_base s) (video_mem_term s) s (vc m s) else vc m s)"
  by (simp_all add: set_scrmem_def placed_def Let_def upd_vc_def upd_mem_def layout_def)

text \<open>The state after a switch from another console.\<close>

lemma update_screen_state:
  assumes k: "k \<noteq> fg_console s"
  shows "vmem (update_screen k s) = memcpy (video_mem_base s) (vc_scrbuf s k) (screen_size s)
      (memcpy (vc_scrbuf s (fg_console s)) (vc_origin (vc (fg_console s) s)) (screen_size s) (vmem s))"
    "layout (update_screen k s) = layout (s\<lparr>fg_console := k\<rparr>)"
    "same_place (placed (vc_scrbuf s (fg_console s)) (vc_scrbuf s (fg_console s) + screen_size s) s (vc (fg_console s) s)) (vc (fg_console s) (update_screen k s))"
    "same_place (placed (video_mem_base s) (video_mem_term s) s (vc k s)) (vc k (update_screen k s))"
    "n \<noteq> k \<Longrightarrow> n \<noteq> fg_console s \<Longrightarrow> vc n (update_screen k s) = vc n s"
proof -
  define t where "t = kbdsave k s"
  define u where "u = get_scrmem (fg_console t) t"
  define w where "w = set_scrmem k (u\<lparr>fg_console := k\<rparr>)"
  have e: "update_screen k s = set_cursor k (set_origin k w)" using k by (simp add: update_screen_def Let_def t_def u_def w_def)
  have lt: "layout t = layout s" by (simp add: t_def)
  note ft = lt [unfolded layout_def prod.inject, simplified]
  have lu: "layout u = layout s" by (simp add: u_def get_scrmem_state lt)
  note fu = lu [unfolded layout_def prod.inject, simplified]
  have lw: "layout w = layout (s\<lparr>fg_console := k\<rparr>)" unfolding w_def set_scrmem_state using fu by (simp add: layout_def)
  have lc: "layout (set_cursor k x) = layout x" "layout (set_origin k x) = layout x" for x
    using same_screen_ops(1) [of x k] same_screen_ops(2) [of x k] by (simp_all add: same_screen_def)
  have tv: "vc_origin (vc (fg_console s) t) = vc_origin (vc (fg_console s) s)" "vmem t = vmem s"
    using kbdsave_simps(3) [of s "fg_console s" k] by (simp_all add: t_def same_place_def)
  have mu: "vmem u = memcpy (vc_scrbuf s (fg_console s)) (vc_origin (vc (fg_console s) s)) (screen_size s) (vmem s)"
    unfolding u_def get_scrmem_state(1) using ft tv by simp
  have vu: "vc m u = (if m = fg_console s then placed (vc_scrbuf s (fg_console s)) (vc_scrbuf s (fg_console s) + screen_size s) t (vc m t) else vc m s)" for m
    unfolding u_def get_scrmem_state using ft by (simp add: t_def)
  have vw: "vc m w = (if m = k then placed (video_mem_base s) (video_mem_term s) (u\<lparr>fg_console := k\<rparr>) (vc m u) else vc m u)" for m
    unfolding w_def set_scrmem_state using fu by simp
  show "vmem (update_screen k s) = memcpy (video_mem_base s) (vc_scrbuf s k) (screen_size s)
      (memcpy (vc_scrbuf s (fg_console s)) (vc_origin (vc (fg_console s) s)) (screen_size s) (vmem s))"
    unfolding e crtc_simps w_def set_scrmem_state using fu mu by simp
  show "layout (update_screen k s) = layout (s\<lparr>fg_console := k\<rparr>)" by (simp add: e lc lw)
  show "same_place (placed (vc_scrbuf s (fg_console s)) (vc_scrbuf s (fg_console s) + screen_size s) s (vc (fg_console s) s)) (vc (fg_console s) (update_screen k s))"
    unfolding e crtc_simps vw vu using k placed_same [OF lt kbdsave_simps(3) [of s "fg_console s" k, folded t_def]] by simp
  show "same_place (placed (video_mem_base s) (video_mem_term s) s (vc k s)) (vc k (update_screen k s))"
    unfolding e crtc_simps vw vu using k fu by (simp add: placed_def same_place_def)
  show "n \<noteq> k \<Longrightarrow> n \<noteq> fg_console s \<Longrightarrow> vc n (update_screen k s) = vc n s"
    unfolding e crtc_simps vw vu by simp
qed

lemma vc_ok_same_place: "same_place v w \<Longrightarrow> vc_ok s w = vc_ok s v"
  by (simp add: same_place_def vc_ok_def)

text \<open>In the background a screen fills the memory of its console.\<close>

lemma background_origin:
  assumes "consoles_ok s" "n < NR_CONSOLES s" "n \<noteq> fg_console s"
  shows "vc_origin (vc n s) = vc_scrbuf s n"
  using vc_okD(6-8) [OF con_okD(4) [OF consoles_okD(6) [OF assms(1,2)]]] consoles_okD(3) [OF assms(1)] consoles_okD(7,8) [OF assms(1,2)] assms(3)
  by (simp add: memory_of_def)

lemma update_screen_ok:
  assumes ok: "consoles_ok s" and k: "k < NR_CONSOLES s"
  shows "consoles_ok (update_screen k s)"
proof (cases "k = fg_console s")
  case False
  let ?s = "update_screen k s" and ?f = "fg_console s"
  note us = update_screen_state [OF False]
  note lo = us(2) [unfolded layout_def prod.inject, simplified]
  note cd = consoles_okD [OF ok]
  have lines: "screen_size s = video_num_lines s * video_size_row s" by (rule cd(3))
  have v: "vc_ok ?s w = vc_ok s w" for w using lo by (intro vc_ok_cong) auto
  have geo: "geometry ?s" using cd(6) [OF k] lo by (simp add: con_ok_def geometry_def)
  have ap: "apart ?s" using cd(5) lo by (simp add: apart_def)
  have "con_ok n ?s \<and> (vc_video_mem_start (vc n ?s), vc_video_mem_end (vc n ?s)) = memory_of ?s n" if n: "n < NR_CONSOLES s" for n
  proof -
    have vn: "vc_ok s (vc n s)" by (rule con_okD(4) [OF cd(6) [OF n]])
    consider "n = k" | "n = ?f" "n \<noteq> k" | "n \<noteq> ?f" "n \<noteq> k" by blast
    then show ?thesis
    proof cases
      case 1
      show ?thesis using us(4) vc_ok_same_place [OF us(4), of s] vn lines cd(4) False 1 geo lo
        by (simp add: con_ok_def v same_place_def memory_of_def vc_ok_def placed_def)
    next
      case 2
      show ?thesis using us(3) vc_ok_same_place [OF us(3), of s] vn lines 2 geo lo
        by (simp add: con_ok_def v same_place_def memory_of_def vc_ok_def placed_def)
    next
      case 3
      show ?thesis using us(5) [OF 3(2,1)] vn 3 geo lo cd(7,8) [OF n] by (simp add: con_ok_def v memory_of_def)
    qed
  qed
  then show ?thesis unfolding consoles_ok_def using lo cd(2-4) k ap by simp
qed (simp add: update_screen_def ok)

lemma update_screen_cells:
  assumes ok: "consoles_ok s" and k: "k < NR_CONSOLES s" "n < NR_CONSOLES s"
    and rc: "0 \<le> r" "r < video_num_lines s" "0 \<le> c" "c < video_num_columns s"
  shows "cell n (update_screen k s) r c = cell n s r c"
proof (cases "k = fg_console s")
  case False
  let ?s = "update_screen k s" and ?f = "fg_console s" and ?o = "r * video_size_row s + 2 * c"
  note us = update_screen_state [OF False]
  have row: "video_size_row ?s = video_size_row s" using us(2) by (simp add: layout_def)
  note cd = consoles_okD [OF ok] and ap = consoles_okD(5) [OF ok, unfolded apart_def]
  have sz: "0 \<le> ?o" "?o < screen_size s"
    using cell_in_memory [OF cd(6) [OF k(2)] rc] vc_okD(6) [OF con_okD(4) [OF cd(6) [OF k(2)]]] cd(3) by linarith+
  have v: "vc_scrbuf s j + screen_size s \<le> video_mem_base s \<or> video_mem_base s + screen_size s \<le> vc_scrbuf s j" if "j < NR_CONSOLES s" for j
    using ap that cd(4) by force
  have b: "vc_scrbuf s ?f + screen_size s \<le> vc_scrbuf s j \<or> vc_scrbuf s j + screen_size s \<le> vc_scrbuf s ?f" if "j < NR_CONSOLES s" "j \<noteq> ?f" for j
    using ap that cd(1) by (cases "?f < j") auto
  have out: "vmem ?s (vc_scrbuf s j + ?o) = vmem s (vc_scrbuf s j + ?o)" if "j < NR_CONSOLES s" "j \<noteq> ?f" for j
    unfolding us(1) by (subst memcpy_simps(2), use v [OF that(1)] sz in linarith, subst memcpy_simps(2), use b [OF that] sz in linarith, simp)
  consider "n = k" | "n = ?f" | "n \<noteq> ?f" "n \<noteq> k" by blast
  then have "vmem ?s (vc_origin (vc n ?s) + ?o) = vmem s (vc_origin (vc n s) + ?o)"
  proof cases
    case 1
    have "vc_origin (vc n ?s) = video_mem_base s" using us(4) 1 by (simp add: same_place_def placed_def)
    moreover have "vmem ?s (video_mem_base s + ?o) = memcpy (vc_scrbuf s ?f) (vc_origin (vc ?f s)) (screen_size s) (vmem s) (vc_scrbuf s k + ?o)"
      unfolding us(1) using sz by (subst memcpy_simps(1)) auto
    moreover have "\<dots> = vmem s (vc_scrbuf s k + ?o)" using b [OF k(1) False] sz by (intro memcpy_simps(2)) linarith
    ultimately show ?thesis using background_origin [OF ok k(1) False] 1 by simp
  next
    case 2
    have "vc_origin (vc n ?s) = vc_scrbuf s ?f" using us(3) 2 by (simp add: same_place_def placed_def)
    moreover have "vmem ?s (vc_scrbuf s ?f + ?o) = vmem s (vc_origin (vc ?f s) + ?o)"
      unfolding us(1) by (subst memcpy_simps(2), use v [OF cd(1)] sz in linarith, subst memcpy_simps(1)) (use sz in auto)
    ultimately show ?thesis using 2 by simp
  next
    case 3
    then show ?thesis using out [OF k(2) 3(1)] us(5) [OF 3(2,1)] background_origin [OF ok k(2) 3(1)] by simp
  qed
  then show ?thesis by (simp add: cell_def row add.assoc)
qed (simp add: update_screen_def)

lemma update_screen_cursor:
  "fg_console (update_screen k s) = k" "vc_x (vc n (update_screen k s)) = vc_x (vc n s)" "vc_y (vc n (update_screen k s)) = vc_y (vc n s)"
proof -
  have "fg_console (update_screen k s) = k \<and> vc_x (vc n (update_screen k s)) = vc_x (vc n s) \<and> vc_y (vc n (update_screen k s)) = vc_y (vc n s)"
  proof (cases "k = fg_console s")
    case False
    note us = update_screen_state [OF False]
    have "fg_console (update_screen k s) = k" using us(2) by (simp add: layout_def)
    then show ?thesis using us(3,4) us(5) [of n] by (cases "n = k"; cases "n = fg_console s") (simp_all add: same_place_def placed_def)
  qed (simp add: update_screen_def)
  then show "fg_console (update_screen k s) = k" "vc_x (vc n (update_screen k s)) = vc_x (vc n s)" "vc_y (vc n (update_screen k s)) = vc_y (vc n s)" by simp_all
qed

subsection \<open>Initialisation\<close>

text \<open>
  The video modes the code is meant for: a screen fits into the memory of the card, and the kernel's buffer is not the video memory.  Before \<^verbatim>\<open>con_init\<close> the
  table of consoles is in the zeroed data segment of the kernel.
\<close>

definition boot_ok :: "boot_params \<Rightarrow> bool" where
  "boot_ok p \<longleftrightarrow> 8 \<le> ORIG_VIDEO_COLS p \<and> 0 < ORIG_VIDEO_LINES p \<and>
    ORIG_VIDEO_LINES p * (ORIG_VIDEO_COLS p * 2) \<le> (if ORIG_VIDEO_EGA_BX p AND 0xFF \<noteq> 0x10 then 0x8000 else 0x2000) \<and>
    (scrmembuf p + MEM_BUFFER_SIZE \<le> 0xB0000 \<or> 0xC0000 \<le> scrmembuf p)"

definition zeroed :: "con \<Rightarrow> bool" where
  "zeroed s \<longleftrightarrow> fg_console s = 0 \<and> vc_x (vc 0 s) = 0 \<and> vc_y (vc 0 s) = 0 \<and> vc_npar (vc 0 s) = 0 \<and> vc_par (vc 0 s) = replicate 16 0"

text \<open>The tables after the loop over the other consoles.\<close>

lemma next_console_layout [simp]: "layout (next_console p n s) = layout s"
  by (simp add: next_console_def gotoxy_def Let_def)

lemma next_console_vc:
  assumes "8 \<le> video_num_columns s" "0 < video_num_lines s"
  shows "vc m (next_console p n s) = (if m = n then (placed (scrmembuf p + int n * screen_size s) (scrmembuf p + int n * screen_size s + screen_size s) s
    ((vc 0 s)\<lparr>vc_x := 0, vc_y := 0\<rparr>))\<lparr>vc_scr_end := scrmembuf p + int n * screen_size s + video_num_lines s * video_size_row s\<rparr> else vc m s)"
  using assms by (simp add: next_console_def gotoxy_def placed_def Let_def)

lemma next_consoles:
  assumes "8 \<le> video_num_columns s" "0 < video_num_lines s"
  shows "layout (fold (next_console p) [1..<k] s) = layout s \<and>
    vc m (fold (next_console p) [1..<k] s) = (if 1 \<le> m \<and> m < k then (placed (scrmembuf p + int m * screen_size s) (scrmembuf p + int m * screen_size s + screen_size s) s
    ((vc 0 s)\<lparr>vc_x := 0, vc_y := 0\<rparr>))\<lparr>vc_scr_end := scrmembuf p + int m * screen_size s + video_num_lines s * video_size_row s\<rparr> else vc m s)"
proof (induction k arbitrary: m)
  case (Suc k)
  define t where "t = fold (next_console p) [1..<k] s"
  note IH = Suc.IH [folded t_def]
  have lo: "layout t = layout s" using IH by blast
  note fl = lo [unfolded layout_def prod.inject, simplified]
  have v0: "vc 0 t = vc 0 s" using IH [of 0] by simp
  have pl: "placed a b t v = placed a b s v" for a b v using fl by (simp add: placed_def)
  have nx: "vc m (next_console p k t) = (if m = k then (placed (scrmembuf p + int k * screen_size s) (scrmembuf p + int k * screen_size s + screen_size s) s
    ((vc 0 s)\<lparr>vc_x := 0, vc_y := 0\<rparr>))\<lparr>vc_scr_end := scrmembuf p + int k * screen_size s + video_num_lines s * video_size_row s\<rparr> else vc m t)"
    using next_console_vc [where s = t and m = m and p = p and n = k] assms fl by (simp add: v0 pl)
  show ?case
  proof (cases "1 \<le> k")
    case True
    then have f: "fold (next_console p) [1..<Suc k] s = next_console p k t" by (simp add: t_def)
    show ?thesis unfolding f using True IH [of m] nx by (auto simp: lo)
  qed auto
qed simp

text \<open>The place of the consoles before the table of buffers is filled, and after.\<close>

lemma video_card_place:
  "video_mem_base (video_card p s) = (if ORIG_VIDEO_MODE p = 7 then 0xB0000 else 0xB8000)"
  "video_mem_term (video_card p s) = video_mem_base (video_card p s) + (if ORIG_VIDEO_EGA_BX p AND 0xFF \<noteq> 0x10 then 0x8000 else 0x2000)"
  "fg_console (video_card p s) = fg_console s" "video_num_columns (video_card p s) = video_num_columns s" "video_num_lines (video_card p s) = video_num_lines s"
  "video_size_row (video_card p s) = video_size_row s" "vc_cons (video_card p s) = vc_cons s"
  by (simp_all add: video_card_def Let_def)

lemma first_console_vc:
  "layout (first_console p s) = layout s"
  "let v = vc 0 (first_console p s) in vc_top v = 0 \<and> vc_bottom v = video_num_lines s \<and> vc_npar v = vc_npar (vc 0 s) \<and> vc_par v = vc_par (vc 0 s) \<and>
     vc_origin v = scrmembuf p \<and>
     (vc_x v = vc_x (vc 0 s) \<and> vc_y v = vc_y (vc 0 s) \<or> 0 \<le> vc_x v \<and> vc_x v \<le> video_num_columns s \<and> 0 \<le> vc_y v \<and> vc_y v < video_num_lines s)"
  by (auto simp: first_console_def gotoxy_def Let_def)

lemma placed_fields:
  "vc_origin (placed a b s v) = a" "vc_video_mem_start (placed a b s v) = a" "vc_video_mem_end (placed a b s v) = b" "vc_x (placed a b s v) = vc_x v" "vc_y (placed a b s v) = vc_y v"
  "vc_pos (placed a b s v) = a + vc_y v * video_size_row s + 2 * vc_x v" "vc_top (placed a b s v) = vc_top v" "vc_bottom (placed a b s v) = vc_bottom v"
  "vc_npar (placed a b s v) = vc_npar v" "vc_par (placed a b s v) = vc_par v"
  by (simp_all add: placed_def)

lemma con_setup_state:
  assumes "zeroed s"
  shows "video_num_columns (con_setup p s) = ORIG_VIDEO_COLS p" "video_num_lines (con_setup p s) = ORIG_VIDEO_LINES p"
    "video_size_row (con_setup p s) = ORIG_VIDEO_COLS p * 2" "screen_size (con_setup p s) = ORIG_VIDEO_LINES p * (ORIG_VIDEO_COLS p * 2)"
    "fg_console (con_setup p s) = 0" "video_mem_base (con_setup p s) = (if ORIG_VIDEO_MODE p = 7 then 0xB0000 else 0xB8000)"
    "video_mem_term (con_setup p s) = video_mem_base (con_setup p s) + (if ORIG_VIDEO_EGA_BX p AND 0xFF \<noteq> 0x10 then 0x8000 else 0x2000)"
    "vc_x (vc 0 (con_setup p s)) = 0" "vc_y (vc 0 (con_setup p s)) = 0" "vc_npar (vc 0 (con_setup p s)) = 0" "vc_par (vc 0 (con_setup p s)) = replicate 16 0"
  using assms by (simp_all add: con_setup_def zeroed_def video_card_place Let_def upd_mem_def)

lemma con_setup_number:
  assumes p: "boot_ok p" and z: "zeroed s"
  shows "0 < NR_CONSOLES (con_setup p s)" "NR_CONSOLES (con_setup p s) \<le> 8" "int (NR_CONSOLES (con_setup p s)) * screen_size (con_setup p s) \<le> MEM_BUFFER_SIZE"
proof -
  let ?z = "ORIG_VIDEO_LINES p * (ORIG_VIDEO_COLS p * 2)" and ?k = "nat (MEM_BUFFER_SIZE div (ORIG_VIDEO_LINES p * (ORIG_VIDEO_COLS p * 2)))"
  have nr: "NR_CONSOLES (con_setup p s) = (if ?k > 8 then 8 else if ?k = 0 then 1 else ?k)"
    by (simp add: con_setup_def Let_def video_card_place)
  have z0: "0 < ?z" using p by (simp add: boot_ok_def)
  have z1: "?z \<le> MEM_BUFFER_SIZE" using p by (auto simp: boot_ok_def MEM_BUFFER_SIZE_def split: if_splits)
  have "?z div ?z \<le> MEM_BUFFER_SIZE div ?z" by (rule zdiv_mono1 [OF z1 z0])
  moreover have "?z div ?z = 1" by (rule div_self) (use z0 in linarith)
  ultimately have d: "1 \<le> MEM_BUFFER_SIZE div ?z" by linarith
  then have k: "?k \<noteq> 0" "int ?k = MEM_BUFFER_SIZE div ?z" by linarith+
  have "int ?k * ?z \<le> MEM_BUFFER_SIZE" unfolding k(2) using div_mult_mod_eq [of MEM_BUFFER_SIZE ?z] pos_mod_sign [OF z0, of MEM_BUFFER_SIZE] by linarith
  moreover have "int (NR_CONSOLES (con_setup p s)) * ?z \<le> int ?k * ?z" using z0 k by (intro mult_right_mono) (auto simp: nr)
  ultimately show "int (NR_CONSOLES (con_setup p s)) * screen_size (con_setup p s) \<le> MEM_BUFFER_SIZE" unfolding con_setup_state(4) [OF z] by linarith
  show "0 < NR_CONSOLES (con_setup p s)" "NR_CONSOLES (con_setup p s) \<le> 8" using k by (auto simp: nr)
qed

lemma buffers_apart:
  assumes z: "0 \<le> z" and b: "\<And>n. n < k \<Longrightarrow> b n = a + int n * z" and fit: "int k * z \<le> len" and far: "a + len \<le> base \<or> term_a \<le> (a :: int)"
  shows "n < k \<Longrightarrow> b n + z \<le> base \<or> term_a \<le> b n" "n < k \<Longrightarrow> m < n \<Longrightarrow> b m + z \<le> b n"
proof -
  show "b n + z \<le> base \<or> term_a \<le> b n" if n: "n < k"
  proof -
    have "(int n + 1) * z \<le> int k * z" by (rule row_le [OF z]) (use n in simp)
    then have "b n + z \<le> a + len" "a \<le> b n" using fit z by (simp_all add: b [OF n] distrib_right)
    then show ?thesis using far by linarith
  qed
  show "b m + z \<le> b n" if "n < k" "m < n"
  proof -
    have "(int m + 1) * z \<le> int n * z" by (rule row_le [OF z]) (use that in simp)
    then show ?thesis using that by (simp add: b distrib_right)
  qed
qed

lemma con_init_ok:
  assumes p: "boot_ok p" and z: "zeroed s"
  shows "consoles_ok (con_init p s)"
proof -
  define s1 where "s1 = con_setup p s"
  define s2 where "s2 = first_console p s1"
  define s3 where "s3 = fold (next_console p) [1..<NR_CONSOLES s2] s2"
  define b where "b = (\<lambda>n. if n < NR_CONSOLES s3 then vc_origin (vc n s3) else vc_scrbuf s3 n)"
  define s5 where "s5 = con_init p s"
  note st = con_setup_state [OF z, of p, folded s1_def] and nr = con_setup_number [OF p z, folded s1_def]
  note fc = first_console_vc [of p s1, folded s2_def, unfolded Let_def]
  have geo: "8 \<le> video_num_columns s1" "0 < video_num_lines s1" "video_size_row s1 = 2 * video_num_columns s1" using p st by (simp_all add: boot_ok_def)
  note l2 = fc(1) [unfolded layout_def prod.inject, simplified]
  have l3: "layout s3 = layout s1" and
    v3: "vc m s3 = (if 1 \<le> m \<and> m < NR_CONSOLES s1 then (placed (scrmembuf p + int m * screen_size s1) (scrmembuf p + int m * screen_size s1 + screen_size s1) s2
    ((vc 0 s2)\<lparr>vc_x := 0, vc_y := 0\<rparr>))\<lparr>vc_scr_end := scrmembuf p + int m * screen_size s1 + video_num_lines s1 * video_size_row s1\<rparr> else vc m s2)" for m
    using next_consoles [where s = s2 and p = p and k = "NR_CONSOLES s2" and m = m, folded s3_def] geo(1,2) l2 fc(1) by simp_all
  note f3 = l3 [unfolded layout_def prod.inject, simplified]
  have b: "b n = scrmembuf p + int n * screen_size s1" if "n < NR_CONSOLES s1" for n
    using that fc(2) f3 by (cases n) (simp_all add: b_def v3 placed_fields)
  have e5: "s5 = upd_vc 0 (\<lambda>v. v\<lparr>vc_video_mem_start := video_mem_base s1, vc_video_mem_end := video_mem_term s1, vc_origin := video_mem_base s1,
      vc_scr_end := video_mem_base s1 + video_num_lines s1 * video_size_row s1, vc_top := 0, vc_bottom := video_num_lines s1,
      vc_pos := video_mem_base s1 + vc_y v * video_size_row s1 + 2 * vc_x v\<rparr>) (s3\<lparr>vc_scrbuf := b\<rparr>)"
    unfolding s5_def con_init_def Let_def s1_def [symmetric] s2_def [symmetric] s3_def [symmetric] b_def [symmetric] using f3 by simp
  have l5: "layout s5 = layout (s1\<lparr>vc_scrbuf := b\<rparr>)" unfolding e5 layout_upd using f3 by (simp add: layout_def)
  note f5 = l5 [unfolded layout_def prod.inject, simplified]
  have lines: "screen_size s1 = video_num_lines s1 * video_size_row s1" by (simp add: st)
  have z0: "0 \<le> screen_size s1" using geo by (simp add: lines)
  have fits: "video_mem_base s1 + screen_size s1 \<le> video_mem_term s1" using p by (simp add: st boot_ok_def)
  have far: "scrmembuf p + MEM_BUFFER_SIZE \<le> video_mem_base s1 \<or> video_mem_term s1 \<le> scrmembuf p"
    using p by (auto simp: st boot_ok_def split: if_splits)
  have ap: "apart s5" using buffers_apart [OF z0 b nr(3) far] by (simp add: apart_def f5)
  have geo5: "geometry s5" using geo f5 by (simp add: geometry_def)
  have ok5: "vc_ok s5 v = vc_ok s1 v" for v using f5 by (intro vc_ok_cong) auto
  have v5: "vc n s5 = (if n = 0 then (vc 0 s2)\<lparr>vc_video_mem_start := video_mem_base s1, vc_video_mem_end := video_mem_term s1, vc_origin := video_mem_base s1,
      vc_scr_end := video_mem_base s1 + video_num_lines s1 * video_size_row s1, vc_top := 0, vc_bottom := video_num_lines s1,
      vc_pos := video_mem_base s1 + vc_y (vc 0 s2) * video_size_row s1 + 2 * vc_x (vc 0 s2)\<rparr> else vc n s3)" for n
    by (simp add: e5 v3)
  have mo: "memory_of s5 n = (if n = 0 then (video_mem_base s1, video_mem_term s1) else (b n, b n + screen_size s1))" for n
    using f5 st(5) by (simp add: memory_of_def)
  have row2: "video_size_row s2 = video_size_row s1" using l2 by simp
  have "con_ok n s5 \<and> (vc_video_mem_start (vc n s5), vc_video_mem_end (vc n s5)) = memory_of s5 n" if n: "n < NR_CONSOLES s1" for n
  proof (cases "n = 0")
    case True
    show ?thesis unfolding con_ok_def ok5 mo v5 if_P [OF True]
      using geo5 geo(1,2) fc(2) st(8-11) fits [unfolded lines] by (auto simp: vc_ok_def)
  next
    case False
    have v: "vc n s5 = (placed (b n) (b n + screen_size s1) s2 ((vc 0 s2)\<lparr>vc_x := 0, vc_y := 0\<rparr>))\<lparr>vc_scr_end := b n + video_num_lines s1 * video_size_row s1\<rparr>"
      using False n by (simp add: v5 v3 b [OF n])
    show ?thesis unfolding con_ok_def ok5 mo v if_not_P [OF False]
      using geo5 geo(1,2) fc(2) st(10,11) lines by (auto simp: vc_ok_def placed_fields row2)
  qed
  then show ?thesis using f5 ap fits nr st(5) lines by (simp add: consoles_ok_def s5_def [symmetric])
qed

subsection \<open>The life of the consoles\<close>

text \<open>From initialisation on: output of processes and of the kernel, and switches of the foreground, in any order.\<close>

inductive console_reachable :: "boot_params \<Rightarrow> con \<Rightarrow> con \<Rightarrow> bool" for p z where
  boot: "console_reachable p z (con_init p z)"
| written: "console_reachable p z s \<Longrightarrow> n < NR_CONSOLES s \<Longrightarrow> con_write n stopped q s = Some (q', s') \<Longrightarrow> console_reachable p z s'"
| kernel: "console_reachable p z s \<Longrightarrow> console_reachable p z (console_print b s)"
| switch: "console_reachable p z s \<Longrightarrow> k < NR_CONSOLES s \<Longrightarrow> console_reachable p z (update_screen k s)"

inductive_cases con_reachableE: "console_reachable p z s"

text \<open>A VGA card in text mode, and the consoles before initialisation.\<close>

definition boot_vga :: boot_params where
  "boot_vga = \<lparr>ORIG_X = 0, ORIG_Y = 10, ORIG_VIDEO_MODE = 3, ORIG_VIDEO_COLS = 80, ORIG_VIDEO_LINES = 25, ORIG_VIDEO_EGA_BX = 3, scrmembuf = 0x10000\<rparr>"

definition bss_con :: con where
  "bss_con = \<lparr>vc_cons = (\<lambda>_. \<lparr>vc_video_erase_char = 0, vc_attr = 0, vc_def_attr = 0, vc_bold_attr = 0, vc_ques = False, vc_state = ESnormal,
      vc_restate = NORM_TRANS, vc_checkin = False, vc_origin = 0, vc_scr_end = 0, vc_pos = 0, vc_x = 0, vc_y = 0, vc_top = 0, vc_bottom = 0, vc_npar = 0,
      vc_par = replicate 16 0, vc_video_mem_start = 0, vc_video_mem_end = 0, vc_saved_x = 0, vc_saved_y = 0, vc_iscolor = False, vc_kbdapplic = 0,
      vc_kbdleds = 0, vc_kbdmode = 0, vc_translate = NORM_TRANS\<rparr>),
    vmem = (\<lambda>_. 0), fg_console = 0, NR_CONSOLES = 0, video_num_columns = 0, video_num_lines = 0, video_type = 0, video_mem_base = 0, video_mem_term = 0,
    video_size_row = 0, can_do_colour = False, vc_scrbuf = (\<lambda>_. 0), screen_size = 0, blankinterval = 0, console_blanked = False, kapplic = 0, kleds = 2,
    kmode = 0, con_jiffies = 0, timer_expires = (\<lambda>_. 0), timer_bits = 0, crtc = (\<lambda>_. 0), tty_termios = (\<lambda>_. DEF_TERMIOS), replies = []\<rparr>"

lemma boot_vga: "boot_ok boot_vga" "zeroed bss_con"
  by (simp_all add: boot_ok_def boot_vga_def MEM_BUFFER_SIZE_def zeroed_def bss_con_def)

lemma next_consoles_layout: "layout (fold (next_console p) ks (first_console p s)) = layout s"
  using first_console_vc(1) [of p s] by (induction ks arbitrary: rule: rev_induct) simp_all

lemma con_init_layout: "NR_CONSOLES (con_init p s) = NR_CONSOLES (con_setup p s)" "video_num_lines (con_init p s) = video_num_lines (con_setup p s)"
  "video_num_columns (con_init p s) = video_num_columns (con_setup p s)"
  using next_consoles_layout [of p _ "con_setup p s", unfolded layout_def prod.inject] by (simp_all add: con_init_def Let_def upd_vc_def)

lemma vga_layout: "NR_CONSOLES (con_init boot_vga bss_con) = 8" "video_num_lines (con_init boot_vga bss_con) = 25" "video_num_columns (con_init boot_vga bss_con) = 80"
  unfolding con_init_layout con_setup_state [OF boot_vga(2)] by (simp_all add: con_setup_def Let_def video_card_place boot_vga_def MEM_BUFFER_SIZE_def)

text \<open>
  C19. The memories of the consoles stay apart for ever: whatever is written to the consoles, by processes or by the kernel, and however the foreground is switched, after
  \<^verbatim>\<open>con_init\<close> every console has its cursor on its screen (or just behind the end of a line), its scrolling region within the screen and its screen within its
  memory; the console in the foreground has the memory of the video card and the others the parts of \<^verbatim>\<open>vc_scrmembuf\<close> assigned to them, which do not overlap.
\<close>

theorem consoles_invariant:
  assumes "boot_ok p" "zeroed z" "console_reachable p z s"
  shows "consoles_ok s"
  using assms(3)
proof induction
  case boot
  show ?case by (rule con_init_ok [OF assms(1,2)])
next
  case (written s n stopped q q' s')
  obtain q1 s1 where "con_write n stopped q s = Some (q1, s1)" "good n s s1" using con_write_good [OF consoles_okD(6) [OF written.IH written.hyps(2)]] by blast
  then show ?case using good_consoles_ok [OF written.IH _ written.hyps(2)] written.hyps(3) by simp
next
  case (kernel s b)
  then show ?case using good_consoles_ok [OF kernel.IH console_print_good] consoles_okD(1,6) by blast
next
  case (switch s k)
  then show ?case by (intro update_screen_ok)
qed

theorem consoles_invariant_witness: "consoles_ok (update_screen 3 (con_init boot_vga bss_con))"
  by (rule consoles_invariant [OF boot_vga switch [OF boot]]) (simp add: vga_layout)

text \<open>
  C6. Output to a console: \<^verbatim>\<open>con_write\<close> returns for every sequence of characters, with the write queue empty unless the terminal is stopped, keeps the consoles
  well-formed and changes neither the state nor a single character cell of another console.
\<close>

theorem con_write_isolated:
  assumes ok: "consoles_ok s" and n: "n < NR_CONSOLES s"
  shows "\<exists>q' s'. con_write n stopped q s = Some (q', s') \<and> (stopped \<or> q' = []) \<and> consoles_ok s' \<and>
    (\<forall>m r c. m < NR_CONSOLES s \<and> m \<noteq> n \<and> 0 \<le> r \<and> r < video_num_lines s \<and> 0 \<le> c \<and> c < video_num_columns s \<longrightarrow> vc m s' = vc m s \<and> cell m s' r c = cell m s r c)"
proof -
  obtain q' s' where w: "con_write n stopped q s = Some (q', s')" "good n s s'" "n < 8 \<and> \<not> stopped \<longrightarrow> q' = []"
    using con_write_good [OF consoles_okD(6) [OF ok n]] by blast
  have "vc m s' = vc m s" if "m \<noteq> n" for m using w(2) that by (simp add: good_def confined_def)
  then show ?thesis using w good_consoles_ok [OF ok w(2) n] good_other_cells [OF ok w(2) n] consoles_okD(2) [OF ok] n by auto
qed

theorem con_write_isolated_witness:
  "\<exists>q' s'. con_write 2 False [72, 105, 27, 91, 50, 74] (con_init boot_vga bss_con) = Some (q', s') \<and> q' = [] \<and>
    consoles_ok s' \<and> cell 5 s' 24 79 = cell 5 (con_init boot_vga bss_con) 24 79"
  using con_write_isolated [OF con_init_ok [OF boot_vga], of 2 False "[72, 105, 27, 91, 50, 74]"] by (force simp: vga_layout)

text \<open>
  C20. Switching consoles loses nothing: after \<^verbatim>\<open>update_screen\<close> the requested console is in the foreground, all consoles are well-formed, and every character cell
  of every console and every cursor position is what it was before.
\<close>

theorem update_screen_preserves:
  assumes ok: "consoles_ok s" and k: "k < NR_CONSOLES s" and n: "n < NR_CONSOLES s"
    and rc: "0 \<le> r" "r < video_num_lines s" "0 \<le> c" "c < video_num_columns s"
  shows "fg_console (update_screen k s) = k \<and> consoles_ok (update_screen k s) \<and> cell n (update_screen k s) r c = cell n s r c \<and>
    vc_x (vc n (update_screen k s)) = vc_x (vc n s) \<and> vc_y (vc n (update_screen k s)) = vc_y (vc n s)"
  using update_screen_ok [OF ok k] update_screen_cells [OF ok k n rc] by (simp add: update_screen_cursor)

theorem update_screen_preserves_witness:
  "fg_console (update_screen 4 (con_init boot_vga bss_con)) = 4 \<and> consoles_ok (update_screen 4 (con_init boot_vga bss_con)) \<and>
    cell 0 (update_screen 4 (con_init boot_vga bss_con)) 10 0 = cell 0 (con_init boot_vga bss_con) 10 0"
  using update_screen_preserves [OF con_init_ok [OF boot_vga], of 4 0 10 0] by (simp add: vga_layout)

theorem scrup_scrolls_witness:
  "cell 0 (scrup 0 0 25 (con_init boot_vga bss_con)) 3 7 = cell 0 (con_init boot_vga bss_con) 4 7"
  using scrup_scrolls [OF consoles_okD(6) [OF con_init_ok [OF boot_vga], of 0], where t = 0 and b = 25 and r = 3 and c = 7] by (simp add: vga_layout)

end
