(* ===== verification/Tty_Lines.thy ===== *)
theory Tty_Lines
  imports Tty Console_Screens
begin

text \<open>
  Correctness of the terminals: the queues are bounded first-in first-out queues, the line discipline implements an editor on lists of characters,
  and a process reads the line that was typed.
\<close>

section \<open>Queues of characters\<close>

text \<open>The queue is intact and has these characters, the oldest first.\<close>

definition holds :: "tty_queue \<Rightarrow> u8 list \<Rightarrow> bool" where
  "holds q xs \<longleftrightarrow> length (q_buf q) = 1024 \<and> unat (q_tail q) < 1024 \<and> length xs < 1024 \<and> unat (q_head q) = (unat (q_tail q) + length xs) mod 1024 \<and>
    (\<forall>k < length xs. q_buf q ! ((unat (q_tail q) + k) mod 1024) = xs ! k)"

lemma holdsD:
  assumes "holds q xs"
  shows "length (q_buf q) = 1024" "unat (q_tail q) < 1024" "length xs < 1024" "unat (q_head q) = (unat (q_tail q) + length xs) mod 1024"
    "k < length xs \<Longrightarrow> q_buf q ! ((unat (q_tail q) + k) mod 1024) = xs ! k" "unat (q_head q) < 1024"
  using assms by (simp_all add: holds_def)

lemma uint_and_ring: "uint (w AND 1023 :: u32) = uint w mod 1024"
proof -
  have "w AND 1023 = take_bit 10 w" by (simp add: take_bit_eq_mask mask_eq_exp_minus_1)
  then show ?thesis by (simp add: unsigned_take_bit_eq take_bit_int_def)
qed

lemma mod_word_ring: "(x mod 4294967296) mod 1024 = (x :: int) mod 1024"
  by (rule mod_mod_cancel) simp

lemma unat_ring: "uint w = int n \<Longrightarrow> unat (w :: u32) = n"
  by (simp add: unat_eq_nat_uint)

lemma uint_unat_u32: "uint (w :: u32) = int (unat w)"
  by simp

lemma unat_INC: "unat (INC a) = (unat a + 1) mod 1024"
  by (rule unat_ring) (simp add: INC_def uint_and_ring uint_word_ariths mod_word_ring zmod_int add.commute)

lemma unat_DEC: "unat (DEC a) = (unat a + 1023) mod 1024"
proof (rule unat_ring)
  have "uint (DEC a) = (uint a - 1) mod 1024" by (simp add: DEC_def uint_and_ring uint_word_ariths mod_word_ring)
  also have "\<dots> = (uint a - 1 + 1024) mod 1024" by (rule mod_add_self2 [symmetric])
  finally show "uint (DEC a) = int ((unat a + 1023) mod 1024)" by (simp add: zmod_int add.commute)
qed

lemma unat_CHARS:
  assumes "holds q xs"
  shows "unat (CHARS q) = length xs"
proof (rule unat_ring)
  note h = holdsD [OF assms]
  have "uint (CHARS q) = (int (unat (q_head q)) - int (unat (q_tail q))) mod 1024" by (simp add: CHARS_def uint_and_ring uint_word_ariths mod_word_ring)
  also have "\<dots> = int (length xs) mod 1024" unfolding h(4) zmod_int by (simp add: mod_diff_left_eq)
  finally show "uint (CHARS q) = int (length xs)" using h(3) by simp
qed

lemma unat_LEFT:
  assumes "holds q xs"
  shows "unat (LEFT q) = 1023 - length xs"
proof (rule unat_ring)
  note h = holdsD [OF assms]
  have "uint (LEFT q) = (int (unat (q_tail q)) - int (unat (q_head q)) - 1) mod 1024"
    by (simp add: LEFT_def uint_and_ring uint_word_ariths mod_word_ring mod_diff_left_eq)
  also have "\<dots> = (- int (length xs) - 1) mod 1024" 
  proof -
    have "(int t - (int (t + l)) mod 1024 - 1) mod 1024 = (int t - int (t + l) - 1) mod 1024" for t l :: nat
      by (metis mod_diff_left_eq mod_diff_right_eq)
    from this [of "unat (q_tail q)" "length xs"] show ?thesis unfolding h(4) zmod_int by simp
  qed
  also have "\<dots> = (- int (length xs) - 1 + 1024) mod 1024" by (rule mod_add_self2 [symmetric])
  also have "\<dots> = int (1023 - length xs)" using h(3) by simp
  finally show "uint (LEFT q) = int (1023 - length xs)" .
qed

lemma holds_EMPTY: "holds q xs \<Longrightarrow> EMPTY q \<longleftrightarrow> xs = []"
proof
  assume h: "holds q xs" and "EMPTY q"
  then have "CHARS q = 0" by (simp add: EMPTY_def CHARS_def)
  then show "xs = []" using unat_CHARS [OF h] by simp
next
  assume "holds q xs" "xs = []"
  then show "EMPTY q" by (simp add: holds_def EMPTY_def word_unat_eq_iff)
qed

lemma holds_FULL: "holds q xs \<Longrightarrow> FULL q \<longleftrightarrow> length xs = 1023"
  using unat_LEFT [of q xs] holdsD(3) [of q xs] by (auto simp: FULL_def unat_eq_0 [symmetric])

lemma holds_PUTCH:
  assumes h: "holds q xs" and n: "length xs < 1023"
  shows "holds (PUTCH c q) (xs @ [c])"
proof -
  note d = holdsD [OF h]
  have head: "unat (q_head q) = (unat (q_tail q) + length xs) mod 1024" by (rule d(4))
  have other: "(unat (q_tail q) + k) mod 1024 \<noteq> unat (q_head q)" if "k < length xs" for k
    using that d(2,3) unfolding head by (auto simp: mod_if split: if_splits)
  have "unat (q_head (PUTCH c q)) = (unat (q_tail q) + length (xs @ [c])) mod 1024" by (simp add: PUTCH_def unat_INC head mod_simps)
  moreover have "q_buf (PUTCH c q) ! ((unat (q_tail q) + k) mod 1024) = (xs @ [c]) ! k" if "k < length (xs @ [c])" for k
    using that other [of k] d(1,5,6) head by (cases "k < length xs") (auto simp: PUTCH_def nth_append less_Suc_eq)
  ultimately show ?thesis using d(1,2) n by (simp add: holds_def PUTCH_def)
qed

lemma holds_GETCH:
  assumes h: "holds q (x # xs)"
  shows "fst (GETCH q) = x" "holds (snd (GETCH q)) xs"
proof -
  note d = holdsD [OF h]
  show "fst (GETCH q) = x" using d(5) [of 0] d(2) by (simp add: GETCH_def)
  have "q_buf q ! (((unat (q_tail q) + 1) mod 1024 + k) mod 1024) = xs ! k" if "k < length xs" for k
    using d(5) [of "Suc k"] that by (simp add: mod_simps)
  moreover have "unat (q_head q) = ((unat (q_tail q) + 1) mod 1024 + length xs) mod 1024" using d(4) by (simp add: mod_simps)
  ultimately show "holds (snd (GETCH q)) xs" using d(1,3) by (simp add: holds_def GETCH_def unat_INC)
qed

lemma holds_LAST:
  assumes h: "holds q (xs @ [x])"
  shows "LAST q = x" "holds (q\<lparr>q_head := DEC (q_head q)\<rparr>) xs"
proof -
  note d = holdsD [OF h]
  have i: "unat (DEC (q_head q)) = (unat (q_tail q) + length xs) mod 1024"
  proof -
    have "((unat (q_tail q) + length xs + 1) mod 1024 + 1023) mod 1024 = (unat (q_tail q) + length xs + 1 + 1023) mod 1024" by (rule mod_add_left_eq)
    also have "\<dots> = (unat (q_tail q) + length xs) mod 1024" by simp
    finally show ?thesis using d(4) by (simp add: unat_DEC)
  qed
  have "1023 AND (q_head q - 1) = DEC (q_head q)" by (simp add: DEC_def and.commute)
  then show "LAST q = x" using d(5) [of "length xs"] i by (simp add: LAST_def)
  have "q_buf q ! ((unat (q_tail q) + k) mod 1024) = xs ! k" if "k < length xs" for k using d(5) [of k] that by (simp add: nth_append)
  then show "holds (q\<lparr>q_head := DEC (q_head q)\<rparr>) xs" using d(1-3) i by (simp add: holds_def)
qed

section \<open>An editor on lists\<close>

text \<open>What the line discipline means to do with a character, on the characters that have been typed and not yet read; the settings are those of a state.\<close>

definition line_kill :: "nat \<Rightarrow> ttys \<Rightarrow> u8 list \<Rightarrow> u8 list" where
  "line_kill n s xs = rev (dropWhile (\<lambda>c. \<not> line_end n c s) (rev xs))"

definition line_erase :: "nat \<Rightarrow> ttys \<Rightarrow> u8 list \<Rightarrow> u8 list" where
  "line_erase n s xs = (if xs = [] \<or> line_end n (last xs) s then xs else butlast xs)"

definition edit :: "nat \<Rightarrow> ttys \<Rightarrow> u8 \<Rightarrow> u8 list \<Rightarrow> u8 list" where
  "edit n s c xs =
    (if L_FLAG n ICANON s \<and> is_cc n VKILL c s then line_kill n s xs
     else if L_FLAG n ICANON s \<and> is_cc n VERASE c s then line_erase n s xs
     else if I_FLAG n IXON s \<and> (is_cc n VSTOP c s \<or> is_cc n VSTART c s) \<or> L_FLAG n ISIG s \<and> (is_cc n VINTR c s \<or> is_cc n VQUIT c s \<or> is_cc n VSUSP c s) then xs
     else xs @ [c])"

definition edited :: "nat \<Rightarrow> ttys \<Rightarrow> u8 list \<Rightarrow> u8 list \<Rightarrow> u8 list" where
  "edited n s input xs = fold (\<lambda>c xs. case in_char n c s of None \<Rightarrow> xs | Some c \<Rightarrow> edit n s c xs) input xs"

text \<open>Whether output is stopped after a character, and after all that was typed.\<close>

definition halts :: "nat \<Rightarrow> ttys \<Rightarrow> u8 \<Rightarrow> bool \<Rightarrow> bool" where
  "halts n s c h =
    (if L_FLAG n ICANON s \<and> (is_cc n VKILL c s \<or> is_cc n VERASE c s) \<or> \<not> I_FLAG n IXON s then h
     else is_cc n VSTOP c s \<or> h \<and> \<not> is_cc n VSTART c s)"

definition halted :: "nat \<Rightarrow> ttys \<Rightarrow> u8 list \<Rightarrow> bool \<Rightarrow> bool" where
  "halted n s input h = fold (\<lambda>c h. case in_char n c s of None \<Rightarrow> h | Some c \<Rightarrow> halts n s c h) input h"

lemma settings_cong:
  assumes "termios_of n s' = termios_of n s"
  shows "L_FLAG n f s' = L_FLAG n f s" "I_FLAG n f s' = I_FLAG n f s" "O_FLAG n f s' = O_FLAG n f s" "is_cc n i c s' = is_cc n i c s" "in_char n c s' = in_char n c s"
    "line_end n c s' = line_end n c s" "edit n s' c xs = edit n s c xs" "halts n s' c h = halts n s c h"
  using assms by (simp_all add: L_FLAG_def I_FLAG_def O_FLAG_def is_cc_def in_char_def line_end_def edit_def line_kill_def line_erase_def halts_def Let_def) blast

lemma edited_cong:
  assumes "termios_of n s' = termios_of n s"
  shows "edited n s' input xs = edited n s input xs" "halted n s' input h = halted n s input h"
  unfolding edited_def halted_def settings_cong [OF assms] by (rule refl)+

lemma edit_length: "length (edit n s c xs) \<le> length xs + 1"
  using length_dropWhile_le [of "\<lambda>c. \<not> line_end n c s" "rev xs"] by (auto simp: edit_def line_kill_def line_erase_def)

section \<open>Terminals that echo quietly\<close>

definition term_ok :: "nat \<Rightarrow> ttys \<Rightarrow> bool" where
  "term_ok n s \<longleftrightarrow> write_op (tt n s) \<noteq> no_write \<and> read_q (tt n s) \<noteq> NULL \<and> write_q (tt n s) \<noteq> NULL \<and> secondary (tt n s) \<noteq> NULL \<and>
    read_q (tt n s) \<noteq> write_q (tt n s) \<and> read_q (tt n s) \<noteq> secondary (tt n s) \<and> write_q (tt n s) \<noteq> secondary (tt n s)"

text \<open>What cooking does not change.\<close>

definition keeps :: "nat \<Rightarrow> ttys \<Rightarrow> ttys \<Rightarrow> bool" where
  "keeps n s s' \<longleftrightarrow> read_q (tt n s') = read_q (tt n s) \<and> write_q (tt n s') = write_q (tt n s) \<and> secondary (tt n s') = secondary (tt n s) \<and>
    tt_pgrp (tt n s') = tt_pgrp (tt n s) \<and> write_op (tt n s') = write_op (tt n s) \<and> termios_of n s' = termios_of n s \<and>
    fg_console (consoles s') = fg_console (consoles s) \<and> signalled (sched s) (sched s') \<and> (\<forall>p. proc_list (que p s') = proc_list (que p s))"

text \<open>The characters echoed for one that is typed or erased.\<close>

definition echo_ok :: "nat \<Rightarrow> ttys \<Rightarrow> u8 list \<Rightarrow> bool" where
  "echo_ok n s bs \<longleftrightarrow> length bs \<le> 2 \<and> (bs \<noteq> [] \<longrightarrow> L_FLAG n ECHO s \<or> L_FLAG n ECHONL s) \<and>
    (L_FLAG n ECHOCTL s \<longrightarrow> (\<forall>b \<in> set bs. 32 \<le> b \<or> b = 10 \<or> b = 13))"

lemma upd_tty_simps [simp]:
  "tty_table (upd_queue p f s) = tty_table s" "tty_queues (upd_queue p f s) q = (if q = p then f (que p s) else que q s)"
  "consoles (upd_queue p f s) = consoles s" "sched (upd_queue p f s) = sched s" "cr_flag (upd_queue p f s) = cr_flag s"
  "tty_table (upd_tty n g s) m = (if m = n then g (tt n s) else tt m s)" "tty_queues (upd_tty n g s) = tty_queues s"
  "consoles (upd_tty n g s) = consoles s" "sched (upd_tty n g s) = sched s"
  "tty_table (upd_sched h s) = tty_table s" "tty_queues (upd_sched h s) = tty_queues s" "consoles (upd_sched h s) = consoles s" "sched (upd_sched h s) = h (sched s)"
  by (simp_all add: upd_queue_def upd_tty_def upd_sched_def)

lemma queue_simps [simp]:
  "proc_list (PUTCH c q) = proc_list q" "proc_list (snd (GETCH q)) = proc_list q" "q_data (PUTCH c q) = q_data q" "q_data (snd (GETCH q)) = q_data q"
  by (simp_all add: PUTCH_def GETCH_def)

lemma putch_simps [simp]:
  "tty_table (putch p c s) = tty_table s" "consoles (putch p c s) = consoles s" "sched (putch p c s) = sched s"
  "tty_queues (putch p c s) q = (if q = p then PUTCH c (que p s) else que q s)"
  by (simp_all add: putch_def)

lemma keeps_refl: "keeps n s s"
  by (simp add: keeps_def)

lemma keeps_trans: "keeps n s t \<Longrightarrow> keeps n t u \<Longrightarrow> keeps n s u"
  by (auto simp: keeps_def intro: signalled_trans)

text \<open>\<open>still\<close> adds that output is stopped as before.\<close>

definition still :: "nat \<Rightarrow> ttys \<Rightarrow> ttys \<Rightarrow> bool" where
  "still n s s' \<longleftrightarrow> keeps n s s' \<and> stopped (tt n s') = stopped (tt n s)"

lemma still_refl: "still n s s"
  by (simp add: still_def keeps_refl)

lemma still_trans: "still n s t \<Longrightarrow> still n t u \<Longrightarrow> still n s u"
  by (auto simp: still_def intro: keeps_trans)

lemma still_keeps: "still n s t \<Longrightarrow> keeps n s t"
  by (simp add: still_def)

lemma keeps_settings: "keeps n s t \<Longrightarrow> termios_of n t = termios_of n s"
  by (simp add: keeps_def)

text \<open>The characters that wait to be read, and the count of lines among them.\<close>

definition cooked :: "nat \<Rightarrow> ttys \<Rightarrow> u8 list \<Rightarrow> bool" where
  "cooked n s xs \<longleftrightarrow> holds (sq n s) xs \<and> q_data (sq n s) = of_nat (length (filter (\<lambda>c. line_end n c s) xs))"

lemma cooked_cong: "keeps n s t \<Longrightarrow> sq n t = sq n s \<Longrightarrow> cooked n t xs = cooked n s xs"
  using settings_cong(6) [OF keeps_settings] by (simp add: cooked_def)

text \<open>The echo of a character that is accepted.\<close>

definition echo_of :: "nat \<Rightarrow> u8 \<Rightarrow> ttys \<Rightarrow> u8 list" where
  "echo_of n c s =
    (if (L_FLAG n ECHO s \<or> L_FLAG n ECHONL s) \<and> c = 10 then [10, 13]
     else if L_FLAG n ECHO s then if c < 32 \<and> L_FLAG n ECHOCTL s then [94, c + 64] else [c] else [])"

lemma echo_of_ok: "echo_ok n s (echo_of n c s)"
proof -
  have "32 \<le> c + 64" if "c < (32 :: u8)"
  proof -
    have "unat (c + 64) = unat c + 64" using that by (subst unat_plus_simple [THEN iffD1]) (simp_all add: word_le_nat_alt word_less_nat_alt unat_word_ariths)
    then show ?thesis by (simp add: word_le_nat_alt)
  qed
  then show ?thesis by (auto simp: echo_ok_def echo_of_def)
qed

lemma putch_commute: "p \<noteq> q \<Longrightarrow> putch p c (upd_queue q f s) = upd_queue q f (putch p c s)"
  by (simp add: putch_def upd_queue_def fun_upd_twist)

lemma fold_putch_commute: "p \<noteq> q \<Longrightarrow> fold (putch p) bs (upd_queue q f s) = upd_queue q f (fold (putch p) bs s)"
  by (induction bs arbitrary: s) (simp_all add: putch_commute)

lemma accept_char_echo:
  assumes "write_q (tt n s) \<noteq> secondary (tt n s)"
  shows "accept_char wr n c s = TTY_WRITE_FLUSH wr n (fold (putch (write_q (tt n s))) (echo_of n c s)
    (upd_queue (secondary (tt n s)) (\<lambda>q. PUTCH c (if line_end n c s then q\<lparr>q_data := q_data q + 1\<rparr> else q)) s))"
proof -
  let ?p = "secondary (tt n s)"
  have u: "upd_queue p g (upd_queue p f t) = upd_queue p (\<lambda>q. g (f q)) t" for p f g t by (simp add: upd_queue_def)
  have l: "L_FLAG n f (upd_queue p g s) = L_FLAG n f s" for f p g by (simp add: L_FLAG_def)
  have id: "upd_queue p (\<lambda>q. q) s = s" for p by (simp add: upd_queue_def)
  have "accept_char wr n c s = TTY_WRITE_FLUSH wr n (putch ?p c (fold (putch (write_q (tt n s))) (echo_of n c s)
    (upd_queue ?p (\<lambda>q. if line_end n c s then q\<lparr>q_data := q_data q + 1\<rparr> else q) s)))"
    by (cases "line_end n c s") (simp_all add: accept_char_def echo_of_def Let_def l id)
  then show ?thesis unfolding fold_putch_commute [OF assms] by (simp add: putch_def u)
qed

lemma wake_idle: "wait_queue (sched s) (proc_list (que p s)) = NULL \<Longrightarrow> wake p s = Done s"
  by (simp add: wake_def wake_up_def)

text \<open>Waking the readers changes nothing for a queue on which nobody sleeps.\<close>

lemma wake_chain_queues: "wake_chain fuel p s = Some t \<Longrightarrow> wait_queue t = wait_queue s"
proof (induction fuel arbitrary: p s)
  case (Suc fuel)
  from Suc.prems show ?case
    by (subst (asm) wake_chain.simps) (auto simp: Let_def dest!: Suc.IH split: if_splits)
qed simp

lemma wake_then_idle:
  assumes "wait_queue (sched u) (proc_list (wq n u)) = NULL"
  shows "then_do (wake p u) (\<lambda>s. if LEFT (wq n s) > 512 then wake (write_q (tt n s)) s else Done s) = wake p u"
proof (cases "wake p u")
  case (Done v)
  then obtain t where t: "wake_up 65 (proc_list (que p u)) (sched u) = Some t" "v = u\<lparr>sched := t\<rparr>" by (auto simp: wake_def split: option.splits)
  have "wait_queue t (proc_list (wq n u)) = NULL"
    using t(1) assms by (auto simp: wake_up_def dest!: wake_chain_queues split: if_splits)
  then have "wake (write_q (tt n v)) v = Done v" by (simp add: wake_idle t(2))
  then show ?thesis using Done by simp
qed simp_all

locale quiet_terminal =
  fixes wr :: driver and n :: nat and safe :: "ttys \<Rightarrow> bool"
  assumes base: "safe s \<Longrightarrow> term_ok n s \<and> wait_queue (sched s) (proc_list (wq n s)) = NULL"
    and other_queue: "safe s \<Longrightarrow> p = read_q (tt n s) \<or> p = secondary (tt n s) \<Longrightarrow> proc_list (f (que p s)) = proc_list (que p s) \<Longrightarrow> safe (upd_queue p f s)"
    and signals: "safe s \<Longrightarrow> signalled (sched s) (g (sched s)) \<Longrightarrow> safe (upd_sched g s)"
    and echo: "safe s \<Longrightarrow> echo_ok n s bs \<Longrightarrow>
      \<exists>s'. TTY_WRITE_FLUSH wr n (fold (putch (write_q (tt n s))) bs s) = Done s' \<and> safe s' \<and> still n s s' \<and> (\<forall>p. p \<noteq> write_q (tt n s) \<longrightarrow> que p s' = que p s)"
    and stop: "safe s \<Longrightarrow> I_FLAG n IXON s \<Longrightarrow> safe (upd_tty n (\<lambda>t. t\<lparr>stopped := True\<rparr>) s)"
    and start: "safe s \<Longrightarrow> I_FLAG n IXON s \<Longrightarrow>
      \<exists>s'. TTY_WRITE_FLUSH wr n (upd_tty n (\<lambda>t. t\<lparr>stopped := False\<rparr>) s) = Done s' \<and> safe s' \<and> keeps n s s' \<and> \<not> stopped (tt n s') \<and>
        (\<forall>p. p \<noteq> write_q (tt n s) \<longrightarrow> que p s' = que p s)"
begin

lemma keeps_queue:
  assumes "safe s" "p = read_q (tt n s) \<or> p = secondary (tt n s)" "proc_list (f (que p s)) = proc_list (que p s)"
  shows "still n s (upd_queue p f s)" "wq n (upd_queue p f s) = wq n s"
  using assms base [OF assms(1)] by (auto simp: still_def keeps_def term_ok_def)

lemma erase_echo_quiet:
  assumes "safe s"
  shows "\<exists>s'. erase_echo wr n c s = Done s' \<and> safe s' \<and> still n s s' \<and> (\<forall>p. p \<noteq> write_q (tt n s) \<longrightarrow> que p s' = que p s)"
proof (cases "L_FLAG n ECHO s")
  case True
  then have e: "echo_ok n s (if c < 32 then [127, 127] else [127])" by (simp add: echo_ok_def)
  have "erase_echo wr n c s = TTY_WRITE_FLUSH wr n (fold (putch (write_q (tt n s))) (if c < 32 then [127, 127] else [127]) s)"
    using True by (simp add: erase_echo_def Let_def)
  then show ?thesis using echo [OF assms e] by simp
next
  case False
  then show ?thesis using assms by (simp add: erase_echo_def still_refl)
qed

lemma erase_last_quiet:
  assumes safe: "safe s" and xs: "cooked n s (xs @ [x])" and x: "\<not> line_end n x s"
  shows "\<exists>s'. erase_last wr n s = Done s' \<and> safe s' \<and> still n s s' \<and> cooked n s' xs \<and> rq n s' = rq n s"
proof -
  let ?d = "\<lambda>q. q\<lparr>q_head := DEC (q_head q)\<rparr>"
  obtain t where t: "erase_echo wr n (LAST (sq n s)) s = Done t" "safe t" "still n s t" "\<forall>p. p \<noteq> write_q (tt n s) \<longrightarrow> que p t = que p s"
    using erase_echo_quiet [OF safe] by blast
  note b = base [OF safe, unfolded term_ok_def] and kt = t(3) [unfolded still_def keeps_def]
  have q: "sq n t = sq n s" "rq n t = rq n s" using t(4) kt b by metis+
  have u: "safe (upd_queue (secondary (tt n t)) ?d t)" "still n t (upd_queue (secondary (tt n t)) ?d t)"
    by (rule other_queue [OF t(2)], simp_all) (rule keeps_queue(1) [OF t(2)], simp_all)
  have "cooked n (upd_queue (secondary (tt n t)) ?d t) xs"
    using xs x holds_LAST(2) [of "sq n s" xs x] settings_cong(6) [OF keeps_settings [OF still_keeps [OF t(3)]]] settings_cong(6) [OF keeps_settings [OF still_keeps [OF u(2)]]]
    by (simp add: cooked_def q)
  moreover have "rq n (upd_queue (secondary (tt n t)) ?d t) = rq n s" using q b kt by simp
  ultimately show ?thesis using t(1) u(1) still_trans [OF t(3) u(2)] by (simp add: erase_last_def)
qed

lemma nothing_to_erase_iff:
  "cooked n s xs \<Longrightarrow> nothing_to_erase n s \<longleftrightarrow> xs = [] \<or> line_end n (last xs) s"
  using holds_EMPTY [of "sq n s" xs] holds_LAST(1) [of "sq n s" "butlast xs" "last xs"] by (auto simp: cooked_def nothing_to_erase_def)

lemma kill_line_quiet:
  assumes "safe s" "cooked n s xs" "length xs < fuel"
  shows "\<exists>s'. kill_line wr fuel n s = Done s' \<and> safe s' \<and> still n s s' \<and> cooked n s' (line_kill n s xs) \<and> rq n s' = rq n s"
  using assms
proof (induction fuel arbitrary: s xs)
  case (Suc fuel)
  show ?case
  proof (cases "nothing_to_erase n s")
    case True
    then have "line_kill n s xs = xs"
      using nothing_to_erase_iff [OF Suc.prems(2)] by (cases xs rule: rev_cases) (auto simp: line_kill_def)
    then show ?thesis using True Suc.prems by (simp add: still_refl)
  next
    case False
    then obtain ys y where xs: "xs = ys @ [y]" "\<not> line_end n y s"
      using nothing_to_erase_iff [OF Suc.prems(2)] by (cases xs rule: rev_cases) auto
    obtain t where t: "erase_last wr n s = Done t" "safe t" "still n s t" "cooked n t ys" "rq n t = rq n s"
      using erase_last_quiet [OF Suc.prems(1) Suc.prems(2) [unfolded xs(1)] xs(2)] by blast
    have "line_kill n t ys = line_kill n s xs" using xs settings_cong(6) [OF keeps_settings [OF still_keeps [OF t(3)]]] by (simp add: line_kill_def)
    then show ?thesis using Suc.IH [OF t(2,4)] Suc.prems(3) xs(1) t(1,5) False still_trans [OF t(3)] by auto
  qed
qed simp

lemma accept_char_quiet:
  assumes safe: "safe s" and xs: "cooked n s xs" and room: "length xs < 1023"
  shows "\<exists>s'. accept_char wr n c s = Done s' \<and> safe s' \<and> still n s s' \<and> cooked n s' (xs @ [c]) \<and> rq n s' = rq n s"
proof -
  let ?w = "write_q (tt n s)" and ?p = "secondary (tt n s)"
  let ?f = "\<lambda>q. PUTCH c (if line_end n c s then q\<lparr>q_data := q_data q + 1\<rparr> else q)" and ?t = "echo_of n c s"
  note b = base [OF safe, unfolded term_ok_def]
  let ?s = "upd_queue ?p ?f s"
  have s1: "safe ?s" "still n s ?s" by (rule other_queue [OF safe], simp_all) (rule keeps_queue(1) [OF safe], simp_all)
  have e: "echo_ok n ?s (echo_of n c s)" using echo_of_ok settings_cong(1) [OF keeps_settings [OF still_keeps [OF s1(2)]]] by (simp add: echo_ok_def)
  obtain t where t: "TTY_WRITE_FLUSH wr n (fold (putch ?w) (echo_of n c s) ?s) = Done t" "safe t" "still n ?s t" "\<forall>p. p \<noteq> ?w \<longrightarrow> que p t = que p ?s"
    using echo [OF s1(1) e] by auto
  have k: "still n s t" by (rule still_trans [OF s1(2) t(3)])
  have q: "sq n t = ?f (sq n s)" "rq n t = rq n s" using t(4) k [unfolded still_def keeps_def] b by auto
  have "holds (?f (sq n s)) (xs @ [c])" using xs holds_PUTCH [of "if line_end n c s then (sq n s)\<lparr>q_data := q_data (sq n s) + 1\<rparr> else sq n s" xs c] room
    by (auto simp: cooked_def holds_def)
  then have "cooked n t (xs @ [c])" using xs settings_cong(6) [OF keeps_settings [OF still_keeps [OF k]]] by (simp add: cooked_def q)
  moreover have "accept_char wr n c s = Done t" using t(1) accept_char_echo [where n = n and s = s and wr = wr and c = c] b by simp
  ultimately show ?thesis using t(2) k q(2) by blast
qed

lemma kill_pg_quiet:
  assumes "safe s" "cooked n s xs"
  shows "safe (upd_sched (\<lambda>t. snd (kill_pg pg sig True t)) s) \<and> still n s (upd_sched (\<lambda>t. snd (kill_pg pg sig True t)) s) \<and>
    cooked n (upd_sched (\<lambda>t. snd (kill_pg pg sig True t)) s) xs"
  using assms signals [OF assms(1), of "\<lambda>t. snd (kill_pg pg sig True t)"] by (simp add: still_def keeps_def kill_pg_signalled cooked_def line_end_def is_cc_def)

lemma cook_char_quiet:
  assumes safe: "safe s" and xs: "cooked n s xs" and room: "length xs < 1023"
  shows "\<exists>s'. cook_char wr n c s = Done s' \<and> safe s' \<and> keeps n s s' \<and> stopped (tt n s') = halts n s c (stopped (tt n s)) \<and>
    cooked n s' (edit n s c xs) \<and> rq n s' = rq n s"
proof -
  note b = base [OF safe, unfolded term_ok_def]
  note kill = kill_line_quiet [OF safe xs, of 1024] and accept = accept_char_quiet [OF safe xs room]
  have sg: "\<exists>s'. Done (upd_sched (\<lambda>t. snd (kill_pg pg sig True t)) s) = Done s' \<and> safe s' \<and> still n s s' \<and> cooked n s' xs \<and> rq n s' = rq n s" for pg sig
    using kill_pg_quiet [OF safe xs] by simp
  have id: "\<exists>s'. Done s = Done s' \<and> safe s' \<and> still n s s' \<and> cooked n s' xs \<and> rq n s' = rq n s" using safe xs still_refl by blast
  have erase: "\<exists>s'. (if nothing_to_erase n s then Done s else erase_last wr n s) = Done s' \<and> safe s' \<and> still n s s' \<and> cooked n s' (line_erase n s xs) \<and> rq n s' = rq n s"
  proof (cases "nothing_to_erase n s")
    case True
    then have "line_erase n s xs = xs" using nothing_to_erase_iff [OF xs] by (auto simp: line_erase_def)
    then show ?thesis using True id by simp
  next
    case False
    then obtain ys y where ys: "xs = ys @ [y]" "\<not> line_end n y s" using nothing_to_erase_iff [OF xs] by (cases xs rule: rev_cases) auto
    then show ?thesis using False erase_last_quiet [OF safe xs [unfolded ys(1)] ys(2)] by (simp add: line_erase_def)
  qed
  let ?h = "upd_tty n (\<lambda>t. t\<lparr>stopped := True\<rparr>) s" and ?g = "upd_tty n (\<lambda>t. t\<lparr>stopped := False\<rparr>) s"
  have stp: "safe ?h \<and> keeps n s ?h \<and> stopped (tt n ?h) \<and> cooked n ?h xs \<and> rq n ?h = rq n s" if "I_FLAG n IXON s"
    using stop [OF safe that] xs by (simp add: keeps_def cooked_def line_end_def is_cc_def)
  have sta: "\<exists>s'. TTY_WRITE_FLUSH wr n ?g = Done s' \<and> safe s' \<and> keeps n s s' \<and> \<not> stopped (tt n s') \<and> cooked n s' xs \<and> rq n s' = rq n s" if on: "I_FLAG n IXON s"
  proof -
    obtain s' where s': "TTY_WRITE_FLUSH wr n ?g = Done s'" "safe s'" "keeps n s s'" "\<not> stopped (tt n s')" "\<forall>p. p \<noteq> write_q (tt n s) \<longrightarrow> que p s' = que p s"
      using start [OF safe on] by blast
    then have "sq n s' = sq n s" "rq n s' = rq n s" using b by (simp_all add: keeps_def)
    then show ?thesis using s' xs cooked_cong [OF s'(3)] by auto
  qed
  show ?thesis
  proof (cases "I_FLAG n IXON s \<and> \<not> (L_FLAG n ICANON s \<and> (is_cc n VKILL c s \<or> is_cc n VERASE c s)) \<and> (is_cc n VSTOP c s \<or> is_cc n VSTART c s)")
    case True
    then show ?thesis using stp sta by (auto simp: cook_char_def edit_def halts_def)
  next
    case False
    then have "\<exists>s'. cook_char wr n c s = Done s' \<and> safe s' \<and> still n s s' \<and> cooked n s' (edit n s c xs) \<and> rq n s' = rq n s"
      unfolding cook_char_def edit_def using kill accept sg id erase room by auto
    moreover have "halts n s c h = h" for h using False by (auto simp: halts_def)
    ultimately show ?thesis by (auto simp: still_def)
  qed
qed

lemma getch_quiet:
  assumes safe: "safe s" and rd: "holds (rq n s) (c # cs)" and xs: "cooked n s xs"
  obtains t where "getch (read_q (tt n s)) s = (c, t)" "safe t" "still n s t" "cooked n t xs" "holds (rq n t) cs"
proof
  let ?t = "upd_queue (read_q (tt n s)) (\<lambda>q. snd (GETCH q)) s"
  note b = base [OF safe, unfolded term_ok_def]
  show "getch (read_q (tt n s)) s = (c, ?t)" using holds_GETCH(1) [OF rd] by (simp add: getch_def)
  show "safe ?t" by (rule other_queue [OF safe]) simp_all
  show k: "still n s ?t" by (rule keeps_queue(1) [OF safe]) simp_all
  show "cooked n ?t xs" using xs b by (subst cooked_cong [OF still_keeps [OF k]]) simp_all
  show "holds (rq n ?t) cs" using holds_GETCH(2) [OF rd] by simp
qed

lemma cook_loop_quiet:
  assumes "safe s" "holds (rq n s) cs" "cooked n s xs" "length xs + length cs \<le> 1023" "length cs < fuel"
  shows "\<exists>s'. cook_loop wr fuel n s = Done s' \<and> safe s' \<and> keeps n s s' \<and> stopped (tt n s') = halted n s cs (stopped (tt n s)) \<and>
    cooked n s' (edited n s cs xs) \<and> holds (rq n s') []"
  using assms
proof (induction fuel arbitrary: s cs xs)
  case (Suc fuel)
  show ?case
  proof (cases cs)
    case Nil
    then show ?thesis using Suc.prems holds_EMPTY [OF Suc.prems(2)] keeps_refl [of n s] by (simp add: edited_def halted_def)
  next
    case (Cons c ds)
    obtain t where gd: "getch (read_q (tt n s)) s = (c, t)" and g: "safe t" "still n s t" "cooked n t xs" "holds (rq n t) ds"
      using getch_quiet [OF Suc.prems(1) Suc.prems(2) [unfolded Cons] Suc.prems(3)] .
    have kt: "keeps n s t" "stopped (tt n t) = stopped (tt n s)" using g(2) by (simp_all add: still_def)
    have ic: "in_char n c t = in_char n c s" by (rule settings_cong(5) [OF keeps_settings [OF kt(1)]])
    have nf: "\<not> EMPTY (rq n s)" "\<not> FULL (sq n s)"
      using holds_EMPTY [OF Suc.prems(2)] holds_FULL Suc.prems(3,4) Cons by (auto simp: cooked_def)
    show ?thesis
    proof (cases "in_char n c s")
      case None
      have "cook_loop wr (Suc fuel) n s = cook_loop wr fuel n t" using nf gd ic None by simp
      moreover have "edited n s cs xs = edited n t ds xs" "halted n s cs h = halted n t ds h" for h
        using edited_cong [OF keeps_settings [OF kt(1)]] Cons None by (simp_all add: edited_def halted_def)
      ultimately show ?thesis
        using Suc.IH [OF g(1,4,3)] Suc.prems(4,5) Cons keeps_trans [OF kt(1)] kt(2) by auto
    next
      case (Some d)
      obtain u where u: "cook_char wr n d t = Done u" "safe u" "keeps n t u" "stopped (tt n u) = halts n t d (stopped (tt n t))" "cooked n u (edit n t d xs)" "rq n u = rq n t"
        using cook_char_quiet [OF g(1,3)] Suc.prems(4) Cons by auto
      note sc = settings_cong [OF keeps_settings [OF kt(1)]]
      have k: "keeps n s u" by (rule keeps_trans [OF kt(1) u(3)])
      have "cook_loop wr (Suc fuel) n s = cook_loop wr fuel n u" using nf gd ic Some u(1) by simp
      moreover have "length (edit n s d xs) + length ds \<le> 1023" using edit_length [of n s d xs] Suc.prems(4) Cons by simp
      moreover have "edited n u ds (edit n s d xs) = edited n s cs xs" "halted n u ds (stopped (tt n u)) = halted n s cs (stopped (tt n s))"
        using edited_cong [OF keeps_settings [OF k]] Cons Some u(4) kt(2) sc(8) by (simp_all add: edited_def halted_def)
      ultimately show ?thesis using Suc.IH [OF u(2), of ds "edit n s d xs"] g(4) u(5,6) Suc.prems(5) Cons keeps_trans [OF k] sc(7) by auto
    qed
  qed
qed simp

text \<open>At the end the readers of the secondary queue are woken, if there is something to read.\<close>

lemma copy_to_cooked_wakes:
  assumes safe: "safe s" and rd: "holds (rq n s) cs" and xs: "cooked n s xs" and room: "length xs + length cs \<le> 1023" and fuel: "length cs < fuel"
  shows "\<exists>s'. copy_to_cooked wr fuel n s = (if edited n s cs xs = [] then Done s' else wake (secondary (tt n s)) s') \<and> safe s' \<and> keeps n s s' \<and>
    stopped (tt n s') = halted n s cs (stopped (tt n s)) \<and> cooked n s' (edited n s cs xs) \<and> holds (rq n s') []"
proof -
  obtain t where t: "cook_loop wr fuel n s = Done t" "safe t" "keeps n s t" "stopped (tt n t) = halted n s cs (stopped (tt n s))"
    "cooked n t (edited n s cs xs)" "holds (rq n t) []"
    using cook_loop_quiet [OF safe rd xs room fuel] by blast
  obtain u where u: "TTY_WRITE_FLUSH wr n t = Done u" "safe u" "still n t u" "\<forall>p. p \<noteq> write_q (tt n t) \<longrightarrow> que p u = que p t"
    using echo [OF t(2), of "[]"] by (auto simp: echo_ok_def)
  have k: "keeps n s u" by (rule keeps_trans [OF t(3) still_keeps [OF u(3)]])
  note b = base [OF safe, unfolded term_ok_def] and bu = base [OF u(2), unfolded term_ok_def] and bt = base [OF t(2), unfolded term_ok_def]
  have q: "sq n u = sq n t" "rq n u = rq n t" using u(4) u(3) [unfolded still_def keeps_def] bt by metis+
  have cu: "cooked n u (edited n s cs xs)" using t(5) cooked_cong [OF still_keeps [OF u(3)] q(1)] by simp
  have w: "then_do (wake (secondary (tt n u)) u) (\<lambda>s. if LEFT (wq n s) > 512 then wake (write_q (tt n s)) s else Done s) = wake (secondary (tt n u)) u"
    by (rule wake_then_idle) (use bu in auto)
  have "wake (write_q (tt n u)) u = Done u" using bu by (simp add: wake_idle)
  moreover have "EMPTY (sq n u) \<longleftrightarrow> edited n s cs xs = []" using cu holds_EMPTY by (auto simp: cooked_def)
  moreover have "secondary (tt n u) = secondary (tt n s)" using k by (simp add: keeps_def)
  ultimately have "copy_to_cooked wr fuel n s = (if edited n s cs xs = [] then Done u else wake (secondary (tt n s)) u)"
    using b t(1) u(1) w by (simp add: copy_to_cooked_def)
  then show ?thesis using u(2,3) k t(4,6) q cu by (auto simp: still_def)
qed

lemma copy_to_cooked_quiet:
  assumes safe: "safe s" and rd: "holds (rq n s) cs" and xs: "cooked n s xs" and room: "length xs + length cs \<le> 1023" and fuel: "length cs < fuel"
    and idle: "wait_queue (sched s) (proc_list (sq n s)) = NULL"
  shows "\<exists>s'. copy_to_cooked wr fuel n s = Done s' \<and> safe s' \<and> keeps n s s' \<and> cooked n s' (edited n s cs xs) \<and> holds (rq n s') []"
proof -
  obtain s' where s': "copy_to_cooked wr fuel n s = (if edited n s cs xs = [] then Done s' else wake (secondary (tt n s)) s')" "safe s'" "keeps n s s'"
    "cooked n s' (edited n s cs xs)" "holds (rq n s') []"
    using copy_to_cooked_wakes [OF safe rd xs room fuel] by blast
  have "wake (secondary (tt n s)) s' = Done s'" using idle s'(3) by (intro wake_idle) (simp add: keeps_def signalled_def)
  then show ?thesis using s' by auto
qed

end

section \<open>The console as a driver\<close>

text \<open>Characters other than escape leave the settings of the terminal alone and ask for no answer.\<close>

definition plain :: "nat \<Rightarrow> con \<Rightarrow> con \<Rightarrow> bool" where
  "plain n k k' \<longleftrightarrow> vc_state (vc n k') = vc_state (vc n k) \<and> tty_termios k' = tty_termios k \<and> replies k' = replies k"

lemma plain_refl [simp]: "plain n k k"
  by (simp add: plain_def)

lemma plain_trans: "plain n k l \<Longrightarrow> plain n l m \<Longrightarrow> plain n k m"
  by (simp add: plain_def)

lemma plain_ops: "plain n k (lf n k)" "plain n k (cr n k)" "plain n k (del n k)" "plain n k (put_cell n c k)" "plain n k (sysbeep k)"
  by (simp_all add: plain_def lf_def scrup_def set_origin_def cr_def del_def put_cell_def sysbeep_def upd_vc_def upd_mem_def Let_def)

lemma plain_upd: "vc_state (f (vc n k)) = vc_state (vc n k) \<Longrightarrow> plain n k (upd_vc n f k)"
  by (simp add: plain_def upd_vc_def)

lemma plain_next_line: "plain n k (lf n (upd_vc n (\<lambda>v. v\<lparr>vc_x := a v, vc_pos := b v\<rparr>) k))"
  by (rule plain_trans [OF plain_upd plain_ops(1)]) simp

lemma plain_if: "(P \<Longrightarrow> plain n k a) \<Longrightarrow> (\<not> P \<Longrightarrow> plain n k b) \<Longrightarrow> plain n k (if P then a else b)"
  by simp

lemma plain_tab: "plain n k (tab n k)"
proof -
  have p: "plain n k (upd_vc n (\<lambda>v. v\<lparr>vc_x := vc_x v + c, vc_pos := vc_pos v + 2 * c\<rparr>) k)" for c by (rule plain_upd) simp
  show ?thesis unfolding tab_def Let_def by (intro plain_if plain_trans [OF p plain_next_line] p)
qed

lemma plain_wrap_line: "con_ok n k \<Longrightarrow> wrap_line n k = Some k' \<Longrightarrow> plain n k k'"
  using wrap_once [of n k] plain_next_line [of n k] by (auto simp: plain_def split: if_splits)

lemma es_normal_plain:
  assumes "con_ok n k" "c \<noteq> 27" "es_normal n c k = Some k'"
  shows "plain n k k'"
  using assms(2,3) plain_wrap_line [OF assms(1)] plain_ops plain_tab [of n k]
  by (auto simp: es_normal_def Let_def plain_upd split: if_splits intro: plain_trans)

lemma con_char_plain:
  assumes "con_ok n k" "vc_state (vc n k) = ESnormal" "c \<noteq> 27"
  shows "\<exists>k'. con_char n c k = Some k' \<and> con_ok n k' \<and> plain n k k' \<and> fg_console k' = fg_console k"
proof -
  let ?k = "if c = 24 \<or> c = 26 then upd_vc n (\<lambda>v. v\<lparr>vc_state := ESnormal\<rparr>) k else k"
  obtain k' where k': "con_char n c k = Some k'" "good n k k'" using con_char_good [OF assms(1)] by blast
  have ok: "con_ok n ?k" using good_con_ok [OF state_good [OF assms(1)]] assms(1) by simp
  have p: "plain n k ?k" using assms(2) by (simp add: plain_def upd_vc_def)
  have "es_normal n c ?k = Some k'" using k'(1) assms(2) by (auto simp: con_char_def Let_def)
  then have "plain n ?k k'" by (rule es_normal_plain [OF ok assms(3)])
  moreover have "fg_console k' = fg_console k" using k'(2) by (simp add: good_def confined_def layout_def)
  ultimately show ?thesis using k' plain_trans [OF p] good_con_ok by blast
qed

text \<open>A console in order: nothing to write, no answer due, and what is echoed contains no escape.\<close>

definition console_ready :: "nat \<Rightarrow> ttys \<Rightarrow> bool" where
  "console_ready n s \<longleftrightarrow> term_ok n s \<and> n < 8 \<and> write_op (tt n s) = con_write_fn \<and> \<not> stopped (tt n s) \<and> busy (tt n s) AND 1 = 0 \<and>
    con_ok n (consoles s) \<and> vc_state (vc n (consoles s)) = ESnormal \<and> replies (consoles s) = [] \<and> holds (wq n s) [] \<and>
    wait_queue (sched s) (proc_list (wq n s)) = NULL \<and> \<not> I_FLAG n IXON s \<and> (L_FLAG n ECHO s \<or> L_FLAG n ECHONL s \<longrightarrow> L_FLAG n ECHOCTL s)"

text \<open>
  A console with flow control: while output is stopped the echo waits in the write queue, and if more comes than the queue holds the rest runs over it.
\<close>

definition console_live :: "nat \<Rightarrow> ttys \<Rightarrow> bool" where
  "console_live n s \<longleftrightarrow> term_ok n s \<and> n < 8 \<and> write_op (tt n s) = con_write_fn \<and> busy (tt n s) AND 1 = 0 \<and>
    con_ok n (consoles s) \<and> vc_state (vc n (consoles s)) = ESnormal \<and> replies (consoles s) = [] \<and>
    (\<exists>bs. holds (wq n s) bs \<and> 27 \<notin> set bs \<and> (\<not> stopped (tt n s) \<longrightarrow> bs = [])) \<and>
    wait_queue (sched s) (proc_list (wq n s)) = NULL \<and> (L_FLAG n ECHO s \<or> L_FLAG n ECHONL s \<longrightarrow> L_FLAG n ECHOCTL s)"

lemma holds_PUTCH_any:
  assumes "holds q xs"
  shows "\<exists>ys. holds (PUTCH c q) ys \<and> set ys \<subseteq> set xs \<union> {c}"
proof (cases "length xs < 1023")
  case True
  then show ?thesis using holds_PUTCH [OF assms] by (intro exI [of _ "xs @ [c]"]) auto
next
  case False
  then have l: "length xs = 1023" using holdsD(3) [OF assms] by simp
  have "unat (q_head (PUTCH c q)) = unat (q_tail q)" using holdsD(2,4) [OF assms] l by (simp add: PUTCH_def unat_INC mod_simps)
  then have "holds (PUTCH c q) []" using holdsD(1,2) [OF assms] by (simp add: holds_def PUTCH_def)
  then show ?thesis by (intro exI [of _ "[]"]) simp
qed

lemma fold_putch_any: "holds (que p s) xs \<Longrightarrow> \<exists>ys. holds (que p (fold (putch p) bs s)) ys \<and> set ys \<subseteq> set xs \<union> set bs"
proof (induction bs arbitrary: s xs)
  case (Cons b bs)
  obtain ys where ys: "holds (PUTCH b (que p s)) ys" "set ys \<subseteq> set xs \<union> {b}" using holds_PUTCH_any [OF Cons.prems] by blast
  then have "holds (que p (putch p b s)) ys" by simp
  from Cons.IH [OF this] ys(2) show ?case by auto
qed auto

lemma fold_putch:
  "holds (que p s) xs \<Longrightarrow> length xs + length bs \<le> 1023 \<Longrightarrow> holds (que p (fold (putch p) bs s)) (xs @ bs)"
proof (induction bs arbitrary: s xs)
  case (Cons b bs)
  then show ?case using Cons.IH [of "putch p b s" "xs @ [b]"] holds_PUTCH [OF Cons.prems(1)] by simp
qed simp

lemma fold_putch_simps [simp]:
  "tty_table (fold (putch p) bs s) = tty_table s" "consoles (fold (putch p) bs s) = consoles s" "sched (fold (putch p) bs s) = sched s"
  "q \<noteq> p \<Longrightarrow> que q (fold (putch p) bs s) = que q s" "proc_list (que q (fold (putch p) bs s)) = proc_list (que q s)"
  by (induction bs arbitrary: s) simp_all

lemma con_loop_plain:
  assumes "con_ok n (consoles s)" "vc_state (vc n (consoles s)) = ESnormal" "replies (consoles s) = []" "\<not> stopped (tt n s)"
    "holds (wq n s) bs" "27 \<notin> set bs" "length bs < fuel"
  shows "\<exists>q k. con_loop ck fuel n s = Done ((upd_queue (write_q (tt n s)) (\<lambda>_. q) s)\<lparr>consoles := k\<rparr>) \<and> holds q [] \<and>
    proc_list q = proc_list (wq n s) \<and> con_ok n k \<and> plain n (consoles s) k \<and> fg_console k = fg_console (consoles s) \<and> con_chars n bs (consoles s) = Some k"
  using assms
proof (induction fuel arbitrary: s bs)
  case (Suc fuel)
  show ?case
  proof (cases bs)
    case Nil
    then have "con_loop ck (Suc fuel) n s = Done ((upd_queue (write_q (tt n s)) (\<lambda>_. wq n s) s)\<lparr>consoles := consoles s\<rparr>)"
      using holds_EMPTY [OF Suc.prems(5)] by (simp add: upd_queue_def)
    then show ?thesis using Suc.prems Nil by (intro exI [of _ "wq n s"] exI [of _ "consoles s"]) simp
  next
    case (Cons b cs)
    let ?q = "snd (GETCH (wq n s))"
    obtain k where k: "con_char n b (consoles s) = Some k" "con_ok n k" "plain n (consoles s) k" "fg_console k = fg_console (consoles s)"
      using con_char_plain [OF Suc.prems(1,2), of b] Suc.prems(6) Cons by auto
    let ?t = "(upd_queue (write_q (tt n s)) (\<lambda>_. ?q) s)\<lparr>consoles := k\<rparr>"
    note g = holds_GETCH [OF Suc.prems(5) [unfolded Cons]]
    have r: "replies k = []" "vc_state (vc n k) = ESnormal" using k(3) Suc.prems(2,3) by (simp_all add: plain_def)
    have id: "k\<lparr>replies := []\<rparr> = k" using r(1) by (cases k) simp
    have e: "con_loop ck (Suc fuel) n s = con_loop ck fuel n ?t"
      using holds_EMPTY [OF Suc.prems(5)] Cons Suc.prems(4) k(1) g(1) r(1) by (simp add: getch_def upd_queue_def id)
    obtain q l where ql: "con_loop ck fuel n ?t = Done ((upd_queue (write_q (tt n ?t)) (\<lambda>_. q) ?t)\<lparr>consoles := l\<rparr>)" "holds q []"
      "proc_list q = proc_list (wq n ?t)" "con_ok n l" "plain n k l" "fg_console l = fg_console k" "con_chars n cs k = Some l"
      using Suc.IH [of ?t cs] k(2) r Suc.prems(4,6,7) g(2) Cons by auto
    have "(upd_queue (write_q (tt n ?t)) (\<lambda>_. q) ?t)\<lparr>consoles := l\<rparr> = (upd_queue (write_q (tt n s)) (\<lambda>_. q) s)\<lparr>consoles := l\<rparr>"
      by (simp add: upd_queue_def)
    then show ?thesis using e ql k(1,3,4) Cons plain_trans [OF k(3) ql(5)] by (intro exI [of _ q] exI [of _ l]) simp
  qed
qed simp

lemma upd_consoles_simps [simp]:
  "que p (s\<lparr>consoles := k\<rparr>) = que p s" "tt m (s\<lparr>consoles := k\<rparr>) = tt m s" "consoles (s\<lparr>consoles := k\<rparr>) = k" "sched (s\<lparr>consoles := k\<rparr>) = sched s"
  by simp_all

lemma cursor_plain:
  assumes "con_ok n k"
  shows "con_ok n (blank_timer (set_cursor n k)) \<and> fg_console (blank_timer (set_cursor n k)) = fg_console k \<and> plain n k (blank_timer (set_cursor n k))"
proof -
  have sc: "same_screen k (set_cursor n k)" "same_screen (set_cursor n k) (blank_timer (set_cursor n k))" by (rule same_screen_ops)+
  have "good n k (blank_timer (set_cursor n k))" by (rule good_then [OF good_same_screen [OF assms sc(1)] good_same_screen [OF _ sc(2)]])
  moreover have "plain n k (blank_timer (set_cursor n k))" by (simp add: plain_def blank_timer_def set_cursor_def Let_def)
  ultimately show ?thesis by (simp add: good_def confined_def layout_def)
qed

lemma con_driver_plain:
  assumes "write_op (tt n s) = con_write_fn" "n < 8" "con_ok n (consoles s)" "vc_state (vc n (consoles s)) = ESnormal" "replies (consoles s) = []"
    "\<not> stopped (tt n s)" "holds (wq n s) bs" "27 \<notin> set bs" "length bs < fuel" "wait_queue (sched s) (proc_list (wq n s)) = NULL"
  shows "\<exists>q k. tty_driver (Suc fuel) n s = Done ((upd_queue (write_q (tt n s)) (\<lambda>_. q) s)\<lparr>consoles := k\<rparr>) \<and> holds q [] \<and>
    proc_list q = proc_list (wq n s) \<and> con_ok n k \<and> plain n (consoles s) k \<and> fg_console k = fg_console (consoles s) \<and>
    map_option (\<lambda>k. blank_timer (set_cursor n k)) (con_chars n bs (consoles s)) = Some k"
proof -
  let ?ck = "copy_to_cooked (tty_driver fuel) fuel"
  obtain q k where qk: "con_loop ?ck fuel n s = Done ((upd_queue (write_q (tt n s)) (\<lambda>_. q) s)\<lparr>consoles := k\<rparr>)" "holds q []"
    "proc_list q = proc_list (wq n s)" "con_ok n k" "plain n (consoles s) k" "fg_console k = fg_console (consoles s)" "con_chars n bs (consoles s) = Some k"
    using con_loop_plain [OF assms(3-9)] by blast
  let ?l = "blank_timer (set_cursor n k)"
  have l: "con_ok n ?l" "fg_console ?l = fg_console k" "plain n k ?l" using cursor_plain [OF qk(4)] by auto
  have "tty_driver (Suc fuel) n s = Done ((upd_queue (write_q (tt n s)) (\<lambda>_. q) s)\<lparr>consoles := ?l\<rparr>)"
    using assms(1,2,10) qk(1) by (simp add: con_out_def wake_idle)
  then show ?thesis using qk(2,3,6,7) l plain_trans [OF qk(5)] by (intro exI [of _ q] exI [of _ ?l]) simp
qed

lemma console_echo:
  assumes ready: "console_ready n s" and bs: "echo_ok n s bs" and fuel: "2 < fuel"
  shows "\<exists>s'. TTY_WRITE_FLUSH (tty_driver (Suc fuel)) n (fold (putch (write_q (tt n s))) bs s) = Done s' \<and> console_ready n s' \<and> still n s s' \<and>
    (\<forall>p. p \<noteq> write_q (tt n s) \<longrightarrow> que p s' = que p s)"
proof -
  note r = ready [unfolded console_ready_def] and t = ready [unfolded console_ready_def term_ok_def]
  let ?t = "fold (putch (write_q (tt n s))) bs s"
  let ?u = "upd_tty n (\<lambda>t. t\<lparr>busy := busy t OR 1\<rparr>) ?t"
  have h: "holds (wq n ?t) bs" using fold_putch [of s "write_q (tt n s)" "[]" bs] r bs by (simp add: echo_ok_def)
  show ?thesis
  proof (cases "bs = []")
    case True
    then show ?thesis using holds_EMPTY [OF h] ready still_refl [of n s] by (simp add: TTY_WRITE_FLUSH_def)
  next
    case False
    have esc: "27 \<notin> set bs" using bs r False by (auto simp: echo_ok_def)
    obtain q k where qk: "tty_driver (Suc fuel) n ?u = Done ((upd_queue (write_q (tt n ?u)) (\<lambda>_. q) ?u)\<lparr>consoles := k\<rparr>)" "holds q []"
      "proc_list q = proc_list (wq n ?u)" "con_ok n k" "plain n (consoles ?u) k" "fg_console k = fg_console (consoles ?u)"
      using con_driver_plain [where n = n and s = ?u and bs = bs and fuel = fuel] r h esc bs fuel by (auto simp: echo_ok_def simp del: tty_driver.simps)
    let ?v = "upd_tty n (\<lambda>t. t\<lparr>busy := busy t AND NOT 1\<rparr>) ((upd_queue (write_q (tt n ?u)) (\<lambda>_. q) ?u)\<lparr>consoles := k\<rparr>)"
    have f: "TTY_WRITE_FLUSH (tty_driver (Suc fuel)) n ?t = Done ?v"
      using holds_EMPTY [OF h] False r qk(1) by (simp add: TTY_WRITE_FLUSH_def del: tty_driver.simps)
    have se: "termios_of n ?v = termios_of n s" using qk(5) by (simp add: plain_def)
    have k: "still n s ?v" using qk(3,6) se by (simp add: still_def keeps_def)
    have bz: "((busy (tt n s) OR 1) AND NOT 1) AND 1 = (0 :: u32)" by (simp add: and.assoc)
    have "console_ready n ?v" using r qk(2-5) settings_cong(1,2) [OF se] bz by (simp add: console_ready_def term_ok_def plain_def)
    then show ?thesis using f k by auto
  qed
qed

text \<open>Flushing the write queue of a live console, whatever waits in it.\<close>

lemma con_driver_stopped:
  assumes "write_op (tt n s) = con_write_fn" "n < 8" "stopped (tt n s)" "wait_queue (sched s) (proc_list (wq n s)) = NULL" "0 < fuel"
  shows "tty_driver (Suc fuel) n s = Done (s\<lparr>consoles := blank_timer (set_cursor n (consoles s))\<rparr>)"
proof -
  obtain f where "fuel = Suc f" using assms(5) gr0_implies_Suc by blast
  then show ?thesis using assms by (simp add: con_out_def wake_idle)
qed

lemma live_driver:
  assumes live: "n < 8" "write_op (tt n s) = con_write_fn" "con_ok n (consoles s)" "vc_state (vc n (consoles s)) = ESnormal"
      "replies (consoles s) = []" "wait_queue (sched s) (proc_list (wq n s)) = NULL"
    and bs: "holds (wq n s) bs" "27 \<notin> set bs" and fuel: "1024 \<le> fuel"
  shows "\<exists>q k. tty_driver (Suc fuel) n s = Done ((upd_queue (write_q (tt n s)) (\<lambda>_. q) s)\<lparr>consoles := k\<rparr>) \<and> holds q (if stopped (tt n s) then bs else []) \<and>
    proc_list q = proc_list (wq n s) \<and> con_ok n k \<and> plain n (consoles s) k \<and> fg_console k = fg_console (consoles s)"
proof (cases "stopped (tt n s)")
  case True
  have "upd_queue (write_q (tt n s)) (\<lambda>_. wq n s) s = s" by (simp add: upd_queue_def)
  then show ?thesis using con_driver_stopped [OF live(2,1) True live(6), of fuel] fuel bs(1) True cursor_plain [OF live(3)]
    by (intro exI [of _ "wq n s"] exI [of _ "blank_timer (set_cursor n (consoles s))"]) (simp del: tty_driver.simps)
next
  case False
  have "length bs < fuel" using holdsD(3) [OF bs(1)] fuel by simp
  from con_driver_plain [OF live(2,1,3-5) False bs this live(6)] False show ?thesis by auto
qed

lemma live_flush:
  assumes live: "term_ok n s" "n < 8" "write_op (tt n s) = con_write_fn" "busy (tt n s) AND 1 = 0" "con_ok n (consoles s)" "vc_state (vc n (consoles s)) = ESnormal"
      "replies (consoles s) = []" "wait_queue (sched s) (proc_list (wq n s)) = NULL" "L_FLAG n ECHO s \<or> L_FLAG n ECHONL s \<longrightarrow> L_FLAG n ECHOCTL s"
    and bs: "holds (wq n s) bs" "27 \<notin> set bs" and fuel: "1024 \<le> fuel"
  shows "\<exists>s'. TTY_WRITE_FLUSH (tty_driver (Suc fuel)) n s = Done s' \<and> console_live n s' \<and> still n s s' \<and> (\<forall>p. p \<noteq> write_q (tt n s) \<longrightarrow> que p s' = que p s)"
proof (cases "bs = []")
  case True
  then have "console_live n s" using live bs by (auto simp: console_live_def)
  then show ?thesis using True holds_EMPTY [OF bs(1)] by (simp add: TTY_WRITE_FLUSH_def still_refl)
next
  case False
  let ?u = "upd_tty n (\<lambda>t. t\<lparr>busy := busy t OR 1\<rparr>) s"
  obtain q k where qk: "tty_driver (Suc fuel) n ?u = Done ((upd_queue (write_q (tt n ?u)) (\<lambda>_. q) ?u)\<lparr>consoles := k\<rparr>)" "holds q (if stopped (tt n s) then bs else [])"
    "proc_list q = proc_list (wq n ?u)" "con_ok n k" "plain n (consoles s) k" "fg_console k = fg_console (consoles s)"
    using live_driver [where n = n and s = ?u and bs = bs and fuel = fuel] live bs fuel by (auto simp del: tty_driver.simps)
  let ?v = "upd_tty n (\<lambda>t. t\<lparr>busy := busy t AND NOT 1\<rparr>) ((upd_queue (write_q (tt n ?u)) (\<lambda>_. q) ?u)\<lparr>consoles := k\<rparr>)"
  have f: "TTY_WRITE_FLUSH (tty_driver (Suc fuel)) n s = Done ?v"
    using holds_EMPTY [OF bs(1)] False live(4) qk(1) by (simp add: TTY_WRITE_FLUSH_def del: tty_driver.simps)
  have se: "termios_of n ?v = termios_of n s" using qk(5) by (simp add: plain_def)
  have k: "still n s ?v" using qk(3,6) se by (simp add: still_def keeps_def)
  have bz: "((busy (tt n s) OR 1) AND NOT 1) AND 1 = (0 :: u32)" by (simp add: and.assoc)
  have "\<exists>cs. holds (wq n ?v) cs \<and> 27 \<notin> set cs \<and> (\<not> stopped (tt n ?v) \<longrightarrow> cs = [])" using qk(2) bs(2) by (intro exI [of _ "if stopped (tt n s) then bs else []"]) auto
  then have "console_live n ?v" using live qk(3-5) settings_cong(1) [OF se] bz by (simp add: console_live_def term_ok_def plain_def)
  then show ?thesis using f k by auto
qed

lemma live_echo:
  assumes "console_live n s" "echo_ok n s bs" "1024 \<le> fuel"
  shows "\<exists>s'. TTY_WRITE_FLUSH (tty_driver (Suc fuel)) n (fold (putch (write_q (tt n s))) bs s) = Done s' \<and> console_live n s' \<and> still n s s' \<and>
    (\<forall>p. p \<noteq> write_q (tt n s) \<longrightarrow> que p s' = que p s)"
proof -
  let ?t = "fold (putch (write_q (tt n s))) bs s"
  note l = assms(1) [unfolded console_live_def]
  obtain xs where "holds (wq n s) xs" "27 \<notin> set xs" using l by blast
  moreover have "27 \<notin> set bs" using assms(2) l by (cases "bs = []") (auto simp: echo_ok_def)
  ultimately obtain ys where ys: "holds (wq n ?t) ys" "27 \<notin> set ys" using fold_putch_any [of s "write_q (tt n s)" xs bs] by auto
  have "\<exists>s'. TTY_WRITE_FLUSH (tty_driver (Suc fuel)) n ?t = Done s' \<and> console_live n s' \<and> still n ?t s' \<and> (\<forall>p. p \<noteq> write_q (tt n ?t) \<longrightarrow> que p s' = que p ?t)"
    by (rule live_flush [OF _ _ _ _ _ _ _ _ _ ys assms(3)]) (use l in \<open>simp_all add: term_ok_def L_FLAG_def\<close>)
  then obtain s' where s': "TTY_WRITE_FLUSH (tty_driver (Suc fuel)) n ?t = Done s'" "console_live n s'" "still n ?t s'" "\<forall>p. p \<noteq> write_q (tt n s) \<longrightarrow> que p s' = que p ?t"
    by auto
  have "still n s ?t" by (simp add: still_def keeps_def)
  from still_trans [OF this s'(3)] s' show ?thesis by auto
qed

interpretation live: quiet_terminal "tty_driver (Suc (fuel + 1024))" n "console_live n" for fuel n
proof unfold_locales
  show "term_ok n s \<and> wait_queue (sched s) (proc_list (wq n s)) = NULL" if "console_live n s" for s
    using that by (simp add: console_live_def)
  show "console_live n (upd_queue p f s)"
    if "console_live n s" "p = read_q (tt n s) \<or> p = secondary (tt n s)" "proc_list (f (que p s)) = proc_list (que p s)" for s p f
    using that by (auto simp: console_live_def term_ok_def L_FLAG_def)
  show "console_live n (upd_sched g s)" if "console_live n s" "signalled (sched s) (g (sched s))" for s g
    using that by (simp add: console_live_def term_ok_def L_FLAG_def signalled_def)
  show "\<exists>s'. TTY_WRITE_FLUSH (tty_driver (Suc (fuel + 1024))) n (fold (putch (write_q (tt n s))) bs s) = Done s' \<and> console_live n s' \<and> still n s s' \<and>
      (\<forall>p. p \<noteq> write_q (tt n s) \<longrightarrow> que p s' = que p s)" if "console_live n s" "echo_ok n s bs" for s bs
    by (rule live_echo [OF that]) simp
  show "console_live n (upd_tty n (\<lambda>t. t\<lparr>stopped := True\<rparr>) s)" if "console_live n s" "I_FLAG n IXON s" for s
    using that by (auto simp: console_live_def term_ok_def L_FLAG_def)
  show "\<exists>s'. TTY_WRITE_FLUSH (tty_driver (Suc (fuel + 1024))) n (upd_tty n (\<lambda>t. t\<lparr>stopped := False\<rparr>) s) = Done s' \<and> console_live n s' \<and> keeps n s s' \<and>
      \<not> stopped (tt n s') \<and> (\<forall>p. p \<noteq> write_q (tt n s) \<longrightarrow> que p s' = que p s)" if "console_live n s" "I_FLAG n IXON s" for s
  proof -
    let ?g = "upd_tty n (\<lambda>t. t\<lparr>stopped := False\<rparr>) s"
    note l = \<open>console_live n s\<close> [unfolded console_live_def]
    obtain xs where "holds (wq n s) xs" and xs: "27 \<notin> set xs" using l by blast
    then have h: "holds (wq n ?g) xs" by simp
    have "\<exists>s'. TTY_WRITE_FLUSH (tty_driver (Suc (fuel + 1024))) n ?g = Done s' \<and> console_live n s' \<and> still n ?g s' \<and> (\<forall>p. p \<noteq> write_q (tt n ?g) \<longrightarrow> que p s' = que p ?g)"
      by (rule live_flush [OF _ _ _ _ _ _ _ _ _ h xs]) (use l in \<open>simp_all add: term_ok_def L_FLAG_def\<close>)
    then show ?thesis by (auto simp: still_def keeps_def)
  qed
qed

interpretation console: quiet_terminal "tty_driver (Suc (fuel + 3))" n "console_ready n" for fuel n
proof unfold_locales
  show "term_ok n s \<and> wait_queue (sched s) (proc_list (wq n s)) = NULL" if "console_ready n s" for s
    using that by (simp add: console_ready_def)
  show "console_ready n (upd_queue p f s)"
    if "console_ready n s" "p = read_q (tt n s) \<or> p = secondary (tt n s)" "proc_list (f (que p s)) = proc_list (que p s)" for s p f
    using that by (auto simp: console_ready_def term_ok_def L_FLAG_def I_FLAG_def)
  show "console_ready n (upd_sched g s)" if "console_ready n s" "signalled (sched s) (g (sched s))" for s g
    using that by (simp add: console_ready_def term_ok_def L_FLAG_def I_FLAG_def signalled_def)
  show "\<exists>s'. TTY_WRITE_FLUSH (tty_driver (Suc (fuel + 3))) n (fold (putch (write_q (tt n s))) bs s) = Done s' \<and> console_ready n s' \<and> still n s s' \<and>
      (\<forall>p. p \<noteq> write_q (tt n s) \<longrightarrow> que p s' = que p s)" if "console_ready n s" "echo_ok n s bs" for s bs
    by (rule console_echo [OF that]) simp
qed (simp_all add: console_ready_def)

text \<open>A serial line: the driver only starts the transmitter, so the echo stays in the write queue until the interrupts take it out.\<close>

definition serial_ready :: "nat \<Rightarrow> ttys \<Rightarrow> bool" where
  "serial_ready n s \<longleftrightarrow> term_ok n s \<and> write_op (tt n s) = rs_write_fn \<and> wait_queue (sched s) (proc_list (wq n s)) = NULL"

lemma serial_echo:
  assumes "serial_ready n s"
  shows "\<exists>s'. TTY_WRITE_FLUSH (tty_driver (Suc fuel)) n (fold (putch (write_q (tt n s))) bs s) = Done s' \<and> serial_ready n s' \<and> still n s s' \<and>
    (\<forall>p. p \<noteq> write_q (tt n s) \<longrightarrow> que p s' = que p s)"
  using assms by (auto simp: TTY_WRITE_FLUSH_def rs_write_def serial_ready_def term_ok_def still_def keeps_def)

interpretation serial: quiet_terminal "tty_driver (Suc fuel)" n "serial_ready n" for fuel n
proof unfold_locales
  show "term_ok n s \<and> wait_queue (sched s) (proc_list (wq n s)) = NULL" if "serial_ready n s" for s
    using that by (simp add: serial_ready_def)
  show "serial_ready n (upd_queue p f s)"
    if "serial_ready n s" "p = read_q (tt n s) \<or> p = secondary (tt n s)" "proc_list (f (que p s)) = proc_list (que p s)" for s p f
    using that by (auto simp: serial_ready_def term_ok_def I_FLAG_def)
  show "serial_ready n (upd_sched g s)" if "serial_ready n s" "signalled (sched s) (g (sched s))" for s g
    using that by (simp add: serial_ready_def term_ok_def I_FLAG_def signalled_def)
  show "\<exists>s'. TTY_WRITE_FLUSH (tty_driver (Suc fuel)) n (fold (putch (write_q (tt n s))) bs s) = Done s' \<and> serial_ready n s' \<and> still n s s' \<and>
      (\<forall>p. p \<noteq> write_q (tt n s) \<longrightarrow> que p s' = que p s)" if "serial_ready n s" "echo_ok n s bs" for s bs
    by (rule serial_echo [OF that(1)])
qed (auto simp: TTY_WRITE_FLUSH_def rs_write_def serial_ready_def term_ok_def keeps_def)

section \<open>Reading a line\<close>

text \<open>What reading changes: the queue, the line count, the time limit of the process.\<close>

lemma take_cooked:
  assumes xs: "cooked n s (c # xs)" and eof: "c_cc (termios_of n s) ! VEOF < 128"
  defines "u \<equiv> (let t = snd (getch (secondary (tt n s)) s) in
    if (c < 128 \<and> is_cc n VEOF c t) \<or> c = 10 then upd_queue (secondary (tt n t)) (\<lambda>q. q\<lparr>q_data := q_data q - 1\<rparr>) t else t)"
  shows "fst (getch (secondary (tt n s)) s) = c" "cooked n u xs" "keeps n s u" "p \<noteq> secondary (tt n s) \<Longrightarrow> que p u = que p s" "sched u = sched s"
proof -
  let ?d = "\<lambda>q. q\<lparr>q_data := q_data q - 1\<rparr>"
  have h: "holds (sq n s) (c # xs)" using xs by (simp add: cooked_def)
  show "fst (getch (secondary (tt n s)) s) = c" using holds_GETCH(1) [OF h] by (simp add: getch_def)
  have le: "(c < 128 \<and> is_cc n VEOF c s) \<or> c = 10 \<longleftrightarrow> line_end n c s" using eof by (auto simp: line_end_def is_cc_def)
  have u: "u = upd_queue (secondary (tt n s)) (\<lambda>q. if line_end n c s then ?d (snd (GETCH q)) else snd (GETCH q)) s"
  proof -
    have "is_cc n VEOF c (snd (getch (secondary (tt n s)) s)) = is_cc n VEOF c s" by (simp add: is_cc_def getch_def)
    then show ?thesis unfolding u_def Let_def le by (simp add: getch_def upd_queue_def le)
  qed
  show "keeps n s u" "p \<noteq> secondary (tt n s) \<Longrightarrow> que p u = que p s" "sched u = sched s" by (simp_all add: u keeps_def)
  then have "line_end n d u = line_end n d s" for d by (intro settings_cong(6) keeps_settings)
  then show "cooked n u xs" using xs holds_GETCH(2) [OF h] by (auto simp: cooked_def u holds_def)
qed

text \<open>Canonical mode: characters up to the end of the line, but not more than are wanted.\<close>

lemma read_chars_line:
  assumes "cooked n s (l @ 10 # rest)" "\<forall>c \<in> set l. \<not> line_end n c s" "L_FLAG n ICANON s" "c_cc (termios_of n s) ! VEOF < 128" "\<not> is_cc n VEOF 10 s" "0 < nr"
  shows "\<exists>nr' s'. read_chars n nr got s = (got @ take nr (l @ [10]), nr', s') \<and> cooked n s' (drop nr (l @ [10]) @ rest) \<and> keeps n s s' \<and>
    (\<forall>p. p \<noteq> secondary (tt n s) \<longrightarrow> que p s' = que p s) \<and> sched s' = sched s"
  using assms
proof (induction l arbitrary: nr got s)
  case Nil
  obtain k where k: "nr = Suc k" using Nil.prems(6) gr0_implies_Suc by blast
  let ?t = "snd (getch (secondary (tt n s)) s)"
  let ?u = "let t = ?t in if (10 < (128 :: u8) \<and> is_cc n VEOF 10 t) \<or> (10 :: u8) = 10 then upd_queue (secondary (tt n t)) (\<lambda>q. q\<lparr>q_data := q_data q - 1\<rparr>) t else t"
  note tc = take_cooked [OF Nil.prems(1) [simplified] Nil.prems(4)]
  have s: "L_FLAG n ICANON ?u = L_FLAG n ICANON s" "is_cc n VEOF 10 ?t = is_cc n VEOF 10 s" by (simp_all add: L_FLAG_def is_cc_def getch_def Let_def)
  have "read_chars n nr got s = (got @ [10], k, ?u)"
    using tc(1) s Nil.prems(3,5) by (simp add: k split_def Let_def)
  then show ?case using tc(2-5) k by (auto simp: Let_def)
next
  case (Cons c l)
  obtain k where k: "nr = Suc k" using Cons.prems(6) gr0_implies_Suc by blast
  let ?t = "snd (getch (secondary (tt n s)) s)"
  have c: "c \<noteq> 10" "\<not> is_cc n VEOF c s" using Cons.prems(2) by (simp_all add: line_end_def)
  then have ct: "\<not> is_cc n VEOF c ?t" by (simp add: is_cc_def getch_def)
  have tc: "fst (getch (secondary (tt n s)) s) = c" "cooked n ?t (l @ 10 # rest)" "keeps n s ?t" "\<And>p. p \<noteq> secondary (tt n s) \<Longrightarrow> que p ?t = que p s" "sched ?t = sched s"
    using take_cooked [OF Cons.prems(1) [simplified] Cons.prems(4)] c ct by (simp_all add: Let_def)
  have ne: "\<not> EMPTY (sq n ?t)" using holds_EMPTY tc(2) by (fastforce simp: cooked_def)
  have st: "termios_of n ?t = termios_of n s" by (rule keeps_settings [OF tc(3)])
  note sc = settings_cong [OF st]
  show ?case
  proof (cases "k = 0")
    case True
    have "read_chars n nr got s = (got @ [c], 0, ?t)" using tc(1) c(1) ct True by (simp add: k split_def Let_def)
    then show ?thesis using tc(2-5) k True by (intro exI [of _ 0] exI [of _ ?t]) simp
  next
    case False
    have "read_chars n nr got s = read_chars n k (got @ [c]) ?t" using tc(1) c(1) ct ne False by (simp add: k split_def Let_def)
    moreover obtain nr' u where u: "read_chars n k (got @ [c]) ?t = (got @ [c] @ take k (l @ [10]), nr', u)" "cooked n u (drop k (l @ [10]) @ rest)" "keeps n ?t u"
      "\<forall>p. p \<noteq> secondary (tt n ?t) \<longrightarrow> que p u = que p ?t" "sched u = sched ?t"
      using Cons.IH [OF tc(2), of k "got @ [c]"] Cons.prems(2-5) False st unfolding sc by auto
    moreover have "secondary (tt n ?t) = secondary (tt n s)" using tc(3) by (simp add: keeps_def)
    ultimately show ?thesis using k tc(4,5) keeps_trans [OF tc(3) u(3)] by (intro exI [of _ nr'] exI [of _ u]) simp
  qed
qed

lemma set_timeout_simps [simp]:
  "tty_queues (set_timeout v s) = tty_queues s" "tty_table (set_timeout v s) = tty_table s" "consoles (set_timeout v s) = consoles s"
  "wait_queue (sched (set_timeout v s)) = wait_queue (sched s)"
  by (simp_all add: set_timeout_def upd_task_def)

lemma small_of_nat: "k < 1024 \<Longrightarrow> unat (of_nat k :: u32) = k"
  by (simp add: unat_of_nat)

text \<open>
  A canonical read of a terminal in the foreground that has a line: it does not sleep and returns the line, or the part of it that is asked for.
\<close>

lemma tty_read_line:
  assumes line: "cooked n s (l @ 10 # rest)" "\<forall>c \<in> set l. \<not> line_end n c s" and set: "L_FLAG n ICANON s" "c_cc (termios_of n s) ! VEOF < 128" "\<not> is_cc n VEOF 10 s"
    and tab: "term_ok n s" "TTY_TABLE channel s = n" "channel < 128" and fg: "tt_pgrp (tt n s) = pgrp (cur (sched s))"
    and idle: "wait_queue (sched s) (proc_list (rq n s)) = NULL" and nr: "0 < nr"
  shows "\<exists>s'. tty_read wr (Suc fuel) aways channel nr s = Done (int (min (nat nr) (length l + 1)), take (nat nr) (l @ [10]), s') \<and>
    cooked n s' (drop (nat nr) (l @ [10]) @ rest)"
proof -
  let ?t = "set_timeout 0xFFFFFFFF s"
  have st: "termios_of n ?t = termios_of n s" by simp
  note sc = settings_cong [OF st]
  have lt: "cooked n ?t (l @ 10 # rest)" using line(1) sc(6) by (simp add: cooked_def)
  obtain nr' u where u: "read_chars n (nat nr) [] ?t = (take (nat nr) (l @ [10]), nr', u)" "cooked n u (drop (nat nr) (l @ [10]) @ rest)" "keeps n ?t u"
      "\<forall>p. p \<noteq> secondary (tt n ?t) \<longrightarrow> que p u = que p ?t" "sched u = sched ?t"
    using read_chars_line [OF lt, of "nat nr" "[]"] line(2) set nr unfolding sc st by auto
  have ne: "\<not> EMPTY (sq n ?t)" using holds_EMPTY lt by (fastforce simp: cooked_def)
  have dat: "q_data (sq n ?t) \<noteq> 0"
  proof -
    let ?k = "length (filter (\<lambda>c. line_end n c ?t) (l @ 10 # rest))"
    have "?k \<le> length (l @ 10 # rest)" by (rule length_filter_le)
    then have "?k < 1024" using holdsD(3) lt by (fastforce simp: cooked_def)
    moreover have "0 < ?k" by (simp add: line_end_def)
    ultimately have "unat (of_nat ?k :: u32) \<noteq> 0" by (simp only: small_of_nat)
    then show ?thesis using lt unfolding cooked_def by (metis unat_0)
  qed
  have w: "wake (read_q (tt n u)) u = Done u"
    using idle tab(1) u(3-5) by (intro wake_idle) (simp add: keeps_def term_ok_def)
  have cn: "L_FLAG n ICANON u" using set(1) settings_cong(1) [OF keeps_settings [OF u(3)]] sc(1) by simp
  have loop: "tty_read_loop wr (Suc fuel) aways channel n (nat nr) 0 (nat nr) [] ?t = Done (take (nat nr) (l @ [10]), u)"
    using tab(3) nr ne dat u(1) w cn by simp
  have tk: "take (nat nr) (l @ [10]) \<noteq> []" "int (length (take (nat nr) (l @ [10]))) = int (min (nat nr) (length l + 1))" using nr by (simp_all add: min.commute)
  have "tty_read wr (Suc fuel) aways channel nr s = Done (int (min (nat nr) (length l + 1)), take (nat nr) (l @ [10]), set_timeout 0 u)"
    using tab fg set(1) loop tk(1) unfolding tk(2) [symmetric] by (simp add: tty_read_def read_limits_def Let_def term_ok_def del: tty_read_loop.simps take_append length_take)
  moreover have "cooked n (set_timeout 0 u) (drop (nat nr) (l @ [10]) @ rest)" using u(2) by (simp add: cooked_def line_end_def is_cc_def)
  ultimately show ?thesis by blast
qed

lemma keeps_pgrp: "keeps n s t \<Longrightarrow> pgrp (cur (sched t)) = pgrp (cur (sched s))"
  by (simp add: keeps_def signalled_def task_signalled_def cur_def)

section \<open>Consoles\<close>

text \<open>
  C17. The line discipline refines an editor on lists.  Whatever is typed at a console, with any settings that echo control characters visibly, with or without
  flow control and stopped or not, as long as the characters that wait and those that are typed fit the secondary queue together and nobody
  sleeps on the write queue: \<^verbatim>\<open>copy_to_cooked\<close> works off the whole read queue and leaves in the secondary queue what the editor makes of the characters that
  were there and those that were typed (translation, erasing a character, killing a line, signals, stop and start), keeps the count of complete lines right, and
  ends with waking the processes that sleep on the secondary queue, if it is not empty.  Output is then stopped exactly if it was stopped, or a stop
  character came, and no start character followed; if it is not stopped, all the echo has been written.
  The settings of the terminal, its queues and its process group stay, and of the tasks only the pending signals change before the readers are woken.
\<close>

theorem copy_to_cooked_edits:
  assumes "console_live n s" "holds (rq n s) typed" "cooked n s xs" "length xs + length typed \<le> 1023" "length typed < fuel"
  shows "\<exists>s'. copy_to_cooked (tty_driver (Suc (depth + 1024))) fuel n s = (if edited n s typed xs = [] then Done s' else wake (secondary (tt n s)) s') \<and>
    holds (rq n s') [] \<and> cooked n s' (edited n s typed xs) \<and> console_live n s' \<and> keeps n s s' \<and>
    stopped (tt n s') = halted n s typed (stopped (tt n s)) \<and> (\<not> halted n s typed (stopped (tt n s)) \<longrightarrow> holds (wq n s') [])"
proof -
  obtain s' where s': "copy_to_cooked (tty_driver (Suc (depth + 1024))) fuel n s = (if edited n s typed xs = [] then Done s' else wake (secondary (tt n s)) s')"
    "console_live n s'" "keeps n s s'" "stopped (tt n s') = halted n s typed (stopped (tt n s))" "cooked n s' (edited n s typed xs)" "holds (rq n s') []"
    using live.copy_to_cooked_wakes [OF assms, of depth] by blast
  moreover have "holds (wq n s') []" if "\<not> stopped (tt n s')" using s'(2) that by (auto simp: console_live_def)
  ultimately show ?thesis by auto
qed

text \<open>
  C5. What is typed is what is read: after the keyboard interrupt has cooked the typed characters of a console in canonical mode, a read by a process of the
  foreground process group returns at once with the first line as edited, newline included, or the part of it that was asked for; the rest stays for the
  next read.
\<close>

theorem typed_line_is_read:
  assumes ready: "console_ready n s" and typed: "holds (rq n s) typed" "cooked n s []" "length typed \<le> 1023" "length typed < fuel"
    and line: "edited n s typed [] = l @ 10 # rest" "\<forall>c \<in> set l. \<not> line_end n c s"
    and canonical: "L_FLAG n ICANON s" "c_cc (termios_of n s) ! VEOF < 128" "\<not> is_cc n VEOF 10 s"
    and channel: "TTY_TABLE channel s = n" "channel < 128" and fg: "tt_pgrp (tt n s) = pgrp (cur (sched s))"
    and idle: "wait_queue (sched s) (proc_list (rq n s)) = NULL" "wait_queue (sched s) (proc_list (sq n s)) = NULL" and nr: "0 < nr"
  shows "\<exists>s1 s2. do_tty_interrupt (tty_driver (Suc (depth + 3))) fuel channel s = Done s1 \<and>
    tty_read (tty_driver (Suc (depth + 3))) (Suc fuel) [] channel nr s1 = Done (int (min (nat nr) (length l + 1)), take (nat nr) (l @ [10]), s2) \<and>
    cooked n s2 (drop (nat nr) (l @ [10]) @ rest)"
proof -
  obtain s1 where s1: "copy_to_cooked (tty_driver (Suc (depth + 3))) fuel n s = Done s1" "console_ready n s1" "keeps n s s1" "cooked n s1 (l @ 10 # rest)"
    using console.copy_to_cooked_quiet [OF ready typed(1,2) _ typed(4) idle(2), of depth] typed(3) line(1) by auto
  note k = s1(3) [unfolded keeps_def] and sc = settings_cong [OF keeps_settings [OF s1(3)]]
  have tab: "term_ok n s1" using s1(2) by (simp add: console_ready_def)
  have ch: "TTY_TABLE channel s1 = n" unfolding channel(1) [symmetric] TTY_TABLE_def using k by simp
  have pg: "tt_pgrp (tt n s1) = pgrp (cur (sched s1))" using fg keeps_pgrp [OF s1(3)] k by simp
  have id: "wait_queue (sched s1) (proc_list (rq n s1)) = NULL" using idle(1) k by (simp add: signalled_def)
  have ln: "\<forall>c \<in> set l. \<not> line_end n c s1" "L_FLAG n ICANON s1" "c_cc (termios_of n s1) ! VEOF < 128" "\<not> is_cc n VEOF 10 s1"
    using line(2) canonical k unfolding sc by simp_all
  obtain s2 where "tty_read (tty_driver (Suc (depth + 3))) (Suc fuel) [] channel nr s1 = Done (int (min (nat nr) (length l + 1)), take (nat nr) (l @ [10]), s2)"
    "cooked n s2 (drop (nat nr) (l @ [10]) @ rest)"
    using tty_read_line [OF s1(4) ln tab ch channel(2) pg id nr] by blast
  moreover have "do_tty_interrupt (tty_driver (Suc (depth + 3))) fuel channel s = Done s1" using s1(1) channel(1) by (simp add: do_tty_interrupt_def)
  ultimately show ?thesis by blast
qed

subsection \<open>Output\<close>

text \<open>The post-processing of output: the characters a string becomes, the flag telling that its first newline has its carriage return already.\<close>

fun post :: "nat \<Rightarrow> ttys \<Rightarrow> bool \<Rightarrow> u8 list \<Rightarrow> u8 list" where
  "post n s done [] = []"
| "post n s done (b # bs) =
    (if \<not> O_FLAG n OPOST s then b # post n s False bs
     else
       let c = out_char n b s in
       (if c = 10 \<and> \<not> done \<and> O_FLAG n ONLCR s then [13] else []) @ (if O_FLAG n OLCUC s then toupper c else c) # post n s False bs)"

declare fill_write.simps [simp del]

lemma post_cong:
  assumes "termios_of n s' = termios_of n s"
  shows "post n s' done bs = post n s done bs"
  by (induction bs arbitrary: "done") (simp_all add: settings_cong(3) [OF assms] out_char_def Let_def)

text \<open>One character that needs no carriage return before it.\<close>

lemma fill_write_step:
  assumes "\<not> FULL (wq n s)" "\<not> (O_FLAG n OPOST s \<and> out_char n b s = 10 \<and> \<not> cr_flag s \<and> O_FLAG n ONLCR s)"
  shows "fill_write n (b # bs) s = fill_write n bs (putch (write_q (tt n s))
    (if O_FLAG n OPOST s then if O_FLAG n OLCUC s then toupper (out_char n b s) else out_char n b s else b) (s\<lparr>cr_flag := False\<rparr>))"
  using assms by (subst fill_write.simps) (auto simp: Let_def)

lemma fill_write_post:
  assumes "holds (wq n s) ys" "length ys + length (post n s (cr_flag s) bs) \<le> 1023"
  shows "\<exists>t. fill_write n bs s = ([], t) \<and> holds (wq n t) (ys @ post n s (cr_flag s) bs) \<and> tty_table t = tty_table s \<and> consoles t = consoles s \<and>
    sched t = sched s \<and> (\<forall>p. proc_list (que p t) = proc_list (que p s))"
  using assms
proof (induction bs arbitrary: s ys)
  case Nil
  then show ?case by (subst fill_write.simps) simp
next
  case (Cons b bs)
  let ?w = "write_q (tt n s)"
  define c where "c = (if O_FLAG n OPOST s then if O_FLAG n OLCUC s then toupper (out_char n b s) else out_char n b s else b)"
  define pre where "pre = (if O_FLAG n OPOST s \<and> out_char n b s = 10 \<and> \<not> cr_flag s \<and> O_FLAG n ONLCR s then [13] else [] :: u8 list)"
  have post: "post n s (cr_flag s) (b # bs) = pre @ c # post n s False bs" by (simp add: c_def pre_def Let_def)
  define s1 where "s1 = (if pre = [] then s else putch ?w 13 (s\<lparr>cr_flag := True\<rparr>))"
  have st: "termios_of n s1 = termios_of n s" by (simp add: s1_def)
  note sc = settings_cong [OF st]
  have oc: "out_char n b s1 = out_char n b s" by (simp add: out_char_def sc)
  have len: "length ys + length pre + 1 + length (post n s False bs) \<le> 1023" using Cons.prems(2) post by simp
  have w1: "holds (wq n s1) (ys @ pre)" using holds_PUTCH [OF Cons.prems(1)] len Cons.prems(1) by (auto simp: s1_def pre_def)
  have f0: "fill_write n (b # bs) s = fill_write n (b # bs) s1"
  proof (cases "pre = []")
    case False
    then have "O_FLAG n OPOST s \<and> out_char n b s = 10 \<and> \<not> cr_flag s \<and> O_FLAG n ONLCR s" by (simp add: pre_def split: if_splits)
    moreover have "\<not> FULL (wq n s)" using holds_FULL [OF Cons.prems(1)] len False by auto
    ultimately show ?thesis using False by (subst fill_write.simps) (simp add: s1_def Let_def)
  qed (simp add: s1_def)
  let ?s2 = "putch ?w c (s1\<lparr>cr_flag := False\<rparr>)"
  have nf: "\<not> FULL (wq n s1)" using holds_FULL [OF w1] len by auto
  have tt1: "tty_table s1 = tty_table s" "consoles s1 = consoles s" "sched s1 = sched s" "\<And>p. proc_list (que p s1) = proc_list (que p s)" by (simp_all add: s1_def)
  have "cr_flag s1 \<or> pre = []" by (simp add: s1_def putch_def)
  then have "\<not> (O_FLAG n OPOST s1 \<and> out_char n b s1 = 10 \<and> \<not> cr_flag s1 \<and> O_FLAG n ONLCR s1)"
    by (auto simp: sc oc pre_def s1_def split: if_splits)
  then have f1: "fill_write n (b # bs) s1 = fill_write n bs ?s2" using fill_write_step [OF nf] by (simp add: c_def sc oc tt1)
  have cf: "cr_flag ?s2 = False" "termios_of n ?s2 = termios_of n s" by (simp_all add: putch_def st)
  have w2: "holds (wq n ?s2) (ys @ pre @ [c])" using holds_PUTCH [OF w1, of c] len tt1 by simp
  obtain t where "fill_write n bs ?s2 = ([], t)" "holds (wq n t) ((ys @ pre @ [c]) @ post n s False bs)" "tty_table t = tty_table ?s2" "consoles t = consoles ?s2"
    "sched t = sched ?s2" "\<forall>p. proc_list (que p t) = proc_list (que p ?s2)"
    using Cons.IH [OF w2] len unfolding cf(1) post_cong [OF cf(2)] by auto
  then show ?case using f0 f1 post tt1 by auto
qed

text \<open>
  C18. Output to a console: a process that writes a text without escape characters, short enough to fit the write queue at once, gets all of it written without
  sleeping, and the console then shows what \<^verbatim>\<open>con_write\<close> makes of the text after post-processing, the carriage returns of the newlines put in.
\<close>

theorem tty_write_shows:
  assumes ready: "console_ready n s" and channel: "TTY_TABLE channel s = n" "channel < 256" and fg: "tt_pgrp (tt n s) = pgrp (cur (sched s))"
    and signals: "\<not> pending s" and txt_ok: "bs \<noteq> []" "27 \<notin> set (post n s (cr_flag s) bs)" "length (post n s (cr_flag s) bs) < 1024" "length (post n s (cr_flag s) bs) < fuel"
  shows "\<exists>s'. tty_write (tty_driver (Suc fuel)) [] channel bs s = Done (int (length bs), s') \<and> holds (wq n s') [] \<and>
    con_write n False (post n s (cr_flag s) bs) (consoles s) = Some ([], consoles s')"
proof -
  note r = ready [unfolded console_ready_def]
  obtain t where t: "fill_write n bs s = ([], t)" "holds (wq n t) (post n s (cr_flag s) bs)" "tty_table t = tty_table s" "consoles t = consoles s"
    "sched t = sched s" "\<forall>p. proc_list (que p t) = proc_list (que p s)"
    using fill_write_post [where n = n and s = s and ys = "[]" and bs = bs] r txt_ok(3) by auto
  obtain q k where k: "tty_driver (Suc fuel) n t = Done ((upd_queue (write_q (tt n t)) (\<lambda>_. q) t)\<lparr>consoles := k\<rparr>)" "holds q []"
    "map_option (\<lambda>k. blank_timer (set_cursor n k)) (con_chars n (post n s (cr_flag s) bs) (consoles t)) = Some k"
    using con_driver_plain [where n = n and s = t and bs = "post n s (cr_flag s) bs" and fuel = fuel] r t txt_ok by (auto simp del: tty_driver.simps)
  let ?s = "(upd_queue (write_q (tt n t)) (\<lambda>_. q) t)\<lparr>consoles := k\<rparr>"
  have nf: "\<not> FULL (wq n s)" using holds_FULL [of "wq n s" "[]"] r by simp
  have "tty_write_loop (tty_driver (Suc fuel)) [] (Suc 0) n bs s = Done ([], ?s)"
    using txt_ok(1) nf signals t(1) k(1) by (simp add: sleep_if_full_def del: tty_driver.simps)
  moreover have "term_ok n s" using r by simp
  ultimately have "tty_write (tty_driver (Suc fuel)) [] channel bs s = Done (int (length bs), ?s)"
    using channel fg by (simp add: tty_write_def Let_def term_ok_def del: tty_driver.simps tty_write_loop.simps)
  moreover have "con_write n False (post n s (cr_flag s) bs) (consoles s) = Some ([], k)" using k(3) r t(4) by (auto simp: con_write_def)
  ultimately show ?thesis using k(2) by (intro exI [of _ ?s]) simp
qed

text \<open>A console with a line typed that has an erased character in it: \<^verbatim>\<open>lq\<close>, delete, \<^verbatim>\<open>s\<close> and return.\<close>

definition typing :: ttys where
  "typing =
    \<lparr>tty_queues = (\<lambda>p. \<lparr>q_data = 0, q_head = (if p = 1 then 5 else 0), q_tail = 0, proc_list = p, q_buf = [108, 113, 127, 115, 13] @ replicate 1019 0\<rparr>),
     tty_table = (\<lambda>_. \<lparr>tt_pgrp = 0, tt_session = 0, stopped = False, busy = 0, winsz = \<lparr>ws_row = 25, ws_col = 80, ws_xpixel = 0, ws_ypixel = 0\<rparr>,
       write_op = con_write_fn, read_q = 1, write_q = 2, secondary = 3\<rparr>),
     consoles = bss_con\<lparr>video_num_columns := 80, video_num_lines := 25, video_size_row := 160,
       vc_cons := (\<lambda>n. (vc n bss_con)\<lparr>vc_origin := 0xB8000, vc_pos := 0xB8000, vc_scr_end := 0xB8FA0, vc_video_mem_start := 0xB8000, vc_video_mem_end := 0xC0000, vc_bottom := 25\<rparr>)\<rparr>,
     sched = two_tasks, cr_flag = False, table_list = []\<rparr>"

lemma typing_simps:
  "tt n typing = \<lparr>tt_pgrp = 0, tt_session = 0, stopped = False, busy = 0, winsz = \<lparr>ws_row = 25, ws_col = 80, ws_xpixel = 0, ws_ypixel = 0\<rparr>,
    write_op = con_write_fn, read_q = 1, write_q = 2, secondary = 3\<rparr>"
  "que p typing = \<lparr>q_data = 0, q_head = (if p = 1 then 5 else 0), q_tail = 0, proc_list = p, q_buf = [108, 113, 127, 115, 13] @ replicate 1019 0\<rparr>"
  "termios_of n typing = DEF_TERMIOS" "sched typing = two_tasks" "fg_console (consoles typing) = 0" "replies (consoles typing) = []"
  "vc_state (vc n (consoles typing)) = ESnormal"
  by (simp_all add: typing_def bss_con_def)

lemma typing_settings:
  "L_FLAG n f typing \<longleftrightarrow> 0xE0B AND f \<noteq> 0" "I_FLAG n f typing \<longleftrightarrow> 0x100 AND f \<noteq> 0" "is_cc n i c typing \<longleftrightarrow> INIT_C_CC ! i \<noteq> 0 \<and> c = INIT_C_CC ! i"
  by (simp_all add: L_FLAG_def I_FLAG_def is_cc_def typing_simps DEF_TERMIOS_def)

lemma typing_ready: "console_ready 0 typing" "holds (rq 0 typing) [108, 113, 127, 115, 13]" "cooked 0 typing []"
proof -
  have "con_ok 0 (consoles typing)" by (simp add: con_ok_def geometry_def vc_ok_def typing_def bss_con_def)
  then show "console_ready 0 typing" by (simp add: console_ready_def term_ok_def typing_simps typing_settings holds_def)
  show "holds (rq 0 typing) [108, 113, 127, 115, 13]"
    by (simp add: typing_simps holds_def nth_append del: append_Cons)
  show "cooked 0 typing []" by (simp add: cooked_def typing_simps holds_def)
qed

lemma typing_edited: "edited 0 typing [108, 113, 127, 115, 13] [] = [108, 115, 10]"
  by (simp add: edited_def edit_def in_char_def line_erase_def line_end_def typing_settings INIT_C_CC_def Let_def)

text \<open>The same console with flow control, where the line ends with a stop character (19).\<close>

definition flow :: ttys where
  "flow = typing\<lparr>tty_queues := (\<lambda>p. (que p typing)\<lparr>q_buf := [108, 113, 127, 115, 19] @ replicate 1019 0\<rparr>),
     consoles := (consoles typing)\<lparr>tty_termios := (\<lambda>n. DEF_TERMIOS\<lparr>c_iflag := 0x500\<rparr>)\<rparr>\<rparr>"

lemma flow_settings:
  "L_FLAG n f flow \<longleftrightarrow> 0xE0B AND f \<noteq> 0" "I_FLAG n f flow \<longleftrightarrow> 0x500 AND f \<noteq> 0" "is_cc n i c flow \<longleftrightarrow> INIT_C_CC ! i \<noteq> 0 \<and> c = INIT_C_CC ! i"
  by (simp_all add: L_FLAG_def I_FLAG_def is_cc_def flow_def DEF_TERMIOS_def)

lemma flow_simps: "tt n flow = tt n typing" "que p flow = (que p typing)\<lparr>q_buf := [108, 113, 127, 115, 19] @ replicate 1019 0\<rparr>" "sched flow = two_tasks"
  by (simp_all add: flow_def typing_simps)

lemma flow_live: "console_live 0 flow" "holds (rq 0 flow) [108, 113, 127, 115, 19]" "cooked 0 flow []"
proof -
  have "con_ok 0 (consoles flow)" "vc_state (vc 0 (consoles flow)) = ESnormal" "replies (consoles flow) = []"
    by (simp_all add: con_ok_def geometry_def vc_ok_def flow_def typing_def bss_con_def)
  moreover have "holds (wq 0 flow) []" by (simp add: flow_simps typing_simps holds_def)
  ultimately show "console_live 0 flow" by (auto simp: console_live_def term_ok_def flow_simps typing_simps flow_settings)
  show "holds (rq 0 flow) [108, 113, 127, 115, 19]" by (simp add: flow_simps typing_simps holds_def nth_append del: append_Cons)
  show "cooked 0 flow []" by (simp add: cooked_def flow_simps typing_simps holds_def)
qed

theorem copy_to_cooked_edits_witness:
  "\<exists>s'. copy_to_cooked (tty_driver 1025) 6 0 flow = Done s' \<and> holds (rq 0 s') [] \<and> cooked 0 s' [108, 115] \<and> stopped (tt 0 s')"
proof -
  have e: "edited 0 flow [108, 113, 127, 115, 19] [] = [108, 115]" "halted 0 flow [108, 113, 127, 115, 19] False"
    by (simp_all add: edited_def edit_def halted_def halts_def in_char_def line_erase_def line_end_def flow_settings INIT_C_CC_def Let_def)
  obtain s' where s': "copy_to_cooked (tty_driver (Suc (0 + 1024))) 6 0 flow = wake 3 s'" "holds (rq 0 s') []" "cooked 0 s' [108, 115]" "stopped (tt 0 s')" "keeps 0 flow s'"
    using copy_to_cooked_edits [OF flow_live, of 6 0] by (auto simp: e flow_simps typing_simps simp del: tty_driver.simps)
  have "wake 3 s' = Done s'" using s'(5) by (intro wake_idle) (simp add: keeps_def signalled_def flow_simps typing_simps)
  then show ?thesis using s'(1-4) by (intro exI [of _ s']) (simp del: tty_driver.simps)
qed

theorem typed_line_is_read_witness:
  "\<exists>s1 s2. do_tty_interrupt (tty_driver 4) 6 1 typing = Done s1 \<and> tty_read (tty_driver 4) 7 [] 1 80 s1 = Done (3, [108, 115, 10], s2) \<and> cooked 0 s2 []"
  using typed_line_is_read [OF typing_ready(1,2,3), of 6 "[108, 115]" "[]" 1 80 0]
  by (simp add: typing_edited typing_settings typing_simps line_end_def INIT_C_CC_def DEF_TERMIOS_def TTY_TABLE_def cur_def init_task_def numeral_eq_Suc [of num.One] del: tty_driver.simps)

theorem tty_write_shows_witness:
  "\<exists>s'. tty_write (tty_driver 6) [] 1 [104, 105, 10] typing = Done (3, s') \<and> holds (wq 0 s') [] \<and>
    con_write 0 False [104, 105, 13, 10] (consoles typing) = Some ([], consoles s')"
proof -
  have cf: "\<not> cr_flag typing" by (simp add: typing_def)
  have p: "post 0 typing (cr_flag typing) [104, 105, 10] = [104, 105, 13, 10]"
    by (simp add: cf O_FLAG_def out_char_def typing_simps DEF_TERMIOS_def)
  show ?thesis
    using tty_write_shows [OF typing_ready(1), of 1 "[104, 105, 10]" 5] unfolding p
    by (simp add: TTY_TABLE_def typing_simps cur_def init_task_def pending_def del: tty_driver.simps)
qed

end
