(* ===== verification/Process.thy ===== *)
theory Process
  imports Signals
begin

text \<open>
  The life of a process: \<^verbatim>\<open>kernel/fork.c\<close> (finding a process number and a slot, linking the
  child into the family), and \<^verbatim>\<open>kernel/exit.c\<close> (\<^verbatim>\<open>release\<close>, the consistency check
  \<^verbatim>\<open>audit_ptree\<close>, the process part of \<^verbatim>\<open>do_exit\<close>, \<^verbatim>\<open>sys_waitpid\<close>).  The processes form a tree: a
  parent points to its youngest child, siblings are doubly linked from younger to older.
\<close>

section \<open>exit.c\<close>

text \<open>
  \<^verbatim>\<open>release\<close>: \<open>None\<close> is the panic for a task that is not in the table.  The returned list
  holds the pages handed to \<^verbatim>\<open>free_page\<close>.
\<close>

definition unlink_task :: "ptr \<Rightarrow> sched_state \<Rightarrow> sched_state" where
  "unlink_task p s =
    (let s = (if p_osptr (tsk s p) \<noteq> NULL
              then upd_task (p_osptr (tsk s p)) (\<lambda>t. t\<lparr>p_ysptr := p_ysptr (tsk s p)\<rparr>) s else s)
     in if p_ysptr (tsk s p) \<noteq> NULL
        then upd_task (p_ysptr (tsk s p)) (\<lambda>t. t\<lparr>p_osptr := p_osptr (tsk s p)\<rparr>) s
        else upd_task (p_pptr (tsk s p)) (\<lambda>t. t\<lparr>p_cptr := p_osptr (tsk s p)\<rparr>) s)"

definition release :: "ptr \<Rightarrow> sched_state \<Rightarrow> (sched_state \<times> ptr list) option" where
  "release p s =
    (if p = NULL then Some (s, [])
     else if p = current s then Some (s, [])
     else case find (\<lambda>i. task s ! i = p) [1..<64] of
       None \<Rightarrow> None
     | Some i \<Rightarrow> Some (unlink_task p (s\<lparr>task := (task s)[i := NULL]\<rparr>), [p]))"

definition bad_task_ptr :: "ptr \<Rightarrow> sched_state \<Rightarrow> bool" where
  "bad_task_ptr p s \<longleftrightarrow> p \<noteq> NULL \<and> \<not> list_ex (\<lambda>i. task s ! i = p) [0..<64]"

datatype ptree_warning =
    BadParentLink int | BadChildLink int | BadYsLink int | BadOsLink int
  | ParentSelf | ChildSelf | YsSelf | OsSelf
  | OlderParent int | OlderMismatch int | YoungerParent int | YoungerMismatch int
  | ChildMismatch int | ChildHasYs int

definition audit_task :: "sched_state \<Rightarrow> ptr \<Rightarrow> ptree_warning list" where
  "audit_task s p =
    (let t = tsk s p in
     (if bad_task_ptr (p_pptr t) s then [BadParentLink (pid t)] else []) @
     (if bad_task_ptr (p_cptr t) s then [BadChildLink (pid t)] else []) @
     (if bad_task_ptr (p_ysptr t) s then [BadYsLink (pid t)] else []) @
     (if bad_task_ptr (p_osptr t) s then [BadOsLink (pid t)] else []) @
     (if p_pptr t = p then [ParentSelf] else []) @
     (if p_cptr t = p then [ChildSelf] else []) @
     (if p_ysptr t = p then [YsSelf] else []) @
     (if p_osptr t = p then [OsSelf] else []) @
     (if p_osptr t \<noteq> NULL then
        (if p_pptr t \<noteq> p_pptr (tsk s (p_osptr t)) then [OlderParent (pid t)] else []) @
        (if p_ysptr (tsk s (p_osptr t)) \<noteq> p then [OlderMismatch (pid t)] else [])
      else []) @
     (if p_ysptr t \<noteq> NULL then
        (if p_pptr t \<noteq> p_pptr (tsk s (p_ysptr t)) then [YoungerParent (pid t)] else []) @
        (if p_osptr (tsk s (p_ysptr t)) \<noteq> p then [YoungerMismatch (pid t)] else [])
      else []) @
     (if p_cptr t \<noteq> NULL then
        (if p_pptr (tsk s (p_cptr t)) \<noteq> p then [ChildMismatch (pid t)] else []) @
        (if p_ysptr (tsk s (p_cptr t)) \<noteq> NULL then [ChildHasYs (pid t)] else [])
      else []))"

definition audit_ptree :: "sched_state \<Rightarrow> ptree_warning list" where
  "audit_ptree s = concat (map (\<lambda>i. if task s ! i = NULL then [] else audit_task s (task s ! i)) [1..<64])"

text \<open>
  The part of \<^verbatim>\<open>do_exit\<close> that concerns other processes: becoming a zombie, hanging up a newly
  orphaned process group, telling the parent, and handing every child to \<^verbatim>\<open>task[1]\<close>.
\<close>

definition hangup_if_orphaned :: "int \<Rightarrow> sched_state \<Rightarrow> sched_state" where
  "hangup_if_orphaned pg s =
    (if is_orphaned_pgrp pg s \<and> has_stopped_jobs pg s
     then snd (kill_pg pg SIGCONT True (snd (kill_pg pg SIGHUP True s))) else s)"

definition adopt_child :: "ptr \<Rightarrow> sched_state \<Rightarrow> sched_state" where
  "adopt_child p s =
    (let ini = task s ! 1;
         s = upd_cur (\<lambda>t. t\<lparr>p_cptr := p_osptr (tsk s p)\<rparr>) s;
         s = upd_task p (\<lambda>t. t\<lparr>p_ysptr := NULL\<rparr>) s;
         s = upd_task p (\<lambda>t. t\<lparr>flags := flags t AND NOT PF_PTRACED\<rparr>) s;
         s = upd_task p (\<lambda>t. t\<lparr>p_pptr := ini\<rparr>) s;
         s = upd_task p (\<lambda>t. t\<lparr>p_osptr := p_cptr (tsk s ini)\<rparr>) s;
         s = upd_task (p_cptr (tsk s ini)) (\<lambda>t. t\<lparr>p_ysptr := p\<rparr>) s;
         s = upd_task ini (\<lambda>t. t\<lparr>p_cptr := p\<rparr>) s
     in s)"

definition orphan_step :: "ptr \<Rightarrow> sched_state \<Rightarrow> sched_state" where
  "orphan_step p s =
    (let s = adopt_child p s;
         s = (if state (tsk s p) = TASK_ZOMBIE
              then upd_task (task s ! 1) (\<lambda>t. t\<lparr>signal := signal t OR sigbit SIGCHLD\<rparr>) s else s)
     in if pgrp (tsk s p) \<noteq> pgrp (cur s) \<and> session (tsk s p) = session (cur s)
        then hangup_if_orphaned (pgrp (tsk s p)) s else s)"

fun orphan_children :: "nat \<Rightarrow> sched_state \<Rightarrow> sched_state option" where
  "orphan_children 0 s = None"
| "orphan_children (Suc fuel) s =
    (let p = p_cptr (cur s) in
     if p = NULL then Some s else orphan_children fuel (orphan_step p s))"

text \<open>
  The exit of a session leader gives up the terminal.  A terminal is the pair of its
  foreground process group and its session; \<open>ttys\<close> is the terminal table.
\<close>

record tty_ctl =
  tty_pgrp :: int
  tty_session :: int

definition drop_tty :: "nat \<Rightarrow> sched_state \<Rightarrow> sched_state" where
  "drop_tty i s =
    (if session (slot_task s i) = session (cur s) then upd_task (task s ! i) (\<lambda>t. t\<lparr>tty := -1\<rparr>) s else s)"

definition exit_leader :: "(int \<Rightarrow> tty_ctl) \<Rightarrow> sched_state \<Rightarrow> (int \<Rightarrow> tty_ctl) \<times> sched_state" where
  "exit_leader ttys s =
    (if leader (cur s) = 0 then (ttys, s)
     else
       let n = tty (cur s);
           (ttys, s) = (if 0 \<le> n then
              (ttys(n := \<lparr>tty_pgrp = -1, tty_session = 0\<rparr>),
               if tty_pgrp (ttys n) > 0 then snd (kill_pg (tty_pgrp (ttys n)) SIGHUP True s) else s)
            else (ttys, s));
           s = fold drop_tty slots_down s
       in (ttys, s))"

definition exit_zombie :: "int \<Rightarrow> sched_state \<Rightarrow> sched_state" where
  "exit_zombie code s =
    upd_cur (\<lambda>t. t\<lparr>pwd := NULL, root := NULL, executable := NULL, library := NULL,
                    state := TASK_ZOMBIE, exit_code := code, rss := 0\<rparr>) s"

definition exit_notify :: "sched_state \<Rightarrow> sched_state" where
  "exit_notify s =
    (let par = p_pptr (cur s);
         s = (if pgrp (tsk s par) \<noteq> pgrp (cur s) \<and> session (tsk s par) = session (cur s)
              then hangup_if_orphaned (pgrp (cur s)) s else s)
     in snd (send_sig SIGCHLD (p_pptr (cur s)) True s))"

text \<open>
  \<^verbatim>\<open>do_exit\<close> up to its call of \<^verbatim>\<open>schedule\<close>: the result pairs the state with the warnings of
  the final \<^verbatim>\<open>audit_ptree\<close>.  (Freeing the address space, closing the files and the
  coprocessor owner are outside this state.)
\<close>

definition do_exit ::
  "nat \<Rightarrow> int \<Rightarrow> (int \<Rightarrow> tty_ctl) \<Rightarrow> sched_state \<Rightarrow> ((int \<Rightarrow> tty_ctl) \<times> sched_state \<times> ptree_warning list) option" where
  "do_exit fuel code ttys s =
    (case orphan_children fuel (exit_notify (exit_zombie code s)) of
       None \<Rightarrow> None
     | Some s \<Rightarrow> let (ttys, s) = exit_leader ttys s in Some (ttys, s, audit_ptree s))"

text \<open>\<^verbatim>\<open>sys_exit\<close> passes this code to \<^verbatim>\<open>do_exit\<close>.\<close>

definition sys_exit_code :: "int \<Rightarrow> int" where
  "sys_exit_code error_code = (error_code AND 0xff) * 256"

section \<open>fork.c\<close>

definition pid_in_use :: "int \<Rightarrow> sched_state \<Rightarrow> bool" where
  "pid_in_use n s \<longleftrightarrow>
    list_ex (\<lambda>i. task s ! i \<noteq> NULL \<and> (pid (tsk s (task s ! i)) = n \<or> pgrp (tsk s (task s ! i)) = n)) [0..<64]"

definition next_pid :: "int \<Rightarrow> int" where
  "next_pid n = (let n = s32 (n + 1) in if n < 0 then 1 else n)"

fun find_pid :: "nat \<Rightarrow> sched_state \<Rightarrow> sched_state option" where
  "find_pid 0 s = None"
| "find_pid (Suc fuel) s =
    (let s = s\<lparr>last_pid := next_pid (last_pid s)\<rparr>
     in if pid_in_use (last_pid s) s then find_pid fuel s else Some s)"

definition find_empty_process :: "nat \<Rightarrow> sched_state \<Rightarrow> (int \<times> sched_state) option" where
  "find_empty_process fuel s =
    (case find_pid fuel s of
       None \<Rightarrow> None
     | Some s \<Rightarrow> (case find (\<lambda>i. task s ! i = NULL) [1..<64] of
                    None \<Rightarrow> Some (- EAGAIN, s)
                  | Some i \<Rightarrow> Some (int i, s)))"

text \<open>
  \<^verbatim>\<open>sys_fork\<close>.  The page \<open>p\<close> that \<^verbatim>\<open>get_free_page\<close> returned and the success of \<^verbatim>\<open>copy_mem\<close> are
  arguments; the copy of the registers into the TSS and the descriptors are left out.
  Beside the process table the call changes the reference counts of the open files and of
  the four inodes a task holds (16-bit counters that wrap), and may give pages back.
\<close>

record refcounts =
  f_count :: "ptr \<Rightarrow> u16"
  i_count :: "ptr \<Rightarrow> u16"

definition fork_task :: "nat \<Rightarrow> sched_state \<Rightarrow> task_struct \<Rightarrow> task_struct" where
  "fork_task nr s t =
    t\<lparr>state := TASK_UNINTERRUPTIBLE, pid := last_pid s, counter := priority t, signal := 0, alarm := 0,
      leader := 0, utime := 0, stime := 0, cutime := 0, cstime := 0,
      min_flt := 0, maj_flt := 0, cmin_flt := 0, cmaj_flt := 0, start_time := sint (jiffies s),
      start_code := word_of_int (int nr * 0x04000000)\<rparr>"

definition fork_copy :: "nat \<Rightarrow> ptr \<Rightarrow> sched_state \<Rightarrow> sched_state" where
  "fork_copy nr p s =
    (let s = s\<lparr>task := (task s)[nr := p]\<rparr>
     in upd_task p (\<lambda>_. fork_task nr s (cur s)) s)"

definition ref :: "ptr \<Rightarrow> (ptr \<Rightarrow> u16) \<Rightarrow> (ptr \<Rightarrow> u16)" where
  "ref f c = (if f \<noteq> NULL then c(f := c f + 1) else c)"

definition fork_refs :: "ptr \<Rightarrow> sched_state \<Rightarrow> refcounts \<Rightarrow> refcounts" where
  "fork_refs p s r =
    \<lparr>f_count = fold (\<lambda>i. ref (filp (tsk s p) ! i)) [0..<20] (f_count r),
     i_count = ref (library (cur s)) (ref (executable (cur s)) (ref (root (cur s)) (ref (pwd (cur s)) (i_count r))))\<rparr>"

definition fork_link :: "ptr \<Rightarrow> sched_state \<Rightarrow> sched_state" where
  "fork_link p s =
    (let s = upd_task p (\<lambda>t. t\<lparr>p_pptr := current s\<rparr>) s;
         s = upd_task p (\<lambda>t. t\<lparr>p_cptr := NULL\<rparr>) s;
         s = upd_task p (\<lambda>t. t\<lparr>p_ysptr := NULL\<rparr>) s;
         s = upd_task p (\<lambda>t. t\<lparr>p_osptr := p_cptr (cur s)\<rparr>) s;
         s = (if p_osptr (tsk s p) \<noteq> NULL then upd_task (p_osptr (tsk s p)) (\<lambda>t. t\<lparr>p_ysptr := p\<rparr>) s else s);
         s = upd_cur (\<lambda>t. t\<lparr>p_cptr := p\<rparr>) s
     in upd_task p (\<lambda>t. t\<lparr>state := TASK_RUNNING\<rparr>) s)"

definition sys_fork ::
  "nat \<Rightarrow> ptr \<Rightarrow> bool \<Rightarrow> sched_state \<Rightarrow> refcounts \<Rightarrow> (int \<times> sched_state \<times> refcounts \<times> ptr list) option" where
  "sys_fork fuel p copy_mem_ok s r =
    (if p = NULL then Some (- EAGAIN, s, r, [])
     else case find_empty_process fuel s of
       None \<Rightarrow> None
     | Some (n, s) \<Rightarrow>
         if n < 0 then Some (n, s, r, [p])
         else
           let nr = nat n; s = fork_copy nr p s
           in if \<not> copy_mem_ok then Some (- EAGAIN, s\<lparr>task := (task s)[nr := NULL]\<rparr>, r, [p])
              else let r = fork_refs p s r; s = fork_link p s
                   in Some (pid (tsk s p), s, r, []))"

section \<open>sys\_waitpid\<close>

abbreviation (input) WNOHANG :: int where "WNOHANG \<equiv> 1"
abbreviation (input) WUNTRACED :: int where "WUNTRACED \<equiv> 2"

definition wait_matches :: "int \<Rightarrow> sched_state \<Rightarrow> ptr \<Rightarrow> bool" where
  "wait_matches pd s p \<longleftrightarrow>
    (if pd > 0 then pid (tsk s p) = pd
     else if pd = 0 then pgrp (tsk s p) = pgrp (cur s)
     else if pd \<noteq> -1 then pgrp (tsk s p) = s32 (- pd)
     else True)"

text \<open>
  The scan over the children: it finds a child to report (its number, the status word for
  the caller, the new state and the pages freed), or ends with the flag that says whether a
  live matching child was seen.
\<close>

datatype scan_result =
    Report int int sched_state "ptr list"
  | Nothing bool
  | Panics

definition reap :: "ptr \<Rightarrow> sched_state \<Rightarrow> scan_result" where
  "reap p s =
    (let t = tsk s p;
         s' = upd_cur (\<lambda>c. c\<lparr>cutime := s32 (cutime c + (utime t + cutime t)),
                             cstime := s32 (cstime c + (stime t + cstime t)),
                             cmin_flt := cmin_flt c + (min_flt t + cmin_flt t),
                             cmaj_flt := cmaj_flt c + (maj_flt t + cmaj_flt t)\<rparr>) s
     in case release p s' of
          None \<Rightarrow> Panics
        | Some (s'', freed) \<Rightarrow> Report (pid t) (exit_code t) s'' freed)"

fun wait_scan :: "nat \<Rightarrow> int \<Rightarrow> int \<Rightarrow> bool \<Rightarrow> ptr \<Rightarrow> sched_state \<Rightarrow> scan_result option" where
  "wait_scan 0 pd options flag p s = None"
| "wait_scan (Suc fuel) pd options flag p s =
    (if p = NULL then Some (Nothing flag)
     else if \<not> wait_matches pd s p then wait_scan fuel pd options flag (p_osptr (tsk s p)) s
     else case state (tsk s p) of
       TASK_STOPPED \<Rightarrow>
         if options AND WUNTRACED = 0 \<or> exit_code (tsk s p) = 0
         then wait_scan fuel pd options flag (p_osptr (tsk s p)) s
         else Some (Report (pid (tsk s p)) (or (exit_code (tsk s p) * 256) 0x7f)
                      (upd_task p (\<lambda>t. t\<lparr>exit_code := 0\<rparr>) s) [])
     | TASK_ZOMBIE \<Rightarrow> Some (reap p s)
     | _ \<Rightarrow> wait_scan fuel pd options True (p_osptr (tsk s p)) s)"

text \<open>
  The whole call.  Each element of the first argument is what the system does while the
  caller is in \<^verbatim>\<open>schedule()\<close>; when the list is used up the caller is still asleep (\<open>None\<close>).
\<close>

datatype wait_result =
    WaitRet int "int option" sched_state "ptr list"
  | WaitPanic

fun sys_waitpid :: "(sched_state \<Rightarrow> sched_state) list \<Rightarrow> nat \<Rightarrow> int \<Rightarrow> int \<Rightarrow> sched_state \<Rightarrow> wait_result option" where
  "sys_waitpid aways fuel pd options s =
    (case wait_scan fuel pd options False (p_cptr (cur s)) s of
       None \<Rightarrow> None
     | Some Panics \<Rightarrow> Some WaitPanic
     | Some (Report n st s' freed) \<Rightarrow> Some (WaitRet n (Some st) s' freed)
     | Some (Nothing False) \<Rightarrow> Some (WaitRet (- ECHILD) None s [])
     | Some (Nothing True) \<Rightarrow>
         if options AND WNOHANG \<noteq> 0 then Some (WaitRet 0 None s [])
         else (case aways of
             [] \<Rightarrow> None
           | away # rest \<Rightarrow>
               let oldblocked = blocked (cur s);
                   s = upd_cur (\<lambda>t. t\<lparr>state := TASK_INTERRUPTIBLE,
                                      blocked := blocked t AND NOT (sigbit SIGCHLD)\<rparr>) s;
                   s = away s;
                   s = upd_cur (\<lambda>t. t\<lparr>blocked := oldblocked\<rparr>) s
               in if signal (cur s) AND NOT (blocked (cur s) OR sigbit SIGCHLD) \<noteq> 0
                  then Some (WaitRet (- ERESTARTSYS) None s [])
                  else sys_waitpid rest fuel pd options s))"

declare sys_waitpid.simps [simp del]

section \<open>The family tree\<close>

text \<open>
  \<open>seg t par y p xs y' q\<close>: from \<open>p\<close> the links to the older sibling visit exactly \<open>xs\<close> and
  arrive at \<open>q\<close>; every member has parent \<open>par\<close> and the right younger sibling, starting from
  \<open>y\<close> and leaving \<open>y'\<close>.
\<close>

primrec seg :: "(ptr \<Rightarrow> task_struct) \<Rightarrow> ptr \<Rightarrow> ptr \<Rightarrow> ptr \<Rightarrow> ptr list \<Rightarrow> ptr \<Rightarrow> ptr \<Rightarrow> bool" where
  "seg t par y p [] y' q \<longleftrightarrow> p = q \<and> y = y'"
| "seg t par y p (x # xs) y' q \<longleftrightarrow> p = x \<and> x \<noteq> NULL \<and> p_pptr (t x) = par \<and> p_ysptr (t x) = y \<and>
     seg t par x (p_osptr (t x)) xs y' q"

definition children :: "sched_state \<Rightarrow> ptr \<Rightarrow> ptr list \<Rightarrow> bool" where
  "children s par xs \<longleftrightarrow> (\<exists>y. seg (tsk s) par NULL (p_cptr (tsk s par)) xs y NULL)"

definition all_tasks :: "sched_state \<Rightarrow> ptr set" where
  "all_tasks s = insert (task s ! 0) (live s)"

definition ptree :: "sched_state \<Rightarrow> (ptr \<Rightarrow> ptr list) \<Rightarrow> bool" where
  "ptree s ch \<longleftrightarrow> task_table_ok s \<and>
    (\<forall>par \<in> all_tasks s. children s par (ch par) \<and> set (ch par) \<subseteq> live s) \<and>
    (\<forall>x \<in> live s. p_pptr (tsk s x) \<in> all_tasks s \<and> p_pptr (tsk s x) \<noteq> x \<and> x \<in> set (ch (p_pptr (tsk s x))))"

lemma seg_append [simp]:
  "seg t par y p (xs @ ys) y' q \<longleftrightarrow> (\<exists>m r. seg t par y p xs m r \<and> seg t par m r ys y' q)"
  by (induction xs arbitrary: y p) auto

lemma seg_cong:
  assumes "\<And>x. x \<in> set xs \<Longrightarrow> p_pptr (t x) = p_pptr (t' x) \<and> p_ysptr (t x) = p_ysptr (t' x) \<and> p_osptr (t x) = p_osptr (t' x)"
  shows "seg t par y p xs y' q = seg t' par y p xs y' q"
  using assms by (induction xs arbitrary: y p) auto

lemma seg_parent: "seg t par y p xs y' q \<Longrightarrow> x \<in> set xs \<Longrightarrow> p_pptr (t x) = par"
  by (induction xs arbitrary: y p) auto

lemma seg_path: "seg t par y p xs y' q \<Longrightarrow> path (\<lambda>x. p_osptr (t x)) p xs q"
  by (induction xs arbitrary: y p) auto

lemma seg_last: "seg t par y p xs y' q \<Longrightarrow> y' = (if xs = [] then y else last xs)"
  by (induction xs arbitrary: y p) auto

lemma children_distinct: "children s par xs \<Longrightarrow> distinct xs"
  unfolding children_def by (metis seg_path chain_def chain_distinct)

lemma children_parent: "children s par xs \<Longrightarrow> x \<in> set xs \<Longrightarrow> p_pptr (tsk s x) = par"
  unfolding children_def by (metis seg_parent)

lemma children_split:
  assumes "children s par (us @ x # vs)"
  shows "p_ysptr (tsk s x) = (if us = [] then NULL else last us)"
    "p_osptr (tsk s x) = (if vs = [] then NULL else hd vs)"
    "x \<noteq> NULL" "us = [] \<Longrightarrow> p_cptr (tsk s par) = x" "us \<noteq> [] \<Longrightarrow> p_cptr (tsk s par) = hd us"
proof -
  obtain y where y: "seg (tsk s) par NULL (p_cptr (tsk s par)) us (p_ysptr (tsk s x)) x"
    "seg (tsk s) par x (p_osptr (tsk s x)) vs y NULL" "x \<noteq> NULL"
    using assms by (auto simp: children_def)
  show "p_ysptr (tsk s x) = (if us = [] then NULL else last us)" using seg_last [OF y(1)] .
  show "p_osptr (tsk s x) = (if vs = [] then NULL else hd vs)" using y(2) by (cases vs) auto
  show "x \<noteq> NULL" by (rule y(3))
  show "p_cptr (tsk s par) = x" if "us = []" using y(1) that by simp
  show "p_cptr (tsk s par) = hd us" if "us \<noteq> []" using y(1) that by (cases us) auto
qed

lemma children_null [simp]: "children s par [] \<longleftrightarrow> p_cptr (tsk s par) = NULL"
  by (simp add: children_def)

lemma children_set_nonnull: "children s par xs \<Longrightarrow> NULL \<notin> set xs"
  unfolding children_def by (metis seg_path path_nonnull)

text \<open>The tree depends on the table and the four link fields only.\<close>

definition same_links :: "sched_state \<Rightarrow> sched_state \<Rightarrow> bool" where
  "same_links s s' \<longleftrightarrow> task s' = task s \<and>
    (\<forall>p. p_pptr (tsk s' p) = p_pptr (tsk s p) \<and> p_cptr (tsk s' p) = p_cptr (tsk s p) \<and>
         p_ysptr (tsk s' p) = p_ysptr (tsk s p) \<and> p_osptr (tsk s' p) = p_osptr (tsk s p))"

lemma ptree_same_links: "same_links s s' \<Longrightarrow> ptree s' ch = ptree s ch"
proof -
  assume l: "same_links s s'"
  have sg: "seg (tsk s') par y p xs y' q = seg (tsk s) par y p xs y' q" for par y p xs y' q
    using l by (intro seg_cong) (simp add: same_links_def)
  have "live s' = live s" "all_tasks s' = all_tasks s" "task_table_ok s' = task_table_ok s"
    using l by (auto simp: same_links_def live_def all_tasks_def task_table_ok_def)
  then show ?thesis using l by (simp add: ptree_def children_def sg same_links_def)
qed

lemma signalled_same_links: "signalled s s' \<Longrightarrow> same_links s s'"
  by (simp add: signalled_def task_signalled_def same_links_def)

lemma live_all_tasks [simp]: "x \<in> live s \<Longrightarrow> x \<in> all_tasks s"
  by (simp add: all_tasks_def)

lemma not_bad_task_ptr: "p \<in> all_tasks s \<Longrightarrow> \<not> bad_task_ptr p s"
proof -
  assume "p \<in> all_tasks s"
  then have "\<exists>i < 64. task s ! i = p" by (force simp: all_tasks_def live_def)
  then show ?thesis unfolding bad_task_ptr_def list_ex_iff by force
qed

lemma ptree_member:
  assumes "ptree s ch" "x \<in> live s"
  obtains us vs where "ch (p_pptr (tsk s x)) = us @ x # vs" "children s (p_pptr (tsk s x)) (us @ x # vs)"
    "p_pptr (tsk s x) \<in> all_tasks s" "p_pptr (tsk s x) \<noteq> x" "set us \<union> set vs \<subseteq> live s" "x \<notin> set us \<union> set vs"
proof -
  have m: "x \<in> set (ch (p_pptr (tsk s x)))" "p_pptr (tsk s x) \<in> all_tasks s" "p_pptr (tsk s x) \<noteq> x"
    using assms by (auto simp: ptree_def)
  then obtain us vs where e: "ch (p_pptr (tsk s x)) = us @ x # vs" by (meson split_list)
  have c: "children s (p_pptr (tsk s x)) (us @ x # vs)" "set (us @ x # vs) \<subseteq> live s"
    using assms(1) m(2) e by (metis ptree_def)+
  from that [OF e c(1) m(2,3)] c(2) children_distinct [OF c(1)] show ?thesis by auto
qed

lemma audit_task_clean:
  assumes "ptree s ch" "x \<in> live s"
  shows "audit_task s x = []"
proof -
  obtain us vs where e: "ch (p_pptr (tsk s x)) = us @ x # vs" "children s (p_pptr (tsk s x)) (us @ x # vs)"
    "p_pptr (tsk s x) \<in> all_tasks s" "p_pptr (tsk s x) \<noteq> x" "set us \<union> set vs \<subseteq> live s" "x \<notin> set us \<union> set vs"
    by (rule ptree_member [OF assms])
  have c: "children s x (ch x)" "set (ch x) \<subseteq> live s" using assms by (auto simp: ptree_def)
  note f = children_split [OF e(2)]
  have ys: "p_ysptr (tsk s x) \<noteq> NULL \<Longrightarrow> us \<noteq> [] \<and> p_ysptr (tsk s x) = last us" using f(1) by (auto split: if_splits)
  have os: "p_osptr (tsk s x) \<noteq> NULL \<Longrightarrow> vs \<noteq> [] \<and> p_osptr (tsk s x) = hd vs" using f(2) by (auto split: if_splits)
  have young: "p_pptr (tsk s (last us)) = p_pptr (tsk s x) \<and> p_osptr (tsk s (last us)) = x \<and> last us \<in> live s \<and> last us \<noteq> x"
    if "us \<noteq> []"
  proof -
    have c: "children s (p_pptr (tsk s x)) (butlast us @ last us # x # vs)"
      using e(2) that by (metis append_assoc append_Cons append_Nil append_butlast_last_id)
    show ?thesis
      using children_split(2) [OF c] children_parent [OF c, of "last us"] e(5,6) that last_in_set [OF that] by auto
  qed
  have old: "p_pptr (tsk s (hd vs)) = p_pptr (tsk s x) \<and> p_ysptr (tsk s (hd vs)) = x \<and> hd vs \<in> live s \<and> hd vs \<noteq> x"
    if "vs \<noteq> []"
  proof -
    have c: "children s (p_pptr (tsk s x)) ((us @ [x]) @ hd vs # tl vs)" using e(2) that by simp
    show ?thesis
      using children_split(1) [OF c] children_parent [OF c, of "hd vs"] e(5,6) that hd_in_set [OF that] by auto
  qed
  have child: "p_cptr (tsk s x) = NULL \<or> p_cptr (tsk s x) \<in> live s \<and> p_pptr (tsk s (p_cptr (tsk s x))) = x \<and>
     p_ysptr (tsk s (p_cptr (tsk s x))) = NULL"
  proof (cases "ch x")
    case Nil
    then show ?thesis using c(1) by simp
  next
    case (Cons k ks)
    then show ?thesis
      using c children_split(1,4) [of s x "[]" k ks] children_parent [OF c(1), of k] by auto
  qed
  have np: "p_cptr (tsk s x) \<noteq> x" using child e(4) f(3) by auto
  have nb: "\<not> bad_task_ptr (p_ysptr (tsk s x)) s" "\<not> bad_task_ptr (p_osptr (tsk s x)) s"
    "\<not> bad_task_ptr (p_cptr (tsk s x)) s" "\<not> bad_task_ptr (p_pptr (tsk s x)) s"
    using ys os young old child e(3) not_bad_task_ptr live_all_tasks by (metis bad_task_ptr_def)+
  have x0: "x \<noteq> NULL" by (rule f(3))
  have "p_ysptr (tsk s x) = NULL \<or> p_ysptr (tsk s x) \<noteq> NULL \<and> p_pptr (tsk s (p_ysptr (tsk s x))) = p_pptr (tsk s x) \<and>
      p_osptr (tsk s (p_ysptr (tsk s x))) = x \<and> p_ysptr (tsk s x) \<noteq> x" using ys young by auto
  moreover have "p_osptr (tsk s x) = NULL \<or> p_osptr (tsk s x) \<noteq> NULL \<and> p_pptr (tsk s (p_osptr (tsk s x))) = p_pptr (tsk s x) \<and>
      p_ysptr (tsk s (p_osptr (tsk s x))) = x \<and> p_osptr (tsk s x) \<noteq> x" using os old by auto
  ultimately show ?thesis
    using child nb np e(4) x0 unfolding audit_task_def Let_def by (elim disjE) simp_all
qed

text \<open>A small family for the concrete instances: idle task, init, a shell (current) and its dead child.\<close>

definition family :: sched_state where
  "family =
    \<lparr>task = (replicate 64 NULL)[0 := 1, 1 := 2, 2 := 3, 3 := 4],
     tsk = (\<lambda>p. (init_task 1)\<lparr>pid := int p - 1, p_pptr := (if p \<in> {2, 3, 4} then p - 1 else 1),
                              p_cptr := (if p \<in> {1, 2, 3} then p + 1 else NULL),
                              state := (if p = 4 then TASK_ZOMBIE else TASK_RUNNING),
                              exit_code := (if p = 4 then 256 else 0)\<rparr>),
     current = 3, jiffies = 1000, startup_time = 0, jiffies_offset = 0, last_pid = 3,
     wait_queue = (\<lambda>_. NULL)\<rparr>"

definition family_ch :: "ptr \<Rightarrow> ptr list" where
  "family_ch p = (if p \<in> {1, 2, 3} then [p + 1] else [])"

lemma nth_family:
  "i < 64 \<Longrightarrow> task family ! i = (if i < 4 then i + 1 else 0)"
  by (simp add: family_def nth_list_update)

lemma family_live: "live family = {2, 3, 4}"
proof (rule set_eqI)
  fix p
  have "p \<in> live family \<longleftrightarrow> p \<noteq> NULL \<and> (\<exists>i \<in> {1..<64}. (if i < 4 then i + 1 else 0) = p)"
    unfolding live_def using nth_family by auto
  also have "\<dots> \<longleftrightarrow> p \<in> {2, 3, 4}"
    by (auto split: if_splits intro: bexI [where x = "p - 1"])
  finally show "p \<in> live family \<longleftrightarrow> p \<in> {2, 3, 4}" .
qed

lemma family_simps [simp]:
  "current family = 3" "last_pid family = 3" "task family ! 0 = 1" "task family ! Suc 0 = 2" "task family ! 4 = 0"
  "tsk family p = (init_task 1)\<lparr>pid := int p - 1, p_pptr := (if p \<in> {2, 3, 4} then p - 1 else 1),
                              p_cptr := (if p \<in> {1, 2, 3} then p + 1 else NULL),
                              state := (if p = 4 then TASK_ZOMBIE else TASK_RUNNING),
                              exit_code := (if p = 4 then 256 else 0)\<rparr>"
  by (simp_all add: family_def nth_list_update)

lemma family_table: "task_table_ok family"
  unfolding task_table_ok_def
proof (intro conjI allI impI)
  show "length (task family) = 64" "task family ! 0 \<noteq> NULL" by (simp_all add: family_def)
  fix i j :: nat
  assume "i < 64" "j < 64" "task family ! i = task family ! j \<and> task family ! i \<noteq> NULL"
  then show "i = j" by (auto simp: nth_family split: if_splits)
qed

lemma family_all: "all_tasks family = {1, 2, 3, 4}"
  by (auto simp: all_tasks_def family_live)

lemma family_ptree: "ptree family family_ch"
  unfolding ptree_def family_all family_live
  by (auto simp: family_table family_ch_def children_def init_task_def)

lemma audit_clean: "ptree s ch \<Longrightarrow> audit_ptree s = []"
  unfolding audit_ptree_def using audit_task_clean [of s ch] slot_live [of _ s] by auto

text \<open>
  When the links form a family tree, \<^verbatim>\<open>audit_ptree\<close> finds nothing to warn about.
\<close>

theorem ptree_audit_clean:
  assumes "ptree s ch"
  shows "audit_ptree s = []"
  by (rule audit_clean [OF assms])

theorem ptree_audit_clean_witness: "audit_ptree family = []"
  by (rule ptree_audit_clean [OF family_ptree])

text \<open>Removing a member: only its siblings and, for the youngest child, its parent see it.\<close>

lemma unlink_task_fields:
  "p_pptr (tsk (unlink_task p s) q) = p_pptr (tsk s q)"
  "p_ysptr (tsk (unlink_task p s) q) =
     (if p_osptr (tsk s p) \<noteq> NULL \<and> q = p_osptr (tsk s p) then p_ysptr (tsk s p) else p_ysptr (tsk s q))"
  "p_ysptr (tsk s p) \<noteq> NULL \<Longrightarrow> p_osptr (tsk s p) \<noteq> p \<Longrightarrow>
     p_osptr (tsk (unlink_task p s) q) = (if q = p_ysptr (tsk s p) then p_osptr (tsk s p) else p_osptr (tsk s q)) \<and>
     p_cptr (tsk (unlink_task p s) q) = p_cptr (tsk s q)"
  "p_ysptr (tsk s p) = NULL \<Longrightarrow> p_osptr (tsk s p) \<noteq> p \<Longrightarrow>
     p_osptr (tsk (unlink_task p s) q) = p_osptr (tsk s q) \<and>
     p_cptr (tsk (unlink_task p s) q) = (if q = p_pptr (tsk s p) then p_osptr (tsk s p) else p_cptr (tsk s q))"
  "task (unlink_task p s) = task s"
proof -
  show "task (unlink_task p s) = task s"
    by (simp add: unlink_task_def Let_def)
  show "p_pptr (tsk (unlink_task p s) q) = p_pptr (tsk s q)"
    by (simp add: unlink_task_def Let_def upd_task_def)
  show "p_ysptr (tsk (unlink_task p s) q) =
     (if p_osptr (tsk s p) \<noteq> NULL \<and> q = p_osptr (tsk s p) then p_ysptr (tsk s p) else p_ysptr (tsk s q))"
    by (cases "p_osptr (tsk s p) = NULL"; cases "p_ysptr (tsk s p) = NULL"; cases "p_osptr (tsk s p) = p")
      (simp_all add: unlink_task_def Let_def)
  show "p_osptr (tsk (unlink_task p s) q) = (if q = p_ysptr (tsk s p) then p_osptr (tsk s p) else p_osptr (tsk s q)) \<and>
     p_cptr (tsk (unlink_task p s) q) = p_cptr (tsk s q)"
    if "p_ysptr (tsk s p) \<noteq> NULL" "p_osptr (tsk s p) \<noteq> p"
    using that by (cases "p_osptr (tsk s p) = NULL") (simp_all add: unlink_task_def Let_def)
  show "p_osptr (tsk (unlink_task p s) q) = p_osptr (tsk s q) \<and>
     p_cptr (tsk (unlink_task p s) q) = (if q = p_pptr (tsk s p) then p_osptr (tsk s p) else p_cptr (tsk s q))"
    if "p_ysptr (tsk s p) = NULL" "p_osptr (tsk s p) \<noteq> p"
    using that by (cases "p_osptr (tsk s p) = NULL") (simp_all add: unlink_task_def Let_def)
qed

lemma children_unlink_same:
  assumes "children s par (us @ p # vs)" "par = p_pptr (tsk s p)"
  shows "children (unlink_task p s) par (us @ vs)"
proof -
  let ?u = "unlink_task p s"
  note f = children_split [OF assms(1)] and d = children_distinct [OF assms(1)]
  obtain y where y: "seg (tsk s) par NULL (p_cptr (tsk s par)) us (p_ysptr (tsk s p)) p"
    "seg (tsk s) par p (p_osptr (tsk s p)) vs y NULL" using assms(1) by (auto simp: children_def)
  have "p_osptr (tsk s p) \<noteq> p" using f(2,3) d by (cases vs) auto
  note g = unlink_task_fields(1,2,5) unlink_task_fields(3,4) [OF _ this]
  have tail: "\<exists>y'. seg (tsk ?u) par (p_ysptr (tsk s p)) (p_osptr (tsk s p)) vs y' NULL"
  proof (cases vs)
    case Nil
    then show ?thesis using f(2) by simp
  next
    case (Cons v ws)
    have "set us \<inter> set (v # ws) = {}" "NULL \<notin> set (v # ws)"
      using d Cons children_set_nonnull [OF assms(1)] by auto
    then have "p_ysptr (tsk s p) \<notin> set (v # ws)"
      using f(1) last_in_set [of us] by (metis disjoint_iff)
    then have os: "p_osptr (tsk ?u x) = p_osptr (tsk s x)" if "x \<in> set (v # ws)" for x
      using g(4,5) that by (cases "p_ysptr (tsk s p) = NULL") auto
    have "seg (tsk ?u) par v (p_osptr (tsk s v)) ws y NULL"
      using y(2) Cons f(2) d os by (subst seg_cong [where t' = "tsk s"]) (auto simp: g(1,2))
    then show ?thesis using y(2) Cons os [of v] f(2) by (auto simp: g(1,2))
  qed
  have head: "seg (tsk ?u) par NULL (p_cptr (tsk ?u par)) us (p_ysptr (tsk s p)) (p_osptr (tsk s p))"
  proof (cases us rule: rev_cases)
    case Nil
    then show ?thesis using f(1) g(5) assms(2) by simp
  next
    case (snoc as b)
    have b: "p_ysptr (tsk s p) = b" "b \<noteq> NULL" "b \<notin> set as"
      using f(1) snoc d children_set_nonnull [OF assms(1)] by auto
    have os: "p_osptr (tsk s p) \<notin> set us \<or> p_osptr (tsk s p) = NULL" using f(2) d by (cases vs) auto
    then have ys: "p_ysptr (tsk ?u x) = p_ysptr (tsk s x)" if "x \<in> set us" for x
      using that by (auto simp: g(2))
    have "seg (tsk ?u) par NULL (p_cptr (tsk s par)) as m r = seg (tsk s) par NULL (p_cptr (tsk s par)) as m r" for m r
      using ys b g(4) snoc by (intro seg_cong) (auto simp: g(1))
    then show ?thesis using y(1) snoc b g(4) ys [of b] by (auto simp: g(1))
  qed
  show ?thesis unfolding children_def seg_append using head tail by blast
qed

lemma children_unlink_other:
  assumes "children s par (us @ p # vs)" "par = p_pptr (tsk s p)" "children s par' xs" "par' \<noteq> par"
  shows "children (unlink_task p s) par' xs"
proof -
  note f = children_split [OF assms(1)] and d = children_distinct [OF assms(1)]
  have os: "p_osptr (tsk s p) \<noteq> p" using f(2,3) d by (cases vs) auto
  have nin: "x \<notin> set xs" if "x \<in> set (us @ p # vs)" for x
    using that assms children_parent by metis
  have "p_osptr (tsk s p) \<notin> set xs" "p_ysptr (tsk s p) \<notin> set xs"
    using f(1,2) nin children_set_nonnull [OF assms(3)] by (auto simp: hd_in_set last_in_set)
  then have "seg (tsk (unlink_task p s)) par' y q xs y' r = seg (tsk s) par' y q xs y' r" for y q y' r
    using os by (intro seg_cong) (cases "p_ysptr (tsk s p) = NULL", auto simp: unlink_task_fields)
  moreover have "p_cptr (tsk (unlink_task p s) par') = p_cptr (tsk s par')"
    using os assms(2,4) by (cases "p_ysptr (tsk s p) = NULL") (auto simp: unlink_task_fields)
  ultimately show ?thesis using assms(3) by (simp add: children_def)
qed

lemma find_slot:
  assumes "task_table_ok s" "p \<in> live s"
  obtains i where "find (\<lambda>i. task s ! i = p) [1..<64] = Some i" "i \<in> {1..<64}" "task s ! i = p"
proof -
  obtain j where "j \<in> set [1..<64]" "task s ! j = p" using assms(2) by (auto simp: live_def)
  from find_ex_Some [OF this(1), of "\<lambda>i. task s ! i = p"] this(2)
  obtain i where i: "find (\<lambda>i. task s ! i = p) [1..<64] = Some i" by blast
  have "i \<in> set [1..<64]" "task s ! i = p" using find_SomeD [OF i] by simp_all
  then show ?thesis using i by (intro that [of i]) auto
qed

lemma live_clear_slot:
  assumes "task_table_ok s" "i \<in> {1..<64}" "task s ! i \<noteq> NULL"
  shows "live (s\<lparr>task := (task s)[i := NULL]\<rparr>) = live s - {task s ! i}"
    "task_table_ok (s\<lparr>task := (task s)[i := NULL]\<rparr>)"
proof -
  have t: "(task s)[i := NULL] ! j = (if j = i then NULL else task s ! j)" if "j < 64" for j
    using assms that by (simp add: task_table_ok_def nth_list_update)
  show "live (s\<lparr>task := (task s)[i := NULL]\<rparr>) = live s - {task s ! i}" (is "?L = ?R")
  proof (rule set_eqI)
    fix p
    have "p \<in> ?L \<longleftrightarrow> p \<noteq> NULL \<and> (\<exists>j \<in> {1..<64}. j \<noteq> i \<and> task s ! j = p)"
      using t by (auto simp: live_def)
    also have "\<dots> \<longleftrightarrow> p \<in> ?R"
      using assms by (auto simp: live_def task_table_ok_def)
    finally show "p \<in> ?L \<longleftrightarrow> p \<in> ?R" .
  qed
  show "task_table_ok (s\<lparr>task := (task s)[i := NULL]\<rparr>)"
    using assms t unfolding task_table_ok_def by auto
qed

lemma idle_not_live: "task_table_ok s \<Longrightarrow> task s ! 0 \<notin> live s"
proof
  assume ok: "task_table_ok s" and "task s ! 0 \<in> live s"
  then obtain i where i: "i \<in> {1..<64}" "task s ! i = task s ! 0" by (auto simp: live_def)
  have "task s ! 0 \<noteq> NULL" "\<And>i j. i < 64 \<Longrightarrow> j < 64 \<Longrightarrow> task s ! i = task s ! j \<and> task s ! i \<noteq> NULL \<Longrightarrow> i = j"
    using ok unfolding task_table_ok_def by blast+
  from this(2) [of i 0] this(1) i show False by simp
qed

lemma release_tree:
  assumes "ptree s ch" "p \<in> live s" "p \<noteq> current s" "ch p = []"
  shows "\<exists>s'. release p s = Some (s', [p]) \<and> live s' = live s - {p} \<and> ptree s' (\<lambda>q. remove1 p (ch q))"
proof -
  have ok: "task_table_ok s" using assms(1) by (simp add: ptree_def)
  obtain i where i: "find (\<lambda>i. task s ! i = p) [1..<64] = Some i" "i \<in> {1..<64}" "task s ! i = p"
    by (rule find_slot [OF ok assms(2)])
  obtain us vs where e: "ch (p_pptr (tsk s p)) = us @ p # vs" "children s (p_pptr (tsk s p)) (us @ p # vs)"
    "p_pptr (tsk s p) \<in> all_tasks s" "p_pptr (tsk s p) \<noteq> p" "set us \<union> set vs \<subseteq> live s" "p \<notin> set us \<union> set vs"
    by (rule ptree_member [OF assms(1,2)])
  define u where "u = s\<lparr>task := (task s)[i := NULL]\<rparr>"
  let ?s = "unlink_task p u"
  have p0: "p \<noteq> NULL" using assms(2) by (simp add: live_def)
  have u: "tsk u = tsk s" "live u = live s - {p}" "task_table_ok u" "task u ! 0 = task s ! 0"
    using live_clear_slot [OF ok i(2)] i p0 by (simp_all add: u_def)
  have cu: "children u par xs = children s par xs" for par xs by (simp add: children_def u(1))
  have s': "live ?s = live s - {p}" "all_tasks ?s = all_tasks s - {p}" "task_table_ok ?s"
  proof -
    have "live ?s = live u" by (simp add: live_def unlink_task_fields)
    then show "live ?s = live s - {p}" by (simp add: u(2))
    moreover have "task s ! 0 \<noteq> p" using idle_not_live [OF ok] assms(2) by auto
    ultimately show "all_tasks ?s = all_tasks s - {p}" by (auto simp: all_tasks_def unlink_task_fields u(4))
    show "task_table_ok ?s" using u(3) by (simp add: task_table_ok_def unlink_task_fields)
  qed
  have rm: "remove1 p (ch q) = (if q = p_pptr (tsk s p) then us @ vs else ch q)" if "q \<in> all_tasks s" for q
  proof (cases "q = p_pptr (tsk s p)")
    case True
    then show ?thesis using e(1,6) by (simp add: remove1_append)
  next
    case False
    then have "p \<notin> set (ch q)" using assms(1) that children_parent by (metis ptree_def)
    then show ?thesis using False by (simp add: remove1_idem)
  qed
  have kids: "children ?s q (remove1 p (ch q))" "set (remove1 p (ch q)) \<subseteq> live ?s" if "q \<in> all_tasks s" "q \<noteq> p" for q
  proof -
    have q: "children s q (ch q)" "set (ch q) \<subseteq> live s" using assms(1) that by (auto simp: ptree_def)
    show "children ?s q (remove1 p (ch q))"
      using children_unlink_same [of u _ us p vs] children_unlink_other [of u _ us p vs q "ch q"] e(2) q(1)
      by (simp add: rm that cu u(1))
    have "p \<notin> set (remove1 p (ch q))" using children_distinct [OF q(1)] by simp
    then show "set (remove1 p (ch q)) \<subseteq> live ?s" using q(2) set_remove1_subset [of p "ch q"] s'(1) by auto
  qed
  have "p_pptr (tsk ?s x) \<in> all_tasks ?s \<and> p_pptr (tsk ?s x) \<noteq> x \<and> x \<in> set (remove1 p (ch (p_pptr (tsk ?s x))))"
    if "x \<in> live ?s" for x
  proof -
    have "p_pptr (tsk s x) \<in> all_tasks s" "p_pptr (tsk s x) \<noteq> x" "x \<in> set (ch (p_pptr (tsk s x)))" "x \<noteq> p"
      using assms(1) that s'(1) by (auto simp: ptree_def)
    moreover from this have "p_pptr (tsk s x) \<noteq> p" using assms(4) by auto
    ultimately show ?thesis using s'(2) by (simp add: unlink_task_fields u(1) in_set_remove1)
  qed
  with kids s' have "ptree ?s (\<lambda>q. remove1 p (ch q))" by (simp add: ptree_def)
  moreover have "release p s = Some (?s, [p])" using i(1) p0 assms(3) by (simp add: release_def u_def)
  ultimately show ?thesis using s'(1) by blast
qed

text \<open>
  C36. \<^verbatim>\<open>release\<close> of a process without children takes it out of the table and out of its
  parent's list of children, frees its page, and leaves a correct family tree.
\<close>

theorem release_keeps_tree:
  assumes "ptree s ch" "p \<in> live s" "p \<noteq> current s" "ch p = []"
  shows "\<exists>s'. release p s = Some (s', [p]) \<and> live s' = live s - {p} \<and> ptree s' (\<lambda>q. remove1 p (ch q))"
  by (rule release_tree [OF assms])

theorem release_keeps_tree_witness:
  "\<exists>s'. release 4 family = Some (s', [4]) \<and> live s' = {2, 3} \<and> ptree s' (\<lambda>q. remove1 4 (family_ch q))"
proof -
  have "\<exists>s'. release 4 family = Some (s', [4]) \<and> live s' = live family - {4} \<and> ptree s' (\<lambda>q. remove1 4 (family_ch q))"
    by (rule release_keeps_tree [OF family_ptree]) (simp_all add: family_live family_ch_def)
  moreover have "live family - {4} = {2, 3}" by (auto simp: family_live)
  ultimately show ?thesis by simp
qed

section \<open>Fork\<close>

text \<open>Choosing a process number ends: 64 tasks use at most 128 numbers.\<close>

definition used_ids :: "sched_state \<Rightarrow> int set" where
  "used_ids s = (\<lambda>i. pid (tsk s (task s ! i))) ` {0..<64} \<union> (\<lambda>i. pgrp (tsk s (task s ! i))) ` {0..<64}"

lemma pid_in_use_ids: "pid_in_use n s \<Longrightarrow> n \<in> used_ids s"
  by (auto simp: pid_in_use_def list_ex_iff used_ids_def)

lemma finite_used_ids: "finite (used_ids s)"
  by (simp add: used_ids_def)

lemma card_used_ids: "card (used_ids s) \<le> 128"
proof -
  have "card (f ` {0..<64::nat}) \<le> 64" for f :: "nat \<Rightarrow> int"
    using card_image_le [of "{0..<64::nat}" f] by simp
  from this [of "\<lambda>i. pid (tsk s (task s ! i))"] this [of "\<lambda>i. pgrp (tsk s (task s ! i))"]
  show ?thesis
    unfolding used_ids_def
    by (rule order_trans [OF card_Un_le order_trans [OF add_mono]]) simp
qed

lemma next_pid_range: "0 \<le> n \<Longrightarrow> n < 2 ^ 31 \<Longrightarrow> next_pid n = (if n = 2 ^ 31 - 1 then 1 else n + 1)"
proof (cases "n = 2 ^ 31 - 1")
  case True
  have "s32 (2 ^ 31) = - (2 ^ 31)" by (simp add: s32_def)
  with True show ?thesis by (simp add: next_pid_def)
qed (simp add: next_pid_def in_s32_def)

lemma next_pid_iterate:
  assumes "0 \<le> n" "n < 2 ^ 31" "k \<le> 200"
  shows "(next_pid ^^ k) n = (if n + int k < 2 ^ 31 then n + int k else n + int k - (2 ^ 31 - 1))"
  using assms(3)
proof (induction k)
  case 0
  then show ?case using assms by simp
next
  case (Suc k)
  define m where "m = (if n + int k < 2 ^ 31 then n + int k else n + int k - (2 ^ 31 - 1))"
  have "0 \<le> m" "m < 2 ^ 31" using assms Suc.prems by (auto simp: m_def)
  moreover have "(next_pid ^^ k) n = m" using Suc by (simp add: m_def)
  ultimately have "(next_pid ^^ Suc k) n = (if m = 2 ^ 31 - 1 then 1 else m + 1)"
    by (simp add: next_pid_range)
  then show ?case using assms Suc.prems by (auto simp: m_def split: if_splits)
qed

lemma find_pid_None:
  "find_pid fuel s = None \<Longrightarrow> k < fuel \<Longrightarrow> pid_in_use ((next_pid ^^ Suc k) (last_pid s)) s"
proof (induction fuel arbitrary: s k)
  case 0
  then show ?case by simp
next
  case (Suc fuel)
  let ?s = "s\<lparr>last_pid := next_pid (last_pid s)\<rparr>"
  have u: "pid_in_use n ?s = pid_in_use n s" for n by (simp add: pid_in_use_def)
  have n: "pid_in_use (next_pid (last_pid s)) s" "find_pid fuel ?s = None"
    using Suc.prems(1) u by (auto simp: Let_def split: if_splits)
  show ?case
  proof (cases k)
    case 0
    then show ?thesis using n(1) by simp
  next
    case (Suc j)
    then show ?thesis using Suc.IH [OF n(2), of j] Suc.prems(2) u by (simp add: funpow_swap1)
  qed
qed

lemma find_pid_total:
  assumes "0 \<le> last_pid s" "last_pid s < 2 ^ 31"
  shows "\<exists>s'. find_pid 129 s = Some s'"
proof (rule ccontr)
  assume "\<nexists>s'. find_pid 129 s = Some s'"
  then have N: "find_pid 129 s = None" by simp
  let ?f = "\<lambda>k. (next_pid ^^ Suc k) (last_pid s)"
  have "?f ` {0..<129} \<subseteq> used_ids s" using find_pid_None [OF N] pid_in_use_ids by fastforce
  moreover have "inj_on ?f {0..<129}"
    using assms next_pid_iterate [OF assms] by (intro inj_onI) (auto split: if_splits simp del: funpow.simps)
  ultimately have "129 \<le> card (used_ids s)"
    using card_mono [OF finite_used_ids, of "?f ` {0..<129}" s] by (simp add: card_image)
  then show False using card_used_ids [of s] by simp
qed

lemma find_pid_Some:
  "find_pid fuel s = Some s' \<Longrightarrow> s' = s\<lparr>last_pid := last_pid s'\<rparr> \<and> \<not> pid_in_use (last_pid s') s"
proof (induction fuel arbitrary: s)
  case 0
  then show ?case by simp
next
  case (Suc fuel)
  let ?s = "s\<lparr>last_pid := next_pid (last_pid s)\<rparr>"
  have u: "pid_in_use n ?s = pid_in_use n s" for n by (simp add: pid_in_use_def)
  show ?case
  proof (cases "pid_in_use (next_pid (last_pid s)) s")
    case True
    then have "find_pid fuel ?s = Some s'" using Suc.prems u by (simp add: Let_def)
    from Suc.IH [OF this] u show ?thesis by simp
  next
    case False
    then have "s' = ?s" using Suc.prems u by (simp add: Let_def)
    then show ?thesis using False by simp
  qed
qed

lemma pid_fresh: "\<not> pid_in_use n s \<Longrightarrow> q \<in> all_tasks s \<Longrightarrow> q \<noteq> NULL \<Longrightarrow> pid (tsk s q) \<noteq> n \<and> pgrp (tsk s q) \<noteq> n"
  by (force simp: pid_in_use_def list_ex_iff all_tasks_def live_def)

lemma fork_fields:
  assumes "p \<noteq> current s" "p_cptr (cur s) \<noteq> p" 
  shows "tsk (fork_link p s) q =
    (if q = p then (tsk s p)\<lparr>p_pptr := current s, p_cptr := NULL, p_ysptr := NULL, p_osptr := p_cptr (cur s),
                            state := TASK_RUNNING\<rparr>
     else let t = (if q = p_cptr (cur s) \<and> q \<noteq> NULL then (tsk s q)\<lparr>p_ysptr := p\<rparr> else tsk s q)
          in if q = current s then t\<lparr>p_cptr := p\<rparr> else t)"
    "task (fork_link p s) = task s" "current (fork_link p s) = current s"
  using assms by (cases "p_cptr (cur s) = NULL"; auto simp: fork_link_def Let_def cur_def)+

lemma live_fill_slot:
  assumes "task_table_ok s" "i \<in> {1..<64}" "task s ! i = NULL" "p \<noteq> NULL" "p \<notin> all_tasks s"
  shows "live (s\<lparr>task := (task s)[i := p]\<rparr>) = insert p (live s)"
    "task_table_ok (s\<lparr>task := (task s)[i := p]\<rparr>)"
proof -
  have t: "(task s)[i := p] ! j = (if j = i then p else task s ! j)" if "j < 64" for j
    using assms that by (simp add: task_table_ok_def nth_list_update)
  have new: "task s ! j \<noteq> p" if "j < 64" for j
    using assms(4,5) that slot_live [of j s] by (cases "j = 0") (auto simp: all_tasks_def)
  show "live (s\<lparr>task := (task s)[i := p]\<rparr>) = insert p (live s)"
  proof (rule set_eqI)
    fix q
    have "q \<in> live (s\<lparr>task := (task s)[i := p]\<rparr>) \<longleftrightarrow> q \<noteq> NULL \<and> (\<exists>j \<in> {1..<64}. (if j = i then p else task s ! j) = q)"
      using t by (auto simp: live_def)
    also have "\<dots> \<longleftrightarrow> q \<in> insert p (live s)"
      using assms(2-4) by (auto simp: live_def split: if_splits) (metis atLeastLessThan_iff neq0_conv One_nat_def)
    finally show "q \<in> live (s\<lparr>task := (task s)[i := p]\<rparr>) \<longleftrightarrow> q \<in> insert p (live s)" .
  qed
  show "task_table_ok (s\<lparr>task := (task s)[i := p]\<rparr>)"
    unfolding task_table_ok_def
  proof (intro conjI allI impI)
    show "length (task (s\<lparr>task := (task s)[i := p]\<rparr>)) = 64" "task (s\<lparr>task := (task s)[i := p]\<rparr>) ! 0 \<noteq> NULL"
      using assms(1,2) by (simp_all add: task_table_ok_def)
    fix j k :: nat
    assume "j < 64" "k < 64" "task (s\<lparr>task := (task s)[i := p]\<rparr>) ! j = task (s\<lparr>task := (task s)[i := p]\<rparr>) ! k \<and>
      task (s\<lparr>task := (task s)[i := p]\<rparr>) ! j \<noteq> NULL"
    moreover have "task s ! j = task s ! k \<Longrightarrow> task s ! j \<noteq> NULL \<Longrightarrow> j < 64 \<Longrightarrow> k < 64 \<Longrightarrow> j = k"
      using assms(1) unfolding task_table_ok_def by blast
    ultimately show "j = k" using new [of j] new [of k] by (auto simp: t split: if_splits)
  qed
qed

lemma children_fork:
  assumes "children s par xs" "p \<notin> set xs" "p \<noteq> par" "p \<noteq> NULL" "current s \<noteq> p" "p_cptr (cur s) \<noteq> p"
    and "\<And>x. x \<in> set xs \<Longrightarrow> x = p_cptr (cur s) \<Longrightarrow> par = current s"
  shows "children (fork_link p s) par (if par = current s then p # xs else xs)"
proof -
  note f = fork_fields(1) [OF assms(5) [symmetric] assms(6)]
  obtain y where y: "seg (tsk s) par NULL (p_cptr (tsk s par)) xs y NULL" using assms(1) by (auto simp: children_def)
  show ?thesis
  proof (cases "par = current s")
    case False
    then have "seg (tsk (fork_link p s)) par NULL (p_cptr (tsk s par)) xs y NULL"
      using y assms(2,7) by (subst seg_cong [where t' = "tsk s"]) (auto simp: f Let_def)
    then show ?thesis using False assms(3) by (auto simp: children_def f Let_def)
  next
    case True
    have "\<exists>y'. seg (tsk (fork_link p s)) par p (p_cptr (tsk s par)) xs y' NULL"
    proof (cases xs)
      case Nil
      then show ?thesis using y by simp
    next
      case (Cons v vs)
      have d: "distinct (v # vs)" using children_distinct [OF assms(1)] Cons by simp
      have v: "v = p_cptr (cur s)" using y Cons True by (simp add: cur_def)
      have "seg (tsk (fork_link p s)) par v (p_osptr (tsk s v)) vs y NULL"
        using y Cons d v assms(2) by (subst seg_cong [where t' = "tsk s"]) (auto simp: f Let_def)
      then show ?thesis using y Cons v True assms(2,6) by (auto simp: f Let_def)
    qed
    then show ?thesis using True assms(3,4) by (auto simp: children_def f Let_def cur_def)
  qed
qed

lemma ptree_fork:
  assumes "ptree s ch" "current s \<in> all_tasks s" "p \<noteq> NULL" "p \<notin> all_tasks s" "nr \<in> {1..<64}" "task s ! nr = NULL"
  defines "s' \<equiv> fork_link p (fork_copy nr p s)"
  shows "ptree s' (ch(current s := p # ch (current s), p := []))" "live s' = insert p (live s)"
    "pid (tsk s' p) = last_pid s" "state (tsk s' p) = TASK_RUNNING"
    "q \<in> all_tasks s \<Longrightarrow> pid (tsk s' q) = pid (tsk s q) \<and> pgrp (tsk s' q) = pgrp (tsk s q)"
proof -
  define u where "u = fork_copy nr p s"
  have u: "current u = current s" "\<And>q. q \<noteq> p \<Longrightarrow> tsk u q = tsk s q" "pid (tsk u p) = last_pid s"
      "task u = (task s)[nr := p]"
    by (simp_all add: u_def fork_copy_def fork_task_def Let_def)
  have ok: "task_table_ok s" using assms(1) by (simp add: ptree_def)
  have cp: "current u \<noteq> p" using assms(2,4) u by (metis)
  have cc: "children s (current s) (ch (current s))" "set (ch (current s)) \<subseteq> live s"
    using assms(1,2) by (auto simp: ptree_def)
  have ccp: "p_cptr (cur u) = p_cptr (cur s)" using u cp by (simp add: cur_def)
  have kid: "p_cptr (cur s) = NULL \<or> p_cptr (cur s) \<in> set (ch (current s))"
    using cc(1) by (cases "ch (current s)") (auto simp: cur_def children_def)
  have cn: "p_cptr (cur u) \<noteq> p" using kid cc(2) assms(3,4) ccp by (auto simp: all_tasks_def)
  note f = fork_fields [OF cp [symmetric] cn]
  have s': "s' = fork_link p u" by (simp add: s'_def u_def)
  have tl: "live (s\<lparr>task := (task s)[nr := p]\<rparr>) = insert p (live s)"
    "task_table_ok (s\<lparr>task := (task s)[nr := p]\<rparr>)"
    using live_fill_slot [OF ok assms(5,6,3,4)] by simp_all
  have t': "task s' = (task s)[nr := p]" using u(4) by (simp add: s' f)
  show lv: "live s' = insert p (live s)" using tl(1) by (simp add: live_def t')
  have al: "all_tasks s' = insert p (all_tasks s)" using lv assms(5) by (auto simp: all_tasks_def t')
  have tab: "task_table_ok s'" using tl(2) by (simp add: task_table_ok_def t')
  show "pid (tsk s' p) = last_pid s" "state (tsk s' p) = TASK_RUNNING"
    by (simp_all add: s' f) (simp add: u_def fork_copy_def fork_task_def Let_def)
  show "pid (tsk s' q) = pid (tsk s q) \<and> pgrp (tsk s' q) = pgrp (tsk s q)" if "q \<in> all_tasks s"
  proof -
    have "q \<noteq> p" using that assms(4) by auto
    then show ?thesis by (simp add: s' f Let_def u)
  qed
  have par: "p_pptr (tsk s' x) = (if x = p then current s else p_pptr (tsk s x))" for x
    by (simp add: s' f Let_def u)
  have kids: "children s' q (if q = current s then p # ch q else ch q)" if "q \<in> all_tasks s" for q
  proof -
    have q: "children s q (ch q)" "set (ch q) \<subseteq> live s" "q \<noteq> p" using assms(1,4) that by (auto simp: ptree_def)
    have pn: "p \<notin> set (ch q)" using q(2) assms(4) by (auto simp: all_tasks_def)
    have "seg (tsk u) par y x (ch q) y' z = seg (tsk s) par y x (ch q) y' z" for par y x y' z
      using pn u(2) by (intro seg_cong) metis
    then have "children u q (ch q)" using q u(2) by (simp add: children_def)
    moreover have "q = current s" if "x \<in> set (ch q)" "x = p_cptr (cur u)" for x
      using that kid ccp children_parent [OF q(1), of x] children_parent [OF cc(1), of x] children_set_nonnull [OF q(1)] by auto
    ultimately show ?thesis
      using children_fork [of u q "ch q" p] pn q(3) assms(3) cp cn u(1) unfolding s' by simp
  qed
  have new: "children s' p []" by (simp add: s' f)
  let ?ch = "ch(current s := p # ch (current s), p := [])"
  have pc: "p \<noteq> current s" using cp u(1) by simp
  have down: "children s' q (?ch q) \<and> set (?ch q) \<subseteq> live s'" if "q \<in> all_tasks s'" for q
  proof (cases "q = p")
    case False
    then have q: "q \<in> all_tasks s" using that al by simp
    then have "set (ch q) \<subseteq> live s" using assms(1) by (simp add: ptree_def)
    then show ?thesis using kids [OF q] False lv by (auto split: if_splits)
  qed (use new in simp)
  have up: "p_pptr (tsk s' x) \<in> all_tasks s' \<and> p_pptr (tsk s' x) \<noteq> x \<and> x \<in> set (?ch (p_pptr (tsk s' x)))"
    if "x \<in> live s'" for x
  proof (cases "x = p")
    case True
    then show ?thesis using pc assms(2) by (simp add: par al)
  next
    case False
    then have x: "x \<in> live s" using that lv by simp
    then have "p_pptr (tsk s x) \<in> all_tasks s" "p_pptr (tsk s x) \<noteq> x" "x \<in> set (ch (p_pptr (tsk s x)))"
      using assms(1) by (simp_all add: ptree_def)
    then show ?thesis using False assms(4) by (auto simp: par al)
  qed
  show "ptree s' ?ch" unfolding ptree_def using tab down up by blast
qed

text \<open>
  C8. \<^verbatim>\<open>sys_fork\<close> with a page for the task structure, room for the address space and a free
  slot always succeeds, within 129 candidate numbers: the child becomes the youngest child of
  the caller in a correct family tree, runnable, with a process number that no task uses
  as its number or as its process group.
\<close>

theorem sys_fork_family:
  assumes "ptree s ch" "current s \<in> all_tasks s" "p \<noteq> NULL" "p \<notin> all_tasks s"
    and "0 \<le> last_pid s" "last_pid s < 2 ^ 31" "i \<in> {1..<64}" "task s ! i = NULL"
  shows "\<exists>n s' r'. sys_fork 129 p True s r = Some (n, s', r', []) \<and>
    ptree s' (ch(current s := p # ch (current s), p := [])) \<and> live s' = insert p (live s) \<and>
    pid (tsk s' p) = n \<and> state (tsk s' p) = TASK_RUNNING \<and>
    (\<forall>q \<in> all_tasks s. pid (tsk s' q) \<noteq> n \<and> pgrp (tsk s' q) \<noteq> n)"
proof -
  obtain u where fp: "find_pid 129 s = Some u" using find_pid_total [OF assms(5,6)] by blast
  have u: "u = s\<lparr>last_pid := last_pid u\<rparr>" "\<not> pid_in_use (last_pid u) s" using find_pid_Some [OF fp] by blast+
  then have us: "task u = task s" "tsk u = tsk s" "current u = current s"
    by (metis sched_state.select_convs sched_state.update_convs(7) sched_state.surjective)+
  obtain nr where nr: "find (\<lambda>i. task u ! i = NULL) [1..<64] = Some nr" "nr \<in> {1..<64}" "task u ! nr = NULL"
    using find_ex_Some [of i "[1..<64]" "\<lambda>i. task u ! i = NULL"] find_SomeD [of "\<lambda>i. task u ! i = NULL" "[1..<64]"]
      assms(7,8) us by fastforce
  have pt: "ptree u ch" using assms(1) ptree_same_links [of s u ch] us by (simp add: same_links_def)
  have al: "all_tasks u = all_tasks s" "live u = live s" using us by (simp_all add: all_tasks_def live_def)
  note g = ptree_fork [OF pt _ assms(3) _ nr(2,3), unfolded al us(3), OF assms(2,4)]
  define s' where "s' = fork_link p (fork_copy nr p u)"
  have nn: "q \<noteq> NULL" if "q \<in> all_tasks s" for q
    using that assms(1) by (auto simp: all_tasks_def live_def ptree_def task_table_ok_def)
  have "sys_fork 129 p True s r = Some (pid (tsk s' p), s', fork_refs p (fork_copy nr p u) r, [])"
    using assms(3) by (simp add: sys_fork_def find_empty_process_def fp nr(1) [simplified] s'_def Let_def)
  moreover have "pid (tsk s' q) \<noteq> last_pid u \<and> pgrp (tsk s' q) \<noteq> last_pid u" if "q \<in> all_tasks s" for q
    using g(5) [OF that] pid_fresh [OF u(2) that nn [OF that]] us by (simp add: s'_def)
  ultimately show ?thesis using g(1-4) unfolding s'_def [symmetric] by auto
qed

theorem sys_fork_family_witness:
  "\<exists>n s' r'. sys_fork 129 5 True family \<lparr>f_count = \<lambda>_. 1, i_count = \<lambda>_. 1\<rparr> = Some (n, s', r', []) \<and>
     live s' = {2, 3, 4, 5} \<and> state (tsk s' 5) = TASK_RUNNING"
proof -
  have "live family \<union> {5} = {2, 3, 4, 5}" by (auto simp: family_live)
  then show ?thesis
    using sys_fork_family [OF family_ptree, of 5 4 "\<lparr>f_count = \<lambda>_. 1, i_count = \<lambda>_. 1\<rparr>"]
    by (auto simp: family_all)
qed

section \<open>Exit\<close>

text \<open>
  While \<^verbatim>\<open>do_exit\<close> hands the children of \<open>c\<close> to \<^verbatim>\<open>task[1]\<close>, the first remaining child still has
  its link to the sibling that has just left: the tree is correct except for that link.
\<close>

definition ptree_leaving :: "ptr \<Rightarrow> sched_state \<Rightarrow> (ptr \<Rightarrow> ptr list) \<Rightarrow> bool" where
  "ptree_leaving c s ch \<longleftrightarrow> task_table_ok s \<and>
    (\<forall>par \<in> all_tasks s. set (ch par) \<subseteq> live s \<and>
       (if par = c then \<exists>y0 y. seg (tsk s) par y0 (p_cptr (tsk s par)) (ch par) y NULL
        else children s par (ch par))) \<and>
    (\<forall>x \<in> live s. p_pptr (tsk s x) \<in> all_tasks s \<and> p_pptr (tsk s x) \<noteq> x \<and> x \<in> set (ch (p_pptr (tsk s x))))"

lemma ptree_leaving_start: "ptree s ch \<Longrightarrow> ptree_leaving c s ch"
  unfolding ptree_def ptree_leaving_def children_def by metis

lemma ptree_leavingD:
  assumes "ptree_leaving c s ch" "par \<in> all_tasks s"
  shows "set (ch par) \<subseteq> live s" "\<exists>y0 y. seg (tsk s) par y0 (p_cptr (tsk s par)) (ch par) y NULL"
    "par \<noteq> c \<Longrightarrow> children s par (ch par)"
  using assms unfolding ptree_leaving_def children_def by metis+

lemma ptree_leaving_end: "ptree_leaving c s ch \<Longrightarrow> ch c = [] \<Longrightarrow> ptree s ch"
  unfolding ptree_def ptree_leaving_def by (metis children_null seg.simps(1))

lemma ptree_leaving_same_links: "same_links s s' \<Longrightarrow> ptree_leaving c s' ch = ptree_leaving c s ch"
proof -
  assume l: "same_links s s'"
  have sg: "seg (tsk s') par y p xs y' q = seg (tsk s) par y p xs y' q" for par y p xs y' q
    using l by (intro seg_cong) (simp add: same_links_def)
  have "live s' = live s" "all_tasks s' = all_tasks s" "task_table_ok s' = task_table_ok s"
    using l by (auto simp: same_links_def live_def all_tasks_def task_table_ok_def)
  then show ?thesis using l by (simp add: ptree_leaving_def children_def sg same_links_def)
qed

lemma ptree_leaving_parent:
  assumes "ptree_leaving c s ch" "par \<in> all_tasks s" "x \<in> set (ch par)"
  shows "p_pptr (tsk s x) = par \<and> x \<in> live s \<and> x \<noteq> NULL \<and> x \<noteq> par"
proof -
  obtain y0 y where "seg (tsk s) par y0 (p_cptr (tsk s par)) (ch par) y NULL"
    using ptree_leavingD(2) [OF assms(1,2)] by blast
  then have "p_pptr (tsk s x) = par" "x \<noteq> NULL"
    using assms(3) seg_parent path_nonnull [OF seg_path] by metis+
  moreover have "x \<in> live s" using ptree_leavingD(1) [OF assms(1,2)] assms(3) by blast
  ultimately show ?thesis using assms(1) by (auto simp: ptree_leaving_def)
qed

lemma adopt_fields:
  assumes "c = current s" "ini = task s ! 1" "p \<noteq> c" "ini \<noteq> c" "ini \<noteq> p" "p_cptr (tsk s ini) \<noteq> p"
  shows "p_cptr (tsk (adopt_child p s) q) = (if q = ini then p else if q = c then p_osptr (tsk s p) else p_cptr (tsk s q))"
    "p_ysptr (tsk (adopt_child p s) q) = (if q = p_cptr (tsk s ini) then p else if q = p then NULL else p_ysptr (tsk s q))"
    "p_pptr (tsk (adopt_child p s) q) = (if q = p then ini else p_pptr (tsk s q))"
    "p_osptr (tsk (adopt_child p s) q) = (if q = p then p_cptr (tsk s ini) else p_osptr (tsk s q))"
    "task (adopt_child p s) = task s" "current (adopt_child p s) = current s"
    "state (tsk (adopt_child p s) q) = state (tsk s q)"
  using assms by (simp_all add: adopt_child_def Let_def)

lemma adopt_child_tree:
  assumes "ptree_leaving c s ch" "c = current s" "c \<in> live s" "ini = task s ! 1" "ini \<in> live s"
    and "ini \<noteq> c" "p_pptr (tsk s ini) = task s ! 0" "ch c = p # xs" "ch ini \<noteq> []"
  shows "ptree_leaving c (adopt_child p s) (ch(c := xs, ini := p # ch ini))"
proof -
  let ?s = "adopt_child p s" let ?ch = "ch(c := xs, ini := p # ch ini)"
  have ok: "task_table_ok s" using assms(1) by (simp add: ptree_leaving_def)
  note par = ptree_leaving_parent [OF assms(1)]
  have p: "p_pptr (tsk s p) = c" "p \<in> live s" "p \<noteq> NULL" "p \<noteq> c" using par [of c p] assms(3,8) by auto
  have ip: "ini \<noteq> p" using assms(3,7) p(1) idle_not_live [OF ok] by auto
  obtain k ks where k: "ch ini = k # ks" using assms(9) by (cases "ch ini") auto
  have ci: "children s ini (k # ks)" using ptree_leavingD(3) [OF assms(1), of ini] assms(5,6) k by simp
  have kf: "p_cptr (tsk s ini) = k" "p_pptr (tsk s k) = ini" "k \<noteq> p"
    using ci par [of ini k] assms(5,6) k p(1) by (auto simp: children_def)
  note f = adopt_fields [OF assms(2,4) p(4) assms(6) ip, unfolded kf(1), OF kf(3)]
  have same: "live ?s = live s" "all_tasks ?s = all_tasks s" "task_table_ok ?s = task_table_ok s"
    by (simp_all add: live_def all_tasks_def task_table_ok_def f(5))
  have cs: "\<exists>y. seg (tsk ?s) c p (p_cptr (tsk ?s c)) xs y NULL"
  proof -
    obtain y0 y where y: "seg (tsk s) c y0 (p_cptr (tsk s c)) (p # xs) y NULL"
      using ptree_leavingD(2) [OF assms(1), of c] assms(3,8) by auto
    have "distinct (p # xs)" using seg_path [OF y] chain_distinct unfolding chain_def by blast
    moreover have "k \<notin> set xs" using par [of c k] kf(2) assms(3,6,8) by auto
    ultimately have "seg (tsk ?s) c p (p_osptr (tsk s p)) xs y NULL"
      using y by (subst seg_cong [where t' = "tsk s"]) (auto simp: f)
    then show ?thesis using assms(6) by (auto simp: f)
  qed
  have inis: "children ?s ini (p # k # ks)"
  proof -
    obtain y where y: "seg (tsk s) ini k (p_osptr (tsk s k)) ks y NULL" "k \<noteq> NULL" using ci by (auto simp: children_def)
    have "k \<notin> set ks" using children_distinct [OF ci] by simp
    moreover have "p \<notin> set ks" using par [of ini p] p(1) assms(5,6) k by auto
    ultimately have "seg (tsk ?s) ini k (p_osptr (tsk s k)) ks y NULL"
      using y(1) by (subst seg_cong [where t' = "tsk s"]) (auto simp: f)
    then show ?thesis using y(2) kf p(3) by (auto simp: children_def f)
  qed
  have os: "children ?s q (ch q)" if "q \<in> all_tasks s" "q \<noteq> c" "q \<noteq> ini" for q
  proof -
    have "p \<notin> set (ch q)" "k \<notin> set (ch q)" using par [of q p] par [of q k] that p(1) kf(2) by auto
    then have "seg (tsk ?s) q y x (ch q) y' z = seg (tsk s) q y x (ch q) y' z" for y x y' z
      by (intro seg_cong) (auto simp: f)
    then show ?thesis using ptree_leavingD(3) [OF assms(1) that(1,2)] that by (simp add: children_def f)
  qed
  have sub: "set (ch q) \<subseteq> live s" if "q \<in> all_tasks s" for q using assms(1) that by (simp add: ptree_leaving_def)
  have up: "p_pptr (tsk ?s x) \<in> all_tasks ?s \<and> p_pptr (tsk ?s x) \<noteq> x \<and> x \<in> set (?ch (p_pptr (tsk ?s x)))"
    if "x \<in> live s" for x
  proof (cases "x = p")
    case True
    then show ?thesis using assms(5) ip by (simp add: f same)
  next
    case False
    have "p_pptr (tsk s x) \<in> all_tasks s" "p_pptr (tsk s x) \<noteq> x" "x \<in> set (ch (p_pptr (tsk s x)))"
      using assms(1) that by (simp_all add: ptree_leaving_def)
    then show ?thesis using False assms(8) by (auto simp: f same)
  qed
  have "set (?ch q) \<subseteq> live ?s \<and> (if q = c then \<exists>y0 y. seg (tsk ?s) q y0 (p_cptr (tsk ?s q)) (?ch q) y NULL
        else children ?s q (?ch q))" if "q \<in> all_tasks ?s" for q
    using that cs inis os [of q] sub [of q] sub [of c] assms(3,5,6,8) p(2) k same by auto
  then show ?thesis using up ok same unfolding ptree_leaving_def by blast
qed

lemma hangup_signalled: "signalled s (hangup_if_orphaned pg s)"
  unfolding hangup_if_orphaned_def
  using signalled_trans [OF kill_pg.contract [of s pg SIGHUP True] kill_pg.contract [of _ pg SIGCONT True]] by simp

lemma orphan_step_signalled: "signalled (adopt_child p s) (orphan_step p s)"
proof -
  have "deliver_bits SIGCHLD m = m OR sigbit SIGCHLD" for m by (simp add: deliver_bits_def)
  then have "signalled a (upd_task q (\<lambda>t. t\<lparr>signal := signal t OR sigbit SIGCHLD\<rparr>) a)" for a q
    using delivers_one [of SIGCHLD] by (intro signalled_upd) (simp add: task_signalled_def)
  then show ?thesis
    unfolding orphan_step_def Let_def
    by (auto intro: signalled_trans [OF _ hangup_signalled] simp del: upd_task_simps)
qed

lemma exit_notify_signalled: "signalled s (exit_notify s)"
  unfolding exit_notify_def Let_def
  by (rule signalled_trans [OF _ send_sig_signalled]) (simp add: hangup_signalled)

definition keeps_zombies :: "sched_state \<Rightarrow> sched_state \<Rightarrow> bool" where
  "keeps_zombies s s' \<longleftrightarrow> task s' = task s \<and> current s' = current s \<and>
    (\<forall>q. state (tsk s q) = TASK_ZOMBIE \<longrightarrow> state (tsk s' q) = TASK_ZOMBIE)"

lemma keeps_zombies_trans: "keeps_zombies s t \<Longrightarrow> keeps_zombies t u \<Longrightarrow> keeps_zombies s u"
  by (simp add: keeps_zombies_def)

lemma signalled_keeps_zombies: "signalled s s' \<Longrightarrow> keeps_zombies s s'"
  by (simp add: signalled_def task_signalled_def keeps_zombies_def)

lemma orphan_children_tree:
  assumes "ptree_leaving c s ch" "c = current s" "c \<in> live s" "ini = task s ! 1" "ini \<in> live s"
    and "ini \<noteq> c" "p_pptr (tsk s ini) = task s ! 0" "ch ini \<noteq> []" "length (ch c) < fuel"
  shows "\<exists>s'. orphan_children fuel s = Some s' \<and> keeps_zombies s s' \<and>
    ptree_leaving c s' (ch(c := [], ini := rev (ch c) @ ch ini))"
  using assms
proof (induction "ch c" arbitrary: s ch fuel)
  case Nil
  then obtain f where "fuel = Suc f" by (cases fuel) auto
  moreover have "p_cptr (tsk s c) = NULL" "ch(c := [], ini := ch ini) = ch"
    using ptree_leavingD(2) [OF Nil.prems(1), of c] Nil.prems(3) Nil.hyps by auto
  ultimately show ?case using Nil.prems Nil.hyps [symmetric] by (simp add: cur_def keeps_zombies_def fun_upd_idem)
next
  case (Cons p xs)
  obtain f where f: "fuel = Suc f" "length xs < f" using Cons.prems(9) Cons.hyps(2) [symmetric] by (cases fuel) auto
  note pr = Cons.prems
  let ?ch = "ch(c := xs, ini := p # ch ini)" let ?s = "orphan_step p s"
  have p: "p_cptr (tsk s c) = p" "p_pptr (tsk s p) = c" "p \<noteq> NULL"
    using ptree_leavingD(2) [OF pr(1), of c] ptree_leaving_parent [OF pr(1), of c p] pr(3) Cons.hyps(2) [symmetric] by auto
  have "ptree_leaving c (adopt_child p s) ?ch"
    using adopt_child_tree [OF pr(1-7) Cons.hyps(2) [symmetric] pr(8)] .
  then have t: "ptree_leaving c ?s ?ch"
    using ptree_leaving_same_links [OF signalled_same_links [OF orphan_step_signalled]] by blast
  have k: "p_cptr (tsk s ini) \<noteq> p"
  proof -
    have "p_cptr (tsk s ini) \<in> set (ch ini)"
      using ptree_leavingD(2) [OF pr(1), of ini] pr(5,8) by (cases "ch ini") auto
    then show ?thesis using ptree_leaving_parent [OF pr(1), of ini] pr(5,6) p(2) by auto
  qed
  have ip: "ini \<noteq> p"
    using pr(3,7) p(2) idle_not_live [of s] ptree_leaving_def pr(1) by metis
  have pc: "p \<noteq> c" using ptree_leaving_parent [OF pr(1), of c p] pr(3) Cons.hyps(2) [symmetric] by auto
  note g = adopt_fields [OF pr(2,4) pc pr(6) ip k]
  note sg = orphan_step_signalled [of p s]
  have s: "task ?s = task s" "current ?s = current s" "p_pptr (tsk ?s ini) = task s ! 0"
    using sg g(5,6) g(3) [of ini] ip pr(7) by (simp_all add: signalled_def task_signalled_def)
  have kz: "keeps_zombies s ?s"
    using signalled_keeps_zombies [OF sg] g(5-7) by (simp add: keeps_zombies_def)
  have lv: "live ?s = live s" by (simp add: live_def s)
  obtain s' where s': "orphan_children f ?s = Some s'" "keeps_zombies ?s s'"
    "ptree_leaving c s' (?ch(c := [], ini := rev xs @ p # ch ini))"
    using Cons.hyps(1) [of ?ch ?s f] t s lv pr f(2) by auto
  have "orphan_children fuel s = Some s'" using s'(1) p pr(2) by (simp add: f(1) cur_def)
  moreover have "?ch(c := [], ini := rev xs @ p # ch ini) = ch(c := [], ini := rev (ch c) @ ch ini)"
    using pr(6) Cons.hyps(2) [symmetric] by auto
  ultimately show ?case using s'(2,3) kz keeps_zombies_trans by metis
qed

lemma exit_leader_tree:
  assumes "exit_leader ttys s = (ttys', s')"
  shows "same_links s s' \<and> keeps_zombies s s'"
proof -
  have sl: "same_links x y \<Longrightarrow> same_links y z \<Longrightarrow> same_links x z" for x y z by (simp add: same_links_def)
  have step: "same_links a (drop_tty i a) \<and> keeps_zombies a (drop_tty i a)" for a i
    by (simp add: drop_tty_def same_links_def keeps_zombies_def)
  have fold: "same_links a (fold drop_tty ns a) \<and> keeps_zombies a (fold drop_tty ns a)" for a ns
  proof (induction ns arbitrary: a)
    case Nil
    then show ?case by (simp add: same_links_def keeps_zombies_def)
  next
    case (Cons n ns)
    then show ?case using step [of a n] sl keeps_zombies_trans by (metis fold_simps(2))
  qed
  have kp: "same_links s (snd (kill_pg g SIGHUP True s))" "keeps_zombies s (snd (kill_pg g SIGHUP True s))" for g
    using kill_pg.contract signalled_same_links signalled_keeps_zombies by blast+
  show ?thesis
  proof (cases "leader (cur s) = 0")
    case True
    then show ?thesis using assms by (auto simp: exit_leader_def same_links_def keeps_zombies_def)
  next
    case False
    define u where "u = (if 0 \<le> tty (cur s) \<and> tty_pgrp (ttys (tty (cur s))) > 0
      then snd (kill_pg (tty_pgrp (ttys (tty (cur s)))) SIGHUP True s) else s)"
    have u: "same_links s u" "keeps_zombies s u" using kp by (simp_all add: u_def same_links_def keeps_zombies_def)
    have "s' = fold drop_tty slots_down u"
      using assms False by (auto simp: exit_leader_def u_def Let_def split: if_splits)
    then show ?thesis using u fold [of u slots_down] sl keeps_zombies_trans by metis
  qed
qed

text \<open>
  C7. \<^verbatim>\<open>do_exit\<close> of a process other than \<^verbatim>\<open>task[1]\<close> gets to its end, provided \<^verbatim>\<open>task[1]\<close> already has a
  child (the code writes through \<^verbatim>\<open>task[1]->p_cptr\<close> without a test): the caller is a zombie
  that waits for its parent, its children are now the youngest children of \<^verbatim>\<open>task[1]\<close>, the
  last of them first, the family tree is correct, and the final audit prints no warning.
\<close>

theorem do_exit_reparents:
  assumes "ptree s ch" "current s \<in> live s" "task s ! 1 \<in> live s" "task s ! 1 \<noteq> current s"
    and "p_pptr (tsk s (task s ! 1)) = task s ! 0" "ch (task s ! 1) \<noteq> []" "length (ch (current s)) < fuel"
  shows "\<exists>ttys' s'. do_exit fuel code ttys s = Some (ttys', s', []) \<and> live s' = live s \<and>
    state (tsk s' (current s)) = TASK_ZOMBIE \<and>
    ptree s' (ch(current s := [], task s ! 1 := rev (ch (current s)) @ ch (task s ! 1)))"
proof -
  let ?c = "current s" and ?i = "task s ! 1"
  define z where "z = exit_zombie code s"
  define u where "u = exit_notify z"
  have sz: "same_links s z" "current z = ?c" "state (tsk z ?c) = TASK_ZOMBIE"
    by (simp_all add: z_def exit_zombie_def same_links_def)
  note zu = exit_notify_signalled [of z, folded u_def]
  have ku: "keeps_zombies z u" by (rule signalled_keeps_zombies [OF zu])
  have u: "same_links s u" "current u = ?c"
    using sz(1,2) signalled_same_links [OF zu] zu by (simp_all add: same_links_def signalled_def)
  have tu: "task u = task s" "live u = live s" "p_pptr (tsk u q) = p_pptr (tsk s q)" for q
    using u(1) by (simp_all add: same_links_def live_def)
  have "ptree_leaving ?c u ch" using ptree_leaving_start ptree_same_links [OF u(1)] assms(1) by blast
  then obtain v where v: "orphan_children fuel u = Some v" "keeps_zombies u v"
    "ptree_leaving ?c v (ch(?c := [], ?i := rev (ch ?c) @ ch ?i))"
    using orphan_children_tree [of ?c u ch ?i fuel, unfolded tu u(2)] assms(2-7) by blast
  obtain ttys' w where w: "exit_leader ttys v = (ttys', w)" by fastforce
  have pt: "ptree w (ch(?c := [], ?i := rev (ch ?c) @ ch ?i))"
    using ptree_leaving_end [OF v(3)] ptree_same_links exit_leader_tree [OF w] assms(4) by auto
  have kz: "keeps_zombies z w" using ku v(2) exit_leader_tree [OF w] keeps_zombies_trans by blast
  have au: "audit_ptree w = []" by (rule audit_clean [OF pt])
  have "do_exit fuel code ttys s = Some (ttys', w, [])"
    using v(1) w au by (simp add: do_exit_def u_def z_def)
  moreover have "live w = live s" using kz sz(1) by (simp add: keeps_zombies_def same_links_def live_def)
  moreover have "state (tsk w ?c) = TASK_ZOMBIE" using kz sz(3) by (simp add: keeps_zombies_def)
  ultimately show ?thesis using pt by blast
qed

theorem do_exit_reparents_witness:
  "\<exists>ttys' s'. do_exit 2 256 (\<lambda>_. \<lparr>tty_pgrp = 0, tty_session = 0\<rparr>) family = Some (ttys', s', []) \<and>
     ptree s' (family_ch(3 := [], 2 := [4, 3]))"
  using do_exit_reparents [OF family_ptree, of 2 256 "\<lambda>_. \<lparr>tty_pgrp = 0, tty_session = 0\<rparr>"]
  by (auto simp: family_live family_ch_def)

section \<open>Wait\<close>

definition wait_ready :: "int \<Rightarrow> task_struct \<Rightarrow> bool" where
  "wait_ready options t \<longleftrightarrow> state t = TASK_ZOMBIE \<or>
     state t = TASK_STOPPED \<and> options AND WUNTRACED \<noteq> 0 \<and> exit_code t \<noteq> 0"

definition wait_report :: "ptr \<Rightarrow> sched_state \<Rightarrow> scan_result" where
  "wait_report p s =
    (if state (tsk s p) = TASK_ZOMBIE then reap p s
     else Report (pid (tsk s p)) (or (exit_code (tsk s p) * 256) 0x7f) (upd_task p (\<lambda>t. t\<lparr>exit_code := 0\<rparr>) s) [])"

lemma wait_scan_spec:
  assumes "path (\<lambda>p. p_osptr (tsk s p)) p xs NULL" "length xs < fuel"
  shows "wait_scan fuel pd options flag p s = Some
    (case find (\<lambda>p. wait_matches pd s p \<and> wait_ready options (tsk s p)) xs of
       Some q \<Rightarrow> wait_report q s
     | None \<Rightarrow> Nothing (flag \<or> (\<exists>q \<in> set xs. wait_matches pd s q \<and> state (tsk s q) \<notin> {TASK_STOPPED, TASK_ZOMBIE})))"
  using assms
proof (induction xs arbitrary: p fuel flag)
  case Nil
  then obtain f where "fuel = Suc f" by (cases fuel) auto
  with Nil show ?case by simp
next
  case (Cons x xs)
  obtain f where f: "fuel = Suc f" "length xs < f" using Cons.prems(2) by (cases fuel) auto
  have p: "p = x" "x \<noteq> NULL" "path (\<lambda>p. p_osptr (tsk s p)) (p_osptr (tsk s x)) xs NULL" using Cons.prems(1) by auto
  note IH = Cons.IH [OF p(3) f(2)]
  show ?case
  proof (cases "wait_matches pd s x")
    case False
    then show ?thesis using IH [of flag] p(1,2) by (simp add: f(1) split: option.split)
  next
    case True
    then show ?thesis using IH [of flag] IH [of True] p(1,2)
      by (cases "state (tsk s x)") (simp_all add: f(1) wait_ready_def wait_report_def split: option.split)
  qed
qed

lemma wait_scan_children:
  assumes "ptree s ch" "current s \<in> all_tasks s" "length (ch (current s)) < fuel"
  shows "wait_scan fuel pd options flag (p_cptr (cur s)) s = Some
    (case find (\<lambda>p. wait_matches pd s p \<and> wait_ready options (tsk s p)) (ch (current s)) of
       Some q \<Rightarrow> wait_report q s
     | None \<Rightarrow> Nothing (flag \<or> (\<exists>q \<in> set (ch (current s)). wait_matches pd s q \<and>
                                   state (tsk s q) \<notin> {TASK_STOPPED, TASK_ZOMBIE})))"
proof -
  have "children s (current s) (ch (current s))" using assms(1,2) by (simp add: ptree_def)
  then have "path (\<lambda>p. p_osptr (tsk s p)) (p_cptr (cur s)) (ch (current s)) NULL"
    unfolding children_def cur_def using seg_path by blast
  from wait_scan_spec [OF this assms(3)] show ?thesis .
qed

text \<open>What a task has accounted of its children.\<close>

definition accounts :: "task_struct \<Rightarrow> int \<times> int \<times> u32 \<times> u32" where
  "accounts t = (cutime t, cstime t, cmin_flt t, cmaj_flt t)"

text \<open>
  C29. \<^verbatim>\<open>sys_waitpid\<close> whose youngest matching child that is ready is a zombie returns at once
  with its number and exit code, adds its user and system times and its two fault counts, with those of its own children, to
  the caller's sums, and releases it: its page is freed and it is gone from the table and from a correct family tree.  Nothing
  else of the caller or of another task is accounted.
\<close>

theorem sys_waitpid_reaps:
  assumes "ptree s ch" "current s \<in> live s" "length (ch (current s)) < fuel"
    and "find (\<lambda>p. wait_matches pd s p \<and> wait_ready options (tsk s p)) (ch (current s)) = Some p"
    and "state (tsk s p) = TASK_ZOMBIE" "ch p = []"
  shows "\<exists>s'. sys_waitpid aways fuel pd options s = Some (WaitRet (pid (tsk s p)) (Some (exit_code (tsk s p))) s' [p]) \<and>
    live s' = live s - {p} \<and> ptree s' (\<lambda>q. remove1 p (ch q)) \<and> current s' = current s \<and>
    cutime (cur s') = s32 (cutime (cur s) + (utime (tsk s p) + cutime (tsk s p))) \<and>
    cstime (cur s') = s32 (cstime (cur s) + (stime (tsk s p) + cstime (tsk s p))) \<and>
    cmin_flt (cur s') = cmin_flt (cur s) + (min_flt (tsk s p) + cmin_flt (tsk s p)) \<and>
    cmaj_flt (cur s') = cmaj_flt (cur s) + (maj_flt (tsk s p) + cmaj_flt (tsk s p)) \<and>
    (\<forall>q. q \<noteq> p \<longrightarrow> q \<noteq> current s \<longrightarrow> accounts (tsk s' q) = accounts (tsk s q))"
proof -
  let ?c = "current s"
  have kids: "children s ?c (ch ?c)" "set (ch ?c) \<subseteq> live s" using assms(1,2) by (auto simp: ptree_def)
  have pm: "p \<in> set (ch ?c)" using find_SomeD [OF assms(4)] by simp
  have pc: "p_pptr (tsk s p) = ?c" "p \<in> live s" "p \<noteq> ?c"
    using pm kids children_parent [OF kids(1) pm] assms(1) by (auto simp: ptree_def)
  define t where "t = tsk s p"
  define u where "u = upd_cur (\<lambda>c. c\<lparr>cutime := s32 (cutime c + (utime t + cutime t)),
                             cstime := s32 (cstime c + (stime t + cstime t)),
                             cmin_flt := cmin_flt c + (min_flt t + cmin_flt t),
                             cmaj_flt := cmaj_flt c + (maj_flt t + cmaj_flt t)\<rparr>) s"
  have u: "same_links s u" "current u = ?c" "live u = live s"
    "accounts (tsk u ?c) = (s32 (cutime (cur s) + (utime t + cutime t)), s32 (cstime (cur s) + (stime t + cstime t)),
       cmin_flt (cur s) + (min_flt t + cmin_flt t), cmaj_flt (cur s) + (maj_flt t + cmaj_flt t))"
    "\<forall>q. q \<noteq> ?c \<longrightarrow> accounts (tsk u q) = accounts (tsk s q)"
    by (simp_all add: u_def same_links_def live_def cur_def accounts_def)
  have "ptree u ch" using ptree_same_links [OF u(1)] assms(1) by simp
  then obtain s' where s': "release p u = Some (s', [p])" "live s' = live u - {p}" "ptree s' (\<lambda>q. remove1 p (ch q))"
    using release_tree [of u ch p] u pc assms(6) by auto
  have un: "current (unlink_task x a) = current a" "accounts (tsk (unlink_task x a) q) = accounts (tsk a q)" for a q x
    by (simp_all add: unlink_task_def Let_def upd_task_def accounts_def)
  have cs: "current s' = ?c \<and> (\<forall>q. q \<noteq> p \<longrightarrow> accounts (tsk s' q) = accounts (tsk u q))"
    using s'(1) u(2) pc(3) by (auto simp: release_def un live_def split: option.splits if_splits)
  have "wait_report p s = Report (pid (tsk s p)) (exit_code (tsk s p)) s' [p]"
    using s'(1) assms(5) by (simp add: wait_report_def reap_def u_def t_def Let_def)
  then have "sys_waitpid aways fuel pd options s = Some (WaitRet (pid (tsk s p)) (Some (exit_code (tsk s p))) s' [p])"
    using wait_scan_children [OF assms(1) live_all_tasks [OF assms(2)] assms(3), of pd options False] assms(4)
    by (subst sys_waitpid.simps) simp
  moreover have "accounts (tsk s' ?c) = accounts (tsk u ?c)" using cs pc(3) by simp
  ultimately show ?thesis using s' cs u(3-5) by (simp add: cur_def t_def accounts_def)
qed

theorem sys_waitpid_reaps_witness:
  "\<exists>s'. sys_waitpid [] 2 (-1) 0 (upd_task 4 (\<lambda>t. t\<lparr>stime := 7\<rparr>) family) = Some (WaitRet 3 (Some 256) s' [4]) \<and> cstime (cur s') = 7"
proof -
  let ?s = "upd_task 4 (\<lambda>t. t\<lparr>stime := 7\<rparr>) family"
  have l: "same_links family ?s" "live ?s = live family" "current ?s = current family" by (simp_all add: same_links_def live_def)
  then have "ptree ?s family_ch" using ptree_same_links [OF l(1)] family_ptree by simp
  from sys_waitpid_reaps [OF this, of 2 "-1" 0 4 "[]"] show ?thesis
    by (auto simp: l(2,3) family_live family_ch_def wait_matches_def wait_ready_def cur_def init_task_def s32_def)
qed

text \<open>
  A matching child that is stopped, and that the caller does not ask about with
  \<^verbatim>\<open>WUNTRACED\<close> or has been told about, does not count as a child: when all matching children are such,
  \<^verbatim>\<open>sys_waitpid\<close> answers \<^verbatim>\<open>-ECHILD\<close> at once instead of waiting for them.
\<close>

theorem sys_waitpid_stopped_is_echild:
  assumes "ptree s ch" "current s \<in> live s" "length (ch (current s)) < fuel"
    and "\<And>p. p \<in> set (ch (current s)) \<Longrightarrow> wait_matches pd s p \<Longrightarrow>
      state (tsk s p) = TASK_STOPPED \<and> (options AND WUNTRACED = 0 \<or> exit_code (tsk s p) = 0)"
  shows "sys_waitpid aways fuel pd options s = Some (WaitRet (- ECHILD) None s [])"
proof -
  have "find (\<lambda>p. wait_matches pd s p \<and> wait_ready options (tsk s p)) (ch (current s)) = None"
    unfolding find_None_iff using assms(4) by (auto simp: wait_ready_def)
  then show ?thesis
    using wait_scan_children [OF assms(1) live_all_tasks [OF assms(2)] assms(3), of pd options False] assms(4)
    by (subst sys_waitpid.simps) (auto split: bool.splits)
qed

theorem sys_waitpid_stopped_is_echild_witness:
  "4 \<in> set (family_ch 3) \<and>
   sys_waitpid [] 2 (-1) 0 (upd_task 4 (\<lambda>t. t\<lparr>state := TASK_STOPPED\<rparr>) family) =
     Some (WaitRet (- ECHILD) None (upd_task 4 (\<lambda>t. t\<lparr>state := TASK_STOPPED\<rparr>) family) [])"
proof -
  let ?s = "upd_task 4 (\<lambda>t. t\<lparr>state := TASK_STOPPED\<rparr>) family"
  have "same_links family ?s" by (simp add: same_links_def)
  then have "ptree ?s family_ch" using family_ptree ptree_same_links by blast
  moreover have "live ?s = {2, 3, 4}" using family_live by (simp add: live_def)
  ultimately show ?thesis
    using sys_waitpid_stopped_is_echild [of ?s family_ch 2 "-1" 0 "[]"] by (simp add: family_ch_def)
qed

end
