(* ===== verification/Sys_Calls.thy ===== *)
theory Sys_Calls
  imports Signals
begin

text \<open>
  The system calls of \<^verbatim>\<open>kernel/sys.c\<close>: user and group identities, groups, process groups and
  sessions, the clock, resource limits and usage, the host name and the file mode mask.
  Values read from user memory are arguments, values written there are part of the result.
\<close>

section \<open>Identities\<close>

definition sys_enosys :: int where
  "sys_enosys = - ENOSYS"

definition sys_setregid :: "int \<Rightarrow> int \<Rightarrow> sched_state \<Rightarrow> int \<times> sched_state" where
  "sys_setregid rg eg s =
    (if rg > 0 \<and> \<not> (uint (gid (cur s)) = rg \<or> suser s) then (- EPERM, s)
     else
       let s = (if rg > 0 then upd_cur (\<lambda>t. t\<lparr>gid := word_of_int rg\<rparr>) s else s)
       in if eg > 0 then
            if uint (gid (cur s)) = eg \<or> uint (egid (cur s)) = eg \<or> suser s
            then (0, upd_cur (\<lambda>t. t\<lparr>egid := word_of_int eg, sgid := word_of_int eg\<rparr>) s)
            else (- EPERM, s)
          else (0, s))"

definition sys_setgid :: "int \<Rightarrow> sched_state \<Rightarrow> int \<times> sched_state" where
  "sys_setgid g s =
    (if suser s then (0, upd_cur (\<lambda>t. t\<lparr>gid := word_of_int g, egid := word_of_int g, sgid := word_of_int g\<rparr>) s)
     else if g = uint (gid (cur s)) \<or> g = uint (sgid (cur s))
     then (0, upd_cur (\<lambda>t. t\<lparr>egid := word_of_int g\<rparr>) s)
     else (- EPERM, s))"

definition sys_setreuid :: "int \<Rightarrow> int \<Rightarrow> sched_state \<Rightarrow> int \<times> sched_state" where
  "sys_setreuid ru eu s =
    (let old_ruid = uint (uid (cur s)) in
     if ru > 0 \<and> \<not> (uint (euid (cur s)) = ru \<or> old_ruid = ru \<or> suser s) then (- EPERM, s)
     else
       let s = (if ru > 0 then upd_cur (\<lambda>t. t\<lparr>uid := word_of_int ru\<rparr>) s else s)
       in if eu > 0 then
            if old_ruid = eu \<or> uint (euid (cur s)) = eu \<or> suser s
            then (0, upd_cur (\<lambda>t. t\<lparr>euid := word_of_int eu, suid := word_of_int eu\<rparr>) s)
            else (- EPERM, upd_cur (\<lambda>t. t\<lparr>uid := word_of_int old_ruid\<rparr>) s)
          else (0, s))"

definition sys_setuid :: "int \<Rightarrow> sched_state \<Rightarrow> int \<times> sched_state" where
  "sys_setuid u s =
    (if suser s then (0, upd_cur (\<lambda>t. t\<lparr>uid := word_of_int u, euid := word_of_int u, suid := word_of_int u\<rparr>) s)
     else if u = uint (uid (cur s)) \<or> u = uint (suid (cur s))
     then (0, upd_cur (\<lambda>t. t\<lparr>euid := word_of_int u\<rparr>) s)
     else (- EPERM, s))"

abbreviation (input) NGROUPS :: nat where "NGROUPS \<equiv> 32"
abbreviation (input) NOGROUP :: int where "NOGROUP \<equiv> -1"

definition in_group_p :: "u16 \<Rightarrow> sched_state \<Rightarrow> bool" where
  "in_group_p grp s \<longleftrightarrow> grp = egid (cur s) \<or>
     list_ex (\<lambda>g. g = uint grp) (takeWhile (\<lambda>g. g \<noteq> NOGROUP) (groups (cur s)))"

text \<open>
  \<^verbatim>\<open>sys_getgroups\<close>: the loop over the array of groups returns the result and the words written to the
  user's list (the words before an overrun of \<^verbatim>\<open>gidsetsize\<close> included).
\<close>

fun getgroups_loop :: "int \<Rightarrow> nat \<Rightarrow> int list \<Rightarrow> u16 list \<Rightarrow> int \<times> u16 list" where
  "getgroups_loop n i [] out = (int i, out)"
| "getgroups_loop n i (g # gs) out =
    (if g = NOGROUP then (int i, out)
     else if n \<noteq> 0 then
       if int i \<ge> n then (- EINVAL, out)
       else getgroups_loop n (i + 1) gs (out @ [word_of_int g])
     else getgroups_loop n (i + 1) gs out)"

definition sys_getgroups :: "int \<Rightarrow> sched_state \<Rightarrow> int \<times> u16 list" where
  "sys_getgroups gidsetsize s = getgroups_loop gidsetsize 0 (groups (cur s)) []"

definition sys_setgroups :: "int \<Rightarrow> (nat \<Rightarrow> u16) \<Rightarrow> sched_state \<Rightarrow> int \<times> sched_state" where
  "sys_setgroups gidsetsize grouplist s =
    (if \<not> suser s then (- EPERM, s)
     else if gidsetsize > int NGROUPS then (- EINVAL, s)
     else
       let n = nat gidsetsize;
           gs = fold (\<lambda>i gs. gs[i := uint (grouplist i)]) [0..<n] (groups (cur s));
           gs = (if n < NGROUPS then gs[n := NOGROUP] else gs)
       in (0, upd_cur (\<lambda>t. t\<lparr>groups := gs\<rparr>) s))"

section \<open>Process groups, sessions, memory limit, mode mask\<close>

definition sys_brk :: "u32 \<Rightarrow> sched_state \<Rightarrow> int \<times> sched_state" where
  "sys_brk end_data_seg s =
    (let s = (if end_code (cur s) \<le> end_data_seg \<and> end_data_seg < start_stack (cur s) - 16384
              then upd_cur (\<lambda>t. t\<lparr>brk := end_data_seg\<rparr>) s else s)
     in (sint (brk (cur s)), s))"

definition sys_setpgid :: "int \<Rightarrow> int \<Rightarrow> sched_state \<Rightarrow> int \<times> sched_state" where
  "sys_setpgid pd pg s =
    (let pd = (if pd = 0 then pid (cur s) else pd);
         pg = (if pg = 0 then pid (cur s) else pg)
     in if pg < 0 then (- EINVAL, s)
        else case find (\<lambda>i. task s ! i \<noteq> NULL \<and> pid (slot_task s i) = pd \<and>
                            (p_pptr (slot_task s i) = current s \<or> task s ! i = current s)) [0..<64] of
          None \<Rightarrow> (- ESRCH, s)
        | Some i \<Rightarrow>
            if leader (slot_task s i) \<noteq> 0 then (- EPERM, s)
            else if session (slot_task s i) \<noteq> session (cur s) \<or>
                    pg \<noteq> pd \<and> session_of_pgrp pg s \<noteq> session (cur s) then (- EPERM, s)
            else (0, upd_task (task s ! i) (\<lambda>t. t\<lparr>pgrp := pg\<rparr>) s))"

definition sys_getpgrp :: "sched_state \<Rightarrow> int" where
  "sys_getpgrp s = pgrp (cur s)"

definition sys_setsid :: "sched_state \<Rightarrow> int \<times> sched_state" where
  "sys_setsid s =
    (if leader (cur s) \<noteq> 0 \<and> \<not> suser s then (- EPERM, s)
     else
       let s = upd_cur (\<lambda>t. t\<lparr>leader := 1, pgrp := pid t, session := pid t, tty := -1\<rparr>) s
       in (pgrp (cur s), s))"

definition sys_umask :: "int \<Rightarrow> sched_state \<Rightarrow> int \<times> sched_state" where
  "sys_umask msk s = (uint (umask (cur s)), upd_cur (\<lambda>t. t\<lparr>umask := word_of_int (msk AND 0x1ff)\<rparr>) s)"

section \<open>The clock\<close>

definition CURRENT_TIME :: "sched_state \<Rightarrow> u32" where
  "CURRENT_TIME s = startup_time s + (jiffies s + word_of_int (jiffies_offset s)) div 100"

definition sys_time :: "sched_state \<Rightarrow> int" where
  "sys_time s = sint (CURRENT_TIME s)"

definition sys_stime :: "u32 \<Rightarrow> sched_state \<Rightarrow> int \<times> sched_state" where
  "sys_stime t s =
    (if \<not> suser s then (- EPERM, s)
     else (0, s\<lparr>startup_time := t - jiffies s div 100, jiffies_offset := 0\<rparr>))"

definition sys_times :: "sched_state \<Rightarrow> int \<times> int list" where
  "sys_times s = (sint (jiffies s), [utime (cur s), stime (cur s), cutime (cur s), cstime (cur s)])"

record timezone =
  tz_minuteswest :: int
  tz_dsttime :: int

record clock_globals =
  sys_tz :: timezone
  firsttime :: bool

definition sys_gettimeofday ::
  "bool \<Rightarrow> bool \<Rightarrow> clock_globals \<Rightarrow> sched_state \<Rightarrow> int \<times> (u32 \<times> u32) option \<times> timezone option" where
  "sys_gettimeofday tv tz g s =
    (let ticks = jiffies s + word_of_int (jiffies_offset s)
     in (0, if tv then Some (startup_time s + ticks div 100, (ticks mod 100) * 1000000 div 100) else None,
         if tz then Some (sys_tz g) else None))"

definition adjust_clock :: "clock_globals \<Rightarrow> sched_state \<Rightarrow> sched_state" where
  "adjust_clock g s = s\<lparr>startup_time := startup_time s + word_of_int (tz_minuteswest (sys_tz g) * 60)\<rparr>"

definition sys_settimeofday ::
  "(int \<times> int) option \<Rightarrow> timezone option \<Rightarrow> clock_globals \<Rightarrow> sched_state \<Rightarrow> int \<times> clock_globals \<times> sched_state" where
  "sys_settimeofday tv tz g s =
    (if \<not> suser s then (- EPERM, g, s)
     else
       let (g, s) = (case tz of
             None \<Rightarrow> (g, s)
           | Some z \<Rightarrow>
               let g = g\<lparr>sys_tz := z\<rparr>
               in if firsttime g then (g\<lparr>firsttime := False\<rparr>, if tv = None then adjust_clock g s else s)
                  else (g, s));
           s = (case tv of
             None \<Rightarrow> s
           | Some (sec, usec) \<Rightarrow>
               s\<lparr>startup_time := word_of_int sec - jiffies s div 100,
                 jiffies_offset := sint (word_of_int (s32 (usec * HZ) sdiv 1000000) - jiffies s mod 100)\<rparr>)
       in (0, g, s))"

section \<open>Host name\<close>

record utsname =
  sysname :: "u8 list"
  nodename :: "u8 list"
  release_name :: "u8 list"
  version :: "u8 list"
  machine :: "u8 list"

definition sys_uname :: "bool \<Rightarrow> utsname \<Rightarrow> int \<times> u8 list" where
  "sys_uname name_given u =
    (if \<not> name_given then (- ERROR, [])
     else (0, sysname u @ nodename u @ release_name u @ version u @ machine u))"

abbreviation (input) MAXHOSTNAMELEN :: nat where "MAXHOSTNAMELEN \<equiv> 8"

function hostname_loop :: "(nat \<Rightarrow> u8) \<Rightarrow> nat \<Rightarrow> nat \<Rightarrow> u8 list \<Rightarrow> nat \<times> u8 list" where
  "hostname_loop name len i nn =
    (if i < len then
       let nn = nn[i := name i]
       in if nn ! i = 0 then (i, nn) else hostname_loop name len (i + 1) nn
     else (i, nn))"
  by pat_completeness auto
termination by (relation "measure (\<lambda>(name, len, i, nn). len - i)") auto

declare hostname_loop.simps [simp del]

definition sys_sethostname :: "(nat \<Rightarrow> u8) \<Rightarrow> int \<Rightarrow> utsname \<Rightarrow> sched_state \<Rightarrow> int \<times> utsname" where
  "sys_sethostname name len u s =
    (if \<not> suser s then (- EPERM, u)
     else if len > int MAXHOSTNAMELEN then (- EINVAL, u)
     else
       let (i, nn) = hostname_loop name (nat len) 0 (nodename u);
           nn = (if nn ! i \<noteq> 0 then nn[(if i > MAXHOSTNAMELEN then MAXHOSTNAMELEN else i) := 0] else nn)
       in (0, u\<lparr>nodename := nn\<rparr>))"

section \<open>Resources\<close>

abbreviation (input) RLIM_NLIMITS :: int where "RLIM_NLIMITS \<equiv> 6"

text \<open>The limit calls index an array of six limits with a signed number: \<open>None\<close> is an access before its start.\<close>

definition sys_getrlimit :: "int \<Rightarrow> sched_state \<Rightarrow> (int \<times> rlimit option) option" where
  "sys_getrlimit resource s =
    (if resource \<ge> RLIM_NLIMITS then Some (- EINVAL, None)
     else if resource < 0 then None
     else Some (0, Some (rlim (cur s) ! nat resource)))"

definition sys_setrlimit :: "int \<Rightarrow> rlimit \<Rightarrow> sched_state \<Rightarrow> (int \<times> sched_state) option" where
  "sys_setrlimit resource new s =
    (if resource \<ge> RLIM_NLIMITS then Some (- EINVAL, s)
     else if resource < 0 then None
     else
       let old = rlim (cur s) ! nat resource
       in if (rlim_cur new > rlim_max old \<or> rlim_max new > rlim_max old) \<and> \<not> suser s then Some (- EPERM, s)
          else Some (0, upd_cur (\<lambda>t. t\<lparr>rlim := (rlim t)[nat resource := new]\<rparr>) s))"

definition CT_TO_SECS :: "int \<Rightarrow> int" where
  "CT_TO_SECS x = x sdiv HZ"

definition CT_TO_USECS :: "int \<Rightarrow> int" where
  "CT_TO_USECS x = s32 ((x smod HZ) * 1000000) sdiv HZ"

definition sys_getrusage :: "int \<Rightarrow> sched_state \<Rightarrow> int \<times> int list" where
  "sys_getrusage who s =
    (if who \<noteq> 0 \<and> who \<noteq> -1 then (- EINVAL, [])
     else
       let c = cur s;
           (ut, st, mi, ma) = (if who = 0 then (utime c, stime c, min_flt c, maj_flt c)
                               else (cutime c, cstime c, cmin_flt c, cmaj_flt c))
       in (0, [CT_TO_SECS ut, CT_TO_USECS ut, CT_TO_SECS st, CT_TO_USECS st, 0, 0, 0, 0,
               sint mi, sint ma, 0, 0, 0, 0, 0, 0, 0, 0]))"

section \<open>No way up for an unprivileged process\<close>

text \<open>The identity calls a process can make, and the states it can reach with them.\<close>

definition uids :: "sched_state \<Rightarrow> u16 set" where
  "uids s = {uid (cur s), euid (cur s), suid (cur s)}"

definition gids :: "sched_state \<Rightarrow> u16 set" where
  "gids s = {gid (cur s), egid (cur s), sgid (cur s)}"

inductive id_calls :: "sched_state \<Rightarrow> sched_state \<Rightarrow> bool" where
  start: "id_calls s s"
| setreuid: "id_calls s s' \<Longrightarrow> id_calls s (snd (sys_setreuid ru eu s'))"
| setuid: "id_calls s s' \<Longrightarrow> id_calls s (snd (sys_setuid u s'))"
| setregid: "id_calls s s' \<Longrightarrow> id_calls s (snd (sys_setregid rg eg s'))"
| setgid: "id_calls s s' \<Longrightarrow> id_calls s (snd (sys_setgid g s'))"

lemma cur_upd [simp]: "cur (upd_task p f s) = (if p = current s then f (cur s) else cur s)"
  by (simp add: cur_def)

text \<open>
  What every identity call promises when the caller is not the superuser: the user and the
  group identities only move within the sets they come from, and a refusal changes nothing
  (up to the identities).
\<close>

locale identity_call =
  fixes call :: "sched_state \<Rightarrow> int \<times> sched_state"
  assumes uids_sub: "\<not> suser s \<Longrightarrow> uids (snd (call s)) \<subseteq> uids s"
    and gids_sub: "\<not> suser s \<Longrightarrow> gids (snd (call s)) \<subseteq> gids s"
begin

lemma stays_unprivileged: "0 \<notin> uids s \<Longrightarrow> 0 \<notin> uids (snd (call s)) \<and> gids (snd (call s)) \<subseteq> gids s"
  using uids_sub [of s] gids_sub [of s] by (auto simp: suser_def uids_def)

end

interpretation setreuid: identity_call "sys_setreuid ru eu" for ru eu
  by unfold_locales
    (auto simp: sys_setreuid_def uids_def gids_def Let_def suser_def split: if_splits)

interpretation setuid: identity_call "sys_setuid u" for u
  by unfold_locales (auto simp: sys_setuid_def uids_def gids_def suser_def)

interpretation setregid: identity_call "sys_setregid rg eg" for rg eg
  by unfold_locales
    (auto simp: sys_setregid_def uids_def gids_def Let_def suser_def word_uint_eq_iff split: if_splits)

interpretation setgid: identity_call "sys_setgid g" for g
  by unfold_locales (auto simp: sys_setgid_def uids_def gids_def suser_def)

text \<open>
  C32. A process none of whose user identities is 0 cannot become the superuser by any
  sequence of \<^verbatim>\<open>setreuid\<close>, \<^verbatim>\<open>setuid\<close>, \<^verbatim>\<open>setregid\<close> and \<^verbatim>\<open>setgid\<close> calls, and its group identities stay
  among the ones it had.
\<close>

theorem identity_calls_never_escalate:
  assumes "id_calls s s'" "0 \<notin> uids s"
  shows "\<not> suser s' \<and> 0 \<notin> uids s' \<and> gids s' \<subseteq> gids s"
proof -
  have "0 \<notin> uids s' \<and> gids s' \<subseteq> gids s"
    using assms
  proof (induction rule: id_calls.induct)
    case start
    then show ?case by simp
  next
    case (setreuid s s' ru eu)
    then show ?case using setreuid.stays_unprivileged [of s' ru eu] by auto
  next
    case (setuid s s' u)
    then show ?case using setuid.stays_unprivileged [of s' u] by auto
  next
    case (setregid s s' rg eg)
    then show ?case using setregid.stays_unprivileged [of s' rg eg] by auto
  next
    case (setgid s s' g)
    then show ?case using setgid.stays_unprivileged [of s' g] by auto
  qed
  then show ?thesis by (auto simp: suser_def uids_def)
qed

theorem identity_calls_never_escalate_witness:
  "let s = upd_task 2 (\<lambda>t. t\<lparr>uid := 7, euid := 8, suid := 8\<rparr>) two_tasks;
       s1 = snd (sys_setreuid 8 7 s); s2 = snd (sys_setuid 0 s1)
   in euid (cur s1) = 7 \<and> \<not> suser s2"
proof -
  define s where "s = upd_task 2 (\<lambda>t. t\<lparr>uid := 7, euid := 8, suid := 8\<rparr>) two_tasks"
  have "0 \<notin> uids s" "id_calls s (snd (sys_setuid 0 (snd (sys_setreuid 8 7 s))))"
    by (simp_all add: uids_def s_def cur_def id_calls.intros)
  from identity_calls_never_escalate [OF this(2,1)]
  have "\<not> suser (snd (sys_setuid 0 (snd (sys_setreuid 8 7 s))))" by simp
  moreover have "euid (cur (snd (sys_setreuid 8 7 s))) = 7"
    by (simp add: s_def sys_setreuid_def cur_def)
  ultimately show ?thesis by (simp add: s_def)
qed

section \<open>Round trips\<close>

lemma fold_list_update:
  "n \<le> length xs \<Longrightarrow> fold (\<lambda>i gs. gs[i := f i]) [0..<n] xs = map f [0..<n] @ drop n xs"
proof (induction n)
  case 0
  then show ?case by simp
next
  case (Suc n)
  then have "drop n xs = xs ! n # drop (Suc n) xs" by (simp add: Cons_nth_drop_Suc)
  with Suc show ?case by (simp add: list_update_append)
qed

lemma getgroups_loop_collect:
  "n = 0 \<or> int (i + length gs) \<le> n \<Longrightarrow> NOGROUP \<notin> set gs \<Longrightarrow> rest = [] \<or> hd rest = NOGROUP \<Longrightarrow>
    getgroups_loop n i (gs @ rest) out = (int (i + length gs), out @ (if n = 0 then [] else map word_of_int gs))"
proof (induction gs arbitrary: i out)
  case Nil
  then show ?case by (cases rest) auto
next
  case (Cons g gs)
  then show ?case by auto
qed

text \<open>
  Round trip of the supplementary groups: after the superuser has stored \<open>n \<le> 32\<close> groups
  with \<^verbatim>\<open>sys_setgroups\<close>, \<^verbatim>\<open>sys_getgroups\<close> with size 0 tells their number and with size \<open>n\<close> returns exactly the
  stored list.
\<close>

theorem setgroups_getgroups:
  assumes "suser s" "n \<le> 32" "length (groups (cur s)) = 32"
  shows "\<exists>s'. sys_setgroups (int n) grouplist s = (0, s') \<and>
    sys_getgroups 0 s' = (int n, []) \<and>
    (n \<noteq> 0 \<longrightarrow> sys_getgroups (int n) s' = (int n, map grouplist [0..<n]))"
proof -
  define gs where "gs = map (\<lambda>i. uint (grouplist i)) [0..<n]"
  define rest where "rest = (if n < 32 then NOGROUP # drop (Suc n) (groups (cur s)) else [])"
  let ?s = "upd_cur (\<lambda>t. t\<lparr>groups := gs @ rest\<rparr>) s"
  have "(gs @ drop n (groups (cur s)))[n := NOGROUP] = gs @ rest" if "n < 32"
  proof -
    have "drop n (groups (cur s)) = groups (cur s) ! n # drop (Suc n) (groups (cur s))"
      using that assms(3) by (simp add: Cons_nth_drop_Suc)
    then show ?thesis using that by (simp add: list_update_append gs_def rest_def)
  qed
  then have set: "sys_setgroups (int n) grouplist s = (0, ?s)"
    using assms fold_list_update [of n "groups (cur s)" "\<lambda>i. uint (grouplist i)"]
    by (auto simp: sys_setgroups_def gs_def rest_def)
  have ok: "NOGROUP \<notin> set gs" "rest = [] \<or> hd rest = NOGROUP" "length gs = n"
    "map word_of_int gs = map grouplist [0..<n]"
    using uint_ge_0 by (auto simp: gs_def rest_def) (metis not_numeral_le_zero neg_0_le_iff_le uint_ge_0 not_one_le_zero)
  have "sys_getgroups m ?s = getgroups_loop m 0 (gs @ rest) []" for m by (simp add: sys_getgroups_def)
  then show ?thesis
    using set getgroups_loop_collect [of 0 0 gs rest "[]"] getgroups_loop_collect [of "int n" 0 gs rest "[]"] ok
    by simp
qed

theorem setgroups_getgroups_witness:
  "\<exists>s'. sys_setgroups 3 (\<lambda>i. of_nat i + 100) two_tasks = (0, s') \<and> sys_getgroups 3 s' = (3, [100, 101, 102])"
  using setgroups_getgroups [of two_tasks 3 "\<lambda>i. of_nat i + 100"]
  by (auto simp: suser_def cur_def init_task_def upt_rec)

text \<open>
  Round trip of the clock: after the superuser has set the time of day to \<open>sec\<close> seconds and
  \<open>usec\<close> microseconds, \<^verbatim>\<open>sys_gettimeofday\<close> in the same tick returns the same seconds (modulo the
  word size) and the microseconds rounded down to the clock's resolution of 10 ms.
\<close>

theorem settimeofday_gettimeofday:
  assumes "suser s" "0 \<le> usec" "usec < 1000000" "uint (jiffies s) < 2 ^ 32 - 100"
  shows "\<exists>g' s'. sys_settimeofday (Some (sec, usec)) tz g s = (0, g', s') \<and>
    sys_gettimeofday True False g' s' =
      (0, Some (word_of_int sec, word_of_int (usec div 10000 * 10000)), None) \<and>
    sys_time s' = sint (word_of_int sec :: u32)"
proof -
  define q where "q = usec div 10000"
  define j where "j = jiffies s"
  have q: "0 \<le> q" "q < 100" using assms by (auto simp: q_def)
  have "usec * 100 sdiv 1000000 = q"
    using assms div_mult_mult2 [of 100 usec 10000] by (simp add: signed_divide_int_def q_def sgn_if)
  moreover have "in_s32 (usec * 100)" using assms by (simp add: in_s32_def)
  ultimately have sq: "s32 (usec * HZ) sdiv 1000000 = q" by simp
  define off :: int where "off = sint (word_of_int q - j mod 100)"
  define tk :: u32 where "tk = j + word_of_int off"
  have "j - j mod 100 = j div 100 * 100" using div_mult_mod_eq [of j 100] by (simp add: algebra_simps)
  then have "tk = j div 100 * 100 + word_of_int q"
    by (simp add: tk_def off_def algebra_simps)
  also have "\<dots> = word_of_int (uint j div 100 * 100 + q)"
  proof -
    have "uint (j div 100) = uint j div 100" by (simp add: uint_div_distrib)
    then have "j div 100 = word_of_int (uint j div 100)" by (metis word_of_int_uint)
    then show ?thesis by simp
  qed
  finally have tkw: "tk = word_of_int (uint j div 100 * 100 + q)" .
  have "uint j div 100 * 100 + q < 2 ^ 32" "0 \<le> uint j div 100 * 100 + q"
    using assms(4) q by (auto simp: j_def intro!: add_nonneg_nonneg pos_imp_zdiv_nonneg_iff [THEN iffD2])
  then have tk: "uint tk = uint j div 100 * 100 + q"
    unfolding tkw using uint_u32 by blast
  have d: "tk div 100 = j div 100" "tk mod 100 = word_of_int q"
  proof -
    have "uint (tk div 100) = uint (j div 100)" using tk q by (simp add: uint_div_distrib)
    then show "tk div 100 = j div 100" by (simp add: word_uint_eq_iff)
    have "uint (tk mod 100) = q" using tk q by (simp add: uint_mod_distrib)
    then show "tk mod 100 = word_of_int q" by (metis word_of_int_uint)
  qed
  have us: "(word_of_int q :: u32) * 1000000 div 100 = word_of_int (usec div 10000 * 10000)"
  proof -
    have "uint ((word_of_int q :: u32) * 1000000) = q * 1000000"
      using q by (simp add: uint_mult_lem uint_word_of_int_eq take_bit_int_eq_self uint_word_ariths)
    then have "uint ((word_of_int q :: u32) * 1000000 div 100) = q * 10000" by (simp add: uint_div_distrib)
    then show ?thesis unfolding q_def [symmetric] by (metis word_of_int_uint)
  qed
  define s' where "s' = s\<lparr>startup_time := word_of_int sec - jiffies s div 100, jiffies_offset := off\<rparr>"
  obtain g' where "sys_settimeofday (Some (sec, usec)) tz g s = (0, g', s')"
    using assms(1) sq by (cases tz; cases "firsttime g") (simp_all add: sys_settimeofday_def s'_def off_def j_def Let_def)
  moreover have "jiffies s' + word_of_int (jiffies_offset s') = tk" by (simp add: s'_def tk_def j_def)
  moreover have "startup_time s' + tk div 100 = word_of_int sec" by (simp add: s'_def d j_def)
  ultimately show ?thesis
    using d(2) us by (simp add: sys_gettimeofday_def sys_time_def CURRENT_TIME_def Let_def)
qed

theorem settimeofday_gettimeofday_witness:
  "\<exists>g' s'. sys_settimeofday (Some (700000000, 123456)) None \<lparr>sys_tz = \<lparr>tz_minuteswest = 0, tz_dsttime = 0\<rparr>, firsttime = True\<rparr> two_tasks =
      (0, g', s') \<and> sys_gettimeofday True False g' s' = (0, Some (700000000, 120000), None)"
  using settimeofday_gettimeofday [of two_tasks 123456 700000000 None
      "\<lparr>sys_tz = \<lparr>tz_minuteswest = 0, tz_dsttime = 0\<rparr>, firsttime = True\<rparr>"]
  by (auto simp: suser_def cur_def init_task_def)

section \<open>Limits\<close>

text \<open>
  \<^verbatim>\<open>sys_setrlimit\<close> lets an unprivileged process lower its limits only: for a valid
  resource the hard limit never grows and the soft limit stays below the old hard limit.
  But the guard tests only the upper end of the index: every negative resource number goes past it
  and addresses memory before the array of limits, for the reading and for the writing call.
\<close>

theorem setrlimit_monotone_but_unchecked_below:
  assumes "\<not> suser s" "length (rlim (cur s)) = 6"
  shows "(0 \<le> resource \<longrightarrow> (\<exists>r s'. sys_setrlimit resource new s = Some (r, s') \<and>
      (r = 0 \<longrightarrow> resource < 6 \<and> rlim (cur s') = (rlim (cur s))[nat resource := new] \<and>
         rlim_max new \<le> rlim_max (rlim (cur s) ! nat resource) \<and>
         rlim_cur new \<le> rlim_max (rlim (cur s) ! nat resource)) \<and>
      (r \<noteq> 0 \<longrightarrow> s' = s))) \<and>
    (resource < 0 \<longrightarrow> sys_setrlimit resource new s = None \<and> sys_getrlimit resource s = None)"
  using assms by (auto simp: sys_setrlimit_def sys_getrlimit_def Let_def)

theorem setrlimit_monotone_but_unchecked_below_witness:
  "sys_setrlimit (-1) \<lparr>rlim_cur = 1, rlim_max = 1\<rparr> (upd_task 2 (\<lambda>t. t\<lparr>euid := 7\<rparr>) two_tasks) = None"
  using setrlimit_monotone_but_unchecked_below
    [of "upd_task 2 (\<lambda>t. t\<lparr>euid := 7\<rparr>) two_tasks" "-1" "\<lparr>rlim_cur = 1, rlim_max = 1\<rparr>"]
  by (simp add: suser_def cur_def init_task_def)

section \<open>Host name\<close>

lemma hostname_loop_spec:
  assumes "len < length nn" "i \<le> len" "\<And>k. k < i \<Longrightarrow> nn ! k = name k \<and> name k \<noteq> 0"
    and "hostname_loop name len i nn = (j, nn')"
  shows "length nn' = length nn \<and> j \<le> len \<and> (\<forall>k < j. nn' ! k = name k \<and> name k \<noteq> 0) \<and>
    (j < len \<longrightarrow> name j = 0 \<and> nn' ! j = 0)"
  using assms
proof (induction name len i nn rule: hostname_loop.induct)
  case (1 name len i nn)
  show ?case
  proof (cases "i < len")
    case False
    then have "j = i" "nn' = nn" using 1(5) by (simp_all add: hostname_loop.simps [of name len i nn])
    then show ?thesis using 1(2-4) False by auto
  next
    case True
    show ?thesis
    proof (cases "name i = 0")
      case z: True
      have "j = i" "nn' = nn[i := name i]" using 1(2,5) True z by (auto simp: hostname_loop.simps [of name len i nn] Let_def)
      then show ?thesis using 1(2,4) True z by auto
    next
      case False
      have e: "hostname_loop name len (i + 1) (nn[i := name i]) = (j, nn')"
        using 1(2,5) True False by (simp add: hostname_loop.simps [of name len i nn] Let_def)
      have "\<And>k. k < i + 1 \<Longrightarrow> nn[i := name i] ! k = name k \<and> name k \<noteq> 0"
        using 1(2,4) True False by (auto simp: nth_list_update less_Suc_eq)
      then show ?thesis using 1(1) [OF True _ _ _ _ _ e] True 1(2) False by simp
    qed
  qed
qed

text \<open>
  \<^verbatim>\<open>sys_sethostname\<close> by the superuser with a length of at most 8 stores the given name up to
  its first null byte, null-terminated inside the 9 bytes of \<^verbatim>\<open>nodename\<close>: \<^verbatim>\<open>sys_uname\<close> then shows it.
\<close>

theorem sethostname_uname:
  assumes "suser s" "0 \<le> len" "len \<le> 8" "length (nodename u) = 9"
  shows "\<exists>u' out. sys_sethostname name len u s = (0, u') \<and> sys_uname True u' = (0, out) \<and>
    length (nodename u') = 9 \<and> take 9 (drop (length (sysname u)) out) = nodename u' \<and>
    (\<exists>j \<le> nat len. (\<forall>k < j. nodename u' ! k = name k \<and> name k \<noteq> 0) \<and> nodename u' ! j = 0 \<and>
       (j < nat len \<longrightarrow> name j = 0))"
proof -
  obtain j nn where l: "hostname_loop name (nat len) 0 (nodename u) = (j, nn)" by fastforce
  have f: "length nn = 9" "j \<le> nat len" "\<forall>k < j. nn ! k = name k \<and> name k \<noteq> 0" "j < nat len \<longrightarrow> name j = 0 \<and> nn ! j = 0"
    using hostname_loop_spec [OF _ _ _ l] assms by auto
  have j: "j \<le> 8" using f(2) assms(3) by simp
  define mm where "mm = (if nn ! j \<noteq> 0 then nn[j := 0] else nn)"
  define u' where "u' = u\<lparr>nodename := mm\<rparr>"
  have mm: "length mm = 9" "mm ! j = 0" "\<forall>k < j. mm ! k = name k \<and> name k \<noteq> 0"
    using f(1,3) j by (auto simp: mm_def)
  have "sys_sethostname name len u s = (0, u')"
    using assms j l by (simp add: sys_sethostname_def mm_def u'_def)
  moreover have "take 9 (drop (length (sysname u)) (snd (sys_uname True u'))) = nodename u'"
    using mm(1) by (simp add: sys_uname_def u'_def)
  moreover have "sys_uname True u' = (0, snd (sys_uname True u'))" by (simp add: sys_uname_def)
  ultimately show ?thesis
    using mm f(2,4) by (intro exI [of _ u'] exI [of _ "snd (sys_uname True u')"]) (auto simp: u'_def)
qed

theorem sethostname_uname_witness:
  "\<exists>u'. sys_sethostname (\<lambda>i. if i < 5 then 65 else 0) 8
     \<lparr>sysname = replicate 9 0, nodename = replicate 9 1, release_name = [], version = [], machine = []\<rparr> two_tasks = (0, u') \<and>
     length (nodename u') = 9"
  using sethostname_uname [of two_tasks 8
      "\<lparr>sysname = replicate 9 0, nodename = replicate 9 1, release_name = [], version = [], machine = []\<rparr>"
      "\<lambda>i. if i < 5 then 65 else 0"]
  by (auto simp: suser_def cur_def init_task_def)

end
