(* ===== verification/Inodes.thy ===== *)
theory Inodes
  imports Process Sys_Calls
begin

text \<open>
  The table of inodes in memory (\<^verbatim>\<open>fs/inode.c\<close>) with the super blocks it looks at (\<^verbatim>\<open>fs/super.c\<close>).  The state has the
  inode table, the super block table and the file table next to the tasks.  The argument \<open>K\<close> holds what this layer calls
  through pointers or finds in other layers: the operations of the file systems by the address of their table, the passes over the
  buffer cache, pages, and for every sleep what happens until the process runs again.  A call that needs more sleeps than \<open>K\<close>
  has ends in \<open>Asleep\<close>, as does one whose retry loop needs more rounds than \<open>K\<close> allows.

  Entry \<open>i\<close> of a table is at pointer \<open>i + 1\<close>.  Device and inode numbers are 16 bits wide everywhere.
\<close>

section \<open>State\<close>

record vfs_inode =
  i_dev :: u16
  i_ino :: u16
  i_mode :: u16
  i_nlink :: u8
  i_uid :: u16
  i_gid :: u16
  i_rdev :: u16
  i_size :: u32
  i_atime :: u32
  i_mtime :: u32
  i_ctime :: u32
  i_data :: "u32 list"
  i_op :: ptr
  i_sb :: ptr
  i_count :: u16
  i_lock :: bool
  i_dirt :: bool
  i_pipe :: bool
  i_mount :: bool
  i_seek :: bool
  i_update :: bool

record vfs_super =
  s_dev :: u16
  s_covered :: ptr
  s_mounted :: ptr
  s_time :: u32
  s_lock :: bool
  s_rd_only :: bool
  s_dirt :: bool
  s_op :: ptr

record vfs_file =
  f_mode :: u16
  f_flags :: u16
  f_count :: u16
  f_inode :: ptr
  f_op :: ptr
  f_pos :: int

record vfs =
  sched :: sched_state
  inode_table :: "ptr \<Rightarrow> vfs_inode"
  last_inode :: nat
  super_block :: "ptr \<Rightarrow> vfs_super"
  file_table :: "ptr \<Rightarrow> vfs_file"
  ROOT_DEV :: u16
  naps :: nat

abbreviation (input) NR_INODE :: nat where "NR_INODE \<equiv> 128"
abbreviation (input) NR_SUPER :: nat where "NR_SUPER \<equiv> 8"
abbreviation (input) NR_FILE :: nat where "NR_FILE \<equiv> 64"
abbreviation (input) NR_OPEN :: nat where "NR_OPEN \<equiv> 20"

definition upd_inode :: "ptr \<Rightarrow> (vfs_inode \<Rightarrow> vfs_inode) \<Rightarrow> vfs \<Rightarrow> vfs" where
  "upd_inode ip f s = s\<lparr>inode_table := (inode_table s)(ip := f (inode_table s ip))\<rparr>"

definition upd_super :: "ptr \<Rightarrow> (vfs_super \<Rightarrow> vfs_super) \<Rightarrow> vfs \<Rightarrow> vfs" where
  "upd_super sb f s = s\<lparr>super_block := (super_block s)(sb := f (super_block s sb))\<rparr>"

definition upd_file :: "ptr \<Rightarrow> (vfs_file \<Rightarrow> vfs_file) \<Rightarrow> vfs \<Rightarrow> vfs" where
  "upd_file f g s = s\<lparr>file_table := (file_table s)(f := g (file_table s f))\<rparr>"

text \<open>
  The operations that are called through \<^verbatim>\<open>i_op\<close>, \<^verbatim>\<open>s_op\<close> and \<^verbatim>\<open>f_op\<close> are found by the address of the table; \<open>None\<close> is a null
  pointer in it.  A name is the list of its \<^verbatim>\<open>len\<close> bytes, a path the bytes of the string without the final zero.
\<close>

type_synonym path_name = "u8 list"

record kernel =
  aways :: "(vfs \<Rightarrow> vfs) list"
  rounds :: nat
  i_wait :: "ptr \<Rightarrow> ptr"
  i_wait2 :: "ptr \<Rightarrow> ptr"
  s_wait :: "ptr \<Rightarrow> ptr"
  sync_buffers :: "u16 \<Rightarrow> vfs \<Rightarrow> vfs outcome"
  free_page :: "u32 \<Rightarrow> vfs \<Rightarrow> vfs"
  get_free_page :: "vfs \<Rightarrow> (u32 \<times> vfs) outcome"
  op_write_inode :: "ptr \<Rightarrow> (ptr \<Rightarrow> vfs \<Rightarrow> vfs outcome) option"
  op_put_inode :: "ptr \<Rightarrow> (ptr \<Rightarrow> vfs \<Rightarrow> vfs outcome) option"
  op_bmap :: "ptr \<Rightarrow> (ptr \<Rightarrow> int \<Rightarrow> vfs \<Rightarrow> (int \<times> vfs) outcome) option"
  op_open :: "ptr \<Rightarrow> (ptr \<Rightarrow> ptr \<Rightarrow> vfs \<Rightarrow> (int \<times> vfs) outcome) option"
  op_lookup :: "ptr \<Rightarrow> (ptr \<Rightarrow> path_name \<Rightarrow> vfs \<Rightarrow> (int \<times> ptr \<times> vfs) outcome) option"
  op_follow_link :: "ptr \<Rightarrow> (ptr \<Rightarrow> ptr \<Rightarrow> vfs \<Rightarrow> (ptr \<times> vfs) outcome) option"
  op_mknod :: "ptr \<Rightarrow> (ptr \<Rightarrow> path_name \<Rightarrow> int \<Rightarrow> int \<Rightarrow> vfs \<Rightarrow> (int \<times> vfs) outcome) option"
  op_mkdir :: "ptr \<Rightarrow> (ptr \<Rightarrow> path_name \<Rightarrow> int \<Rightarrow> vfs \<Rightarrow> (int \<times> vfs) outcome) option"
  op_rmdir :: "ptr \<Rightarrow> (ptr \<Rightarrow> path_name \<Rightarrow> vfs \<Rightarrow> (int \<times> vfs) outcome) option"
  op_unlink :: "ptr \<Rightarrow> (ptr \<Rightarrow> path_name \<Rightarrow> vfs \<Rightarrow> (int \<times> vfs) outcome) option"
  op_symlink :: "ptr \<Rightarrow> (ptr \<Rightarrow> path_name \<Rightarrow> path_name \<Rightarrow> vfs \<Rightarrow> (int \<times> vfs) outcome) option"
  op_link :: "ptr \<Rightarrow> (ptr \<Rightarrow> ptr \<Rightarrow> path_name \<Rightarrow> vfs \<Rightarrow> (int \<times> vfs) outcome) option"
  op_lseek :: "ptr \<Rightarrow> (ptr \<Rightarrow> ptr \<Rightarrow> int \<Rightarrow> nat \<Rightarrow> vfs \<Rightarrow> (int \<times> vfs) outcome) option"
  op_read :: "ptr \<Rightarrow> (ptr \<Rightarrow> ptr \<Rightarrow> nat \<Rightarrow> vfs \<Rightarrow> (int \<times> u8 list \<times> vfs) outcome) option"
  op_write :: "ptr \<Rightarrow> (ptr \<Rightarrow> ptr \<Rightarrow> u8 list \<Rightarrow> vfs \<Rightarrow> (int \<times> vfs) outcome) option"
  op_read_inode :: "ptr \<Rightarrow> (ptr \<Rightarrow> vfs \<Rightarrow> vfs outcome) option"
  op_put_super :: "ptr \<Rightarrow> (ptr \<Rightarrow> vfs \<Rightarrow> vfs outcome) option"
  minix_read_super :: "ptr \<Rightarrow> vfs \<Rightarrow> (ptr \<times> vfs) outcome"

section \<open>Sleeping and waking\<close>

text \<open>One \<^verbatim>\<open>sleep_on\<close>: queueing, what the others do, and being woken.\<close>

definition nap :: "kernel \<Rightarrow> vfs \<Rightarrow> vfs" where
  "nap K s = ((aways K ! naps s) s)\<lparr>naps := Suc (naps s)\<rparr>"

fun sleep_while :: "nat \<Rightarrow> kernel \<Rightarrow> (vfs \<Rightarrow> bool) \<Rightarrow> vfs \<Rightarrow> vfs outcome" where
  "sleep_while 0 K locked s = (if locked s then Asleep else Done s)"
| "sleep_while (Suc n) K locked s = (if locked s then sleep_while n K locked (nap K s) else Done s)"

definition naps_left :: "kernel \<Rightarrow> vfs \<Rightarrow> nat" where
  "naps_left K s = length (aways K) - naps s"

definition wait_on_inode :: "kernel \<Rightarrow> ptr \<Rightarrow> vfs \<Rightarrow> vfs outcome" where
  "wait_on_inode K ip s = sleep_while (naps_left K s) K (\<lambda>s. i_lock (inode_table s ip)) s"

definition lock_inode :: "kernel \<Rightarrow> ptr \<Rightarrow> vfs \<Rightarrow> vfs outcome" where
  "lock_inode K ip s =
    then_do (sleep_while (naps_left K s) K (\<lambda>s. i_lock (inode_table s ip)) s)
      (\<lambda>s. Done (upd_inode ip (\<lambda>i. i\<lparr>i_lock := True\<rparr>) s))"

text \<open>The chain of waiters has at most \<^verbatim>\<open>NR_TASKS\<close> members; a longer walk goes round in a circle and never ends.\<close>

definition wake_waiters :: "ptr \<Rightarrow> vfs \<Rightarrow> vfs outcome" where
  "wake_waiters q s = (case wake_up 65 q (sched s) of None \<Rightarrow> Asleep | Some sc \<Rightarrow> Done (s\<lparr>sched := sc\<rparr>))"

definition unlock_inode :: "kernel \<Rightarrow> ptr \<Rightarrow> vfs \<Rightarrow> vfs outcome" where
  "unlock_inode K ip s = wake_waiters (i_wait K ip) (upd_inode ip (\<lambda>i. i\<lparr>i_lock := False\<rparr>) s)"

definition wait_on_super :: "kernel \<Rightarrow> ptr \<Rightarrow> vfs \<Rightarrow> vfs outcome" where
  "wait_on_super K sb s = sleep_while (naps_left K s) K (\<lambda>s. s_lock (super_block s sb)) s"

definition lock_super :: "kernel \<Rightarrow> ptr \<Rightarrow> vfs \<Rightarrow> vfs outcome" where
  "lock_super K sb s =
    then_do (sleep_while (naps_left K s) K (\<lambda>s. s_lock (super_block s sb)) s)
      (\<lambda>s. Done (upd_super sb (\<lambda>b. b\<lparr>s_lock := True\<rparr>) s))"

definition free_super :: "kernel \<Rightarrow> ptr \<Rightarrow> vfs \<Rightarrow> vfs outcome" where
  "free_super K sb s = wake_waiters (s_wait K sb) (upd_super sb (\<lambda>b. b\<lparr>s_lock := False\<rparr>) s)"

section \<open>Writing and reading inodes\<close>

definition write_inode :: "kernel \<Rightarrow> ptr \<Rightarrow> vfs \<Rightarrow> vfs outcome" where
  "write_inode K ip s =
    then_do (lock_inode K ip s) (\<lambda>s.
      if \<not> i_dirt (inode_table s ip) \<or> i_dev (inode_table s ip) = 0 then unlock_inode K ip s
      else
        then_do (if i_op (inode_table s ip) = NULL then Done s
                 else case op_write_inode K (i_op (inode_table s ip)) of None \<Rightarrow> Done s | Some wr \<Rightarrow> wr ip s)
          (unlock_inode K ip))"

definition read_inode :: "kernel \<Rightarrow> ptr \<Rightarrow> vfs \<Rightarrow> vfs outcome" where
  "read_inode K ip s =
    then_do (lock_inode K ip s) (\<lambda>s.
      let sb = i_sb (inode_table s ip) in
      then_do (if sb = NULL \<or> s_op (super_block s sb) = NULL then Done s
               else case op_read_inode K (s_op (super_block s sb)) of None \<Rightarrow> Done s | Some rd \<Rightarrow> rd ip s)
        (unlock_inode K ip))"

definition bmap :: "kernel \<Rightarrow> ptr \<Rightarrow> int \<Rightarrow> vfs \<Rightarrow> (int \<times> vfs) outcome" where
  "bmap K ip block s =
    (if i_op (inode_table s ip) = NULL then Done (0, s)
     else case op_bmap K (i_op (inode_table s ip)) of None \<Rightarrow> Done (0, s) | Some bm \<Rightarrow> bm ip block s)"

primrec for_each :: "('a \<Rightarrow> 'b \<Rightarrow> 'b outcome) \<Rightarrow> 'a list \<Rightarrow> 'b \<Rightarrow> 'b outcome" where
  "for_each f [] s = Done s"
| "for_each f (x # xs) s = then_do (f x s) (for_each f xs)"

definition inode_ptrs :: "ptr list" where "inode_ptrs = [1..<129]"

definition super_ptrs :: "ptr list" where "super_ptrs = [1..<9]"

definition invalidate_inodes :: "kernel \<Rightarrow> u16 \<Rightarrow> vfs \<Rightarrow> vfs outcome" where
  "invalidate_inodes K dev =
    for_each (\<lambda>ip s. then_do (wait_on_inode K ip s) (\<lambda>s.
      if i_dev (inode_table s ip) = dev \<and> i_count (inode_table s ip) = 0
      then Done (upd_inode ip (\<lambda>i. i\<lparr>i_dirt := False, i_dev := 0\<rparr>) s) else Done s)) inode_ptrs"

definition sync_inodes :: "kernel \<Rightarrow> vfs \<Rightarrow> vfs outcome" where
  "sync_inodes K =
    for_each (\<lambda>ip s. then_do (wait_on_inode K ip s) (\<lambda>s.
      if i_dirt (inode_table s ip) \<and> \<not> i_pipe (inode_table s ip) then write_inode K ip s else Done s)) inode_ptrs"

definition sync_dev :: "kernel \<Rightarrow> u16 \<Rightarrow> vfs \<Rightarrow> vfs outcome" where
  "sync_dev K dev s =
    then_do (sync_buffers K dev s) (\<lambda>s. then_do (sync_inodes K s) (sync_buffers K dev))"

definition sys_sync :: "kernel \<Rightarrow> vfs \<Rightarrow> (int \<times> vfs) outcome" where
  "sys_sync K s = then_do (sync_inodes K s) (\<lambda>s. then_do (sync_buffers K 0 s) (\<lambda>s. Done (0, s)))"

section \<open>Giving inodes back\<close>

definition drop_inode :: "ptr \<Rightarrow> vfs \<Rightarrow> vfs" where
  "drop_inode ip = upd_inode ip (\<lambda>i. i\<lparr>i_count := i_count i - 1\<rparr>)"

definition take_inode :: "ptr \<Rightarrow> vfs \<Rightarrow> vfs" where
  "take_inode ip = upd_inode ip (\<lambda>i. i\<lparr>i_count := i_count i + 1\<rparr>)"

fun iput_repeat :: "nat \<Rightarrow> kernel \<Rightarrow> ptr \<Rightarrow> vfs \<Rightarrow> vfs outcome" where
  "iput_repeat 0 K ip s = Asleep"
| "iput_repeat (Suc n) K ip s =
    (if i_count (inode_table s ip) > 1 then Done (drop_inode ip s)
     else if i_nlink (inode_table s ip) = 0 then
       (if i_op (inode_table s ip) = NULL then Done s
        else case op_put_inode K (i_op (inode_table s ip)) of None \<Rightarrow> Done s | Some put \<Rightarrow> put ip s)
     else if i_dirt (inode_table s ip) then
       then_do (write_inode K ip s) (\<lambda>s. then_do (wait_on_inode K ip s) (iput_repeat n K ip))
     else Done (drop_inode ip s))"

definition iput_pipe :: "kernel \<Rightarrow> ptr \<Rightarrow> vfs \<Rightarrow> vfs outcome" where
  "iput_pipe K ip s =
    then_do (wake_waiters (i_wait K ip) s) (\<lambda>s. then_do (wake_waiters (i_wait2 K ip) s) (\<lambda>s.
      let s = drop_inode ip s in
      if i_count (inode_table s ip) \<noteq> 0 then Done s
      else Done (upd_inode ip (\<lambda>i. i\<lparr>i_count := 0, i_dirt := False, i_pipe := False\<rparr>)
                   (free_page K (i_size (inode_table s ip)) s))))"

definition iput :: "kernel \<Rightarrow> ptr \<Rightarrow> vfs \<Rightarrow> vfs outcome" where
  "iput K ip s =
    (if ip = NULL then Done s
     else then_do (wait_on_inode K ip s) (\<lambda>s.
       if i_count (inode_table s ip) = 0 then Panicked
       else if i_pipe (inode_table s ip) then iput_pipe K ip s
       else if i_dev (inode_table s ip) = 0 then Done (drop_inode ip s)
       else
         then_do (if S_ISBLK (i_mode (inode_table s ip))
                  then then_do (sync_dev K (i_rdev (inode_table s ip)) s) (wait_on_inode K ip) else Done s)
           (iput_repeat (rounds K) K ip)))"

section \<open>Getting inodes\<close>

text \<open>The search of \<^verbatim>\<open>get_empty_inode\<close>: from the entry after the last one taken, once round the table.\<close>

fun scan_inodes :: "nat \<Rightarrow> nat \<Rightarrow> ptr \<Rightarrow> vfs \<Rightarrow> nat \<times> ptr" where
  "scan_inodes 0 pos ip s = (pos, ip)"
| "scan_inodes (Suc n) pos ip s =
    (let pos = (if pos + 1 \<ge> NR_INODE then 0 else pos + 1) in
     if i_count (inode_table s (pos + 1)) = 0 then
       (if \<not> i_dirt (inode_table s (pos + 1)) \<and> \<not> i_lock (inode_table s (pos + 1)) then (pos, pos + 1)
        else scan_inodes n pos (pos + 1) s)
     else scan_inodes n pos ip s)"

fun flush_inode :: "nat \<Rightarrow> kernel \<Rightarrow> ptr \<Rightarrow> vfs \<Rightarrow> vfs outcome" where
  "flush_inode 0 K ip s = (if i_dirt (inode_table s ip) then Asleep else Done s)"
| "flush_inode (Suc n) K ip s =
    (if i_dirt (inode_table s ip)
     then then_do (write_inode K ip s) (\<lambda>s. then_do (wait_on_inode K ip s) (flush_inode n K ip))
     else Done s)"

definition zero_inode :: vfs_inode where
  "zero_inode =
    \<lparr>i_dev = 0, i_ino = 0, i_mode = 0, i_nlink = 0, i_uid = 0, i_gid = 0, i_rdev = 0, i_size = 0,
     i_atime = 0, i_mtime = 0, i_ctime = 0, i_data = replicate 16 0, i_op = NULL, i_sb = NULL,
     i_count = 0, i_lock = False, i_dirt = False, i_pipe = False, i_mount = False, i_seek = False, i_update = False\<rparr>"

lemma zero_inode_simps [simp]:
  "i_dev zero_inode = 0" "i_ino zero_inode = 0" "i_mode zero_inode = 0" "i_nlink zero_inode = 0" "i_count zero_inode = 0"
  "i_op zero_inode = NULL" "\<not> i_lock zero_inode" "\<not> i_dirt zero_inode" "\<not> i_pipe zero_inode" "\<not> i_mount zero_inode"
  by (simp_all add: zero_inode_def)

text \<open>\<^verbatim>\<open>memset\<close> clears the two wait queues of the inode as well.\<close>

definition clear_inode :: "kernel \<Rightarrow> ptr \<Rightarrow> vfs \<Rightarrow> vfs" where
  "clear_inode K ip s =
    upd_inode ip (\<lambda>_. zero_inode)
      (s\<lparr>sched := (sched s)\<lparr>wait_queue := (wait_queue (sched s))(i_wait K ip := NULL, i_wait2 K ip := NULL)\<rparr>\<rparr>)"

fun get_empty_loop :: "nat \<Rightarrow> kernel \<Rightarrow> vfs \<Rightarrow> (ptr \<times> vfs) outcome" where
  "get_empty_loop 0 K s = Asleep"
| "get_empty_loop (Suc n) K s =
    (let (pos, ip) = scan_inodes NR_INODE (last_inode s) NULL s;
         s = s\<lparr>last_inode := pos\<rparr>
     in if ip = NULL then Panicked
        else then_do (wait_on_inode K ip s) (\<lambda>s. then_do (flush_inode (rounds K) K ip s) (\<lambda>s.
          if i_count (inode_table s ip) \<noteq> 0 then get_empty_loop n K s
          else Done (ip, upd_inode ip (\<lambda>i. i\<lparr>i_count := 1\<rparr>) (clear_inode K ip s)))))"

definition get_empty_inode :: "kernel \<Rightarrow> vfs \<Rightarrow> (ptr \<times> vfs) outcome" where
  "get_empty_inode K = get_empty_loop (rounds K) K"

definition get_pipe_inode :: "kernel \<Rightarrow> vfs \<Rightarrow> (ptr \<times> vfs) outcome" where
  "get_pipe_inode K s =
    then_do (get_empty_inode K s) (\<lambda>(ip, s).
      if ip = NULL then Done (NULL, s)
      else then_do (get_free_page K s) (\<lambda>(pg, s).
        let s = upd_inode ip (\<lambda>i. i\<lparr>i_size := pg\<rparr>) s in
        if pg = 0 then Done (NULL, upd_inode ip (\<lambda>i. i\<lparr>i_count := 0\<rparr>) s)
        else Done (ip, upd_inode ip (\<lambda>i. i\<lparr>i_count := 2, i_data := (i_data i)[1 := 0, 0 := 0], i_pipe := True\<rparr>) s)))"

text \<open>
  \<^verbatim>\<open>iget\<close> and \<^verbatim>\<open>get_super\<close> search a table, wait for the entry they find and start again when it is no longer the right one.
  Every new start follows a sleep.
\<close>

fun search :: "nat \<Rightarrow> (ptr \<Rightarrow> vfs \<Rightarrow> vfs outcome) \<Rightarrow> ptr list \<Rightarrow> (vfs \<Rightarrow> ptr \<Rightarrow> bool) \<Rightarrow> vfs \<Rightarrow> (ptr \<times> vfs) outcome" where
  "search 0 wait tab P s = Asleep"
| "search (Suc n) wait tab P s =
    (case find (P s) tab of
       None \<Rightarrow> Done (NULL, s)
     | Some x \<Rightarrow> then_do (wait x s) (\<lambda>s. if P s x then Done (x, s) else search n wait tab P s))"

definition get_super :: "kernel \<Rightarrow> u16 \<Rightarrow> vfs \<Rightarrow> (ptr \<times> vfs) outcome" where
  "get_super K dev s =
    (if dev = 0 then Done (NULL, s)
     else search (Suc (naps_left K s)) (wait_on_super K) super_ptrs (\<lambda>s sb. s_dev (super_block s sb) = dev) s)"

definition is_inode :: "u16 \<Rightarrow> u16 \<Rightarrow> vfs \<Rightarrow> ptr \<Rightarrow> bool" where
  "is_inode dev nr s ip \<longleftrightarrow> i_dev (inode_table s ip) = dev \<and> i_ino (inode_table s ip) = nr"

text \<open>What \<^verbatim>\<open>iget\<close> does with an inode it finds in the table: it crosses a mount point.\<close>

definition iget_found :: "kernel \<Rightarrow> ptr \<Rightarrow> ptr \<Rightarrow> vfs \<Rightarrow> (ptr \<times> vfs) outcome" where
  "iget_found K spare ip s =
    (let s = take_inode ip s in
     if i_mount (inode_table s ip) then
       (case find (\<lambda>sb. s_covered (super_block s sb) = ip) super_ptrs of
          None \<Rightarrow> then_do (iput K spare s) (\<lambda>s. Done (ip, s))
        | Some sb \<Rightarrow>
            then_do (iput K ip s) (\<lambda>s.
              let ip = s_mounted (super_block s sb) in
              then_do (if ip = NULL then Done s else wait_on_inode K ip (take_inode ip s)) (\<lambda>s.
                then_do (iput K spare s) (\<lambda>s. Done (ip, s)))))
     else then_do (iput K spare s) (\<lambda>s. Done (ip, s)))"

definition iget_new :: "kernel \<Rightarrow> u16 \<Rightarrow> u16 \<Rightarrow> ptr \<Rightarrow> vfs \<Rightarrow> (ptr \<times> vfs) outcome" where
  "iget_new K dev nr ip s =
    (if ip = NULL then Done (NULL, s)
     else then_do (get_super K dev s) (\<lambda>(sb, s).
       let s = upd_inode ip (\<lambda>i. i\<lparr>i_sb := sb\<rparr>) s in
       if sb = NULL then then_do (iput K ip s) (\<lambda>s. Done (NULL, s))
       else then_do (read_inode K ip (upd_inode ip (\<lambda>i. i\<lparr>i_dev := dev, i_ino := nr\<rparr>) s)) (\<lambda>s. Done (ip, s))))"

definition iget :: "kernel \<Rightarrow> u16 \<Rightarrow> u16 \<Rightarrow> vfs \<Rightarrow> (ptr \<times> vfs) outcome" where
  "iget K dev nr s =
    (if dev = 0 then Panicked
     else then_do (get_empty_inode K s) (\<lambda>(spare, s).
       then_do (search (Suc (naps_left K s)) (wait_on_inode K) inode_ptrs (is_inode dev nr) s) (\<lambda>(ip, s).
         if ip \<noteq> NULL then iget_found K spare ip s else iget_new K dev nr spare s)))"


section \<open>What the operations keep\<close>

text \<open>
  \<open>I s t\<close> says what a caller may rely on when the state changes from \<open>s\<close> to \<open>t\<close> behind its back.  The locales state which small
  changes of this layer \<open>I\<close> must allow; \<open>io_keeps I K\<close> says that sleeping, the buffer cache and the file system operations keep \<open>I\<close>.
  Whole operations then keep it too.
\<close>

definition io_keeps :: "(vfs \<Rightarrow> vfs \<Rightarrow> bool) \<Rightarrow> kernel \<Rightarrow> bool" where
  "io_keeps I K \<longleftrightarrow>
    (\<forall>away \<in> set (aways K). \<forall>s. I s (away s)) \<and>
    (\<forall>dev s. on_done (I s) (sync_buffers K dev s)) \<and>
    (\<forall>pg s. I s (free_page K pg s)) \<and>
    (\<forall>s. on_done (\<lambda>(pg, t). I s t) (get_free_page K s)) \<and>
    (\<forall>a f ip s. op_write_inode K a = Some f \<longrightarrow> on_done (I s) (f ip s)) \<and>
    (\<forall>a f ip s. op_put_inode K a = Some f \<longrightarrow> on_done (I s) (f ip s)) \<and>
    (\<forall>a f ip s. op_read_inode K a = Some f \<longrightarrow> on_done (I s) (f ip s))"

lemma upd_inode_simps [simp]:
  "sched (upd_inode ip f s) = sched s" "last_inode (upd_inode ip f s) = last_inode s"
  "super_block (upd_inode ip f s) = super_block s" "file_table (upd_inode ip f s) = file_table s"
  "naps (upd_inode ip f s) = naps s" "ROOT_DEV (upd_inode ip f s) = ROOT_DEV s"
  "inode_table (upd_inode ip f s) jp = (if jp = ip then f (inode_table s ip) else inode_table s jp)"
  by (simp_all add: upd_inode_def)

lemma io_keepsD:
  assumes "io_keeps I K"
  shows "away \<in> set (aways K) \<Longrightarrow> I s (away s)"
    and "on_done (I s) (sync_buffers K dev s)"
    and "I s (free_page K pg s)"
    and "on_done (\<lambda>(pg, t). I s t) (get_free_page K s)"
    and "op_write_inode K a = Some f \<Longrightarrow> on_done (I s) (f ip s)"
    and "op_put_inode K a = Some f \<Longrightarrow> on_done (I s) (f ip s)"
    and "op_read_inode K a = Some f \<Longrightarrow> on_done (I s) (f ip s)"
  using assms unfolding io_keeps_def by blast+

locale steps =
  fixes I :: "vfs \<Rightarrow> vfs \<Rightarrow> bool"
  assumes refl: "I s s"
    and trans: "I s t \<Longrightarrow> I t u \<Longrightarrow> I s u"
    and waking: "wake_up n q (sched s) = Some sc \<Longrightarrow> I s (s\<lparr>sched := sc\<rparr>)"
    and relocking: "I s (upd_inode ip (\<lambda>i. i\<lparr>i_lock := b\<rparr>) s)"
    and napping: "I s (s\<lparr>naps := n\<rparr>)"
begin

lemma then_keeps:
  assumes "on_done (I s) r" "\<And>t. on_done (I t) (f t)"
  shows "on_done (I s) (then_do r f)"
  by (rule on_done_then [OF assms(1)], rule on_done_mono [OF assms(2)], erule trans, assumption)

lemma then_keeps_pair:
  assumes "on_done (I s) r" "\<And>t. on_done (\<lambda>(x, u). I t u) (f t)"
  shows "on_done (\<lambda>(x, u). I s u) (then_do r f)"
  by (rule on_done_then [OF assms(1)], rule on_done_mono [OF assms(2)]) (auto intro: trans)

lemma pair_then_keeps:
  assumes "on_done (\<lambda>(x, t). I s t) r" "\<And>x t. on_done (I t) (f (x, t))"
  shows "on_done (I s) (then_do r f)"
  by (rule on_done_then [OF assms(1)]) (use assms(2) in \<open>auto intro: on_done_mono trans\<close>)

lemma pair_then_keeps_pair:
  assumes "on_done (\<lambda>(x, t). I s t) r" "\<And>x t. on_done (\<lambda>(y, u). I t u) (f (x, t))"
  shows "on_done (\<lambda>(y, u). I s u) (then_do r f)"
proof (rule on_done_then [OF assms(1)], clarify)
  fix x t assume "I s t"
  then show "on_done (\<lambda>(y, u). I s u) (f (x, t))"
    by (intro on_done_mono [OF assms(2)]) (auto intro: trans)
qed

lemma after_step:
  assumes "I s t" "on_done (I t) r"
  shows "on_done (I s) r"
  using assms by (auto intro: on_done_mono trans)

lemma after_step_pair:
  assumes "I s t" "on_done (\<lambda>(x, u). I t u) r"
  shows "on_done (\<lambda>(x, u). I s u) r"
  using assms by (auto intro: on_done_mono trans)

lemma nap_keeps:
  assumes "io_keeps I K" "naps s < length (aways K)"
  shows "I s (nap K s)"
proof -
  have "I s ((aways K ! naps s) s)" using assms by (simp add: io_keepsD(1))
  then show ?thesis unfolding nap_def by (rule trans) (rule napping)
qed

lemma sleep_while_keeps:
  assumes "io_keeps I K" "n \<le> naps_left K s"
  shows "on_done (I s) (sleep_while n K locked s)"
  using assms(2)
proof (induction n arbitrary: s)
  case 0
  then show ?case by (simp add: refl)
next
  case (Suc n)
  have "n \<le> naps_left K (nap K s)" using Suc.prems by (simp add: naps_left_def nap_def)
  moreover have "I s (nap K s)" by (rule nap_keeps [OF assms(1)]) (use Suc.prems in \<open>simp add: naps_left_def\<close>)
  ultimately show ?case using Suc.IH by (simp add: refl after_step)
qed

lemma wait_on_inode_keeps: "io_keeps I K \<Longrightarrow> on_done (I s) (wait_on_inode K ip s)"
  unfolding wait_on_inode_def by (rule sleep_while_keeps) simp_all

lemma wait_on_super_keeps: "io_keeps I K \<Longrightarrow> on_done (I s) (wait_on_super K sb s)"
  unfolding wait_on_super_def by (rule sleep_while_keeps) simp_all

lemma lock_inode_keeps: "io_keeps I K \<Longrightarrow> on_done (I s) (lock_inode K ip s)"
  unfolding lock_inode_def
  by (intro then_keeps sleep_while_keeps) (simp_all add: relocking)

lemma wake_waiters_keeps: "on_done (I s) (wake_waiters q s)"
  unfolding wake_waiters_def by (auto split: option.split intro: waking)

lemma unlock_inode_keeps: "on_done (I s) (unlock_inode K ip s)"
  unfolding unlock_inode_def by (rule after_step [OF relocking wake_waiters_keeps])

lemma write_inode_keeps:
  assumes K: "io_keeps I K"
  shows "on_done (I s) (write_inode K ip s)"
  unfolding write_inode_def
  by (intro then_keeps lock_inode_keeps K)
    (auto simp: refl split: option.split intro!: then_keeps unlock_inode_keeps intro: io_keepsD [OF K])

lemma read_inode_keeps:
  assumes K: "io_keeps I K"
  shows "on_done (I s) (read_inode K ip s)"
  unfolding read_inode_def Let_def
  by (intro then_keeps lock_inode_keeps K)
    (auto simp: refl split: option.split intro!: unlock_inode_keeps intro: io_keepsD [OF K])

lemma for_each_keeps:
  assumes "\<And>x s. on_done (I s) (f x s)"
  shows "on_done (I s) (for_each f xs s)"
  by (induction xs arbitrary: s) (auto simp: refl intro!: then_keeps assms)

lemma sync_inodes_keeps:
  assumes K: "io_keeps I K"
  shows "on_done (I s) (sync_inodes K s)"
  unfolding sync_inodes_def
  by (intro for_each_keeps then_keeps wait_on_inode_keeps K) (simp add: write_inode_keeps K refl)

lemma sync_dev_keeps:
  assumes K: "io_keeps I K"
  shows "on_done (I s) (sync_dev K dev s)"
  unfolding sync_dev_def
  by (intro then_keeps sync_inodes_keeps io_keepsD [OF K] K)

lemma search_keeps:
  assumes "\<And>x s. on_done (I s) (wait x s)"
  shows "on_done (\<lambda>(x, t). I s t) (search n wait tab P s)"
proof (induction n arbitrary: s)
  case 0
  then show ?case by simp
next
  case (Suc n)
  then show ?case by (auto simp: refl split: option.split intro!: then_keeps_pair assms)
qed

lemma get_super_keeps: "io_keeps I K \<Longrightarrow> on_done (\<lambda>(x, t). I s t) (get_super K dev s)"
  unfolding get_super_def by (auto simp: refl intro!: search_keeps wait_on_super_keeps simp del: search.simps)

lemma flush_inode_keeps:
  assumes K: "io_keeps I K"
  shows "on_done (I s) (flush_inode n K ip s)"
proof (induction n arbitrary: s)
  case 0
  then show ?case by (simp add: refl)
next
  case (Suc n)
  then show ?case by (auto simp: refl intro!: then_keeps write_inode_keeps wait_on_inode_keeps K)
qed

end

text \<open>\<open>I\<close> may look at which inode an entry holds, but not at the rest of the entry nor at where the search stands.\<close>

locale identity_steps = steps +
  assumes recounting: "(\<And>i. i_dev (f i) = i_dev i \<and> i_ino (f i) = i_ino i) \<Longrightarrow> I s (upd_inode ip f s)"
    and clearing: "I s (clear_inode K ip s)"
    and repositioning: "I s (s\<lparr>last_inode := n\<rparr>)"
begin

lemma drop_inode_keeps: "I s (drop_inode ip s)"
  unfolding drop_inode_def by (rule recounting) simp

lemma take_inode_keeps: "I s (take_inode ip s)"
  unfolding take_inode_def by (rule recounting) simp

lemma iput_repeat_keeps:
  assumes K: "io_keeps I K"
  shows "on_done (I s) (iput_repeat n K ip s)"
proof (induction n arbitrary: s)
  case 0
  then show ?case by simp
next
  case (Suc n)
  then show ?case
    by (auto simp: refl drop_inode_keeps split: option.split intro: io_keepsD [OF K]
        intro!: then_keeps write_inode_keeps wait_on_inode_keeps K)
qed

lemma iput_pipe_keeps:
  assumes K: "io_keeps I K"
  shows "on_done (I s) (iput_pipe K ip s)"
proof -
  have "I s (upd_inode ip (\<lambda>i. i\<lparr>i_count := 0, i_dirt := False, i_pipe := False\<rparr>) (free_page K pg (drop_inode ip s)))" for pg s
    by (rule trans [OF trans [OF drop_inode_keeps io_keepsD(3) [OF K]]]) (rule recounting, simp)
  then show ?thesis
    unfolding iput_pipe_def Let_def by (auto intro!: then_keeps wake_waiters_keeps simp: drop_inode_keeps)
qed

lemma iput_keeps:
  assumes K: "io_keeps I K"
  shows "on_done (I s) (iput K ip s)"
proof (cases "ip = NULL")
  case True
  then show ?thesis by (simp add: iput_def refl)
next
  case False
  show ?thesis
    unfolding iput_def using False
    by (auto intro!: then_keeps wait_on_inode_keeps iput_pipe_keeps iput_repeat_keeps sync_dev_keeps K simp: drop_inode_keeps refl)
qed

lemma get_empty_loop_keeps:
  assumes K: "io_keeps I K"
  shows "on_done (\<lambda>(ip, t). I s t) (get_empty_loop n K s)"
proof (induction n arbitrary: s)
  case 0
  then show ?case by simp
next
  case (Suc n)
  have fresh: "I t (upd_inode ip (\<lambda>i. i\<lparr>i_count := 1\<rparr>) (clear_inode K ip t))" for t ip
    by (rule trans [OF clearing recounting]) simp
  obtain pos ip where scan: "scan_inodes NR_INODE (last_inode s) NULL s = (pos, ip)" by fastforce
  show ?case
    unfolding get_empty_loop.simps scan Let_def prod.case
    by (auto intro!: after_step_pair [OF repositioning [of s pos]] then_keeps_pair wait_on_inode_keeps flush_inode_keeps K Suc.IH
        simp: fresh)
qed

lemma get_empty_inode_keeps: "io_keeps I K \<Longrightarrow> on_done (\<lambda>(ip, t). I s t) (get_empty_inode K s)"
  unfolding get_empty_inode_def by (rule get_empty_loop_keeps)

lemma get_pipe_inode_keeps:
  assumes K: "io_keeps I K"
  shows "on_done (\<lambda>(ip, t). I s t) (get_pipe_inode K s)"
proof -
  have "on_done (\<lambda>(ip, t). I s t) (let s = upd_inode ip (\<lambda>i. i\<lparr>i_size := pg\<rparr>) s in
        if pg = 0 then Done (NULL, upd_inode ip (\<lambda>i. i\<lparr>i_count := 0\<rparr>) s)
        else Done (ip, upd_inode ip (\<lambda>i. i\<lparr>i_count := 2, i_data := (i_data i)[1 := 0, 0 := 0], i_pipe := True\<rparr>) s))" for s ip pg
    unfolding Let_def by (auto intro!: trans [OF recounting recounting])
  then show ?thesis
    unfolding get_pipe_inode_def
    by (intro pair_then_keeps_pair get_empty_inode_keeps K)
      (auto simp: refl intro!: pair_then_keeps_pair io_keepsD [OF K])
qed

lemma iget_found_keeps:
  assumes K: "io_keeps I K"
  shows "on_done (\<lambda>(x, t). I s t) (iget_found K spare ip s)"
proof -
  have mounted: "on_done (I t) (if jp = NULL then Done t else wait_on_inode K jp (take_inode jp t))" for jp t
    using after_step [OF take_inode_keeps wait_on_inode_keeps [OF K], of t jp jp] by (simp add: refl)
  have ret: "on_done (\<lambda>(x, u). I t u) (then_do (iput K spare t) (\<lambda>s. Done (jp, s)))" for jp t
    by (rule then_keeps_pair [OF iput_keeps [OF K]]) (simp add: refl)
  show ?thesis
    unfolding iget_found_def Let_def
    by (rule after_step_pair [OF take_inode_keeps [of s ip]])
      (auto split: option.split intro!: ret then_keeps_pair [OF mounted] then_keeps_pair [OF iput_keeps [OF K, of _ ip]])
qed

end

text \<open>\<open>I\<close> may not look at the inode table at all.\<close>

locale blind_steps = identity_steps +
  assumes rewriting: "I s (upd_inode ip f s)"
begin

lemma iget_new_keeps:
  assumes K: "io_keeps I K"
  shows "on_done (\<lambda>(x, t). I s t) (iget_new K dev nr ip s)"
proof -
  have none: "on_done (\<lambda>(x, t). I s t) (then_do (iput K ip (upd_inode ip f s)) (\<lambda>s. Done (NULL, s)))" for f s
    by (rule after_step_pair [OF rewriting then_keeps_pair [OF iput_keeps [OF K]]]) (simp add: refl)
  have some: "on_done (\<lambda>(x, t). I s t) (then_do (read_inode K ip (upd_inode ip g (upd_inode ip f s))) (\<lambda>s. Done (ip, s)))" for f g s
    by (rule after_step_pair [OF trans [OF rewriting rewriting] then_keeps_pair [OF read_inode_keeps [OF K]]]) (simp add: refl)
  show ?thesis
    unfolding iget_new_def Let_def
    by (auto simp: refl intro!: pair_then_keeps_pair get_super_keeps K none some)
qed

lemma iget_keeps:
  assumes K: "io_keeps I K"
  shows "on_done (\<lambda>(x, t). I s t) (iget K dev nr s)"
  unfolding iget_def
  by (auto intro!: pair_then_keeps_pair get_empty_inode_keeps search_keeps wait_on_inode_keeps iget_found_keeps iget_new_keeps K
      simp del: search.simps)

end

section \<open>One entry for each inode\<close>

definition inodes_unique :: "vfs \<Rightarrow> bool" where
  "inodes_unique s \<longleftrightarrow>
    (\<forall>ip \<in> {1..128}. \<forall>jp \<in> {1..128}.
       i_dev (inode_table s ip) \<noteq> 0 \<and> is_inode (i_dev (inode_table s ip)) (i_ino (inode_table s ip)) s jp \<longrightarrow> ip = jp)"

definition supers_unlocked :: "vfs \<Rightarrow> bool" where
  "supers_unlocked s \<longleftrightarrow> (\<forall>sb \<in> {1..8}. \<not> s_lock (super_block s sb))"

definition keeps_unique :: "vfs \<Rightarrow> vfs \<Rightarrow> bool" where
  "keeps_unique s t \<longleftrightarrow> (inodes_unique s \<and> supers_unlocked s \<longrightarrow> inodes_unique t \<and> supers_unlocked t)"

interpretation uniq: identity_steps keeps_unique
proof unfold_locales
  show "keeps_unique s (upd_inode ip f s)" if "\<And>i. i_dev (f i) = i_dev i \<and> i_ino (f i) = i_ino i" for f s ip
    using that by (auto simp: keeps_unique_def inodes_unique_def supers_unlocked_def is_inode_def)
  show "keeps_unique s (clear_inode K ip s)" for s K ip
    by (auto simp: keeps_unique_def inodes_unique_def supers_unlocked_def is_inode_def clear_inode_def zero_inode_def)
qed (auto simp: keeps_unique_def inodes_unique_def supers_unlocked_def is_inode_def)

lemma on_done_conj: "on_done P r \<Longrightarrow> on_done Q r \<Longrightarrow> on_done (\<lambda>x. P x \<and> Q x) r"
  by (cases r) auto

lemma set_ptrs [simp]: "set inode_ptrs = {1..128}" "set super_ptrs = {1..8}"
  by (auto simp: inode_ptrs_def super_ptrs_def)

lemma search_none: "on_done (\<lambda>(x, t). x = NULL \<longrightarrow> NULL \<notin> set tab \<longrightarrow> (\<forall>x \<in> set tab. \<not> P t x)) (search n wait tab P s)"
proof (induction n arbitrary: s)
  case 0
  then show ?case by simp
next
  case (Suc n)
  show ?case
  proof (cases "find (P s) tab")
    case None
    then have "\<forall>x \<in> set tab. \<not> P s x" by (auto simp: find_None_iff)
    with None show ?thesis by simp
  next
    case (Some x)
    then have "x \<in> set tab" using find_SomeD by metis
    with Some Suc.IH show ?thesis by (cases "wait x s") auto
  qed
qed

lemma sleep_while_free: "\<not> locked s \<Longrightarrow> sleep_while n K locked s = Done s"
  by (cases n) simp_all

lemma get_super_unlocked:
  assumes "supers_unlocked s" "dev \<noteq> 0"
  shows "get_super K dev s =
    Done (case find (\<lambda>sb. s_dev (super_block s sb) = dev) super_ptrs of None \<Rightarrow> NULL | Some sb \<Rightarrow> sb, s)"
proof (cases "find (\<lambda>sb. s_dev (super_block s sb) = dev) super_ptrs")
  case None
  then show ?thesis using assms(2) by (simp add: get_super_def)
next
  case (Some sb)
  then have "sb \<in> {1..8}" "s_dev (super_block s sb) = dev" using find_SomeD by fastforce+
  then show ?thesis using Some assms
    by (simp add: get_super_def wait_on_super_def sleep_while_free supers_unlocked_def)
qed

lemma iget_new_unique:
  assumes K: "io_keeps keeps_unique K"
    and s: "inodes_unique s" "supers_unlocked s"
    and new: "\<forall>jp \<in> {1..128}. \<not> is_inode dev nr s jp" and dev: "dev \<noteq> 0"
  shows "on_done (\<lambda>(x, t). inodes_unique t \<and> supers_unlocked t) (iget_new K dev nr ip s)"
proof (cases "ip = NULL")
  case True
  then show ?thesis using s by (simp add: iget_new_def)
next
  case False
  define sb where "sb = (case find (\<lambda>sb. s_dev (super_block s sb) = dev) super_ptrs of None \<Rightarrow> NULL | Some sb \<Rightarrow> sb)"
  let ?s1 = "upd_inode ip (\<lambda>i. i\<lparr>i_sb := sb\<rparr>) s"
  let ?s2 = "upd_inode ip (\<lambda>i. i\<lparr>i_dev := dev, i_ino := nr\<rparr>) ?s1"
  have s1: "inodes_unique ?s1 \<and> supers_unlocked ?s1"
    using s uniq.recounting [of "\<lambda>i. i\<lparr>i_sb := sb\<rparr>" s ip] by (simp add: keeps_unique_def)
  have s2: "inodes_unique ?s2 \<and> supers_unlocked ?s2"
    using s new by (auto simp: inodes_unique_def is_inode_def supers_unlocked_def)
  have "on_done (\<lambda>t. inodes_unique t \<and> supers_unlocked t) (iput K ip ?s1)"
    by (rule on_done_mono [OF uniq.iput_keeps [OF K]]) (use s1 in \<open>auto simp: keeps_unique_def\<close>)
  moreover have "on_done (\<lambda>t. inodes_unique t \<and> supers_unlocked t) (read_inode K ip ?s2)"
    by (rule on_done_mono [OF uniq.read_inode_keeps [OF K]]) (use s2 in \<open>auto simp: keeps_unique_def\<close>)
  ultimately show ?thesis using False
    unfolding iget_new_def get_super_unlocked [OF s(2) dev] sb_def [symmetric] Let_def
    by (auto elim!: on_done_then)
qed

text \<open>
  C15. \<^verbatim>\<open>iget\<close> never makes a second entry for an inode: however often it sleeps on the way, if what the others do, the buffer cache
  and the file system keep the entries of the inode table distinct and no super block locked, the table \<^verbatim>\<open>iget\<close> leaves
  has at most one entry for each device and inode number.
\<close>

theorem iget_unique:
  assumes "io_keeps keeps_unique K" "inodes_unique s" "supers_unlocked s"
  shows "on_done (\<lambda>(ip, t). inodes_unique t \<and> supers_unlocked t) (iget K dev nr s)"
proof (cases "dev = 0")
  case True
  then show ?thesis by (simp add: iget_def)
next
  case dev: False
  let ?ok = "\<lambda>t. inodes_unique t \<and> supers_unlocked t"
  have keep: "on_done (\<lambda>(x, t). ?ok t) r" if "on_done (\<lambda>(x, t). keeps_unique u t) r" "?ok u" for r :: "(ptr \<times> vfs) outcome" and u
    by (rule on_done_mono [OF that(1)]) (use that(2) in \<open>auto simp: keeps_unique_def\<close>)
  have found: "on_done (\<lambda>(x, t). ?ok t \<and> (x = NULL \<longrightarrow> (\<forall>jp \<in> {1..128}. \<not> is_inode dev nr t jp)))
      (search n (wait_on_inode K) inode_ptrs (is_inode dev nr) u)" if "?ok u" for n u
    by (rule on_done_mono [OF on_done_conj [OF keep [OF uniq.search_keeps [OF uniq.wait_on_inode_keeps [OF assms(1)]] that] search_none]]) auto
  show ?thesis
    unfolding iget_def using dev
    by (auto intro!: on_done_then [OF keep [OF uniq.get_empty_inode_keeps [OF assms(1)]]] on_done_then [OF found] assms
        keep [OF uniq.iget_found_keeps [OF assms(1)]] iget_new_unique simp del: search.simps)
qed

section \<open>An undisturbed table\<close>

text \<open>Nothing is locked and nobody waits: the operations run through without sleeping.\<close>

definition calm :: "kernel \<Rightarrow> vfs \<Rightarrow> bool" where
  "calm K s \<longleftrightarrow>
    (\<forall>ip. \<not> i_lock (inode_table s ip)) \<and> (\<forall>sb. \<not> s_lock (super_block s sb)) \<and> last_inode s < 128 \<and>
    (\<forall>ip. wait_queue (sched s) (i_wait K ip) = NULL \<and> wait_queue (sched s) (i_wait2 K ip) = NULL)"

abbreviation (input) count_of :: "vfs \<Rightarrow> ptr \<Rightarrow> u16" where
  "count_of s ip \<equiv> i_count (inode_table s ip)"

text \<open>
  What a file system does to an entry when nothing disturbs it: writing an inode leaves it clean, reading fills in the fields that
  are on disk.
\<close>

definition loaded :: "vfs_inode \<Rightarrow> vfs_inode \<Rightarrow> bool" where
  "loaded i j \<longleftrightarrow> i_dev j = i_dev i \<and> i_ino j = i_ino i \<and> i_count j = i_count i \<and> i_lock j = i_lock i"

definition fs_regular :: "kernel \<Rightarrow> bool" where
  "fs_regular K \<longleftrightarrow>
    (\<forall>a. case op_write_inode K a of None \<Rightarrow> False
         | Some wr \<Rightarrow> \<forall>ip s. wr ip s = Done (upd_inode ip (\<lambda>i. i\<lparr>i_dirt := False\<rparr>) s)) \<and>
    (\<forall>a. case op_read_inode K a of None \<Rightarrow> False
         | Some rd \<Rightarrow> \<forall>ip s. \<exists>g. rd ip s = Done (upd_inode ip g s) \<and> loaded (inode_table s ip) (g (inode_table s ip)))"

lemma upd_inode_upd_inode [simp]: "upd_inode ip f (upd_inode ip g s) = upd_inode ip (\<lambda>i. f (g i)) s"
  by (simp add: upd_inode_def)

lemma upd_inode_cong: "f (inode_table s ip) = g (inode_table s ip) \<Longrightarrow> upd_inode ip f s = upd_inode ip g s"
  by (simp add: upd_inode_def)

lemma calm_wait [simp]: "calm K s \<Longrightarrow> wait_on_inode K ip s = Done s"
  by (simp add: wait_on_inode_def sleep_while_free calm_def)

lemma calm_lock: "calm K s \<Longrightarrow> lock_inode K ip s = Done (upd_inode ip (\<lambda>i. i\<lparr>i_lock := True\<rparr>) s)"
  by (simp add: lock_inode_def sleep_while_free calm_def)

lemma calm_wake: "calm K s \<Longrightarrow> wake_waiters (i_wait K ip) (upd_inode jp f s) = Done (upd_inode jp f s)"
  by (simp add: wake_waiters_def wake_up_def calm_def)

lemma calm_unlock: "calm K s \<Longrightarrow> unlock_inode K ip (upd_inode ip f s) = Done (upd_inode ip (\<lambda>i. (f i)\<lparr>i_lock := False\<rparr>) s)"
  unfolding unlock_inode_def upd_inode_upd_inode by (rule calm_wake)

lemma calm_upd: "calm K s \<Longrightarrow> \<not> i_lock (f (inode_table s ip)) \<Longrightarrow> calm K (upd_inode ip f s)"
  by (simp add: calm_def)

lemma calm_write_inode:
  assumes "calm K s" "fs_regular K" "i_op (inode_table s ip) \<noteq> NULL" "i_dev (inode_table s ip) \<noteq> 0"
  shows "write_inode K ip s = Done (upd_inode ip (\<lambda>i. i\<lparr>i_dirt := False\<rparr>) s)"
proof -
  obtain wr where wr: "op_write_inode K (i_op (inode_table s ip)) = Some wr" "\<And>ip s. wr ip s = Done (upd_inode ip (\<lambda>i. i\<lparr>i_dirt := False\<rparr>) s)"
    using assms(2) by (fastforce simp: fs_regular_def split: option.splits)
  have "\<not> i_lock (inode_table s ip)" using assms(1) by (simp add: calm_def)
  then have same: "upd_inode ip (\<lambda>i. i\<lparr>i_dirt := False, i_lock := False\<rparr>) s = upd_inode ip (\<lambda>i. i\<lparr>i_dirt := False\<rparr>) s"
    "\<not> i_dirt (inode_table s ip) \<Longrightarrow> upd_inode ip (\<lambda>i. i\<lparr>i_lock := False\<rparr>) s = upd_inode ip (\<lambda>i. i\<lparr>i_dirt := False\<rparr>) s"
    by (auto intro!: upd_inode_cong)
  show ?thesis
    using assms same by (auto simp: write_inode_def calm_lock calm_unlock wr)
qed

lemma calm_read_inode:
  assumes "calm K s" "fs_regular K" "i_sb (inode_table s ip) \<noteq> NULL" "s_op (super_block s (i_sb (inode_table s ip))) \<noteq> NULL"
    and "t = upd_inode ip (\<lambda>i. i\<lparr>i_lock := True\<rparr>) s"
  obtains rd h where "op_read_inode K (s_op (super_block s (i_sb (inode_table s ip)))) = Some rd"
    "rd ip t = Done (upd_inode ip h t)" "loaded (inode_table t ip) (h (inode_table t ip))"
    "read_inode K ip s = Done (upd_inode ip (\<lambda>i. (h (i\<lparr>i_lock := True\<rparr>))\<lparr>i_lock := False\<rparr>) s)"
proof -
  let ?a = "s_op (super_block s (i_sb (inode_table s ip)))"
  obtain rd where rd: "op_read_inode K ?a = Some rd"
    "\<And>ip s. \<exists>g. rd ip s = Done (upd_inode ip g s) \<and> loaded (inode_table s ip) (g (inode_table s ip))"
    using assms(2) by (fastforce simp: fs_regular_def split: option.splits)
  obtain h where h: "rd ip t = Done (upd_inode ip h t)" "loaded (inode_table t ip) (h (inode_table t ip))"
    using rd(2) by blast
  have "read_inode K ip s = Done (upd_inode ip (\<lambda>i. (h (i\<lparr>i_lock := True\<rparr>))\<lparr>i_lock := False\<rparr>) s)"
    using assms rd(1) h(1) by (simp add: read_inode_def calm_lock calm_unlock)
  with rd(1) h show thesis by (rule that)
qed

lemma scan_finds:
  assumes "\<exists>k \<in> {1..n}. ok ((pos + k) mod 128 + 1)" "pos < 128"
    and "\<And>ip. ok ip \<longleftrightarrow> i_count (inode_table s ip) = 0 \<and> \<not> i_dirt (inode_table s ip) \<and> \<not> i_lock (inode_table s ip)"
  shows "\<exists>p < 128. scan_inodes n pos ip s = (p, p + 1) \<and> ok (p + 1)"
  using assms(1,2)
proof (induction n arbitrary: pos ip)
  case 0
  then show ?case by simp
next
  case (Suc n)
  define pos' where "pos' = (if pos + 1 \<ge> 128 then 0 else pos + 1)"
  have pos': "pos' = (pos + 1) mod 128" "pos' < 128" using Suc.prems(2) by (auto simp: pos'_def mod_if)
  have step: "scan_inodes (Suc n) pos ip s =
     (if i_count (inode_table s (pos' + 1)) = 0 then
       (if \<not> i_dirt (inode_table s (pos' + 1)) \<and> \<not> i_lock (inode_table s (pos' + 1)) then (pos', pos' + 1)
        else scan_inodes n pos' (pos' + 1) s)
      else scan_inodes n pos' ip s)"
    by (simp add: pos'_def Let_def)
  show ?case
  proof (cases "ok (pos' + 1)")
    case True
    then show ?thesis using pos'(2) unfolding step assms(3) by auto
  next
    case False
    obtain k where k: "k \<in> {1..Suc n}" "ok ((pos + k) mod 128 + 1)" using Suc.prems(1) by blast
    then have "k \<noteq> 1" using False pos'(1) by auto
    moreover have "(pos' + (k - 1)) mod 128 = (pos + k) mod 128"
      using k(1) mod_add_left_eq [of "pos + 1" 128 "k - 1"] unfolding pos'(1) by (simp del: mod_add_left_eq)
    ultimately have "\<exists>k \<in> {1..n}. ok ((pos' + k) mod 128 + 1)" using k by (intro bexI [of _ "k - 1"]) auto
    then have IH: "\<exists>p < 128. scan_inodes n pos' jp s = (p, p + 1) \<and> ok (p + 1)" for jp by (rule Suc.IH [OF _ pos'(2)])
    show ?thesis
      using False IH [of ip] IH [of "pos' + 1"] unfolding step assms(3) by auto
  qed
qed

lemma scan_inodes_free:
  assumes "pos < 128" "ip \<noteq> NULL \<longrightarrow> count_of s ip = 0 \<and> ip \<in> {1..128}"
  shows "case scan_inodes n pos ip s of (p, jp) \<Rightarrow> p < 128 \<and> (jp \<noteq> NULL \<longrightarrow> count_of s jp = 0 \<and> jp \<in> {1..128})"
  using assms
proof (induction n arbitrary: pos ip)
  case 0
  then show ?case by simp
next
  case (Suc n)
  define pos' where "pos' = (if pos + 1 \<ge> 128 then 0 else pos + 1)"
  have "pos' < 128" using Suc.prems(1) by (auto simp: pos'_def)
  then show ?case
    using Suc.IH [of pos' "pos' + 1"] Suc.IH [of pos' ip] Suc.prems(2)
    unfolding scan_inodes.simps pos'_def [symmetric] Let_def by simp
qed

lemma calm_get_empty_inode:
  assumes "calm K s" "rounds K > 0" "q \<in> {1..128}" "count_of s q = 0" "\<not> i_dirt (inode_table s q)"
  obtains ip t where "get_empty_inode K s = Done (ip, t)" "ip \<in> {1..128}" "count_of s ip = 0" "calm K t"
    "inode_table t = (inode_table s)(ip := zero_inode\<lparr>i_count := 1\<rparr>)" "super_block t = super_block s"
proof -
  define ok where "ok ip \<longleftrightarrow> i_count (inode_table s ip) = 0 \<and> \<not> i_dirt (inode_table s ip) \<and> \<not> i_lock (inode_table s ip)" for ip
  have pos: "last_inode s < 128" using assms(1) by (simp add: calm_def)
  define k where "k = (if q - 1 > last_inode s then q - 1 - last_inode s else (q - 1) + 128 - last_inode s)"
  have "(last_inode s + k) mod 128 + 1 = q"
  proof (cases "q - 1 > last_inode s")
    case True
    then show ?thesis using assms(3) by (auto simp: k_def)
  next
    case False
    then have "last_inode s + k = 128 + (q - 1)" using pos by (simp add: k_def)
    then show ?thesis using assms(3) by (simp only: mod_add_self1) auto
  qed
  moreover have "ok q" using assms by (simp add: ok_def calm_def)
  moreover have "k \<in> {1..128}" using pos assms(3) by (auto simp: k_def)
  ultimately have "\<exists>k \<in> {1..128}. ok ((last_inode s + k) mod 128 + 1)" by metis
  from scan_finds [OF this pos ok_def, of NULL] obtain p where
    p: "p < 128" "scan_inodes 128 (last_inode s) NULL s = (p, p + 1)" "ok (p + 1)" by blast
  let ?s = "s\<lparr>last_inode := p\<rparr>"
  have "calm K ?s" using assms(1) p(1) by (simp add: calm_def)
  moreover have "flush_inode n K (p + 1) ?s = Done ?s" for n using p(3) by (cases n) (simp_all add: ok_def)
  moreover obtain n where "rounds K = Suc n" using assms(2) gr0_implies_Suc by blast
  ultimately have "get_empty_inode K s = Done (p + 1, upd_inode (p + 1) (\<lambda>i. i\<lparr>i_count := 1\<rparr>) (clear_inode K (p + 1) ?s))"
    using p by (simp add: get_empty_inode_def ok_def)
  then show thesis
    by (rule that) (use p assms(1) in \<open>auto simp: ok_def calm_def clear_inode_def zero_inode_def fun_eq_iff\<close>)
qed

lemma calm_drop [simp]: "calm K s \<Longrightarrow> calm K (drop_inode ip s)"
  by (auto simp: calm_def drop_inode_def)

lemma calm_take [simp]: "calm K s \<Longrightarrow> calm K (take_inode ip s)"
  by (auto simp: calm_def take_inode_def)

lemma calm_iput:
  assumes "calm K s" "fs_regular K" "2 \<le> rounds K" "ip \<noteq> NULL" "count_of s ip \<noteq> 0" "\<not> i_pipe (inode_table s ip)"
    and "\<not> S_ISBLK (i_mode (inode_table s ip))" "i_nlink (inode_table s ip) \<noteq> 0" "i_op (inode_table s ip) \<noteq> NULL"
  shows "\<exists>u. iput K ip s = Done u \<and> calm K u \<and> (\<forall>jp. count_of u jp = (if jp = ip then count_of s ip - 1 else count_of s jp))"
proof -
  obtain n where n: "rounds K = Suc (Suc n)" using assms(3) by (metis add_2_eq_Suc le_Suc_ex)
  define c where "c = upd_inode ip (\<lambda>i. i\<lparr>i_dirt := False\<rparr>) s"
  have c: "calm K c" unfolding c_def by (rule calm_upd) (use assms(1) in \<open>auto simp: calm_def\<close>)
  have "calm K (drop_inode ip s)" "calm K (drop_inode ip c)" using assms(1) c by simp_all
  moreover have "iput K ip s = Done (drop_inode ip s) \<or> iput K ip s = Done (drop_inode ip c)"
    using assms c n by (auto simp: iput_def calm_write_inode [OF assms(1,2)] c_def)
  moreover have "count_of (drop_inode ip s) jp = (if jp = ip then count_of s ip - 1 else count_of s jp)"
    "count_of (drop_inode ip c) jp = (if jp = ip then count_of s ip - 1 else count_of s jp)" for jp
    by (simp_all add: drop_inode_def c_def)
  ultimately show ?thesis by metis
qed

lemma calm_search:
  assumes "calm K s"
  shows "search (Suc n) (wait_on_inode K) inode_ptrs (is_inode dev nr) s =
    Done (case find (is_inode dev nr s) inode_ptrs of None \<Rightarrow> NULL | Some ip \<Rightarrow> ip, s)"
  using assms by (auto split: option.split dest: find_SomeD)

lemma calm_iget_found:
  assumes "calm K s" "spare \<noteq> NULL" "spare \<noteq> ip" "count_of s spare \<noteq> 0" "\<not> i_mount (inode_table s ip)"
    and "i_dev (inode_table s spare) = 0" "\<not> i_pipe (inode_table s spare)"
  shows "iget_found K spare ip s = Done (ip, drop_inode spare (take_inode ip s))"
proof -
  have "i_mount (inode_table (take_inode ip s) ip) = False" "inode_table (take_inode ip s) spare = inode_table s spare"
    using assms(3,5) by (simp_all add: take_inode_def)
  then show ?thesis using assms by (simp add: iget_found_def iput_def)
qed

lemma calm_iget_new:
  assumes "calm K s" "fs_regular K" "dev \<noteq> 0" "ip \<noteq> NULL"
    and sb: "find (\<lambda>sb. s_dev (super_block s sb) = dev) super_ptrs = Some sb" "s_op (super_block s sb) \<noteq> NULL"
  obtains t where "iget_new K dev nr ip s = Done (ip, t)" "calm K t" "is_inode dev nr t ip" "\<And>jp. count_of t jp = count_of s jp"
proof -
  define u where "u = upd_inode ip (\<lambda>i. i\<lparr>i_sb := sb, i_dev := dev, i_ino := nr\<rparr>) s"
  have u: "calm K u" unfolding u_def by (rule calm_upd) (use assms(1) in \<open>auto simp: calm_def\<close>)
  have "sb \<noteq> NULL" using find_SomeD [OF sb(1)] by auto
  then have "i_sb (inode_table u ip) \<noteq> NULL" "s_op (super_block u (i_sb (inode_table u ip))) \<noteq> NULL"
    using sb(2) by (simp_all add: u_def)
  from calm_read_inode [OF u assms(2) this HOL.refl] obtain h where
    h: "loaded ((inode_table u ip)\<lparr>i_lock := True\<rparr>) (h ((inode_table u ip)\<lparr>i_lock := True\<rparr>))"
      "read_inode K ip u = Done (upd_inode ip (\<lambda>i. (h (i\<lparr>i_lock := True\<rparr>))\<lparr>i_lock := False\<rparr>) u)" by (metis upd_inode_simps(7))
  define g where "g = (\<lambda>i. (h (i\<lparr>i_lock := True\<rparr>))\<lparr>i_lock := False\<rparr>)"
  have "\<not> i_lock (inode_table u ip)" using u by (simp add: calm_def)
  then have g: "read_inode K ip u = Done (upd_inode ip g u)" "loaded (inode_table u ip) (g (inode_table u ip))"
    using h by (simp_all add: g_def loaded_def)
  have "supers_unlocked s" using assms(1) by (simp add: calm_def supers_unlocked_def)
  then have "iget_new K dev nr ip s = Done (ip, upd_inode ip g u)"
    using assms g(1) \<open>sb \<noteq> NULL\<close> by (simp add: iget_new_def get_super_unlocked u_def)
  moreover have "calm K (upd_inode ip g u)"
    by (rule calm_upd [OF u]) (use u g(2) in \<open>auto simp: calm_def loaded_def\<close>)
  moreover have "is_inode dev nr (upd_inode ip g u) ip" using g(2) by (simp add: is_inode_def loaded_def u_def)
  moreover have "count_of (upd_inode ip g u) jp = count_of s jp" for jp using g(2) by (auto simp: loaded_def u_def)
  ultimately show thesis by (rule that)
qed

lemma calm_iget:
  assumes "calm K s" "fs_regular K" "rounds K > 0" "dev \<noteq> 0"
    and "q \<in> {1..128}" "count_of s q = 0" "\<not> i_dirt (inode_table s q)"
    and sb: "find (\<lambda>sb. s_dev (super_block s sb) = dev) super_ptrs = Some sb" "s_op (super_block s sb) \<noteq> NULL"
    and mount: "\<And>ip. is_inode dev nr s ip \<Longrightarrow> \<not> i_mount (inode_table s ip)"
  obtains ip t where "iget K dev nr s = Done (ip, t)" "ip \<in> {1..128}" "is_inode dev nr t ip" "calm K t"
    "\<And>jp. count_of t jp = count_of s jp + (if jp = ip then 1 else 0)"
proof -
  obtain e s1 where e: "get_empty_inode K s = Done (e, s1)" "e \<in> {1..128}" "count_of s e = 0" "calm K s1"
    "inode_table s1 = (inode_table s)(e := zero_inode\<lparr>i_count := 1\<rparr>)" "super_block s1 = super_block s"
    using calm_get_empty_inode [OF assms(1,3,5-7)] by blast
  note run = iget_def e(1) calm_search [OF e(4)]
  show thesis
  proof (cases "find (is_inode dev nr s1) inode_ptrs")
    case None
    obtain t where t: "iget_new K dev nr e s1 = Done (e, t)" "calm K t" "is_inode dev nr t e" "\<And>jp. count_of t jp = count_of s1 jp"
      using calm_iget_new [OF e(4) assms(2,4), of e sb nr] e(2,6) sb by auto
    show thesis
      by (rule that [of e t]) (use None assms(4) t e in \<open>auto simp: run\<close>)
  next
    case (Some ip)
    have ip: "ip \<in> {1..128}" "is_inode dev nr s1 ip" using find_SomeD [OF Some] by auto
    then have "ip \<noteq> e" "is_inode dev nr s ip" using assms(4) e(5) by (auto simp: is_inode_def zero_inode_def)
    moreover have "\<not> i_mount (inode_table s1 ip)" using mount [OF calculation(2)] calculation(1) e(5) by simp
    ultimately have "iget_found K e ip s1 = Done (ip, drop_inode e (take_inode ip s1))"
      by (intro calm_iget_found) (use e in auto)
    with Some ip(1) assms(4) have "iget K dev nr s = Done (ip, drop_inode e (take_inode ip s1))" by (simp add: run del: search.simps)
    then show thesis
      by (rule that) (use ip e \<open>ip \<noteq> e\<close> in \<open>auto simp: is_inode_def drop_inode_def take_inode_def intro!: calm_drop [unfolded drop_inode_def] calm_take [unfolded take_inode_def]\<close>)
  qed
qed

text \<open>
  In an undisturbed table with a free entry, \<^verbatim>\<open>iget\<close> of an inode of a mounted device that is no mount point always returns an entry that holds the wanted inode, with one more reference
  than before and no other reference changed, whether the inode was in the table or is read from the disk; \<^verbatim>\<open>iput\<close> of that
  entry, if it is no pipe, no block device and not deleted, returns as well and takes exactly that reference back.
\<close>

theorem iget_iput:
  assumes "calm K s" "fs_regular K" "2 \<le> rounds K" "dev \<noteq> 0"
    and "q \<in> {1..128}" "i_count (inode_table s q) = 0" "\<not> i_dirt (inode_table s q)"
    and "find (\<lambda>sb. s_dev (super_block s sb) = dev) super_ptrs = Some sb" "s_op (super_block s sb) \<noteq> NULL"
    and "\<And>ip. is_inode dev nr s ip \<Longrightarrow> \<not> i_mount (inode_table s ip)"
  shows "\<exists>ip t. iget K dev nr s = Done (ip, t) \<and> ip \<in> {1..128} \<and> is_inode dev nr t ip \<and> calm K t \<and>
    (\<forall>jp. i_count (inode_table t jp) = i_count (inode_table s jp) + (if jp = ip then 1 else 0)) \<and>
    (i_count (inode_table t ip) \<noteq> 0 \<and> i_nlink (inode_table t ip) \<noteq> 0 \<and> i_op (inode_table t ip) \<noteq> NULL \<and>
     \<not> i_pipe (inode_table t ip) \<and> \<not> S_ISBLK (i_mode (inode_table t ip)) \<longrightarrow>
     (\<exists>u. iput K ip t = Done u \<and> calm K u \<and> (\<forall>jp. i_count (inode_table u jp) = i_count (inode_table s jp))))"
proof -
  have "rounds K > 0" using assms(3) by simp
  from calm_iget [OF assms(1,2) this assms(4-10), of nr] obtain ip t where
    t: "iget K dev nr s = Done (ip, t)" "ip \<in> {1..128}" "is_inode dev nr t ip" "calm K t"
    "\<And>jp. count_of t jp = count_of s jp + (if jp = ip then 1 else 0)" by blast
  moreover have "ip \<noteq> NULL" using t(2) by auto
  ultimately show ?thesis using calm_iput [OF t(4) assms(2,3), of ip] by (intro exI [of _ ip] exI [of _ t]) (auto; force)
qed

section \<open>A small file system\<close>

text \<open>
  One mounted device 0x301 whose inodes are directories with one link, and an empty inode table.
\<close>

definition plain_kernel :: kernel where
  "plain_kernel =
    \<lparr>aways = [], rounds = 2, i_wait = (\<lambda>ip. 3 * ip), i_wait2 = (\<lambda>ip. 3 * ip + 1), s_wait = (\<lambda>sb. 3 * sb + 2),
     sync_buffers = (\<lambda>dev s. Done s), free_page = (\<lambda>pg s. s), get_free_page = (\<lambda>s. Done (0x5000, s)),
     op_write_inode = (\<lambda>a. Some (\<lambda>ip s. Done (upd_inode ip (\<lambda>i. i\<lparr>i_dirt := False\<rparr>) s))),
     op_put_inode = (\<lambda>a. Some (\<lambda>ip s. Done (upd_inode ip (\<lambda>i. zero_inode) s))),
     op_bmap = (\<lambda>a. None), op_open = (\<lambda>a. None), op_lookup = (\<lambda>a. None), op_follow_link = (\<lambda>a. None), op_mknod = (\<lambda>a. None),
     op_mkdir = (\<lambda>a. None), op_rmdir = (\<lambda>a. None), op_unlink = (\<lambda>a. None), op_symlink = (\<lambda>a. None), op_link = (\<lambda>a. None),
     op_lseek = (\<lambda>a. None), op_read = (\<lambda>a. None), op_write = (\<lambda>a. None),
     op_read_inode = (\<lambda>a. Some (\<lambda>ip s. Done (upd_inode ip (\<lambda>i. i\<lparr>i_mode := 0x41ED, i_nlink := 1, i_op := 1\<rparr>) s))),
     op_put_super = (\<lambda>a. None), minix_read_super = (\<lambda>sb s. Done (sb, s))\<rparr>"

definition one_disk :: vfs where
  "one_disk =
    \<lparr>sched = two_tasks, inode_table = (\<lambda>_. zero_inode), last_inode = 0,
     super_block = (\<lambda>sb. \<lparr>s_dev = (if sb = 1 then 0x301 else 0), s_covered = NULL, s_mounted = NULL, s_time = 0,
       s_lock = False, s_rd_only = False, s_dirt = False, s_op = 1\<rparr>),
     file_table = (\<lambda>_. \<lparr>f_mode = 0, f_flags = 0, f_count = 0, f_inode = NULL, f_op = NULL, f_pos = 0\<rparr>),
     ROOT_DEV = 0x301, naps = 0\<rparr>"

lemma one_disk_calm: "calm plain_kernel one_disk"
  by (simp add: calm_def one_disk_def zero_inode_def)

lemma plain_kernel_regular: "fs_regular plain_kernel"
  by (auto simp: fs_regular_def plain_kernel_def loaded_def
      intro: exI [of _ "\<lambda>i. i\<lparr>i_mode := 0x41ED, i_nlink := 1, i_op := 1\<rparr>"])

lemma one_disk_super: "find (\<lambda>sb. s_dev (super_block one_disk sb) = 0x301) super_ptrs = Some 1"
  by (simp add: super_ptrs_def one_disk_def upt_conv_Cons)

lemma plain_kernel_unique: "io_keeps keeps_unique plain_kernel"
proof -
  have "keeps_unique s (upd_inode ip (\<lambda>i. zero_inode) s)" for ip s
    by (auto simp: keeps_unique_def inodes_unique_def supers_unlocked_def is_inode_def zero_inode_def)
  then show ?thesis by (auto simp: io_keeps_def plain_kernel_def uniq.refl intro!: uniq.recounting)
qed

lemma one_disk_simps [simp]:
  "rounds plain_kernel = 2" "aways plain_kernel = []" "inode_table one_disk ip = zero_inode" "s_op (super_block one_disk sb) = 1"
  "last_inode one_disk = 0" "sched one_disk = two_tasks" "naps one_disk = 0"
  by (simp_all add: plain_kernel_def one_disk_def)

lemma iget_one_disk:
  "\<exists>t. iget plain_kernel 0x301 5 one_disk = Done (2, t) \<and> i_count (inode_table t 2) = 1 \<and> i_nlink (inode_table t 2) = 1 \<and>
    i_op (inode_table t 2) = 1 \<and> \<not> i_pipe (inode_table t 2) \<and> i_mode (inode_table t 2) = 0x41ED"
proof -
  let ?k = plain_kernel
  let ?s = "one_disk\<lparr>last_inode := Suc 0\<rparr>"
  define s1 where "s1 = upd_inode 2 (\<lambda>i. i\<lparr>i_count := 1\<rparr>) (clear_inode ?k 2 ?s)"
  have calm1: "calm ?k ?s" using one_disk_calm by (simp add: calm_def)
  have "scan_inodes 128 0 NULL one_disk = (1, 2)"
    using scan_inodes.simps(2) [of 127 0 NULL one_disk] by simp
  then have e: "get_empty_inode ?k one_disk = Done (2, s1)"
    by (simp add: get_empty_inode_def numeral_2_eq_2 calm1 s1_def split_def)
  have tab: "inode_table s1 ip = (if ip = 2 then zero_inode\<lparr>i_count := 1\<rparr> else zero_inode)" for ip
    by (simp add: s1_def clear_inode_def)
  have calm2: "calm ?k s1" using calm1 by (simp add: s1_def clear_inode_def calm_def)
  have none: "find (is_inode 0x301 5 s1) inode_ptrs = None" by (auto simp: find_None_iff is_inode_def tab)
  have sb: "super_block s1 = super_block one_disk" by (simp add: s1_def clear_inode_def)
  have get: "get_super ?k 0x301 s1 = Done (1, s1)"
    using calm2 one_disk_super by (subst get_super_unlocked) (auto simp: sb supers_unlocked_def calm_def)
  define s2 where "s2 = upd_inode 2 (\<lambda>i. i\<lparr>i_sb := 1, i_dev := 0x301, i_ino := 5\<rparr>) s1"
  have calm3: "calm ?k s2" unfolding s2_def by (rule calm_upd [OF calm2]) (simp add: tab)
  have "i_sb (inode_table s2 2) = 1" "super_block s2 = super_block one_disk" by (simp_all add: s2_def sb)
  then have rd: "read_inode ?k 2 s2 = Done (upd_inode 2 (\<lambda>i. i\<lparr>i_lock := True, i_mode := 0x41ED, i_nlink := 1, i_op := 1, i_lock := False\<rparr>) s2)"
    using calm3 by (simp add: read_inode_def calm_lock calm_unlock) (simp add: plain_kernel_def calm_unlock [unfolded plain_kernel_def])
  have "iget ?k 0x301 5 one_disk = Done (2, upd_inode 2 (\<lambda>i. i\<lparr>i_lock := True, i_mode := 0x41ED, i_nlink := 1, i_op := 1, i_lock := False\<rparr>) s2)"
    using rd by (simp add: iget_def e calm_search [OF calm2] none iget_new_def get s2_def del: search.simps)
  then show ?thesis by (simp add: s2_def tab)
qed

theorem iget_iput_witness:
  "\<exists>t u. iget plain_kernel 0x301 5 one_disk = Done (2, t) \<and> i_count (inode_table t 2) = 1 \<and>
     iput plain_kernel 2 t = Done u \<and> (\<forall>ip. i_count (inode_table u ip) = 0)"
proof -
  have "\<not> S_ISBLK 0x41ED" by (simp add: S_ISBLK_def)
  then show ?thesis
    using iget_iput [OF one_disk_calm plain_kernel_regular, of "0x301" 1 1 5] one_disk_super iget_one_disk
    by (auto simp: is_inode_def)
qed

theorem iget_unique_witness:
  "\<exists>t. iget plain_kernel 0x301 5 one_disk = Done (2, t) \<and> inodes_unique t \<and> supers_unlocked t"
proof -
  have "inodes_unique one_disk" "supers_unlocked one_disk"
    using one_disk_calm by (auto simp: inodes_unique_def supers_unlocked_def calm_def)
  from iget_unique [OF plain_kernel_unique this, of "0x301" 5] show ?thesis using iget_one_disk by auto
qed

end
