(* ===== verification/Path_Names.thy ===== *)
theory Path_Names
  imports Inodes
begin

text \<open>
  Path names (\<^verbatim>\<open>fs/namei.c\<close>): permissions, the walk along a path, and the system calls that hand the last component to the file
  system.  A path is the list of its bytes before the final zero.  The search in a directory, links and the creation of entries are
  operations of the file system, in \<open>K\<close>; \<open>minix_lookup\<close> is the one of the Minix file system, with the search for an entry
  of \<open>Minix_Dir\<close> as an argument.  Kept here as well: every walk gives back all the references it takes but the one it returns.
\<close>

section \<open>Model\<close>

abbreviation (input) ENOTDIR :: int where "ENOTDIR \<equiv> 20"
abbreviation (input) EXDEV :: int where "EXDEV \<equiv> 18"
abbreviation (input) EISDIR :: int where "EISDIR \<equiv> 21"
abbreviation (input) MAY_EXEC :: u16 where "MAY_EXEC \<equiv> 1"
abbreviation (input) MAY_WRITE :: u16 where "MAY_WRITE \<equiv> 2"
abbreviation (input) slash :: u8 where "slash \<equiv> 47"
abbreviation (input) dot :: u8 where "dot \<equiv> 46"

definition permission :: "ptr \<Rightarrow> u16 \<Rightarrow> vfs \<Rightarrow> bool" where
  "permission ip want s =
    (let i = inode_table s ip; mode = i_mode i in
     if i_dev i \<noteq> 0 \<and> i_nlink i = 0 then False
     else
       let mode = (if euid (cur (sched s)) = i_uid i then drop_bit 6 mode
                   else if in_group_p (i_gid i) (sched s) then drop_bit 3 mode else mode)
       in mode AND want AND 7 = want \<or> suser (sched s))"

text \<open>The result of \<^verbatim>\<open>lookup\<close> is the error code and \<^verbatim>\<open>*result\<close>.\<close>

definition lookup :: "kernel \<Rightarrow> ptr \<Rightarrow> path_name \<Rightarrow> vfs \<Rightarrow> (int \<times> ptr \<times> vfs) outcome" where
  "lookup K dir name s =
    then_do
      (if name = [dot, dot] then
         (if dir = root (cur (sched s)) then Done (dir, [dot], s)
          else
            let sb = i_sb (inode_table s dir) in
            if sb \<noteq> NULL \<and> dir = s_mounted (super_block s sb) then
              then_do (iput K dir s) (\<lambda>s.
                let dir = s_covered (super_block s sb)
                in Done (dir, name, if dir \<noteq> NULL then take_inode dir s else s))
            else Done (dir, name, s))
       else Done (dir, name, s))
      (\<lambda>(dir, name, s).
        if dir = NULL then Done (- ENOENT, NULL, s)
        else if \<not> permission dir MAY_EXEC s then then_do (iput K dir s) (\<lambda>s. Done (- EACCES, NULL, s))
        else if name = [] then Done (0, dir, s)
        else case (if i_op (inode_table s dir) = NULL then None else op_lookup K (i_op (inode_table s dir))) of
          None \<Rightarrow> then_do (iput K dir s) (\<lambda>s. Done (- ENOENT, NULL, s))
        | Some look \<Rightarrow> look dir name s)"

definition follow_link :: "kernel \<Rightarrow> ptr \<Rightarrow> ptr \<Rightarrow> vfs \<Rightarrow> (ptr \<times> vfs) outcome" where
  "follow_link K dir ip s =
    (if dir = NULL \<or> ip = NULL then
       then_do (iput K dir s) (\<lambda>s. then_do (iput K ip s) (\<lambda>s. Done (NULL, s)))
     else case (if i_op (inode_table s ip) = NULL then None else op_follow_link K (i_op (inode_table s ip))) of
       None \<Rightarrow> then_do (iput K dir s) (\<lambda>s. Done (ip, s))
     | Some follow \<Rightarrow> follow dir ip s)"

text \<open>The first loop of \<^verbatim>\<open>dir_namei\<close>: every leading slash goes back to the root.\<close>

fun skip_slashes :: "kernel \<Rightarrow> ptr \<Rightarrow> path_name \<Rightarrow> vfs \<Rightarrow> (ptr \<times> path_name \<times> vfs) outcome" where
  "skip_slashes K base [] s = Done (base, [], s)"
| "skip_slashes K base (c # pathname) s =
    (if c = slash then
       then_do (iput K base s) (\<lambda>s.
         let base = root (cur (sched s)) in skip_slashes K base pathname (take_inode base s))
     else Done (base, c # pathname, s))"

text \<open>The second loop; the result is the directory, or a null pointer, and the last component.\<close>

function dir_walk :: "kernel \<Rightarrow> ptr \<Rightarrow> path_name \<Rightarrow> vfs \<Rightarrow> (ptr \<times> path_name \<times> vfs) outcome" where
  "dir_walk K base pathname s =
    (let thisname = takeWhile (\<lambda>c. c \<noteq> slash) pathname in
     case dropWhile (\<lambda>c. c \<noteq> slash) pathname of
       [] \<Rightarrow> Done (base, thisname, s)
     | _ # rest \<Rightarrow>
         then_do (lookup K base thisname (take_inode base s)) (\<lambda>(err, ip, s).
           if err \<noteq> 0 then then_do (iput K base s) (\<lambda>s. Done (NULL, [], s))
           else then_do (follow_link K base ip s) (\<lambda>(base, s).
             if base = NULL then Done (NULL, [], s) else dir_walk K base rest s)))"
  by pat_completeness auto
termination
proof (relation "measure (\<lambda>(K, base, pathname, s). length pathname)")
  fix pathname rest :: path_name and x :: u8
  assume "dropWhile (\<lambda>c. c \<noteq> slash) pathname = x # rest"
  then have "length rest < length pathname" using length_dropWhile_le [of "\<lambda>c. c \<noteq> slash" pathname] by simp
  then show "((K' :: kernel, base' :: ptr, rest, s' :: vfs), K'' :: kernel, base'' :: ptr, pathname, s'' :: vfs)
      \<in> measure (\<lambda>(K, base, pathname, s). length pathname)" for K' base' s' K'' base'' s'' by simp
qed simp

definition dir_namei :: "kernel \<Rightarrow> path_name \<Rightarrow> ptr \<Rightarrow> vfs \<Rightarrow> (ptr \<times> path_name \<times> vfs) outcome" where
  "dir_namei K pathname base s =
    (let (base, s) = (if base = NULL then let base = pwd (cur (sched s)) in (base, take_inode base s) else (base, s)) in
     then_do (skip_slashes K base pathname s) (\<lambda>(base, pathname, s). dir_walk K base pathname s))"

definition namei_base :: "kernel \<Rightarrow> path_name \<Rightarrow> ptr \<Rightarrow> bool \<Rightarrow> vfs \<Rightarrow> (ptr \<times> vfs) outcome" where
  "namei_base K pathname base follow_links s =
    then_do (dir_namei K pathname base s) (\<lambda>(base, basename, s).
      if base = NULL then Done (NULL, s)
      else then_do (lookup K base basename (take_inode base s)) (\<lambda>(err, ip, s).
        if err \<noteq> 0 then then_do (iput K base s) (\<lambda>s. Done (NULL, s))
        else then_do (if follow_links then follow_link K base ip s else then_do (iput K base s) (\<lambda>s. Done (ip, s))) (\<lambda>(ip, s).
          Done (ip, if ip = NULL then s
                    else upd_inode ip (\<lambda>i. i\<lparr>i_atime := CURRENT_TIME (sched s), i_dirt := True\<rparr>) s))))"

definition lnamei :: "kernel \<Rightarrow> path_name \<Rightarrow> vfs \<Rightarrow> (ptr \<times> vfs) outcome" where
  "lnamei K pathname = namei_base K pathname NULL False"

definition namei :: "kernel \<Rightarrow> path_name \<Rightarrow> vfs \<Rightarrow> (ptr \<times> vfs) outcome" where
  "namei K pathname = namei_base K pathname NULL True"

text \<open>
  The system calls on directory entries share their beginning: find the directory, refuse an empty last component with \<open>noname\<close>, a
  directory that may not be written with \<open>noperm\<close>, and a file system without the operation with \<^verbatim>\<open>EPERM\<close>.
\<close>

definition dir_call :: "kernel \<Rightarrow> path_name \<Rightarrow> int \<Rightarrow> int \<Rightarrow> int \<Rightarrow> (ptr \<Rightarrow> 'f option) \<Rightarrow>
    ('f \<Rightarrow> ptr \<Rightarrow> path_name \<Rightarrow> vfs \<Rightarrow> (int \<times> vfs) outcome) \<Rightarrow> vfs \<Rightarrow> (int \<times> vfs) outcome" where
  "dir_call K pathname nodir noname noperm op run s =
    then_do (dir_namei K pathname NULL s) (\<lambda>(dir, basename, s).
      if dir = NULL then Done (- nodir, s)
      else if basename = [] then then_do (iput K dir s) (\<lambda>s. Done (- noname, s))
      else if \<not> permission dir MAY_WRITE s then then_do (iput K dir s) (\<lambda>s. Done (- noperm, s))
      else case (if i_op (inode_table s dir) = NULL then None else op (i_op (inode_table s dir))) of
        None \<Rightarrow> then_do (iput K dir s) (\<lambda>s. Done (- EPERM, s))
      | Some f \<Rightarrow> run f dir basename s)"

definition sys_mknod :: "kernel \<Rightarrow> path_name \<Rightarrow> int \<Rightarrow> int \<Rightarrow> vfs \<Rightarrow> (int \<times> vfs) outcome" where
  "sys_mknod K pathname mode dev s =
    (if \<not> suser (sched s) then Done (- EPERM, s)
     else dir_call K pathname ENOENT ENOENT EACCES (op_mknod K) (\<lambda>f dir name. f dir name mode dev) s)"

definition sys_mkdir :: "kernel \<Rightarrow> path_name \<Rightarrow> int \<Rightarrow> vfs \<Rightarrow> (int \<times> vfs) outcome" where
  "sys_mkdir K pathname mode = dir_call K pathname ENOENT ENOENT EPERM (op_mkdir K) (\<lambda>f dir name. f dir name mode)"

definition sys_rmdir :: "kernel \<Rightarrow> path_name \<Rightarrow> vfs \<Rightarrow> (int \<times> vfs) outcome" where
  "sys_rmdir K pathname = dir_call K pathname ENOENT ENOENT EACCES (op_rmdir K) (\<lambda>f dir name. f dir name)"

definition sys_unlink :: "kernel \<Rightarrow> path_name \<Rightarrow> vfs \<Rightarrow> (int \<times> vfs) outcome" where
  "sys_unlink K pathname = dir_call K pathname ENOENT EPERM EACCES (op_unlink K) (\<lambda>f dir name. f dir name)"

definition sys_symlink :: "kernel \<Rightarrow> path_name \<Rightarrow> path_name \<Rightarrow> vfs \<Rightarrow> (int \<times> vfs) outcome" where
  "sys_symlink K oldname newname = dir_call K newname EACCES EACCES EACCES (op_symlink K) (\<lambda>f dir name. f dir name oldname)"

definition iput_both :: "kernel \<Rightarrow> ptr \<Rightarrow> ptr \<Rightarrow> int \<Rightarrow> vfs \<Rightarrow> (int \<times> vfs) outcome" where
  "iput_both K ip jp r s = then_do (iput K ip s) (\<lambda>s. then_do (iput K jp s) (\<lambda>s. Done (r, s)))"

definition sys_link :: "kernel \<Rightarrow> path_name \<Rightarrow> path_name \<Rightarrow> vfs \<Rightarrow> (int \<times> vfs) outcome" where
  "sys_link K oldname newname s =
    then_do (namei K oldname s) (\<lambda>(old, s).
      if old = NULL then Done (- ENOENT, s)
      else then_do (dir_namei K newname NULL s) (\<lambda>(dir, basename, s).
        if dir = NULL then then_do (iput K old s) (\<lambda>s. Done (- EACCES, s))
        else if basename = [] then iput_both K old dir (- EPERM) s
        else if i_dev (inode_table s dir) \<noteq> i_dev (inode_table s old) then iput_both K dir old (- EXDEV) s
        else if \<not> permission dir MAY_WRITE s then iput_both K dir old (- EACCES) s
        else case (if i_op (inode_table s dir) = NULL then None else op_link K (i_op (inode_table s dir))) of
          None \<Rightarrow> iput_both K dir old (- EPERM) s
        | Some f \<Rightarrow> f old dir basename s))"

text \<open>
  \<^verbatim>\<open>open_namei\<close> still searches and extends directories itself, with the static functions of \<^verbatim>\<open>fs/namei.c\<close> and \<^verbatim>\<open>new_inode\<close>; they are
  arguments.  \<open>find_entry\<close> may move to another directory and gives the inode number of the entry, \<open>add_entry\<close> makes an entry with a
  number and says whether it could.  The test for \<^verbatim>\<open>O_CREAT\<close> is the one of the source, \<^verbatim>\<open>!flag & O_CREAT\<close>.
\<close>

record directories =
  find_entry :: "ptr \<Rightarrow> path_name \<Rightarrow> vfs \<Rightarrow> (ptr \<times> u16 option \<times> vfs) outcome"
  add_entry :: "ptr \<Rightarrow> path_name \<Rightarrow> u16 \<Rightarrow> vfs \<Rightarrow> (bool \<times> vfs) outcome"
  new_inode :: "u16 \<Rightarrow> vfs \<Rightarrow> (ptr \<times> vfs) outcome"

abbreviation (input) O_ACCMODE :: u32 where "O_ACCMODE \<equiv> 3"
abbreviation (input) O_WRONLY :: u32 where "O_WRONLY \<equiv> 1"
abbreviation (input) O_CREAT :: u32 where "O_CREAT \<equiv> 0x40"
abbreviation (input) O_EXCL :: u32 where "O_EXCL \<equiv> 0x80"
abbreviation (input) O_TRUNC :: u32 where "O_TRUNC \<equiv> 0x200"

definition ACC_MODE :: "u32 \<Rightarrow> u16" where
  "ACC_MODE flag = [4, 2, 6, 0xFFFF] ! unat (flag AND O_ACCMODE)"

definition open_create :: "kernel \<Rightarrow> directories \<Rightarrow> ptr \<Rightarrow> path_name \<Rightarrow> u32 \<Rightarrow> u16 \<Rightarrow> vfs \<Rightarrow> (int \<times> ptr \<times> vfs) outcome" where
  "open_create K D dir basename flag mode s =
    (if (if flag = 0 then 1 else 0) AND O_CREAT \<noteq> 0 then then_do (iput K dir s) (\<lambda>s. Done (- ENOENT, NULL, s))
     else if \<not> permission dir MAY_WRITE s then then_do (iput K dir s) (\<lambda>s. Done (- EACCES, NULL, s))
     else then_do (new_inode D (i_dev (inode_table s dir)) s) (\<lambda>(ip, s).
       if ip = NULL then then_do (iput K dir s) (\<lambda>s. Done (- ENOSPC, NULL, s))
       else
         let s = upd_inode ip (\<lambda>i. i\<lparr>i_uid := euid (cur (sched s)), i_mode := mode, i_dirt := True\<rparr>) s
         in then_do (add_entry D dir basename (i_ino (inode_table s ip)) s) (\<lambda>(made, s).
              if made then then_do (iput K dir s) (\<lambda>s. Done (0, ip, s))
              else
                then_do (iput K ip (upd_inode ip (\<lambda>i. i\<lparr>i_nlink := i_nlink i - 1\<rparr>) s)) (\<lambda>s.
                  then_do (iput K dir s) (\<lambda>s. Done (- ENOSPC, NULL, s))))))"

text \<open>The \<^verbatim>\<open>truncate\<close> of \<^verbatim>\<open>fs/truncate.c\<close> has an empty body.\<close>

definition truncate_inode :: "ptr \<Rightarrow> vfs \<Rightarrow> vfs" where
  "truncate_inode ip s = s"

declare truncate_inode_def [simp]

definition open_existing :: "kernel \<Rightarrow> ptr \<Rightarrow> u16 \<Rightarrow> u32 \<Rightarrow> vfs \<Rightarrow> (int \<times> ptr \<times> vfs) outcome" where
  "open_existing K dir inr flag s =
    (if flag AND O_EXCL \<noteq> 0 then then_do (iput K dir s) (\<lambda>s. Done (- EEXIST, NULL, s))
     else then_do (iget K (i_dev (inode_table s dir)) inr s) (\<lambda>(ip, s).
       then_do (follow_link K dir ip s) (\<lambda>(ip, s).
         if ip = NULL then Done (- EACCES, NULL, s)
         else if S_ISDIR (i_mode (inode_table s ip)) \<and> flag AND O_ACCMODE \<noteq> 0 \<or> \<not> permission ip (ACC_MODE flag) s
         then then_do (iput K ip s) (\<lambda>s. Done (- EPERM, NULL, s))
         else
           let s = upd_inode ip (\<lambda>i. i\<lparr>i_atime := CURRENT_TIME (sched s)\<rparr>) s
           in Done (0, ip, if flag AND O_TRUNC \<noteq> 0 then truncate_inode ip s else s))))"

definition open_namei :: "kernel \<Rightarrow> directories \<Rightarrow> path_name \<Rightarrow> u32 \<Rightarrow> u16 \<Rightarrow> vfs \<Rightarrow> (int \<times> ptr \<times> vfs) outcome" where
  "open_namei K D pathname flag mode s =
    (let flag = (if flag AND O_TRUNC \<noteq> 0 \<and> flag AND O_ACCMODE = 0 then flag OR O_WRONLY else flag);
         mode = (mode AND (0x1FF AND NOT (umask (cur (sched s))))) OR 0x8000
     in then_do (dir_namei K pathname NULL s) (\<lambda>(dir, basename, s).
       if dir = NULL then Done (- ENOENT, NULL, s)
       else if basename = [] then
         (if flag AND (O_ACCMODE OR O_CREAT OR O_TRUNC) = 0 then Done (0, dir, s)
          else then_do (iput K dir s) (\<lambda>s. Done (- EISDIR, NULL, s)))
       else then_do (find_entry D dir basename s) (\<lambda>(dir, entry, s).
         case entry of
           None \<Rightarrow> open_create K D dir basename flag mode s
         | Some inr \<Rightarrow> open_existing K dir inr flag s)))"

text \<open>
  \<open>look_up dir name s\<close> stands for the search in a directory of the Minix file system, which gives the inode number of the
  entry if there is one.
\<close>

definition minix_lookup :: "(ptr \<Rightarrow> path_name \<Rightarrow> vfs \<Rightarrow> (u16 option \<times> vfs) outcome) \<Rightarrow> kernel \<Rightarrow>
    ptr \<Rightarrow> path_name \<Rightarrow> vfs \<Rightarrow> (int \<times> ptr \<times> vfs) outcome" where
  "minix_lookup look_up K dir name s =
    (if dir = NULL then Done (- ENOENT, NULL, s)
     else if \<not> S_ISDIR (i_mode (inode_table s dir)) then then_do (iput K dir s) (\<lambda>s. Done (- ENOENT, NULL, s))
     else then_do (look_up dir name s) (\<lambda>(entry, s).
       case entry of
         None \<Rightarrow> then_do (iput K dir s) (\<lambda>s. Done (- ENOENT, NULL, s))
       | Some ino \<Rightarrow>
           then_do (iget K (i_dev (inode_table s dir)) ino s) (\<lambda>(ip, s).
             then_do (iput K dir s) (\<lambda>s. Done (if ip = NULL then - EACCES else 0, ip, s)))))"

section \<open>What path names keep\<close>

definition names_keep :: "(vfs \<Rightarrow> vfs \<Rightarrow> bool) \<Rightarrow> kernel \<Rightarrow> directories \<Rightarrow> bool" where
  "names_keep I K D \<longleftrightarrow> io_keeps I K \<and>
    (\<forall>a f dir name s. op_lookup K a = Some f \<longrightarrow> on_done (\<lambda>(e, ip, t). I s t) (f dir name s)) \<and>
    (\<forall>a f dir ip s. op_follow_link K a = Some f \<longrightarrow> on_done (\<lambda>(r, t). I s t) (f dir ip s)) \<and>
    (\<forall>dir name s. on_done (\<lambda>(d, e, t). I s t) (find_entry D dir name s)) \<and>
    (\<forall>dir name nr s. on_done (\<lambda>(m, t). I s t) (add_entry D dir name nr s)) \<and>
    (\<forall>dev s. on_done (\<lambda>(ip, t). I s t) (new_inode D dev s))"

lemma names_keepD:
  assumes "names_keep I K D"
  shows "io_keeps I K"
    and "op_lookup K a = Some f \<Longrightarrow> on_done (\<lambda>(e, ip, t). I s t) (f dir name s)"
    and "op_follow_link K a = Some g \<Longrightarrow> on_done (\<lambda>(r, t). I s t) (g dir ip s)"
    and "on_done (\<lambda>(d, e, t). I s t) (find_entry D dir name s)"
    and "on_done (\<lambda>(m, t). I s t) (add_entry D dir name nr s)"
    and "on_done (\<lambda>(ip, t). I s t) (new_inode D dev s)"
  using assms unfolding names_keep_def by blast+

declare dir_walk.simps [simp del]

context blind_steps
begin

lemma iput_now: "io_keeps I K \<Longrightarrow> I s t \<Longrightarrow> on_done (I s) (iput K ip t)"
  by (rule after_step [OF _ iput_keeps])

lemma iput_ret:
  assumes "io_keeps I K" "I s t" "\<And>u. I s u \<Longrightarrow> on_done Q (f u)"
  shows "on_done Q (then_do (iput K ip t) f)"
  by (rule on_done_then [OF iput_now [OF assms(1,2)]]) (rule assms(3))

lemma upd_now: "I s t \<Longrightarrow> I s (upd_inode ip f t)"
  by (erule trans) (rule rewriting)

lemma take_now: "I s t \<Longrightarrow> I s (take_inode ip t)"
  by (erule trans) (rule take_inode_keeps)

lemma pair_now: "I s t \<Longrightarrow> on_done (\<lambda>(x, u). I t u) r \<Longrightarrow> on_done (\<lambda>(x, u). I s u) r"
  by (rule after_step_pair)

lemma triple_now: "I s t \<Longrightarrow> on_done (\<lambda>(x, y, u). I t u) r \<Longrightarrow> on_done (\<lambda>(x, y, u). I s u) r"
  by (erule on_done_mono) (auto intro: trans)

lemma lookup_keeps:
  assumes K: "names_keep I K D" and t: "I s t"
  shows "on_done (\<lambda>(e, ip, u). I s u) (lookup K dir name t)"
proof -
  note io = names_keepD(1) [OF K]
  have look: "on_done (\<lambda>(e, ip, u). I s u) (f d n u)" if "op_lookup K a = Some f" "I s u" for a f d n u
    by (rule triple_now [OF that(2) names_keepD(2) [OF K that(1)]])
  have "on_done (\<lambda>(d, n, u). I s u)
      (if name = [dot, dot] then
         (if dir = root (cur (sched t)) then Done (dir, [dot], t)
          else
            let sb = i_sb (inode_table t dir) in
            if sb \<noteq> NULL \<and> dir = s_mounted (super_block t sb) then
              then_do (iput K dir t) (\<lambda>s.
                let dir = s_covered (super_block s sb)
                in Done (dir, name, if dir \<noteq> NULL then take_inode dir s else s))
            else Done (dir, name, t))
       else Done (dir, name, t))"
    using t by (auto simp: Let_def intro!: iput_ret [OF io] take_now)
  then show ?thesis
    unfolding lookup_def
    by (rule on_done_then) (auto split: option.split intro!: iput_ret [OF io] intro: look)
qed

lemma follow_link_keeps:
  assumes K: "names_keep I K D" and t: "I s t"
  shows "on_done (\<lambda>(r, u). I s u) (follow_link K dir ip t)"
  unfolding follow_link_def using t names_keepD(3) [OF K]
  by (auto split: option.split intro!: iput_ret [OF names_keepD(1) [OF K]] intro: pair_now)

lemma skip_slashes_keeps:
  assumes "io_keeps I K" "I s t"
  shows "on_done (\<lambda>(b, p, u). I s u) (skip_slashes K base pathname t)"
  using assms(2) by (induction pathname arbitrary: base t) (auto simp: Let_def intro!: iput_ret [OF assms(1)] take_now)

lemma dir_walk_keeps:
  assumes K: "names_keep I K D" and t: "I s t"
  shows "on_done (\<lambda>(b, name, u). I s u) (dir_walk K base pathname t)"
  using t
proof (induction "length pathname" arbitrary: base pathname t rule: less_induct)
  case less
  show ?case
  proof (cases "dropWhile (\<lambda>c. c \<noteq> slash) pathname")
    case Nil
    show ?thesis using less.prems unfolding dir_walk.simps [of K base pathname] Nil by simp
  next
    case (Cons c rest)
    have "length rest < length pathname"
      using Cons length_dropWhile_le [of "\<lambda>c. c \<noteq> slash" pathname] by simp
    note IH = less.hyps [OF this]
    show ?thesis
      unfolding dir_walk.simps [of K base pathname] Cons Let_def list.case
      by (rule on_done_then [OF lookup_keeps [OF K take_now [OF less.prems]]])
        (auto intro!: iput_ret [OF names_keepD(1) [OF K]] on_done_then [OF follow_link_keeps [OF K]] IH)
  qed
qed

lemma dir_namei_keeps:
  assumes K: "names_keep I K D" and t: "I s t"
  shows "on_done (\<lambda>(b, name, u). I s u) (dir_namei K pathname base t)"
  unfolding dir_namei_def Let_def using t
  by (auto intro!: on_done_then [OF skip_slashes_keeps [OF names_keepD(1) [OF K]]] dir_walk_keeps [OF K] take_now)

lemma namei_base_keeps:
  assumes K: "names_keep I K D" and t: "I s t"
  shows "on_done (\<lambda>(ip, u). I s u) (namei_base K pathname base follow_links t)"
proof -
  have "on_done (\<lambda>(ip, u). I s u) (then_do (if follow_links then follow_link K b ip u else then_do (iput K b u) (\<lambda>s. Done (ip, s)))
      (\<lambda>(ip, s). Done (ip, if ip = NULL then s
                    else upd_inode ip (\<lambda>i. i\<lparr>i_atime := CURRENT_TIME (sched s), i_dirt := True\<rparr>) s)))" if "I s u" for b ip u
    using that
    by (cases follow_links)
      (auto simp: then_do_assoc intro!: on_done_then [OF follow_link_keeps [OF K that]] iput_ret [OF names_keepD(1) [OF K]] upd_now)
  then show ?thesis
    unfolding namei_base_def
    by (intro on_done_then [OF dir_namei_keeps [OF K t]])
      (auto intro!: on_done_then [OF lookup_keeps [OF K]] iput_ret [OF names_keepD(1) [OF K]] take_now)
qed

lemma open_create_keeps:
  assumes K: "names_keep I K D" and t: "I s t"
  shows "on_done (\<lambda>(e, ip, u). I s u) (open_create K D dir basename flag mode t)"
proof -
  note io = names_keepD(1) [OF K]
  have made: "on_done (\<lambda>(m, v). I s v) (add_entry D d n nr u)" if "I s u" for d n nr u
    by (rule pair_now [OF that names_keepD(5) [OF K]])
  have new: "on_done (\<lambda>(ip, v). I s v) (new_inode D dev t)" for dev
    by (rule pair_now [OF t names_keepD(6) [OF K]])
  show ?thesis
    unfolding open_create_def Let_def using t
    by (auto intro!: on_done_then [OF new] on_done_then [OF made] iput_ret [OF io] upd_now)
qed

lemma open_existing_keeps:
  assumes K: "names_keep I K D" and t: "I s t"
  shows "on_done (\<lambda>(e, ip, u). I s u) (open_existing K dir inr flag t)"
  unfolding open_existing_def using t
  by (auto simp: Let_def intro!: on_done_then [OF pair_now [OF t iget_keeps [OF names_keepD(1) [OF K]]]] on_done_then [OF follow_link_keeps [OF K]]
      iput_ret [OF names_keepD(1) [OF K]] upd_now)

lemma open_namei_keeps:
  assumes K: "names_keep I K D"
  shows "on_done (\<lambda>(e, ip, u). I s u) (open_namei K D pathname flag mode s)"
proof -
  have find: "on_done (\<lambda>(d, e, v). I s v) (find_entry D d n u)" if "I s u" for d n u
    by (rule triple_now [OF that names_keepD(4) [OF K]])
  show ?thesis
    unfolding open_namei_def Let_def
    by (rule on_done_then [OF dir_namei_keeps [OF K refl]])
      (auto split: option.split intro!: on_done_then [OF find] iput_ret [OF names_keepD(1) [OF K]]
        open_create_keeps [OF K] open_existing_keeps [OF K])
qed

end

section \<open>References are balanced\<close>

text \<open>
  In an undisturbed system \<open>held K s d t\<close> says that the state is \<open>t\<close> and the running call holds \<open>d ip\<close> more references to \<open>ip\<close> than in
  \<open>s\<close>.  A deleted inode must have a \<^verbatim>\<open>put_inode\<close> operation, for otherwise \<^verbatim>\<open>iput\<close> keeps the last reference.
\<close>

definition one :: "ptr \<Rightarrow> ptr \<Rightarrow> u16" where
  "one ip j = (if j = ip then 1 else 0)"

definition releasable :: "kernel \<Rightarrow> vfs_inode \<Rightarrow> bool" where
  "releasable K i \<longleftrightarrow> (i_dev i \<noteq> 0 \<and> i_nlink i = 0 \<longrightarrow> i_op i \<noteq> NULL \<and> op_put_inode K (i_op i) \<noteq> None)"

definition tidy :: "kernel \<Rightarrow> vfs \<Rightarrow> bool" where
  "tidy K s \<longleftrightarrow> calm K s \<and> (\<forall>ip. releasable K (inode_table s ip)) \<and>
     (\<forall>sb. s_dev (super_block s sb) \<noteq> 0 \<longrightarrow> s_op (super_block s sb) \<noteq> NULL)"

definition held :: "kernel \<Rightarrow> vfs \<Rightarrow> (ptr \<Rightarrow> u16) \<Rightarrow> vfs \<Rightarrow> bool" where
  "held K s d t \<longleftrightarrow> tidy K t \<and> (\<forall>j. j \<noteq> NULL \<longrightarrow> count_of t j = count_of s j + d j)"

text \<open>What the rest of the kernel and the file system keep of this, each operation on its own.\<close>

definition storage_conserves :: "kernel \<Rightarrow> bool" where
  "storage_conserves K \<longleftrightarrow> fs_regular K \<and>
    (\<forall>dev t. tidy K t \<longrightarrow> on_done (\<lambda>u. tidy K u \<and> inode_table u = inode_table t) (sync_buffers K dev t)) \<and>
    (\<forall>pg t. tidy K t \<longrightarrow> held K t (\<lambda>_. 0) (free_page K pg t)) \<and>
    (\<forall>a put ip t. op_put_inode K a = Some put \<and> tidy K t \<and> count_of t ip = 1 \<longrightarrow>
       on_done (held K t (\<lambda>j. - one ip j)) (put ip t)) \<and>
    (\<forall>a rd ip t. op_read_inode K a = Some rd \<longrightarrow> on_done (\<lambda>u. releasable K (inode_table u ip)) (rd ip t))"

definition names_conserve :: "kernel \<Rightarrow> bool" where
  "names_conserve K \<longleftrightarrow>
    (\<forall>a look dir name t. op_lookup K a = Some look \<and> tidy K t \<longrightarrow>
       on_done (\<lambda>(err, ip, u). held K t (\<lambda>j. (if err = 0 then one ip j else 0) - one dir j) u) (look dir name t)) \<and>
    (\<forall>a follow dir ip t. op_follow_link K a = Some follow \<and> tidy K t \<longrightarrow>
       on_done (\<lambda>(r, u). held K t (\<lambda>j. one r j - one ip j - one dir j) u) (follow dir ip t))"

lemma one_NULL [simp]: "j \<noteq> NULL \<Longrightarrow> one NULL j = 0"
  by (simp add: one_def)

lemma held_refl: "tidy K s \<Longrightarrow> held K s (\<lambda>_. 0) s"
  by (simp add: held_def)

lemma held_trans: "held K s d t \<Longrightarrow> held K t e u \<Longrightarrow> held K s (\<lambda>j. d j + e j) u"
  by (auto simp: held_def algebra_simps)

lemma held_cong: "held K s d t \<Longrightarrow> (\<And>j. j \<noteq> NULL \<Longrightarrow> d j = e j) \<Longrightarrow> held K s e t"
  by (auto simp: held_def)

lemma held_on_done: "held K s d t \<Longrightarrow> on_done (held K t e) r \<Longrightarrow> on_done (held K s (\<lambda>j. d j + e j)) r"
  by (erule on_done_mono) (rule held_trans)

lemma held_tidy: "held K s d t \<Longrightarrow> tidy K t"
  by (simp add: held_def)

lemma tidy_upd:
  assumes "tidy K s" "\<not> i_lock (f (inode_table s ip))" "releasable K (f (inode_table s ip))"
  shows "tidy K (upd_inode ip f s)"
  using assms by (auto simp: tidy_def intro: calm_upd)

lemma tidy_recount:
  assumes "tidy K s" "\<And>i. i_dev (f i) = i_dev i \<and> i_nlink (f i) = i_nlink i \<and> i_op (f i) = i_op i \<and> i_lock (f i) = i_lock i"
  shows "tidy K (upd_inode ip f s)"
  by (rule tidy_upd [OF assms(1)]) (use assms in \<open>auto simp: tidy_def calm_def releasable_def\<close>)

lemma held_take: "held K s d t \<Longrightarrow> held K s (\<lambda>j. d j + one ip j) (take_inode ip t)"
  unfolding held_def take_inode_def by (auto simp: one_def intro!: tidy_recount)

lemma held_drop: "tidy K t \<Longrightarrow> held K t (\<lambda>j. - one ip j) (drop_inode ip t)"
  unfolding held_def drop_inode_def by (auto simp: one_def intro!: tidy_recount)

lemma tidy_calm: "tidy K s \<Longrightarrow> calm K s"
  by (simp add: tidy_def)

lemma tidy_write_inode:
  assumes K: "storage_conserves K" and s: "tidy K s"
  obtains b where "write_inode K ip s = Done (upd_inode ip (\<lambda>i. i\<lparr>i_dirt := b\<rparr>) s)"
proof (cases "i_op (inode_table s ip) = NULL \<or> i_dev (inode_table s ip) = 0")
  case True
  have "\<not> i_lock (inode_table s ip)" using s by (simp add: tidy_def calm_def)
  then have "upd_inode ip (\<lambda>i. i\<lparr>i_lock := False\<rparr>) s = upd_inode ip (\<lambda>i. i\<lparr>i_dirt := i_dirt (inode_table s ip)\<rparr>) s"
    by (intro upd_inode_cong) simp
  then show thesis
    using True tidy_calm [OF s] by (intro that [of "i_dirt (inode_table s ip)"]) (auto simp: write_inode_def calm_lock calm_unlock)
next
  case False
  then show thesis using calm_write_inode [OF tidy_calm [OF s], of ip] K by (intro that [of False]) (simp add: storage_conserves_def)
qed

text \<open>Writing back changes no entry but for its dirty flag.\<close>

definition cleaned :: "kernel \<Rightarrow> vfs \<Rightarrow> vfs \<Rightarrow> bool" where
  "cleaned K s t \<longleftrightarrow> tidy K t \<and> (\<forall>j. (inode_table t j)\<lparr>i_dirt := False\<rparr> = (inode_table s j)\<lparr>i_dirt := False\<rparr>)"

lemma cleaned_refl: "tidy K s \<Longrightarrow> cleaned K s s"
  by (simp add: cleaned_def)

lemma cleaned_trans: "cleaned K s t \<Longrightarrow> cleaned K t u \<Longrightarrow> cleaned K s u"
  by (simp add: cleaned_def)

lemma cleaned_then:
  assumes "on_done (cleaned K s) r" "\<And>t. tidy K t \<Longrightarrow> on_done (cleaned K t) (f t)"
  shows "on_done (cleaned K s) (then_do r f)"
proof (rule on_done_then [OF assms(1)])
  fix t assume t: "cleaned K s t"
  then show "on_done (cleaned K s) (f t)"
    by (intro on_done_mono [OF assms(2)]) (auto intro: cleaned_trans, simp add: cleaned_def)
qed

lemma write_inode_cleaned:
  assumes K: "storage_conserves K" and s: "tidy K s"
  shows "on_done (cleaned K s) (write_inode K ip s)"
proof -
  obtain b where "write_inode K ip s = Done (upd_inode ip (\<lambda>i. i\<lparr>i_dirt := b\<rparr>) s)" by (rule tidy_write_inode [OF K s])
  moreover have "tidy K (upd_inode ip (\<lambda>i. i\<lparr>i_dirt := b\<rparr>) s)" by (rule tidy_recount [OF s]) simp
  ultimately show ?thesis by (simp add: cleaned_def)
qed

lemma for_each_cleaned:
  assumes "\<And>x t. tidy K t \<Longrightarrow> on_done (cleaned K t) (f x t)" "tidy K s"
  shows "on_done (cleaned K s) (for_each f xs s)"
  using assms(2) by (induction xs arbitrary: s) (auto simp: cleaned_refl intro!: cleaned_then assms(1))

lemma sync_dev_cleaned:
  assumes K: "storage_conserves K" and s: "tidy K s"
  shows "on_done (cleaned K s) (sync_dev K dev s)"
proof -
  have buf: "on_done (cleaned K t) (sync_buffers K dev t)" if "tidy K t" for t
  proof (rule on_done_mono)
    show "on_done (\<lambda>u. tidy K u \<and> inode_table u = inode_table t) (sync_buffers K dev t)"
      using K that by (simp add: storage_conserves_def)
  qed (use cleaned_refl [OF that] in \<open>auto simp: cleaned_def\<close>)
  have ino: "on_done (cleaned K t) (sync_inodes K t)" if "tidy K t" for t
    unfolding sync_inodes_def using that
    by (intro for_each_cleaned) (simp_all add: tidy_calm write_inode_cleaned [OF K] cleaned_refl)
  show ?thesis unfolding sync_dev_def by (intro cleaned_then buf ino s)
qed

lemma cleaned_dev:
  assumes "cleaned K s t"
  shows "i_dev (inode_table t j) = i_dev (inode_table s j)" "count_of t j = count_of s j"
proof -
  have same: "(inode_table t j)\<lparr>i_dirt := False\<rparr> = (inode_table s j)\<lparr>i_dirt := False\<rparr>" using assms by (simp add: cleaned_def)
  from arg_cong [OF same, of i_dev] arg_cong [OF same, of i_count]
  show "i_dev (inode_table t j) = i_dev (inode_table s j)" "count_of t j = count_of s j" by simp_all
qed

lemma cleaned_held: "cleaned K s t \<Longrightarrow> held K s (\<lambda>_. 0) t"
  by (simp add: held_def cleaned_dev [of K s t]) (simp add: cleaned_def)

lemma iput_repeat_held:
  assumes K: "storage_conserves K" and s: "tidy K s" "count_of s ip \<noteq> 0" "i_dev (inode_table s ip) \<noteq> 0" "ip \<noteq> NULL"
  shows "on_done (held K s (\<lambda>j. - one ip j)) (iput_repeat n K ip s)"
  using s
proof (induction n arbitrary: s)
  case 0
  then show ?case by simp
next
  case (Suc n)
  consider (many) "count_of s ip > 1" | (dead) "count_of s ip = 1" "i_nlink (inode_table s ip) = 0"
    | (clean) "count_of s ip = 1" "i_nlink (inode_table s ip) \<noteq> 0" "\<not> i_dirt (inode_table s ip)"
    | (dirty) "count_of s ip = 1" "i_nlink (inode_table s ip) \<noteq> 0" "i_dirt (inode_table s ip)"
    using inc_le [of 0 "count_of s ip"] Suc.prems(2) by (force simp: word_gt_0)
  then show ?case
  proof cases
    case dead
    then have "releasable K (inode_table s ip)" using Suc.prems by (simp add: tidy_def)
    with dead Suc.prems obtain put where "i_op (inode_table s ip) \<noteq> NULL" "op_put_inode K (i_op (inode_table s ip)) = Some put"
      by (auto simp: releasable_def)
    then show ?thesis using dead Suc.prems K by (simp add: storage_conserves_def)
  next
    case dirty
    obtain b where w: "write_inode K ip s = Done (upd_inode ip (\<lambda>i. i\<lparr>i_dirt := b\<rparr>) s)"
      by (rule tidy_write_inode [OF K Suc.prems(1)])
    let ?t = "upd_inode ip (\<lambda>i. i\<lparr>i_dirt := b\<rparr>) s"
    have t: "held K s (\<lambda>_. 0) ?t" using Suc.prems(1) by (auto simp: held_def intro!: tidy_recount)
    have "on_done (held K ?t (\<lambda>j. - one ip j)) (iput_repeat n K ip ?t)"
      by (rule Suc.IH [OF held_tidy [OF t]]) (use Suc.prems in auto)
    from held_on_done [OF t this] show ?thesis using dirty by (simp add: w tidy_calm [OF held_tidy [OF t]])
  qed (simp_all add: held_drop Suc.prems)
qed

lemma tidy_wake: "calm K s \<Longrightarrow> wake_waiters (i_wait K ip) s = Done s \<and> wake_waiters (i_wait2 K ip) s = Done s"
  by (simp add: wake_waiters_def wake_up_def calm_def)

lemma iput_tidy:
  assumes K: "storage_conserves K" and s: "tidy K s"
  shows "on_done (held K s (\<lambda>j. - one ip j)) (iput K ip s)"
proof -
  consider (null) "ip = NULL" | (free) "ip \<noteq> NULL" "count_of s ip = 0"
    | (pipe) "ip \<noteq> NULL" "count_of s ip \<noteq> 0" "i_pipe (inode_table s ip)"
    | (nodev) "ip \<noteq> NULL" "count_of s ip \<noteq> 0" "\<not> i_pipe (inode_table s ip)" "i_dev (inode_table s ip) = 0"
    | (disk) "ip \<noteq> NULL" "count_of s ip \<noteq> 0" "\<not> i_pipe (inode_table s ip)" "i_dev (inode_table s ip) \<noteq> 0"
    by blast
  then show ?thesis
  proof cases
    case null
    then show ?thesis using s by (auto simp: iput_def intro: held_cong [OF held_refl])
  next
    case pipe
    let ?d = "drop_inode ip s"
    have d: "held K s (\<lambda>j. - one ip j) ?d" by (rule held_drop [OF s])
    have f: "held K ?d (\<lambda>_. 0) (free_page K pg ?d)" for pg
      using K held_tidy [OF d] by (simp add: storage_conserves_def)
    let ?z = "upd_inode ip (\<lambda>i. i\<lparr>i_count := 0, i_dirt := False, i_pipe := False\<rparr>)"
    have "held K s (\<lambda>j. - one ip j) (?z (free_page K pg ?d))" if "count_of ?d ip = 0" for pg
    proof -
      have "held K (free_page K pg ?d) (\<lambda>_. 0) (?z (free_page K pg ?d))"
        using f [of pg] that pipe(1) by (auto simp: held_def intro!: tidy_recount)
      from held_trans [OF held_trans [OF d f] this] show ?thesis by simp
    qed
    then show ?thesis
      using pipe d by (simp add: iput_def iput_pipe_def tidy_calm [OF s] tidy_wake Let_def)
  next
    case nodev
    then show ?thesis by (simp add: iput_def tidy_calm [OF s] held_drop [OF s])
  next
    case disk
    have "on_done (cleaned K s) (if S_ISBLK (i_mode (inode_table s ip))
        then then_do (sync_dev K (i_rdev (inode_table s ip)) s) (wait_on_inode K ip) else Done s)"
      using s by (auto simp: cleaned_refl tidy_calm intro!: cleaned_then sync_dev_cleaned [OF K])
    then have "on_done (held K s (\<lambda>j. - one ip j)) (then_do (if S_ISBLK (i_mode (inode_table s ip))
        then then_do (sync_dev K (i_rdev (inode_table s ip)) s) (wait_on_inode K ip) else Done s) (iput_repeat (rounds K) K ip))"
    proof (rule on_done_then)
      fix t assume t: "cleaned K s t"
      then have "on_done (held K t (\<lambda>j. - one ip j)) (iput_repeat (rounds K) K ip t)"
        using disk t cleaned_dev [OF t] by (intro iput_repeat_held [OF K]) (auto simp: cleaned_def)
      from held_on_done [OF cleaned_held [OF t] this]
      show "on_done (held K s (\<lambda>j. - one ip j)) (iput_repeat (rounds K) K ip t)" by simp
    qed
    with disk show ?thesis by (simp add: iput_def tidy_calm [OF s])
  qed (simp add: iput_def tidy_calm [OF s])
qed

lemma iput_held:
  assumes "storage_conserves K" "held K s d t"
  shows "on_done (held K s (\<lambda>j. d j - one ip j)) (iput K ip t)"
  using held_on_done [OF assms(2) iput_tidy [OF assms(1) held_tidy [OF assms(2)]]] by simp

text \<open>Giving an inode back and returning a constant result.\<close>

lemma iput_return:
  assumes "storage_conserves K" "held K s d t" "\<And>u. held K s (\<lambda>j. d j - one ip j) u \<Longrightarrow> Q (g u)"
  shows "on_done Q (then_do (iput K ip t) (\<lambda>u. Done (g u)))"
  by (rule on_done_then [OF iput_held [OF assms(1,2)]]) (simp add: assms(3))

lemma on_done_held:
  assumes "held K s d t" "on_done (\<lambda>(x, u). held K t (e x) u) r"
  shows "on_done (\<lambda>(x, u). held K s (\<lambda>j. d j + e x j) u) r"
  by (rule on_done_mono [OF assms(2)]) (use assms(1) held_trans in blast)

lemma lookup_held:
  assumes K: "storage_conserves K" "names_conserve K" and t: "held K s d t"
  shows "on_done (\<lambda>(err, ip, u). held K s (\<lambda>j. d j + (if err = 0 then one ip j else 0) - one dir j) u) (lookup K dir name t)"
proof -
  let ?Q = "\<lambda>(err, ip, u). held K s (\<lambda>j. d j + (if err = 0 then one ip j else 0) - one dir j) u"
  have start: "on_done (\<lambda>(dir', name', u). held K s (\<lambda>j. d j + one dir' j - one dir j) u)
      (if name = [dot, dot] then
         (if dir = root (cur (sched t)) then Done (dir, [dot], t)
          else
            let sb = i_sb (inode_table t dir) in
            if sb \<noteq> NULL \<and> dir = s_mounted (super_block t sb) then
              then_do (iput K dir t) (\<lambda>s.
                let dir = s_covered (super_block s sb)
                in Done (dir, name, if dir \<noteq> NULL then take_inode dir s else s))
            else Done (dir, name, t))
       else Done (dir, name, t))"
  proof -
    have up: "held K s (\<lambda>j. d j + one c j - one dir j) (if c \<noteq> NULL then take_inode c a else a)"
      if "held K s (\<lambda>j. d j - one dir j) a" for a c
      by (rule held_cong [where d = "\<lambda>j. (d j - one dir j) + one c j"])
        (use held_take [OF that, of c] that in \<open>auto elim: held_cong simp: algebra_simps\<close>)
    show ?thesis
      using t up unfolding Let_def by (auto intro!: on_done_then [OF iput_held [OF K(1) t, of dir]])
  qed
  show ?thesis
    unfolding lookup_def
  proof (rule on_done_then [OF start], clarify)
    fix dir' name' u
    assume u: "held K s (\<lambda>j. d j + one dir' j - one dir j) u"
    have returned: "held K s (\<lambda>j. d j - one dir j) v" if "held K s (\<lambda>j. d j + one dir' j - one dir j - one dir' j) v" for v
      by (rule held_cong [OF that]) simp
    have look: "on_done ?Q (f dir' name' u)" if f: "op_lookup K a = Some f" for f a
    proof -
      have "on_done (\<lambda>(err, ip, v). held K u (\<lambda>j. (if err = 0 then one ip j else 0) - one dir' j) v) (f dir' name' u)"
        using K(2) f held_tidy [OF u] unfolding names_conserve_def by blast
      then show ?thesis
        by (rule on_done_mono) (auto dest!: held_trans [OF u] elim!: held_cong simp: algebra_simps)
    qed
    have fail: "on_done ?Q (then_do (iput K dir' u) (\<lambda>s. Done (e, NULL, s)))" if "e \<noteq> 0" for e
      by (rule iput_return [OF K(1) u]) (use returned that in auto)
    show "on_done ?Q (if dir' = NULL then Done (- ENOENT, NULL, u)
        else if \<not> permission dir' MAY_EXEC u then then_do (iput K dir' u) (\<lambda>s. Done (- EACCES, NULL, s))
        else if name' = [] then Done (0, dir', u)
        else case (if i_op (inode_table u dir') = NULL then None else op_lookup K (i_op (inode_table u dir'))) of
          None \<Rightarrow> then_do (iput K dir' u) (\<lambda>s. Done (- ENOENT, NULL, s))
        | Some look \<Rightarrow> look dir' name' u)"
      using u by (auto split: option.split elim: held_cong intro!: fail intro: look)
  qed
qed

lemma follow_link_held:
  assumes K: "storage_conserves K" "names_conserve K" and t: "held K s d t"
  shows "on_done (\<lambda>(r, u). held K s (\<lambda>j. d j + one r j - one ip j - one dir j) u) (follow_link K dir ip t)"
proof -
  have op: "on_done (\<lambda>(r, u). held K s (\<lambda>j. d j + one r j - one ip j - one dir j) u) (f dir ip t)"
    if f: "op_follow_link K a = Some f" for f a
  proof -
    have "on_done (\<lambda>(r, u). held K t (\<lambda>j. one r j - one ip j - one dir j) u) (f dir ip t)"
      using K(2) f held_tidy [OF t] unfolding names_conserve_def by blast
    from on_done_held [OF t this] show ?thesis by (rule on_done_mono) (auto elim!: held_cong simp: algebra_simps)
  qed
  show ?thesis
    unfolding follow_link_def using op
    by (auto split: option.split intro!: on_done_then [OF iput_held [OF K(1) t]] iput_return [OF K(1)]
        elim: held_cong simp: algebra_simps)
qed

lemma skip_slashes_held:
  assumes K: "storage_conserves K" and t: "held K s (\<lambda>j. d j + one base j) t"
  shows "on_done (\<lambda>(b, p, u). held K s (\<lambda>j. d j + one b j) u) (skip_slashes K base pathname t)"
  using t
proof (induction pathname arbitrary: base t)
  case Nil
  then show ?case by simp
next
  case (Cons c pathname)
  show ?case
  proof (cases "c = slash")
    case True
    have "on_done (\<lambda>(b, p, u). held K s (\<lambda>j. d j + one b j) u) (then_do (iput K base t) (\<lambda>s.
        let base = root (cur (sched s)) in skip_slashes K base pathname (take_inode base s)))"
      unfolding Let_def
    proof (rule on_done_then [OF iput_held [OF K Cons.prems]])
      fix u assume "held K s (\<lambda>j. d j + one base j - one base j) u"
      then have "held K s d u" by (rule held_cong) simp
      then show "on_done (\<lambda>(b, p, u). held K s (\<lambda>j. d j + one b j) u)
          (skip_slashes K (root (cur (sched u))) pathname (take_inode (root (cur (sched u))) u))"
        by (intro Cons.IH held_take)
    qed
    with True show ?thesis by simp
  qed (use Cons.prems in simp)
qed

lemma dir_walk_held:
  assumes K: "storage_conserves K" "names_conserve K" and t: "held K s (\<lambda>j. d j + one base j) t"
  shows "on_done (\<lambda>(b, name, u). held K s (\<lambda>j. d j + one b j) u) (dir_walk K base pathname t)"
  using t
proof (induction "length pathname" arbitrary: base pathname t rule: less_induct)
  case less
  let ?Q = "\<lambda>(b, name, u). held K s (\<lambda>j. d j + one b j) u"
  show ?case
  proof (cases "dropWhile (\<lambda>c. c \<noteq> slash) pathname")
    case Nil
    show ?thesis using less.prems unfolding dir_walk.simps [of K base pathname] Nil by simp
  next
    case (Cons c rest)
    have short: "length rest < length pathname"
      using Cons length_dropWhile_le [of "\<lambda>c. c \<noteq> slash" pathname] by simp
    let ?name = "takeWhile (\<lambda>c. c \<noteq> slash) pathname"
    have "on_done ?Q (then_do (lookup K base ?name (take_inode base t)) (\<lambda>(err, ip, s).
           if err \<noteq> 0 then then_do (iput K base s) (\<lambda>s. Done (NULL, [], s))
           else then_do (follow_link K base ip s) (\<lambda>(base, s).
             if base = NULL then Done (NULL, [], s) else dir_walk K base rest s)))"
    proof (rule on_done_then [OF lookup_held [OF K held_take [OF less.prems]]], clarify)
      fix err ip u
      assume "held K s (\<lambda>j. d j + one base j + one base j + (if err = 0 then one ip j else 0) - one base j) u"
      then have u: "held K s (\<lambda>j. d j + one base j + (if err = 0 then one ip j else 0)) u" by (rule held_cong) simp
      show "on_done ?Q (if err \<noteq> 0 then then_do (iput K base u) (\<lambda>s. Done (NULL, [], s))
           else then_do (follow_link K base ip u) (\<lambda>(base, s). if base = NULL then Done (NULL, [], s) else dir_walk K base rest s))"
      proof (cases "err = 0")
        case False
        then show ?thesis using u by (auto intro!: iput_return [OF K(1) u] elim!: held_cong)
      next
        case True
        have "on_done ?Q (then_do (follow_link K base ip u) (\<lambda>(base, s). if base = NULL then Done (NULL, [], s) else dir_walk K base rest s))"
        proof (rule on_done_then [OF follow_link_held [OF K u]], clarify)
          fix b v
          assume "held K s (\<lambda>j. d j + one base j + (if err = 0 then one ip j else 0) + one b j - one ip j - one base j) v"
          then have v: "held K s (\<lambda>j. d j + one b j) v" by (rule held_cong) (use True in simp)
          then show "on_done ?Q (if b = NULL then Done (NULL, [], v) else dir_walk K b rest v)"
            using less.hyps [OF short v] by (cases "b = NULL") simp_all
        qed
        with True show ?thesis by simp
      qed
    qed
    then show ?thesis unfolding dir_walk.simps [of K base pathname] Cons Let_def by simp
  qed
qed

lemma dir_namei_held:
  assumes K: "storage_conserves K" "names_conserve K" and t: "held K s (\<lambda>j. d j + one base j) t"
  shows "on_done (\<lambda>(b, name, u). held K s (\<lambda>j. d j + one b j) u) (dir_namei K pathname base t)"
proof -
  have walk: "on_done (\<lambda>(b, name, u). held K s (\<lambda>j. d j + one b j) u)
      (then_do (skip_slashes K b pathname v) (\<lambda>(base, pathname, s). dir_walk K base pathname s))"
    if "held K s (\<lambda>j. d j + one b j) v" for b v
    by (rule on_done_then [OF skip_slashes_held [OF K(1) that]]) (auto intro!: dir_walk_held K)
  show ?thesis
  proof (cases "base = NULL")
    case True
    have "held K s d t" by (rule held_cong [OF t]) (simp add: True)
    from walk [OF held_take [OF this]] show ?thesis by (simp add: dir_namei_def True Let_def)
  next
    case False
    with walk [OF t] show ?thesis by (simp add: dir_namei_def)
  qed
qed

lemma namei_base_held:
  assumes K: "storage_conserves K" "names_conserve K" and t: "held K s (\<lambda>j. d j + one base j) t"
  shows "on_done (\<lambda>(ip, u). held K s (\<lambda>j. d j + one ip j) u) (namei_base K pathname base follow_links t)"
proof -
  let ?Q = "\<lambda>(ip, u). held K s (\<lambda>j. d j + one ip j) u"
  have stamp: "?Q (ip, if ip = NULL then u else upd_inode ip (\<lambda>i. i\<lparr>i_atime := CURRENT_TIME (sched u), i_dirt := True\<rparr>) u)"
    if "held K s (\<lambda>j. d j + one ip j) u" for ip u
    using that by (auto simp: held_def intro!: tidy_recount)
  show ?thesis
    unfolding namei_base_def
  proof (rule on_done_then [OF dir_namei_held [OF K t]], clarify)
    fix b name u
    assume u: "held K s (\<lambda>j. d j + one b j) u"
    show "on_done ?Q (if b = NULL then Done (NULL, u)
      else then_do (lookup K b name (take_inode b u)) (\<lambda>(err, ip, s).
        if err \<noteq> 0 then then_do (iput K b s) (\<lambda>s. Done (NULL, s))
        else then_do (if follow_links then follow_link K b ip s else then_do (iput K b s) (\<lambda>s. Done (ip, s))) (\<lambda>(ip, s).
          Done (ip, if ip = NULL then s
                    else upd_inode ip (\<lambda>i. i\<lparr>i_atime := CURRENT_TIME (sched s), i_dirt := True\<rparr>) s))))"
    proof (cases "b = NULL")
      case True
      then show ?thesis using u by simp
    next
      case False
      have "on_done ?Q (then_do (lookup K b name (take_inode b u)) (\<lambda>(err, ip, s).
        if err \<noteq> 0 then then_do (iput K b s) (\<lambda>s. Done (NULL, s))
        else then_do (if follow_links then follow_link K b ip s else then_do (iput K b s) (\<lambda>s. Done (ip, s))) (\<lambda>(ip, s).
          Done (ip, if ip = NULL then s
                    else upd_inode ip (\<lambda>i. i\<lparr>i_atime := CURRENT_TIME (sched s), i_dirt := True\<rparr>) s))))"
      proof (rule on_done_then [OF lookup_held [OF K held_take [OF u]]], clarify)
        fix err ip v
        assume "held K s (\<lambda>j. d j + one b j + one b j + (if err = 0 then one ip j else 0) - one b j) v"
        then have v: "held K s (\<lambda>j. d j + one b j + (if err = 0 then one ip j else 0)) v" by (rule held_cong) simp
        have on: "on_done ?Q (if follow_links then follow_link K b ip v else then_do (iput K b v) (\<lambda>s. Done (ip, s)))" if "err = 0"
          using that by (auto intro!: iput_return [OF K(1) v] on_done_mono [OF follow_link_held [OF K v]] elim!: held_cong simp: algebra_simps)
        show "on_done ?Q (if err \<noteq> 0 then then_do (iput K b v) (\<lambda>s. Done (NULL, s))
          else then_do (if follow_links then follow_link K b ip v else then_do (iput K b v) (\<lambda>s. Done (ip, s))) (\<lambda>(ip, s).
            Done (ip, if ip = NULL then s
                      else upd_inode ip (\<lambda>i. i\<lparr>i_atime := CURRENT_TIME (sched s), i_dirt := True\<rparr>) s)))"
        proof (cases "err = 0")
          case True
          have "\<not> err \<noteq> 0" using True by simp
          then show ?thesis by (subst if_not_P, assumption) (rule on_done_then [OF on [OF True]], use stamp in auto)
        next
          case False
          then show ?thesis by (auto intro!: iput_return [OF K(1) v] elim!: held_cong)
        qed
      qed
      with False show ?thesis by simp
    qed
  qed
qed

section \<open>The Minix lookup keeps the balance\<close>

lemma flush_inode_cleaned:
  assumes K: "storage_conserves K" and s: "tidy K s"
  shows "on_done (cleaned K s) (flush_inode n K ip s)"
  using s by (induction n arbitrary: s)
    (auto simp: cleaned_refl tidy_calm intro!: cleaned_then write_inode_cleaned [OF K])

lemma get_empty_loop_tidy:
  assumes K: "storage_conserves K" and s: "tidy K s"
  shows "on_done (\<lambda>(ip, t). held K s (one ip) t \<and> ip \<noteq> NULL \<and> inode_table t ip = zero_inode\<lparr>i_count := 1\<rparr>) (get_empty_loop n K s)"
  using s
proof (induction n arbitrary: s)
  case 0
  then show ?case by simp
next
  case (Suc n)
  obtain pos ip where scan: "scan_inodes NR_INODE (last_inode s) NULL s = (pos, ip)" by fastforce
  have pos: "pos < 128" "ip \<noteq> NULL \<Longrightarrow> count_of s ip = 0"
    using scan_inodes_free [of "last_inode s" NULL s NR_INODE] Suc.prems by (auto simp: scan tidy_def calm_def)
  let ?s = "s\<lparr>last_inode := pos\<rparr>"
  let ?Q = "\<lambda>(ip, t). held K s (one ip) t \<and> ip \<noteq> NULL \<and> inode_table t ip = zero_inode\<lparr>i_count := 1\<rparr>"
  have s': "tidy K ?s" using Suc.prems pos(1) by (simp add: tidy_def calm_def)
  have "on_done ?Q (then_do (flush_inode (rounds K) K ip ?s) (\<lambda>s.
          if i_count (inode_table s ip) \<noteq> 0 then get_empty_loop n K s
          else Done (ip, upd_inode ip (\<lambda>i. i\<lparr>i_count := 1\<rparr>) (clear_inode K ip s))))" if ip: "ip \<noteq> NULL"
  proof (rule on_done_then [OF flush_inode_cleaned [OF K s']])
    fix t assume t: "cleaned K ?s t"
    have cnt: "count_of t j = count_of s j" for j using cleaned_dev(2) [OF t] by simp
    let ?t = "upd_inode ip (\<lambda>i. i\<lparr>i_count := 1\<rparr>) (clear_inode K ip t)"
    have "tidy K ?t" using t by (auto simp: cleaned_def tidy_def calm_def clear_inode_def releasable_def)
    then have "held K s (one ip) ?t"
      using pos(2) [OF ip] cnt by (auto simp: held_def one_def clear_inode_def)
    then show "on_done ?Q (if i_count (inode_table t ip) \<noteq> 0 then get_empty_loop n K t else Done (ip, ?t))"
      using pos(2) [OF ip] cnt ip by (simp add: clear_inode_def)
  qed
  then show ?case by (simp add: scan tidy_calm [OF s'])
qed

lemma iget_found_held:
  assumes K: "storage_conserves K" and s: "held K s0 (one spare) s"
  shows "on_done (\<lambda>(jp, t). held K s0 (one jp) t) (iget_found K spare ip s)"
proof -
  note take = held_take [OF s, of ip]
  have ret: "on_done (\<lambda>(jp, t). held K s0 (one jp) t) (then_do (iput K spare t) (\<lambda>u. Done (jp, u)))"
    if "held K s0 (\<lambda>j. one spare j + one jp j) t" for jp t
    by (rule iput_return [OF K that]) (auto elim: held_cong)
  have cross: "on_done (\<lambda>(jp, t). held K s0 (one jp) t) (then_do (iput K ip (take_inode ip s)) (\<lambda>t.
      let jp = s_mounted (super_block t sb) in
      then_do (if jp = NULL then Done t else wait_on_inode K jp (take_inode jp t)) (\<lambda>t.
        then_do (iput K spare t) (\<lambda>t. Done (jp, t)))))" for sb
    unfolding Let_def
  proof (rule on_done_then [OF iput_held [OF K take]])
    fix t assume "held K s0 (\<lambda>j. one spare j + one ip j - one ip j) t"
    then have t: "held K s0 (one spare) t" by (rule held_cong) simp
    let ?jp = "s_mounted (super_block t sb)"
    have "(if ?jp = NULL then Done t else wait_on_inode K ?jp (take_inode ?jp t)) = Done (if ?jp = NULL then t else take_inode ?jp t)"
      using t by (simp add: held_def tidy_calm)
    moreover have "held K s0 (\<lambda>j. one spare j + one ?jp j) (if ?jp = NULL then t else take_inode ?jp t)"
      using t held_take [OF t, of ?jp] by (auto elim: held_cong)
    ultimately show "on_done (\<lambda>(jp, t). held K s0 (one jp) t)
        (then_do (if ?jp = NULL then Done t else wait_on_inode K ?jp (take_inode ?jp t)) (\<lambda>t.
          then_do (iput K spare t) (\<lambda>t. Done (?jp, t))))" using ret by simp
  qed
  show ?thesis
    unfolding iget_found_def using cross ret [OF take] by (auto simp: Let_def split: option.split)
qed

lemma iget_new_held:
  assumes K: "storage_conserves K" and s: "held K s0 (one ip) s"
    and ip: "ip \<noteq> NULL" "inode_table s ip = zero_inode\<lparr>i_count := 1\<rparr>" and dev: "dev \<noteq> 0"
  shows "on_done (\<lambda>(jp, t). held K s0 (one jp) t) (iget_new K dev nr ip s)"
proof -
  have un: "supers_unlocked s" using s by (simp add: held_def tidy_def calm_def supers_unlocked_def)
  show ?thesis
  proof (cases "find (\<lambda>sb. s_dev (super_block s sb) = dev) super_ptrs")
    case None
    have "held K s0 (one ip) (upd_inode ip (\<lambda>i. i\<lparr>i_sb := NULL\<rparr>) s)"
      using s by (auto simp: held_def intro!: tidy_recount)
    then have "on_done (\<lambda>(jp, t). held K s0 (one jp) t)
        (then_do (iput K ip (upd_inode ip (\<lambda>i. i\<lparr>i_sb := NULL\<rparr>) s)) (\<lambda>u. Done (NULL, u)))"
      by (rule iput_return [OF K]) (auto elim: held_cong)
    then show ?thesis using ip None by (simp add: iget_new_def get_super_unlocked [OF un dev])
  next
    case (Some sb)
    define u where "u = upd_inode ip (\<lambda>i. i\<lparr>i_sb := sb, i_dev := dev, i_ino := nr\<rparr>) s"
    have u: "calm K u" unfolding u_def
      by (rule calm_upd [OF tidy_calm [OF held_tidy [OF s]]]) (simp add: ip)
    have sb: "sb \<noteq> NULL" "s_op (super_block s sb) \<noteq> NULL"
      using find_SomeD [OF Some] dev held_tidy [OF s] by (auto simp: tidy_def)
    then have "i_sb (inode_table u ip) \<noteq> NULL" "s_op (super_block u (i_sb (inode_table u ip))) \<noteq> NULL" by (simp_all add: u_def)
    moreover have reg: "fs_regular K" using K by (simp add: storage_conserves_def)
    ultimately obtain rd h where h: "op_read_inode K (s_op (super_block u (i_sb (inode_table u ip)))) = Some rd"
      "rd ip (upd_inode ip (\<lambda>i. i\<lparr>i_lock := True\<rparr>) u) = Done (upd_inode ip h (upd_inode ip (\<lambda>i. i\<lparr>i_lock := True\<rparr>) u))"
      "loaded (inode_table (upd_inode ip (\<lambda>i. i\<lparr>i_lock := True\<rparr>) u) ip) (h (inode_table (upd_inode ip (\<lambda>i. i\<lparr>i_lock := True\<rparr>) u) ip))"
      "read_inode K ip u = Done (upd_inode ip (\<lambda>i. (h (i\<lparr>i_lock := True\<rparr>))\<lparr>i_lock := False\<rparr>) u)"
      using calm_read_inode [OF u _ _ _ HOL.refl] by metis
    define g where "g = (\<lambda>i. (h (i\<lparr>i_lock := True\<rparr>))\<lparr>i_lock := False\<rparr>)"
    have "on_done (\<lambda>v. releasable K (inode_table v ip)) (rd ip (upd_inode ip (\<lambda>i. i\<lparr>i_lock := True\<rparr>) u))"
      using K h(1) unfolding storage_conserves_def by blast
    then have "releasable K (g (inode_table u ip))" by (simp add: h(2) g_def releasable_def)
    moreover have "calm K (upd_inode ip g u)" by (rule calm_upd [OF u]) (simp add: g_def)
    ultimately have "tidy K (upd_inode ip g u)"
      using held_tidy [OF s] by (auto simp: tidy_def u_def)
    moreover have "count_of (upd_inode ip g u) j = count_of s j" for j
      using h(3) by (simp add: g_def loaded_def u_def)
    ultimately have "held K s0 (one ip) (upd_inode ip g u)" using s by (simp add: held_def)
    then show ?thesis using ip Some sb h(4) by (simp add: iget_new_def get_super_unlocked [OF un dev] u_def g_def)
  qed
qed

lemma iget_tidy:
  assumes K: "storage_conserves K" and s: "tidy K s"
  shows "on_done (\<lambda>(ip, t). held K s (one ip) t) (iget K dev nr s)"
proof (cases "dev = 0")
  case True
  then show ?thesis by (simp add: iget_def)
next
  case dev: False
  have "on_done (\<lambda>(ip, t). held K s (one ip) t) (then_do (get_empty_inode K s) (\<lambda>(spare, s).
       then_do (search (Suc (naps_left K s)) (wait_on_inode K) inode_ptrs (is_inode dev nr) s) (\<lambda>(ip, s).
         if ip \<noteq> NULL then iget_found K spare ip s else iget_new K dev nr spare s)))"
    unfolding get_empty_inode_def
  proof (rule on_done_then [OF get_empty_loop_tidy [OF K s]], clarify)
    fix spare t
    assume t: "held K s (one spare) t" and pos: "0 < spare" and tab: "inode_table t spare = zero_inode\<lparr>i_count := 1\<rparr>"
    show "on_done (\<lambda>(ip, t). held K s (one ip) t)
      (then_do (search (Suc (naps_left K t)) (wait_on_inode K) inode_ptrs (is_inode dev nr) t) (\<lambda>(ip, s).
         if ip \<noteq> NULL then iget_found K spare ip s else iget_new K dev nr spare s))"
      unfolding calm_search [OF tidy_calm [OF held_tidy [OF t]]]
      using iget_found_held [OF K t] iget_new_held [OF K t _ tab dev] pos by (simp split: option.split)
  qed
  with dev show ?thesis by (simp add: iget_def)
qed

lemma minix_lookup_conserves:
  assumes K: "storage_conserves K" and t: "tidy K t"
    and find: "\<And>u. tidy K u \<Longrightarrow> on_done (\<lambda>(e, v). tidy K v \<and> inode_table v = inode_table u) (look_up dir name u)"
  shows "on_done (\<lambda>(err, ip, u). held K t (\<lambda>j. (if err = 0 then one ip j else 0) - one dir j) u) (minix_lookup look_up K dir name t)"
proof -
  let ?Q = "\<lambda>(err, ip, u). held K t (\<lambda>j. (if err = 0 then one ip j else 0) - one dir j) u"
  have fail: "on_done ?Q (then_do (iput K dir u) (\<lambda>u. Done (- ENOENT, NULL, u)))" if "held K t (\<lambda>_. 0) u" for u
    by (rule iput_return [OF K that]) simp
  have entry: "on_done ?Q (case e of
         None \<Rightarrow> then_do (iput K dir u) (\<lambda>s. Done (- ENOENT, NULL, s))
       | Some ino \<Rightarrow>
           then_do (iget K (i_dev (inode_table u dir)) ino u) (\<lambda>(ip, s).
             then_do (iput K dir s) (\<lambda>s. Done (if ip = NULL then - EACCES else 0, ip, s))))" if u: "held K t (\<lambda>_. 0) u" for e u
  proof (cases e)
    case None
    then show ?thesis using fail [OF u] by simp
  next
    case (Some ino)
    have "on_done ?Q (then_do (iget K (i_dev (inode_table u dir)) ino u) (\<lambda>(ip, s).
             then_do (iput K dir s) (\<lambda>s. Done (if ip = NULL then - EACCES else 0, ip, s))))"
    proof (rule on_done_then [OF on_done_held [OF u iget_tidy [OF K held_tidy [OF u]]]], clarify)
      fix ip v assume v: "held K t (\<lambda>j. 0 + one ip j) v"
      show "on_done ?Q (then_do (iput K dir v) (\<lambda>s. Done (if ip = NULL then - EACCES else 0, ip, s)))"
        by (rule iput_return [OF K v]) (auto elim!: held_cong)
    qed
    with Some show ?thesis by simp
  qed
  have search: "on_done (\<lambda>(e, u). held K t (\<lambda>_. 0) u) (look_up dir name t)"
    by (rule on_done_mono [OF find [OF t]]) (auto simp: held_def)
  show ?thesis
    unfolding minix_lookup_def using fail [OF held_refl [OF t]] held_refl [OF t] entry
    by (auto intro!: on_done_then [OF search] elim: held_cong)
qed

section \<open>The properties\<close>


text \<open>The same for the calls that create, remove or rename the last component; their operation uses up the directory.\<close>

lemma dir_call_held:
  assumes K: "storage_conserves K" "names_conserve K" and s: "tidy K s"
    and run: "\<And>a f dir name t. op a = Some f \<Longrightarrow> tidy K t \<Longrightarrow> on_done (\<lambda>(r, u). held K t (\<lambda>j. - one dir j) u) (run f dir name t)"
  shows "on_done (\<lambda>(r, t). held K s (\<lambda>_. 0) t) (dir_call K pathname nodir noname noperm op run s)"
proof -
  have start: "held K s (\<lambda>j. 0 + one NULL j) s" by (rule held_cong [OF held_refl [OF s]]) simp
  show ?thesis
    unfolding dir_call_def
  proof (rule on_done_then [OF dir_namei_held [OF K start]], clarify)
    fix dir name u
    assume u: "held K s (\<lambda>j. 0 + one dir j) u"
    have fail: "on_done (\<lambda>(r, t). held K s (\<lambda>_. 0) t) (then_do (iput K dir u) (\<lambda>s. Done (e, s)))" for e :: int
      by (rule iput_return [OF K(1) u]) (auto elim: held_cong)
    have op: "on_done (\<lambda>(r, t). held K s (\<lambda>_. 0) t) (run f dir name u)" if "op a = Some f" for a f
      by (rule on_done_mono [OF on_done_held [OF u run [OF that held_tidy [OF u]]]]) (auto elim!: held_cong)
    show "on_done (\<lambda>(r, t). held K s (\<lambda>_. 0) t)
      (if dir = NULL then Done (- nodir, u)
       else if name = [] then then_do (iput K dir u) (\<lambda>s. Done (- noname, s))
       else if \<not> permission dir MAY_WRITE u then then_do (iput K dir u) (\<lambda>s. Done (- noperm, s))
       else case (if i_op (inode_table u dir) = NULL then None else op (i_op (inode_table u dir))) of
         None \<Rightarrow> then_do (iput K dir u) (\<lambda>s. Done (- EPERM, s))
       | Some f \<Rightarrow> run f dir name u)"
      using u by (auto split: option.split elim: held_cong intro!: fail intro: op)
  qed
qed

section \<open>A directory to walk\<close>

definition usr_entries :: "ptr \<Rightarrow> path_name \<Rightarrow> vfs \<Rightarrow> (u16 option \<times> vfs) outcome" where
  "usr_entries dir name s = Done (if name = [117, 115, 114] then Some 7 else None, s)"

definition usr_kernel :: kernel where
  "usr_kernel = plain_kernel\<lparr>op_lookup := (\<lambda>a. Some (minix_lookup usr_entries plain_kernel))\<rparr>"

definition usr_disk :: vfs where
  "usr_disk = upd_inode 1 (\<lambda>i. i\<lparr>i_dev := 0x301, i_ino := 1, i_mode := 0x41ED, i_nlink := 1, i_op := 1, i_sb := 1, i_count := 2\<rparr>)
     (one_disk\<lparr>sched := upd_cur (\<lambda>t. t\<lparr>pwd := 1, root := 1\<rparr>) two_tasks\<rparr>)"

lemma usr_kernel_fields:
  "sync_buffers usr_kernel = sync_buffers plain_kernel" "free_page usr_kernel = free_page plain_kernel"
  "op_write_inode usr_kernel = op_write_inode plain_kernel" "op_put_inode usr_kernel = op_put_inode plain_kernel"
  "op_read_inode usr_kernel = op_read_inode plain_kernel" "releasable usr_kernel = releasable plain_kernel"
  "fs_regular usr_kernel = fs_regular plain_kernel"
  by (simp_all add: usr_kernel_def fs_regular_def releasable_def fun_eq_iff)

lemma tidy_usr_kernel: "tidy usr_kernel = tidy plain_kernel"
  by (simp add: fun_eq_iff tidy_def calm_def releasable_def usr_kernel_def)

lemma held_usr_kernel: "held usr_kernel = held plain_kernel"
  by (simp add: fun_eq_iff held_def tidy_usr_kernel)

lemma plain_kernel_conserves: "storage_conserves plain_kernel"
proof -
  have put: "held plain_kernel t (\<lambda>j. - one ip j) (upd_inode ip (\<lambda>i. zero_inode) t)" if "tidy plain_kernel t" "count_of t ip = 1" for t ip
    using that by (auto simp: held_def one_def releasable_def intro!: tidy_upd)
  show ?thesis
    unfolding storage_conserves_def
    using plain_kernel_regular put
    by (auto simp: plain_kernel_def [of] held_refl releasable_def)
qed

lemma usr_kernel_conserves: "storage_conserves usr_kernel" "names_conserve usr_kernel"
proof -
  show "storage_conserves usr_kernel"
    using plain_kernel_conserves unfolding storage_conserves_def tidy_usr_kernel held_usr_kernel usr_kernel_fields .
  have "on_done (\<lambda>(err, ip, u). held plain_kernel t (\<lambda>j. (if err = 0 then one ip j else 0) - one dir j) u)
      (minix_lookup usr_entries plain_kernel dir name t)" if "tidy plain_kernel t" for t dir name
    by (rule minix_lookup_conserves [OF plain_kernel_conserves that]) (simp add: usr_entries_def)
  then show "names_conserve usr_kernel"
    by (simp add: names_conserve_def tidy_usr_kernel held_usr_kernel) (simp add: usr_kernel_def plain_kernel_def)
qed

lemma namei_usr: "case namei usr_kernel [47, 117, 115, 114] usr_disk of Done (ip, t) \<Rightarrow> ip = 2 | _ \<Rightarrow> False"
  by code_simp


end
