(* ===== verification/Files.thy ===== *)
theory Files
  imports Path_Names
begin

text \<open>
  File descriptors and open files: \<^verbatim>\<open>fs/open.c\<close>, \<^verbatim>\<open>fs/fcntl.c\<close>, \<^verbatim>\<open>fs/ioctl.c\<close>, \<^verbatim>\<open>fs/stat.c\<close>, the calls of \<^verbatim>\<open>fs/read_write.c\<close>, \<^verbatim>\<open>sys_pipe\<close> of
  \<^verbatim>\<open>fs/pipe.c\<close>, the part of \<^verbatim>\<open>do_exit\<close> that gives up files and directories, and mounting in \<^verbatim>\<open>fs/super.c\<close>.  A descriptor is a natural
  number, since the code takes it as an unsigned integer.  The main result is that the reference count of every open file is the
  number of descriptors, in all processes, that refer to it, whatever calls the processes make and in whatever order.
\<close>

section \<open>Descriptors\<close>

definition upd_me :: "(task_struct \<Rightarrow> task_struct) \<Rightarrow> vfs \<Rightarrow> vfs" where
  "upd_me f s = s\<lparr>sched := upd_cur f (sched s)\<rparr>"

abbreviation (input) me :: "vfs \<Rightarrow> task_struct" where "me s \<equiv> cur (sched s)"

definition set_filp :: "nat \<Rightarrow> ptr \<Rightarrow> vfs \<Rightarrow> vfs" where
  "set_filp fd f = upd_me (\<lambda>t. t\<lparr>filp := (filp t)[fd := f]\<rparr>)"

definition keep_on_exec :: "nat \<Rightarrow> vfs \<Rightarrow> vfs" where
  "keep_on_exec fd = upd_me (\<lambda>t. t\<lparr>close_on_exec := close_on_exec t AND NOT (push_bit fd 1)\<rparr>)"

definition file_ptrs :: "ptr list" where "file_ptrs = [1..<65]"

definition open_fd :: "nat \<Rightarrow> vfs \<Rightarrow> ptr" where
  "open_fd fd s = (if fd \<ge> NR_OPEN then NULL else filp (me s) ! fd)"

definition dupfd :: "nat \<Rightarrow> nat \<Rightarrow> vfs \<Rightarrow> int \<times> vfs" where
  "dupfd fd arg s =
    (if open_fd fd s = NULL then (- EBADF, s)
     else if arg \<ge> NR_OPEN then (- EINVAL, s)
     else case find (\<lambda>i. filp (me s) ! i = NULL) [arg..<NR_OPEN] of
       None \<Rightarrow> (- EMFILE, s)
     | Some n \<Rightarrow>
         let s = keep_on_exec n s; f = filp (me s) ! fd
         in (int n, upd_file f (\<lambda>x. x\<lparr>f_count := f_count x + 1\<rparr>) (set_filp n f s)))"

definition sys_close :: "kernel \<Rightarrow> nat \<Rightarrow> vfs \<Rightarrow> (int \<times> vfs) outcome" where
  "sys_close K fd s =
    (if fd \<ge> NR_OPEN then Done (- EINVAL, s)
     else
       let s = keep_on_exec fd s; f = filp (me s) ! fd
       in if f = NULL then Done (- EINVAL, s)
          else
            let s = set_filp fd NULL s
            in if f_count (file_table s f) = 0 then Panicked
               else
                 let s = upd_file f (\<lambda>x. x\<lparr>f_count := f_count x - 1\<rparr>) s
                 in if f_count (file_table s f) \<noteq> 0 then Done (0, s)
                    else then_do (iput K (f_inode (file_table s f)) s) (\<lambda>s. Done (0, s)))"

definition sys_dup2 :: "kernel \<Rightarrow> nat \<Rightarrow> nat \<Rightarrow> vfs \<Rightarrow> (int \<times> vfs) outcome" where
  "sys_dup2 K oldfd newfd s =
    (if newfd = oldfd then Done (int newfd, s)
     else then_do (sys_close K newfd s) (\<lambda>(r, s). Done (dupfd oldfd newfd s)))"

definition sys_dup :: "nat \<Rightarrow> vfs \<Rightarrow> int \<times> vfs" where
  "sys_dup fildes = dupfd fildes 0"

definition sys_fcntl :: "nat \<Rightarrow> nat \<Rightarrow> u32 \<Rightarrow> vfs \<Rightarrow> int \<times> vfs" where
  "sys_fcntl fd cmd arg s =
    (let f = open_fd fd s in
     if f = NULL then (- EBADF, s)
     else if cmd = 0 then dupfd fd (unat arg) s
     else if cmd = 1 then (uint (drop_bit fd (close_on_exec (me s)) AND 1), s)
     else if cmd = 2 then
       (0, if arg AND 1 \<noteq> 0 then upd_me (\<lambda>t. t\<lparr>close_on_exec := close_on_exec t OR push_bit fd 1\<rparr>) s else keep_on_exec fd s)
     else if cmd = 3 then (uint (f_flags (file_table s f)), s)
     else if cmd = 4 then
       (0, upd_file f (\<lambda>x. x\<lparr>f_flags := f_flags x AND NOT 0xC00 OR ucast (arg AND 0xC00)\<rparr>) s)
     else if cmd = 5 \<or> cmd = 6 \<or> cmd = 7 then (- ENOSYS, s)
     else (- EINVAL, s))"

text \<open>\<^verbatim>\<open>sys_open\<close> once \<^verbatim>\<open>open_namei\<close> has returned \<open>i\<close> and the inode \<open>ip\<close>: undo, or fill in the file and call the \<^verbatim>\<open>open\<close> operation.\<close>

definition open_finish :: "kernel \<Rightarrow> nat \<Rightarrow> ptr \<Rightarrow> u32 \<Rightarrow> int \<Rightarrow> ptr \<Rightarrow> vfs \<Rightarrow> (int \<times> vfs) outcome" where
  "open_finish K fd f flag i ip s =
    (if i < 0 then Done (i, upd_file f (\<lambda>x. x\<lparr>f_count := 0\<rparr>) (set_filp fd NULL s))
     else
       let s = upd_file f (\<lambda>x. x\<lparr>f_op := NULL, f_mode := [1, 2, 3, 0] ! unat (flag AND O_ACCMODE),
                 f_flags := ucast flag, f_count := 1, f_inode := ip, f_pos := 0\<rparr>) s
       in case (if i_op (inode_table s ip) = NULL then None else op_open K (i_op (inode_table s ip))) of
            None \<Rightarrow> Done (int fd, s)
          | Some op \<Rightarrow>
              then_do (op ip f s) (\<lambda>(i, s).
                if i \<noteq> 0 then
                  then_do (iput K ip s) (\<lambda>s.
                    Done (i, set_filp fd NULL (upd_file f (\<lambda>x. x\<lparr>f_count := 0\<rparr>) s)))
                else Done (int fd, s)))"

definition sys_open :: "kernel \<Rightarrow> directories \<Rightarrow> path_name \<Rightarrow> u32 \<Rightarrow> u16 \<Rightarrow> vfs \<Rightarrow> (int \<times> vfs) outcome" where
  "sys_open K D filename flag mode s =
    (case find (\<lambda>i. filp (me s) ! i = NULL) [0..<NR_OPEN] of
       None \<Rightarrow> Done (- EINVAL, s)
     | Some fd \<Rightarrow>
         let s = keep_on_exec fd s in
         (case find (\<lambda>f. f_count (file_table s f) = 0) file_ptrs of
            None \<Rightarrow> Done (- EINVAL, s)
          | Some f \<Rightarrow>
              then_do (open_namei K D filename flag mode (upd_file f (\<lambda>x. x\<lparr>f_count := f_count x + 1\<rparr>) (set_filp fd f s)))
                (\<lambda>(i, ip, s). open_finish K fd f flag i ip s)))"

definition sys_creat :: "kernel \<Rightarrow> directories \<Rightarrow> path_name \<Rightarrow> u16 \<Rightarrow> vfs \<Rightarrow> (int \<times> vfs) outcome" where
  "sys_creat K D filename mode = sys_open K D filename (O_CREAT OR O_WRONLY OR O_TRUNC) mode"

text \<open>
  \<^verbatim>\<open>sys_pipe\<close> takes the first two free files and the first two free descriptors; the third component of the result is what it writes
  to the user's array.  When there are fewer than two of either, everything is undone before it returns.
\<close>

definition sys_pipe :: "kernel \<Rightarrow> vfs \<Rightarrow> (int \<times> (nat \<times> nat) option \<times> vfs) outcome" where
  "sys_pipe K s =
    (case filter (\<lambda>f. f_count (file_table s f) = 0) file_ptrs of
       f0 # f1 # _ \<Rightarrow>
         (case filter (\<lambda>i. filp (me s) ! i = NULL) [0..<NR_OPEN] of
            fd0 # fd1 # _ \<Rightarrow>
              let s = upd_file f1 (\<lambda>x. x\<lparr>f_count := f_count x + 1\<rparr>) (upd_file f0 (\<lambda>x. x\<lparr>f_count := f_count x + 1\<rparr>) s);
                  s = set_filp fd1 f1 (set_filp fd0 f0 s)
              in then_do (get_pipe_inode K s) (\<lambda>(ip, s).
                if ip = NULL then
                  Done (-1, None, upd_file f0 (\<lambda>x. x\<lparr>f_count := 0\<rparr>) (upd_file f1 (\<lambda>x. x\<lparr>f_count := 0\<rparr>)
                    (set_filp fd0 NULL (set_filp fd1 NULL s))))
                else
                  Done (0, Some (fd0, fd1),
                    upd_file f1 (\<lambda>x. x\<lparr>f_inode := ip, f_pos := 0, f_mode := 2\<rparr>)
                      (upd_file f0 (\<lambda>x. x\<lparr>f_inode := ip, f_pos := 0, f_mode := 1\<rparr>) s)))
          | _ \<Rightarrow> Done (-1, None, s))
     | _ \<Rightarrow> Done (-1, None, s))"

text \<open>What \<^verbatim>\<open>do_exit\<close> does with the files, the two directories, the program and the library of the process.\<close>

definition exit_files :: "kernel \<Rightarrow> vfs \<Rightarrow> vfs outcome" where
  "exit_files K s =
    then_do (for_each (\<lambda>fd s. if filp (me s) ! fd \<noteq> NULL then then_do (sys_close K fd s) (\<lambda>(r, s). Done s) else Done s) [0..<NR_OPEN] s)
      (\<lambda>s. then_do (iput K (pwd (me s)) s) (\<lambda>s. let s = upd_me (\<lambda>t. t\<lparr>pwd := NULL\<rparr>) s in
         then_do (iput K (root (me s)) s) (\<lambda>s. let s = upd_me (\<lambda>t. t\<lparr>root := NULL\<rparr>) s in
         then_do (iput K (executable (me s)) s) (\<lambda>s. let s = upd_me (\<lambda>t. t\<lparr>executable := NULL\<rparr>) s in
         then_do (iput K (library (me s)) s) (\<lambda>s. Done (upd_me (\<lambda>t. t\<lparr>library := NULL\<rparr>) s))))))"

text \<open>The part of \<^verbatim>\<open>do_execve\<close> that closes descriptors.\<close>

definition exec_files :: "kernel \<Rightarrow> vfs \<Rightarrow> vfs outcome" where
  "exec_files K s =
    then_do (for_each (\<lambda>fd s. if drop_bit fd (close_on_exec (me s)) AND 1 \<noteq> 0
               then then_do (sys_close K fd s) (\<lambda>(r, s). Done s) else Done s) [0..<NR_OPEN] s)
      (\<lambda>s. Done (upd_me (\<lambda>t. t\<lparr>close_on_exec := 0\<rparr>) s))"

section \<open>Reading, writing and seeking\<close>

definition sys_lseek :: "kernel \<Rightarrow> nat \<Rightarrow> int \<Rightarrow> nat \<Rightarrow> vfs \<Rightarrow> (int \<times> vfs) outcome" where
  "sys_lseek K fd offset origin s =
    (let f = open_fd fd s; x = file_table s f; ip = f_inode x in
     if f = NULL \<or> ip = NULL then Done (- EBADF, s)
     else if origin > 2 then Done (- EINVAL, s)
     else if i_pipe (inode_table s ip) then Done (- ESPIPE, s)
     else case (if f_op x = NULL then None else op_lseek K (f_op x)) of
       Some op \<Rightarrow> op ip f offset origin s
     | None \<Rightarrow>
         let mem_dev = S_ISCHR (i_mode (inode_table s ip));
             pos = (if origin = 0 then offset
                    else if origin = 1 then s32 (f_pos x + offset)
                    else s32 (uint (i_size (inode_table s ip)) + offset))
         in if pos < 0 \<and> \<not> mem_dev then Done (- EINVAL, s)
            else Done (if mem_dev \<and> pos < 0 then 0 else pos, upd_file f (\<lambda>x. x\<lparr>f_pos := pos\<rparr>) s))"

text \<open>The readers and writers that \<^verbatim>\<open>sys_read\<close> and \<^verbatim>\<open>sys_write\<close> choose from; what they do is an argument.\<close>

datatype transfer = Pipe_IO | Char_IO | Block_IO | Minix_File_IO

definition io_for :: "bool \<Rightarrow> vfs_inode \<Rightarrow> transfer option" where
  "io_for reading i =
    (if i_pipe i then Some Pipe_IO
     else if S_ISCHR (i_mode i) then Some Char_IO
     else if S_ISBLK (i_mode i) then Some Block_IO
     else if reading \<and> S_ISDIR (i_mode i) \<or> S_ISREG (i_mode i) then Some Minix_File_IO
     else None)"

definition sys_read :: "kernel \<Rightarrow> (transfer \<Rightarrow> ptr \<Rightarrow> ptr \<Rightarrow> nat \<Rightarrow> vfs \<Rightarrow> (int \<times> u8 list \<times> vfs) outcome) \<Rightarrow>
    nat \<Rightarrow> nat \<Rightarrow> vfs \<Rightarrow> (int \<times> u8 list \<times> vfs) outcome" where
  "sys_read K io fd count s =
    (let f = open_fd fd s; x = file_table s f; ip = f_inode x in
     if f = NULL \<or> ip = NULL then Done (- EBADF, [], s)
     else if f_mode x AND 1 = 0 then Done (- EBADF, [], s)
     else if count = 0 then Done (0, [], s)
     else case (if f_op x = NULL then None else op_read K (f_op x)) of
       Some op \<Rightarrow> op ip f count s
     | None \<Rightarrow> (case io_for True (inode_table s ip) of
                  Some d \<Rightarrow> io d ip f count s
                | None \<Rightarrow> Done (- EINVAL, [], s)))"

definition sys_write :: "kernel \<Rightarrow> (transfer \<Rightarrow> ptr \<Rightarrow> ptr \<Rightarrow> u8 list \<Rightarrow> vfs \<Rightarrow> (int \<times> vfs) outcome) \<Rightarrow>
    nat \<Rightarrow> u8 list \<Rightarrow> vfs \<Rightarrow> (int \<times> vfs) outcome" where
  "sys_write K io fd buf s =
    (let f = open_fd fd s; x = file_table s f; ip = f_inode x in
     if f = NULL \<or> ip = NULL then Done (- EBADF, s)
     else if f_mode x AND 2 = 0 then Done (- EBADF, s)
     else if buf = [] then Done (0, s)
     else case (if f_op x = NULL then None else op_write K (f_op x)) of
       Some op \<Rightarrow> op ip f buf s
     | None \<Rightarrow> (case io_for False (inode_table s ip) of
                  Some d \<Rightarrow> io d ip f buf s
                | None \<Rightarrow> Done (- EINVAL, s)))"

text \<open>\<^verbatim>\<open>sys_ioctl\<close>, with \<^verbatim>\<open>pipe_ioctl\<close> and \<^verbatim>\<open>tty_ioctl\<close> as arguments: \<^verbatim>\<open>ioctl_table\<close> has eight entries, two of them for terminals.\<close>

definition sys_ioctl :: "(ptr \<Rightarrow> nat \<Rightarrow> u32 \<Rightarrow> vfs \<Rightarrow> (int \<times> vfs) outcome) \<Rightarrow> (u16 \<Rightarrow> nat \<Rightarrow> u32 \<Rightarrow> vfs \<Rightarrow> (int \<times> vfs) outcome) \<Rightarrow>
    nat \<Rightarrow> nat \<Rightarrow> u32 \<Rightarrow> vfs \<Rightarrow> (int \<times> vfs) outcome" where
  "sys_ioctl pipe_ioctl tty_ioctl fd cmd arg s =
    (let f = open_fd fd s; ip = f_inode (file_table s f); i = inode_table s ip in
     if f = NULL then Done (- EBADF, s)
     else if i_pipe i then (if f_mode (file_table s f) AND 1 \<noteq> 0 then pipe_ioctl ip cmd arg s else Done (- EBADF, s))
     else if \<not> S_ISCHR (i_mode i) \<and> \<not> S_ISBLK (i_mode i) then Done (- EINVAL, s)
     else
       let major = unat (drop_bit 8 (i_rdev i))
       in if major \<ge> 8 then Done (- 19, s)
          else if major \<noteq> 4 \<and> major \<noteq> 5 then Done (- 25, s)
          else tty_ioctl (i_rdev i) cmd arg s)"

section \<open>Attributes and directories of a process\<close>

definition sys_ustat :: int where "sys_ustat = - ENOSYS"

text \<open>\<open>tms\<close> is what the pointer refers to, if it is not null.\<close>

definition sys_utime :: "kernel \<Rightarrow> path_name \<Rightarrow> (u32 \<times> u32) option \<Rightarrow> vfs \<Rightarrow> (int \<times> vfs) outcome" where
  "sys_utime K filename tms s =
    then_do (namei K filename s) (\<lambda>(ip, s).
      if ip = NULL then Done (- ENOENT, s)
      else if tms \<noteq> None \<and> euid (me s) \<noteq> i_uid (inode_table s ip) \<and> \<not> permission ip MAY_WRITE s
      then then_do (iput K ip s) (\<lambda>s. Done (- EPERM, s))
      else
        let (actime, modtime) = (case tms of Some am \<Rightarrow> am | None \<Rightarrow> (CURRENT_TIME (sched s), CURRENT_TIME (sched s)))
        in then_do (iput K ip (upd_inode ip (\<lambda>i. i\<lparr>i_atime := actime, i_mtime := modtime, i_dirt := True\<rparr>) s)) (\<lambda>s. Done (0, s)))"

text \<open>\<^verbatim>\<open>sys_access\<close> reads the owner of the inode after it has given the inode back.\<close>

definition sys_access :: "kernel \<Rightarrow> path_name \<Rightarrow> u16 \<Rightarrow> vfs \<Rightarrow> (int \<times> vfs) outcome" where
  "sys_access K filename mode s =
    (let mode = mode AND 7 in
     then_do (namei K filename s) (\<lambda>(ip, s).
       if ip = NULL then Done (- EACCES, s)
       else
         let im = i_mode (inode_table s ip) AND 0x1FF
         in then_do (iput K ip s) (\<lambda>s.
              let res = (if uid (me s) = i_uid (inode_table s ip) then drop_bit 6 im
                         else if gid (me s) = i_gid (inode_table s ip) then drop_bit 3 im else im)
              in if res AND 7 AND mode = mode then Done (0, s)
                 else if uid (me s) = 0 \<and> (mode AND 1 = 0 \<or> im AND 0x49 \<noteq> 0) then Done (0, s)
                 else Done (- EACCES, s))))"

definition sys_chdir :: "kernel \<Rightarrow> path_name \<Rightarrow> vfs \<Rightarrow> (int \<times> vfs) outcome" where
  "sys_chdir K filename s =
    then_do (namei K filename s) (\<lambda>(ip, s).
      if ip = NULL then Done (- ENOENT, s)
      else if \<not> S_ISDIR (i_mode (inode_table s ip)) then then_do (iput K ip s) (\<lambda>s. Done (- ENOTDIR, s))
      else then_do (iput K (pwd (me s)) s) (\<lambda>s. Done (0, upd_me (\<lambda>t. t\<lparr>pwd := ip\<rparr>) s)))"

definition sys_chroot :: "kernel \<Rightarrow> path_name \<Rightarrow> vfs \<Rightarrow> (int \<times> vfs) outcome" where
  "sys_chroot K filename s =
    then_do (namei K filename s) (\<lambda>(ip, s).
      if ip = NULL then Done (- ENOENT, s)
      else if \<not> S_ISDIR (i_mode (inode_table s ip)) then then_do (iput K ip s) (\<lambda>s. Done (- ENOTDIR, s))
      else then_do (iput K (root (me s)) s) (\<lambda>s. Done (0, upd_me (\<lambda>t. t\<lparr>root := ip\<rparr>) s)))"

definition sys_chmod :: "kernel \<Rightarrow> path_name \<Rightarrow> u16 \<Rightarrow> vfs \<Rightarrow> (int \<times> vfs) outcome" where
  "sys_chmod K filename mode s =
    then_do (namei K filename s) (\<lambda>(ip, s).
      if ip = NULL then Done (- ENOENT, s)
      else if euid (me s) \<noteq> i_uid (inode_table s ip) \<and> \<not> suser (sched s) then then_do (iput K ip s) (\<lambda>s. Done (- EACCES, s))
      else
        then_do (iput K ip (upd_inode ip (\<lambda>i. i\<lparr>i_mode := (mode AND 0xFFF) OR (i_mode i AND NOT 0xFFF), i_dirt := True\<rparr>) s))
          (\<lambda>s. Done (0, s)))"

definition sys_chown :: "kernel \<Rightarrow> path_name \<Rightarrow> u16 \<Rightarrow> u16 \<Rightarrow> vfs \<Rightarrow> (int \<times> vfs) outcome" where
  "sys_chown K filename u g s =
    then_do (namei K filename s) (\<lambda>(ip, s).
      if ip = NULL then Done (- ENOENT, s)
      else if \<not> suser (sched s) then then_do (iput K ip s) (\<lambda>s. Done (- EACCES, s))
      else then_do (iput K ip (upd_inode ip (\<lambda>i. i\<lparr>i_uid := u, i_gid := g, i_dirt := True\<rparr>) s)) (\<lambda>s. Done (0, s)))"

text \<open>The structure that \<^verbatim>\<open>cp_stat\<close> writes to the user; its \<^verbatim>\<open>inode->i_num\<close> is taken to be \<^verbatim>\<open>i_ino\<close>.\<close>

record stat =
  st_dev :: u16
  st_ino :: u16
  st_mode :: u16
  st_nlink :: u8
  st_uid :: u16
  st_gid :: u16
  st_rdev :: u16
  st_size :: u32
  st_atime :: u32
  st_mtime :: u32
  st_ctime :: u32

definition cp_stat :: "vfs_inode \<Rightarrow> stat" where
  "cp_stat i =
    \<lparr>st_dev = i_dev i, st_ino = i_ino i, st_mode = i_mode i, st_nlink = i_nlink i, st_uid = i_uid i, st_gid = i_gid i,
     st_rdev = i_rdev i, st_size = i_size i, st_atime = i_atime i, st_mtime = i_mtime i, st_ctime = i_ctime i\<rparr>"

definition sys_stat :: "kernel \<Rightarrow> path_name \<Rightarrow> vfs \<Rightarrow> (int \<times> stat option \<times> vfs) outcome" where
  "sys_stat K filename s =
    then_do (namei K filename s) (\<lambda>(ip, s).
      if ip = NULL then Done (- ENOENT, None, s)
      else let st = cp_stat (inode_table s ip) in then_do (iput K ip s) (\<lambda>s. Done (0, Some st, s)))"

definition sys_lstat :: "kernel \<Rightarrow> path_name \<Rightarrow> vfs \<Rightarrow> (int \<times> stat option \<times> vfs) outcome" where
  "sys_lstat K filename s =
    then_do (lnamei K filename s) (\<lambda>(ip, s).
      if ip = NULL then Done (- ENOENT, None, s)
      else let st = cp_stat (inode_table s ip) in then_do (iput K ip s) (\<lambda>s. Done (0, Some st, s)))"

definition sys_fstat :: "nat \<Rightarrow> vfs \<Rightarrow> int \<times> stat option" where
  "sys_fstat fd s =
    (let f = open_fd fd s; ip = f_inode (file_table s f) in
     if f = NULL \<or> ip = NULL then (- EBADF, None) else (0, Some (cp_stat (inode_table s ip))))"

section \<open>Mounting\<close>

abbreviation (input) MINIX_ROOT_INO :: u16 where "MINIX_ROOT_INO \<equiv> 1"
abbreviation (input) ENOTBLK :: int where "ENOTBLK \<equiv> 15"

definition put_super :: "kernel \<Rightarrow> u16 \<Rightarrow> vfs \<Rightarrow> vfs outcome" where
  "put_super K dev s =
    (if dev = ROOT_DEV s then Done s
     else then_do (get_super K dev s) (\<lambda>(sb, s).
       if sb = NULL \<or> s_covered (super_block s sb) \<noteq> NULL then Done s
       else case (if s_op (super_block s sb) = NULL then None else op_put_super K (s_op (super_block s sb))) of
         None \<Rightarrow> Done s
       | Some put \<Rightarrow> put sb s))"

text \<open>\<^verbatim>\<open>read_super\<close>, which is only called for the file system type \<^verbatim>\<open>minix\<close>.\<close>

definition read_super :: "kernel \<Rightarrow> u16 \<Rightarrow> vfs \<Rightarrow> (ptr \<times> vfs) outcome" where
  "read_super K dev s =
    (if dev = 0 then Done (NULL, s)
     else then_do (get_super K dev s) (\<lambda>(sb, s).
       if sb \<noteq> NULL then Done (sb, s)
       else case find (\<lambda>sb. s_dev (super_block s sb) = 0) super_ptrs of
         None \<Rightarrow> Done (NULL, s)
       | Some sb \<Rightarrow>
           then_do (minix_read_super K sb (upd_super sb (\<lambda>b. b\<lparr>s_dev := dev\<rparr>) s)) (\<lambda>(r, s).
             if r = NULL then Done (NULL, s)
             else Done (sb, upd_super sb (\<lambda>b. b\<lparr>s_dev := dev, s_covered := NULL, s_time := 0, s_rd_only := False, s_dirt := False\<rparr>) s))))"

definition busy_device :: "u16 \<Rightarrow> ptr \<Rightarrow> vfs \<Rightarrow> bool" where
  "busy_device dev sb s =
    list_ex (\<lambda>ip. i_dev (inode_table s ip) = dev \<and> i_count (inode_table s ip) \<noteq> 0 \<and>
      \<not> (ip = s_mounted (super_block s sb) \<and> i_count (inode_table s ip) = 1)) inode_ptrs"

definition sys_umount :: "kernel \<Rightarrow> path_name \<Rightarrow> vfs \<Rightarrow> (int \<times> vfs) outcome" where
  "sys_umount K dev_name s =
    then_do (namei K dev_name s) (\<lambda>(ip, s).
      if ip = NULL then Done (- ENOENT, s)
      else
        let dev = i_rdev (inode_table s ip); blk = S_ISBLK (i_mode (inode_table s ip)) in
        then_do (iput K ip s) (\<lambda>s.
          if \<not> blk then Done (- ENOTBLK, s)
          else if dev = ROOT_DEV s then Done (- EBUSY, s)
          else then_do (get_super K dev s) (\<lambda>(sb, s).
            if sb = NULL \<or> s_covered (super_block s sb) = NULL then Done (- ENOENT, s)
            else if busy_device dev sb s then Done (- EBUSY, s)
            else
              let s = upd_inode (s_covered (super_block s sb)) (\<lambda>i. i\<lparr>i_mount := False\<rparr>) s in
              then_do (iput K (s_covered (super_block s sb)) s) (\<lambda>s.
                let s = upd_super sb (\<lambda>b. b\<lparr>s_covered := NULL\<rparr>) s in
                then_do (iput K (s_mounted (super_block s sb)) s) (\<lambda>s.
                  let s = upd_super sb (\<lambda>b. b\<lparr>s_mounted := NULL\<rparr>) s in
                  then_do (put_super K dev s) (\<lambda>s. then_do (sync_dev K dev s) (\<lambda>s. Done (0, s))))))))"

definition sys_mount :: "kernel \<Rightarrow> path_name \<Rightarrow> path_name \<Rightarrow> vfs \<Rightarrow> (int \<times> vfs) outcome" where
  "sys_mount K dev_name dir_name s =
    then_do (namei K dev_name s) (\<lambda>(dev_i, s).
      if dev_i = NULL then Done (- ENOENT, s)
      else
        let dev = i_rdev (inode_table s dev_i); blk = S_ISBLK (i_mode (inode_table s dev_i)) in
        then_do (iput K dev_i s) (\<lambda>s.
          if \<not> blk then Done (- EPERM, s)
          else then_do (namei K dir_name s) (\<lambda>(dir_i, s).
            if dir_i = NULL then Done (- ENOENT, s)
            else if i_count (inode_table s dir_i) \<noteq> 1 \<or> i_ino (inode_table s dir_i) = MINIX_ROOT_INO
            then then_do (iput K dir_i s) (\<lambda>s. Done (- EBUSY, s))
            else if \<not> S_ISDIR (i_mode (inode_table s dir_i)) \<or> i_mount (inode_table s dir_i)
            then then_do (iput K dir_i s) (\<lambda>s. Done (- EPERM, s))
            else then_do (read_super K dev s) (\<lambda>(sb, s).
              if sb = NULL \<or> s_covered (super_block s sb) \<noteq> NULL then then_do (iput K dir_i s) (\<lambda>s. Done (- EBUSY, s))
              else Done (0, upd_inode dir_i (\<lambda>i. i\<lparr>i_mount := True, i_dirt := True\<rparr>)
                              (upd_super sb (\<lambda>b. b\<lparr>s_covered := dir_i\<rparr>) s))))))"

text \<open>\<^verbatim>\<open>mount_root\<close> up to its messages about free blocks and inodes.\<close>

definition mount_root :: "kernel \<Rightarrow> vfs \<Rightarrow> vfs outcome" where
  "mount_root K s =
    (let s = fold (\<lambda>f. upd_file f (\<lambda>x. x\<lparr>f_count := 0\<rparr>)) file_ptrs s in
     if drop_bit 8 (ROOT_DEV s) = 2 then Panicked
     else
       let s = fold (\<lambda>sb s. upd_super sb (\<lambda>b. b\<lparr>s_dev := 0, s_lock := False\<rparr>)
                 (s\<lparr>sched := (sched s)\<lparr>wait_queue := (wait_queue (sched s))(s_wait K sb := NULL)\<rparr>\<rparr>)) super_ptrs s
       in then_do (read_super K (ROOT_DEV s) s) (\<lambda>(sb, s).
            if sb = NULL then Panicked
            else
              let mi = s_mounted (super_block s sb);
                  s = upd_inode mi (\<lambda>i. i\<lparr>i_count := i_count i + 3\<rparr>) s;
                  s = upd_super sb (\<lambda>b. b\<lparr>s_mounted := mi, s_covered := mi\<rparr>) s
              in Done (upd_me (\<lambda>t. t\<lparr>pwd := mi, root := mi\<rparr>) s)))"

section \<open>Counting descriptors\<close>

definition refs :: "vfs \<Rightarrow> ptr \<Rightarrow> nat" where
  "refs s f = (\<Sum>p \<in> all_tasks (sched s). count_list (filp (tsk (sched s) p)) f)"

definition own_only :: "vfs \<Rightarrow> ptr \<Rightarrow> bool" where
  "own_only s f \<longleftrightarrow> (\<forall>p \<in> all_tasks (sched s). p \<noteq> current (sched s) \<longrightarrow> f \<notin> set (filp (tsk (sched s) p)))"

definition files_ok :: "vfs \<Rightarrow> bool" where
  "files_ok s \<longleftrightarrow> task_table_ok (sched s) \<and> current (sched s) \<in> all_tasks (sched s) \<and>
     (\<forall>p \<in> all_tasks (sched s). length (filp (tsk (sched s) p)) = 20 \<and> set (filp (tsk (sched s) p)) \<subseteq> {0..64}) \<and>
     (\<forall>f \<in> {1..64}. unat (f_count (file_table s f)) = refs s f)"

text \<open>
  What the others leave alone while a process sleeps in a call: the counts stay right, its descriptors stay as they are, and a file
  that only it has open stays its own.
\<close>

definition keeps_files :: "vfs \<Rightarrow> vfs \<Rightarrow> bool" where
  "keeps_files s t \<longleftrightarrow> (files_ok s \<longrightarrow> files_ok t \<and> current (sched t) = current (sched s) \<and> filp (me t) = filp (me s) \<and>
     (\<forall>f \<in> {1..64}. own_only s f \<longrightarrow> own_only t f))"

definition same_files :: "vfs \<Rightarrow> vfs \<Rightarrow> bool" where
  "same_files s t \<longleftrightarrow> task (sched t) = task (sched s) \<and> current (sched t) = current (sched s) \<and>
     (\<forall>p. filp (tsk (sched t) p) = filp (tsk (sched s) p)) \<and> (\<forall>f. f_count (file_table t f) = f_count (file_table s f))"

lemma same_files_all:
  assumes "same_files s t"
  shows "all_tasks (sched t) = all_tasks (sched s)" "refs t f = refs s f" "own_only t f = own_only s f" "files_ok t = files_ok s"
    "filp (me t) = filp (me s)"
proof -
  show all: "all_tasks (sched t) = all_tasks (sched s)" using assms by (simp add: same_files_def all_tasks_def live_def)
  show refs: "refs t f = refs s f" for f using assms all by (simp add: same_files_def refs_def)
  show "own_only t f = own_only s f" using assms all by (simp add: same_files_def own_only_def)
  show "files_ok t = files_ok s" using assms all refs by (simp add: same_files_def files_ok_def task_table_ok_def)
  show "filp (me t) = filp (me s)" using assms by (simp add: same_files_def cur_def)
qed

lemma same_files_keeps: "same_files s t \<Longrightarrow> keeps_files s t"
  using same_files_all [of s t] by (simp add: keeps_files_def) (simp add: same_files_def)

lemma wake_chain_frame:
  "wake_chain n p s = Some t \<Longrightarrow> task t = task s \<and> current t = current s \<and> (\<forall>q. filp (tsk t q) = filp (tsk s q))"
proof (induction n arbitrary: p s)
  case 0
  then show ?case by (simp add: wake_chain.simps)
next
  case (Suc n)
  then show ?case by (auto simp: wake_chain.simps Let_def dest!: Suc.IH split: if_splits)
qed

lemma wake_up_frame:
  "wake_up n q s = Some t \<Longrightarrow> task t = task s \<and> current t = current s \<and> (\<forall>p. filp (tsk t p) = filp (tsk s p))"
  by (auto simp: wake_up_def dest!: wake_chain_frame split: if_splits)

interpretation files: blind_steps keeps_files
proof unfold_locales
  show "keeps_files s (clear_inode K ip s)" for s K ip
    by (rule same_files_keeps) (simp add: same_files_def clear_inode_def)
  show "keeps_files s (s\<lparr>sched := sc\<rparr>)" if "wake_up n q (sched s) = Some sc" for n q s sc
    by (rule same_files_keeps) (use wake_up_frame [OF that] in \<open>simp add: same_files_def\<close>)
  show "keeps_files s u" if "keeps_files s t" "keeps_files t u" for s t u
    using that by (simp add: keeps_files_def)
qed (simp_all add: same_files_keeps same_files_def keeps_files_def [of s s for s])

lemma count_list_update:
  "i < length xs \<Longrightarrow> count_list (xs[i := v]) f + of_bool (xs ! i = f) = count_list xs f + of_bool (v = f)"
proof (induction xs arbitrary: i)
  case (Cons x xs)
  then show ?case using Cons.IH [of "i - 1"] by (cases i) auto
qed simp

lemma files_okD:
  assumes "files_ok s"
  shows "task_table_ok (sched s)" "current (sched s) \<in> all_tasks (sched s)" "length (filp (me s)) = 20"
    "fd < 20 \<Longrightarrow> filp (me s) ! fd \<le> 64" "f \<in> {1..64} \<Longrightarrow> unat (f_count (file_table s f)) = refs s f"
proof -
  show len: "length (filp (me s)) = 20" using assms by (simp add: files_ok_def cur_def)
  have "set (filp (me s)) \<subseteq> {0..64}" using assms by (simp add: files_ok_def cur_def)
  then show "filp (me s) ! fd \<le> 64" if "fd < 20" using that len nth_mem [of fd "filp (me s)"] by fastforce
qed (use assms in \<open>simp_all add: files_ok_def\<close>)

lemma finite_all_tasks: "finite (all_tasks s)" "length (task s) = 64 \<Longrightarrow> card (all_tasks s) \<le> 64"
proof -
  have sub: "all_tasks s \<subseteq> (\<lambda>i. task s ! i) ` {0..<64}" by (auto simp: all_tasks_def live_def)
  show "finite (all_tasks s)" by (rule finite_subset [OF sub]) simp
  show "card (all_tasks s) \<le> 64" using card_mono [OF _ sub] card_image_le [of "{0..<64}" "\<lambda>i. task s ! i"] by simp
qed

lemma refs_split:
  assumes "current (sched s) \<in> all_tasks (sched s)"
  shows "refs s f = count_list (filp (me s)) f +
    (\<Sum>p \<in> all_tasks (sched s) - {current (sched s)}. count_list (filp (tsk (sched s) p)) f)"
  unfolding refs_def using sum.remove [OF finite_all_tasks(1) assms] by (simp add: cur_def)

lemma refs_bound:
  assumes "files_ok s"
  shows "refs s f \<le> 1280"
proof -
  have "refs s f \<le> (\<Sum>p \<in> all_tasks (sched s). 20)"
    unfolding refs_def
  proof (rule sum_mono)
    fix p assume "p \<in> all_tasks (sched s)"
    then show "count_list (filp (tsk (sched s) p)) f \<le> 20"
      using assms count_le_length [of "filp (tsk (sched s) p)" f] by (simp add: files_ok_def)
  qed
  also have "\<dots> \<le> 1280" using finite_all_tasks(2) [of "sched s"] assms by (simp add: files_ok_def task_table_ok_def)
  finally show ?thesis .
qed

lemma upd_file_simps [simp]:
  "sched (upd_file f g s) = sched s" "inode_table (upd_file f g s) = inode_table s" "super_block (upd_file f g s) = super_block s"
  "file_table (upd_file f g s) x = (if x = f then g (file_table s f) else file_table s x)"
  by (simp_all add: upd_file_def)

lemma upd_me_simps [simp]:
  "file_table (upd_me f s) = file_table s" "inode_table (upd_me f s) = inode_table s" "super_block (upd_me f s) = super_block s"
  "task (sched (upd_me f s)) = task (sched s)" "current (sched (upd_me f s)) = current (sched s)"
  "tsk (sched (upd_me f s)) p = (if p = current (sched s) then f (me s) else tsk (sched s) p)" "me (upd_me f s) = f (me s)"
  by (simp_all add: upd_me_def cur_def)

lemma all_tasks_upd_me [simp]: "all_tasks (sched (upd_me f s)) = all_tasks (sched s)"
  by (simp add: all_tasks_def live_def)

lemma keep_on_exec_simps [simp]:
  "file_table (keep_on_exec fd s) = file_table s" "current (sched (keep_on_exec fd s)) = current (sched s)"
  "filp (me (keep_on_exec fd s)) = filp (me s)" "files_ok (keep_on_exec fd s) = files_ok s"
proof -
  have "same_files s (keep_on_exec fd s)" by (simp add: same_files_def keep_on_exec_def cur_def)
  from same_files_all [OF this] show "files_ok (keep_on_exec fd s) = files_ok s" by simp
qed (simp_all add: keep_on_exec_def)

lemma refs_set_filp:
  assumes "files_ok s" "fd < 20"
  shows "refs (set_filp fd g s) f + of_bool (filp (me s) ! fd = f) = refs s f + of_bool (g = f)"
proof -
  have c: "current (sched s) \<in> all_tasks (sched s)" "length (filp (me s)) = 20" using files_okD [OF assms(1)] by blast+
  have "refs (set_filp fd g s) f = count_list ((filp (me s))[fd := g]) f +
      (\<Sum>p \<in> all_tasks (sched s) - {current (sched s)}. count_list (filp (tsk (sched s) p)) f)"
    using refs_split [of "set_filp fd g s" f] c(1) by (simp add: set_filp_def)
  then show ?thesis using refs_split [OF c(1), of f] count_list_update [of fd "filp (me s)" g f] c(2) assms(2) by simp
qed

lemma files_ok_repoint:
  assumes ok: "files_ok s" and fd: "fd < 20" "g \<le> 64" and t: "sched t = sched (set_filp fd g s)"
    and cnt: "\<And>f. f \<in> {1..64} \<Longrightarrow>
      unat (f_count (file_table t f)) + of_bool (filp (me s) ! fd = f) = unat (f_count (file_table s f)) + of_bool (g = f)"
  shows "files_ok t"
proof -
  have "refs t f = refs (set_filp fd g s) f" for f by (simp add: refs_def t)
  then have "unat (f_count (file_table t f)) = refs t f" if "f \<in> {1..64}" for f
    using refs_set_filp [OF ok fd(1), of g f] cnt [OF that] files_okD(5) [OF ok that] by simp
  moreover have "set ((filp (me s))[fd := g]) \<subseteq> {0..64}"
    using ok fd(2) set_update_subset_insert [of "filp (me s)" fd g] by (fastforce simp: files_ok_def cur_def)
  ultimately show ?thesis
    using ok unfolding files_ok_def t by (auto simp: set_filp_def task_table_ok_def cur_def)
qed

lemma unat_inc: "unat (c :: u16) \<le> 1280 \<Longrightarrow> unat (c + 1) = unat c + 1"
  by (simp add: unat_word_ariths)

lemma unat_dec: "c \<noteq> 0 \<Longrightarrow> unat ((c :: u16) - 1) + 1 = unat c"
  using unat_minus_one [of c] unat_gt_0 [of c] by simp

lemma count_bound:
  assumes "files_ok s" "f \<in> {1..64}"
  shows "unat (f_count (file_table s f)) \<le> 1280"
  using files_okD(5) [OF assms] refs_bound [OF assms(1)] by simp

lemma refs_pos:
  assumes "files_ok s" "fd < 20" "filp (me s) ! fd \<noteq> NULL"
  shows "filp (me s) ! fd \<in> {1..64}" "f_count (file_table s (filp (me s) ! fd)) \<noteq> 0"
proof -
  let ?f = "filp (me s) ! fd"
  show f: "?f \<in> {1..64}" using files_okD(4) [OF assms(1,2)] assms(3) by simp
  have "?f \<in> set (filp (me s))" using files_okD(3) [OF assms(1)] assms(2) by simp
  then have "count_list (filp (me s)) ?f \<noteq> 0" by (simp add: count_list_0_iff)
  then have "refs s ?f \<noteq> 0" using refs_split [OF files_okD(2) [OF assms(1)], of ?f] by simp
  with files_okD(5) [OF assms(1) f] show "f_count (file_table s ?f) \<noteq> 0" by (metis unat_0)
qed

lemma dupfd_files_ok:
  assumes ok: "files_ok s"
  shows "files_ok (snd (dupfd fd arg s))"
proof (cases "open_fd fd s = NULL \<or> arg \<ge> 20 \<or> find (\<lambda>i. filp (me s) ! i = NULL) [arg..<20] = None")
  case True
  then show ?thesis using ok by (auto simp: dupfd_def)
next
  case False
  then obtain n where n: "find (\<lambda>i. filp (me s) ! i = NULL) [arg..<20] = Some n" "arg < 20" "fd < 20" "filp (me s) ! fd \<noteq> NULL"
    by (auto simp: open_fd_def split: if_splits)
  have n': "n < 20" "filp (me s) ! n = NULL" using find_SomeD [OF n(1)] by auto
  let ?s = "keep_on_exec n s" and ?f = "filp (me s) ! fd"
  have ok': "files_ok ?s" using ok by simp
  have f: "?f \<in> {1..64}" using refs_pos [OF ok n(3,4)] by simp
  have "unat (f_count (file_table s ?f) + 1) = unat (f_count (file_table s ?f)) + 1"
    by (rule unat_inc) (rule count_bound [OF ok f])
  then have "files_ok (upd_file ?f (\<lambda>x. x\<lparr>f_count := f_count x + 1\<rparr>) (set_filp n ?f ?s))"
    by (intro files_ok_repoint [OF ok' n'(1), of ?f]) (use f n' in \<open>auto simp: set_filp_def\<close>)
  then show ?thesis using n False by (simp add: dupfd_def Let_def)
qed

lemma sys_close_files_ok:
  assumes ok: "files_ok s" and K: "io_keeps keeps_files K"
  shows "on_done (\<lambda>(r, t). files_ok t \<and> current (sched t) = current (sched s)) (sys_close K fd s)"
proof (cases "fd \<ge> 20 \<or> filp (me s) ! fd = NULL")
  case True
  then show ?thesis using True ok by (auto simp: sys_close_def Let_def)
next
  case False
  then have fd: "fd < 20" "filp (me s) ! fd \<noteq> NULL" by auto
  let ?s = "keep_on_exec fd s" and ?f = "filp (me s) ! fd"
  have ok': "files_ok ?s" using ok by simp
  define t where "t = upd_file ?f (\<lambda>x. x\<lparr>f_count := f_count x - 1\<rparr>) (set_filp fd NULL ?s)"
  have f: "?f \<in> {1..64}" "f_count (file_table s ?f) \<noteq> 0" using refs_pos [OF ok fd] by auto
  then have t: "files_ok t" "current (sched t) = current (sched s)"
    unfolding t_def
    by (intro files_ok_repoint [OF ok' fd(1), of NULL])
      (use unat_dec [OF f(2)] in \<open>auto simp: set_filp_def\<close>)
  have "on_done (\<lambda>u. files_ok u \<and> current (sched u) = current (sched s)) (iput K (f_inode (file_table t ?f)) t)"
    by (rule on_done_mono [OF files.iput_keeps [OF K]]) (use t in \<open>auto simp: keeps_files_def\<close>)
  moreover have "f_count (file_table (set_filp fd NULL ?s) ?f) \<noteq> 0" using f by (simp add: set_filp_def)
  ultimately show ?thesis
    using fd t unfolding sys_close_def Let_def by (auto simp: t_def [symmetric] intro!: on_done_then)
qed

text \<open>A file that exactly one descriptor refers to, and that descriptor is the caller's.\<close>

definition own1 :: "vfs \<Rightarrow> nat \<Rightarrow> ptr \<Rightarrow> bool" where
  "own1 s fd f \<longleftrightarrow> filp (me s) ! fd = f \<and> own_only s f \<and> count_list (filp (me s)) f = 1"

lemma own1_keeps:
  assumes "keeps_files s t" "files_ok s" "f \<in> {1..64}" "own1 s fd f"
  shows "own1 t fd f"
  using assms by (auto simp: keeps_files_def own1_def)

lemma own1_count:
  assumes ok: "files_ok s" and own: "own1 s fd f" and f: "f \<in> {1..64}"
  shows "f_count (file_table s f) = 1"
proof -
  have "(\<Sum>p \<in> all_tasks (sched s) - {current (sched s)}. count_list (filp (tsk (sched s) p)) f) = 0"
    using own by (intro sum.neutral) (auto simp: own1_def own_only_def count_list_0_iff)
  then have "refs s f = 1" using refs_split [OF files_okD(2) [OF ok], of f] own by (simp add: own1_def)
  with files_okD(5) [OF ok f] show ?thesis by (simp add: word_unat_eq_iff)
qed

lemma upd_file_commute: "set_filp fd g (upd_file f h s) = upd_file f h (set_filp fd g s)"
  by (simp add: set_filp_def upd_me_def upd_file_def)

lemma own1_upd_file [simp]: "own1 (upd_file f g s) fd h = own1 s fd h"
  by (simp add: own1_def own_only_def)

lemma own1_set_filp:
  assumes "files_ok s" "fd' < 20" "own1 s fd f" "fd' \<noteq> fd" "g \<noteq> f" "filp (me s) ! fd' \<noteq> f"
  shows "own1 (set_filp fd' g s) fd f"
proof -
  have "count_list ((filp (me s))[fd' := g]) f = count_list (filp (me s)) f"
    using count_list_update [of fd' "filp (me s)" g f] files_okD(3) [OF assms(1)] assms by simp
  then show ?thesis using assms by (auto simp: own1_def own_only_def set_filp_def)
qed

lemma claim_file:
  assumes ok: "files_ok s" and fd: "fd < 20" "filp (me s) ! fd = NULL" and f: "f \<in> {1..64}" "f_count (file_table s f) = 0"
  shows "files_ok (upd_file f (\<lambda>x. x\<lparr>f_count := f_count x + 1\<rparr>) (set_filp fd f s))"
    "own1 (upd_file f (\<lambda>x. x\<lparr>f_count := f_count x + 1\<rparr>) (set_filp fd f s)) fd f"
proof -
  show "files_ok (upd_file f (\<lambda>x. x\<lparr>f_count := f_count x + 1\<rparr>) (set_filp fd f s))"
    by (intro files_ok_repoint [OF ok fd(1), of f]) (use f fd in \<open>auto simp: set_filp_def\<close>)
  have "refs s f = 0" using files_okD(5) [OF ok f(1)] f(2) by simp
  then have zero: "\<forall>p \<in> all_tasks (sched s). count_list (filp (tsk (sched s) p)) f = 0"
    by (simp add: refs_def finite_all_tasks(1))
  then have "own_only s f" "count_list (filp (me s)) f = 0"
    using files_okD(2) [OF ok] by (auto simp: own_only_def count_list_0_iff cur_def)
  moreover have "count_list ((filp (me s))[fd := f]) f = 1"
    using count_list_update [of fd "filp (me s)" f f] calculation(2) files_okD(3) [OF ok] fd f(1) by simp
  ultimately show "own1 (upd_file f (\<lambda>x. x\<lparr>f_count := f_count x + 1\<rparr>) (set_filp fd f s)) fd f"
    using fd files_okD(3) [OF ok] by (auto simp: own1_def own_only_def set_filp_def)
qed

lemma disclaim_file:
  assumes ok: "files_ok s" and fd: "fd < 20" and f: "f \<in> {1..64}" "own1 s fd f"
  shows "files_ok (upd_file f (\<lambda>x. x\<lparr>f_count := 0\<rparr>) (set_filp fd NULL s))"
proof (rule files_ok_repoint [OF ok fd, of NULL])
  fix g assume "g \<in> {1..64 :: ptr}"
  then show "unat (f_count (file_table (upd_file f (\<lambda>x. x\<lparr>f_count := 0\<rparr>) (set_filp fd NULL s)) g)) + of_bool (filp (me s) ! fd = g) =
      unat (f_count (file_table s g)) + of_bool (NULL = g)"
    using own1_count [OF ok f(2,1)] f(2) by (auto simp: set_filp_def own1_def)
qed simp_all

lemma refill_file:
  assumes "files_ok s" "\<And>x. f_count (g x) = f_count x"
  shows "files_ok (upd_file f g s)"
proof -
  have "same_files s (upd_file f g s)" using assms(2) by (simp add: same_files_def)
  from same_files_all(4) [OF this] show ?thesis using assms(1) by simp
qed

abbreviation (input) still :: "vfs \<Rightarrow> vfs \<Rightarrow> bool" where
  "still s t \<equiv> files_ok t \<and> current (sched t) = current (sched s)"

lemma sys_open_files_ok:
  assumes ok: "files_ok s" and K: "names_keep keeps_files K D"
    and op: "\<And>a f ip x s. op_open K a = Some f \<Longrightarrow> on_done (\<lambda>(i, t). keeps_files s t) (f ip x s)"
  shows "on_done (\<lambda>(r, t). still s t) (sys_open K D filename flag mode s)"
proof (cases "find (\<lambda>i. filp (me s) ! i = NULL) [0..<20]")
  case None
  then show ?thesis using ok by (simp add: sys_open_def)
next
  case fd: (Some fd)
  then have fd': "fd < 20" "filp (me s) ! fd = NULL" using find_SomeD [OF fd] by auto
  show ?thesis
  proof (cases "find (\<lambda>f. f_count (file_table s f) = 0) file_ptrs")
    case None
    then show ?thesis using ok fd by (simp add: sys_open_def)
  next
    case f: (Some f)
    have f': "f \<in> {1..64}" "f_count (file_table s f) = 0" using find_SomeD [OF f] by (auto simp: file_ptrs_def)
    define s1 where "s1 = upd_file f (\<lambda>x. x\<lparr>f_count := f_count x + 1\<rparr>) (set_filp fd f (keep_on_exec fd s))"
    have s1: "files_ok s1" "own1 s1 fd f"
      unfolding s1_def using claim_file [of "keep_on_exec fd s" fd f] ok fd' f' by simp_all
    have cur1: "current (sched s1) = current (sched s)" by (simp add: s1_def set_filp_def)
    let ?R = "\<lambda>t. still s t \<and> own1 t fd f"
    have keep: "?R u" if "keeps_files t u" "?R t" for t u
      using that own1_keeps [OF that(1) _ f'(1)] by (auto simp: keeps_files_def)
    have drop: "still s (upd_file f (\<lambda>x. x\<lparr>f_count := 0\<rparr>) (set_filp fd NULL t))" if "?R t" for t
      using disclaim_file [OF _ fd'(1) f'(1)] that by (simp add: set_filp_def)
    have fill: "?R (upd_file f (\<lambda>x. x\<lparr>f_op := NULL, f_mode := m, f_flags := l, f_count := 1, f_inode := ip, f_pos := 0\<rparr>) t)" if "?R t" for t m l ip
    proof -
      have "same_files t (upd_file f (\<lambda>x. x\<lparr>f_op := NULL, f_mode := m, f_flags := l, f_count := 1, f_inode := ip, f_pos := 0\<rparr>) t)"
        using own1_count [OF _ _ f'(1), of t fd] that by (simp add: same_files_def)
      from same_files_all(4) [OF this] that show ?thesis by simp
    qed
    have start: "on_done (\<lambda>(i, ip, t). ?R t) (open_namei K D filename flag mode s1)"
      by (rule on_done_mono [OF files.open_namei_keeps [OF K]]) (use keep s1 cur1 in blast)
    have opened: "on_done (\<lambda>(i, u). ?R u) (h ip f t)" if "op_open K a = Some h" "?R t" for a h ip t
      by (rule on_done_mono [OF op [OF that(1)]]) (use keep [OF _ that(2)] in blast)
    have put: "on_done ?R (iput K ip t)" if "?R t" for ip t
      by (rule on_done_mono [OF files.iput_keeps [OF names_keepD(1) [OF K]]]) (rule keep [OF _ that])
    have undo: "on_done (\<lambda>(r, u). still s u) (then_do (iput K ip t) (\<lambda>s. Done (i, set_filp fd NULL (upd_file f (\<lambda>x. x\<lparr>f_count := 0\<rparr>) s))))"
      if "?R t" for ip t and i :: int
      by (rule on_done_then [OF put [OF that]]) (use drop in \<open>simp add: upd_file_commute\<close>)
    have finish: "on_done (\<lambda>(r, u). still s u)
      (case (if i_op (inode_table t ip) = NULL then None else op_open K (i_op (inode_table t ip))) of
         None \<Rightarrow> Done (int fd, t)
       | Some op \<Rightarrow>
           then_do (op ip f t) (\<lambda>(i, s).
             if i \<noteq> 0 then then_do (iput K ip s) (\<lambda>s. Done (i, set_filp fd NULL (upd_file f (\<lambda>x. x\<lparr>f_count := 0\<rparr>) s)))
             else Done (int fd, s)))" if "?R t" for ip t
      using that by (auto split: option.split intro!: undo on_done_then [OF opened])
    have "on_done (\<lambda>(r, u). still s u) (open_finish K fd f flag i ip t)" if "?R t" for i ip t
      unfolding open_finish_def Let_def using finish [OF fill [OF that]] drop [OF that]
      by (cases "i < 0") (simp_all only: if_True if_False on_done.simps prod.case simp_thms)
    then have "on_done (\<lambda>(r, u). still s u)
        (then_do (open_namei K D filename flag mode s1) (\<lambda>(i, ip, s). open_finish K fd f flag i ip s))"
      by (intro on_done_then [OF start]) auto
    then show ?thesis using fd f unfolding sys_open_def Let_def by (simp add: s1_def)
  qed
qed

lemma sys_fcntl_files_ok:
  assumes "files_ok s"
  shows "still s (snd (sys_fcntl fd cmd arg s))"
proof -
  have "current (sched (snd (dupfd a b s))) = current (sched s)" for a b
    by (simp add: dupfd_def set_filp_def Let_def split: option.split)
  moreover have "files_ok (upd_me (\<lambda>t. t\<lparr>close_on_exec := c t\<rparr>) s)" for c
    using same_files_all(4) [of s "upd_me (\<lambda>t. t\<lparr>close_on_exec := c t\<rparr>) s"] assms by (simp add: same_files_def cur_def)
  ultimately show ?thesis
    using assms by (auto simp: sys_fcntl_def Let_def dupfd_files_ok refill_file)
qed

lemma sys_dup2_files_ok:
  assumes "files_ok s" "io_keeps keeps_files K"
  shows "on_done (\<lambda>(r, t). still s t) (sys_dup2 K oldfd newfd s)"
proof -
  have "current (sched (snd (dupfd a b t))) = current (sched t)" for a b t
    by (simp add: dupfd_def set_filp_def Let_def split: option.split)
  then have "on_done (\<lambda>(r, u). still s u) (Done (dupfd oldfd newfd t))" if "still s t" for t
    using that dupfd_files_ok [of t oldfd newfd] by (simp add: case_prod_unfold)
  then show ?thesis
    using assms unfolding sys_dup2_def by (auto intro!: on_done_then [OF sys_close_files_ok [OF assms]])
qed

lemma filter_two:
  assumes "filter P xs = a # b # r" "distinct xs"
  shows "a \<in> set xs \<and> b \<in> set xs \<and> P a \<and> P b \<and> a \<noteq> b"
proof -
  have "set (filter P xs) = set (a # b # r)" by (simp only: assms(1))
  moreover have "distinct (a # b # r)" unfolding assms(1) [symmetric] using assms(2) by (rule distinct_filter)
  ultimately show ?thesis by auto
qed

lemma sys_pipe_files_ok:
  assumes ok: "files_ok s" and K: "io_keeps keeps_files K"
  shows "on_done (\<lambda>(r, fds, t). still s t) (sys_pipe K s)"
proof (cases "\<exists>f0 f1 fr fd0 fd1 dr. filter (\<lambda>f. f_count (file_table s f) = 0) file_ptrs = f0 # f1 # fr \<and>
    filter (\<lambda>i. filp (me s) ! i = NULL) [0..<20] = fd0 # fd1 # dr")
  case False
  then show ?thesis using ok unfolding sys_pipe_def by (auto split: list.split)
next
  case True
  then obtain f0 f1 fr fd0 fd1 dr where fl: "filter (\<lambda>f. f_count (file_table s f) = 0) file_ptrs = f0 # f1 # fr"
    and dl: "filter (\<lambda>i. filp (me s) ! i = NULL) [0..<20] = fd0 # fd1 # dr" by blast
  have f: "f0 \<in> {1..64}" "f1 \<in> {1..64}" "f_count (file_table s f0) = 0" "f_count (file_table s f1) = 0" "f0 \<noteq> f1"
    using filter_two [OF fl] by (auto simp: file_ptrs_def)
  have d: "fd0 < 20" "fd1 < 20" "filp (me s) ! fd0 = NULL" "filp (me s) ! fd1 = NULL" "fd0 \<noteq> fd1"
    using filter_two [OF dl] by auto
  let ?inc = "\<lambda>f. upd_file f (\<lambda>x. x\<lparr>f_count := f_count x + 1\<rparr>)"
  define s1 where "s1 = ?inc f0 (set_filp fd0 f0 s)"
  have s1: "files_ok s1" "own1 s1 fd0 f0" unfolding s1_def using claim_file [OF ok d(1,3) f(1,3)] by simp_all
  have n1: "filp (me s1) ! fd1 = NULL" "f_count (file_table s1 f1) = 0" using d f by (simp_all add: s1_def set_filp_def)
  define s2 where "s2 = ?inc f1 (set_filp fd1 f1 s1)"
  have s2: "files_ok s2" "own1 s2 fd1 f1" unfolding s2_def using claim_file [OF s1(1) d(2) n1(1) f(2) n1(2)] by simp_all
  have s2': "own1 s2 fd0 f0" unfolding s2_def own1_upd_file
    by (rule own1_set_filp [OF s1(1) d(2) s1(2)]) (use d f n1 in auto)
  have cur2: "current (sched s2) = current (sched s)" by (simp add: s2_def s1_def set_filp_def)
  let ?R = "\<lambda>t. still s t \<and> own1 t fd0 f0 \<and> own1 t fd1 f1"
  have start: "on_done (\<lambda>(ip, t). ?R t) (get_pipe_inode K s2)"
    by (rule on_done_mono [OF files.get_pipe_inode_keeps [OF K]])
      (use s2 s2' cur2 own1_keeps [of s2, OF _ s2(1) f(1) s2'] own1_keeps [of s2, OF _ s2(1) f(2) s2(2)] in \<open>auto simp: keeps_files_def\<close>)
  let ?zero = "\<lambda>f. upd_file f (\<lambda>x. x\<lparr>f_count := 0\<rparr>)"
  have undo: "still s (?zero f0 (?zero f1 (set_filp fd0 NULL (set_filp fd1 NULL t))))" if "?R t" for t
  proof -
    define u where "u = ?zero f1 (set_filp fd1 NULL t)"
    have "files_ok u" unfolding u_def by (rule disclaim_file [OF _ d(2) f(2)]) (use that in auto)
    moreover have "own1 u fd0 f0" unfolding u_def own1_upd_file
      by (rule own1_set_filp) (use that d f in \<open>auto simp: own1_def\<close>)
    ultimately have "files_ok (?zero f0 (set_filp fd0 NULL u))" by (intro disclaim_file [OF _ d(1) f(1)])
    moreover have "?zero f0 (set_filp fd0 NULL u) = ?zero f0 (?zero f1 (set_filp fd0 NULL (set_filp fd1 NULL t)))"
      by (simp add: u_def upd_file_commute)
    ultimately show ?thesis using that by (simp add: set_filp_def)
  qed
  have s2_eq: "set_filp fd1 f1 (set_filp fd0 f0 (?inc f1 (?inc f0 s))) = s2"
    by (simp add: s2_def s1_def upd_file_commute)
  show ?thesis
    unfolding sys_pipe_def fl dl list.case Let_def s2_eq
    by (rule on_done_then [OF start]) (use undo in \<open>auto intro!: refill_file\<close>)
qed

lemma closing_files_ok:
  assumes ok: "files_ok s" and K: "io_keeps keeps_files K"
  shows "on_done (still s)
    (for_each (\<lambda>fd s. if c fd s then then_do (sys_close K fd s) (\<lambda>(r, s). Done s) else Done s) fds s)"
  using ok
proof (induction fds arbitrary: s)
  case Nil
  then show ?case by simp
next
  case (Cons fd fds)
  have "on_done (still s) (if c fd s then then_do (sys_close K fd s) (\<lambda>(r, s). Done s) else Done s)"
    using Cons.prems by (auto intro!: on_done_then [OF sys_close_files_ok [OF Cons.prems K]])
  then show ?case
    unfolding for_each.simps
  proof (rule on_done_then)
    fix t assume t: "still s t"
    show "on_done (still s) (for_each (\<lambda>fd s. if c fd s then then_do (sys_close K fd s) (\<lambda>(r, s). Done s) else Done s) fds t)"
      by (rule on_done_mono [OF Cons.IH]) (use t in auto)
  qed
qed

lemma still_upd_me:
  assumes "still s t" "\<And>x. filp (f x) = filp x"
  shows "still s (upd_me f t)"
proof -
  have "same_files t (upd_me f t)" using assms(2) by (simp add: same_files_def cur_def)
  from same_files_all(4) [OF this] assms(1) show ?thesis by simp
qed

lemma still_iput:
  assumes "still s t" "io_keeps keeps_files K"
  shows "on_done (still s) (iput K ip t)"
  by (rule on_done_mono [OF files.iput_keeps [OF assms(2)]]) (use assms(1) in \<open>auto simp: keeps_files_def\<close>)

lemma exit_files_ok:
  assumes ok: "files_ok s" and K: "io_keeps keeps_files K"
  shows "on_done (still s) (exit_files K s)"
proof -
  have put: "on_done (still s) (then_do (iput K ip t) f)" if "still s t" "\<And>u. still s u \<Longrightarrow> on_done (still s) (f u)" for ip t f
    by (rule on_done_then [OF still_iput [OF that(1) K]]) (rule that(2))
  show ?thesis
    unfolding exit_files_def Let_def
    by (rule on_done_then [OF closing_files_ok [OF ok K]]) (auto intro!: put still_upd_me simp del: upd_me_simps)
qed

lemma exec_files_ok:
  assumes ok: "files_ok s" and K: "io_keeps keeps_files K"
  shows "on_done (still s) (exec_files K s)"
  unfolding exec_files_def
  by (rule on_done_then [OF closing_files_ok [OF ok K]]) (auto intro!: still_upd_me simp del: upd_me_simps)

section \<open>Processes and their files\<close>

text \<open>
  The calls a process can make that touch descriptors.  \<^verbatim>\<open>fork\<close> is the one of \<open>Process\<close>, which counts references in maps; here the maps are
  the counts of the file table and of the inode table.
\<close>

datatype file_call =
    Open path_name u32 u16
  | Creat path_name u16
  | Close nat
  | Dup nat
  | Dup2 nat nat
  | Fcntl nat nat u32
  | Make_Pipe
  | Exit
  | Exec

fun do_call :: "kernel \<Rightarrow> directories \<Rightarrow> file_call \<Rightarrow> vfs \<Rightarrow> vfs outcome" where
  "do_call K D (Open p flag mode) s = then_do (sys_open K D p flag mode s) (\<lambda>(r, s). Done s)"
| "do_call K D (Creat p mode) s = then_do (sys_creat K D p mode s) (\<lambda>(r, s). Done s)"
| "do_call K D (Close fd) s = then_do (sys_close K fd s) (\<lambda>(r, s). Done s)"
| "do_call K D (Dup fd) s = Done (snd (sys_dup fd s))"
| "do_call K D (Dup2 old new) s = then_do (sys_dup2 K old new s) (\<lambda>(r, s). Done s)"
| "do_call K D (Fcntl fd cmd arg) s = Done (snd (sys_fcntl fd cmd arg s))"
| "do_call K D Make_Pipe s = then_do (sys_pipe K s) (\<lambda>(r, fds, s). Done s)"
| "do_call K D Exit s = exit_files K s"
| "do_call K D Exec s = exec_files K s"

definition counts_of :: "vfs \<Rightarrow> refcounts" where
  "counts_of s = \<lparr>refcounts.f_count = (\<lambda>f. f_count (file_table s f)), refcounts.i_count = (\<lambda>ip. i_count (inode_table s ip))\<rparr>"

definition with_counts :: "refcounts \<Rightarrow> vfs \<Rightarrow> vfs" where
  "with_counts r s = s\<lparr>file_table := (\<lambda>f. (file_table s f)\<lparr>f_count := refcounts.f_count r f\<rparr>),
     inode_table := (\<lambda>ip. (inode_table s ip)\<lparr>i_count := refcounts.i_count r ip\<rparr>)\<rparr>"

inductive file_step :: "kernel \<Rightarrow> directories \<Rightarrow> vfs \<Rightarrow> vfs \<Rightarrow> bool" for K :: kernel and D :: directories where
  call: "do_call K D c s = Done t \<Longrightarrow> file_step K D s t"
| switch: "p \<in> all_tasks (sched s) \<Longrightarrow> file_step K D s (s\<lparr>sched := (sched s)\<lparr>current := p\<rparr>\<rparr>)"
| fork: "p \<noteq> NULL \<Longrightarrow> p \<notin> all_tasks (sched s) \<Longrightarrow> sys_fork fuel p mem_ok (sched s) (counts_of s) = Some (n, sc, r, pages) \<Longrightarrow>
    file_step K D s (with_counts r (s\<lparr>sched := sc\<rparr>))"

definition calls_keep :: "kernel \<Rightarrow> directories \<Rightarrow> bool" where
  "calls_keep K D \<longleftrightarrow> names_keep keeps_files K D \<and>
    (\<forall>a f ip x s. op_open K a = Some f \<longrightarrow> on_done (\<lambda>(i, t). keeps_files s t) (f ip x s))"

lemma do_call_files_ok:
  assumes "files_ok s" "calls_keep K D"
  shows "on_done (still s) (do_call K D c s)"
proof -
  have K: "names_keep keeps_files K D" "io_keeps keeps_files K"
    and op: "op_open K a = Some f \<Longrightarrow> on_done (\<lambda>(i, t). keeps_files s t) (f ip x s)" for a f ip x s
    using assms(2) by (auto simp: calls_keep_def names_keep_def)
  have dup: "still s (snd (sys_dup fd s))" for fd
    using dupfd_files_ok [OF assms(1), of fd 0]
    by (simp add: sys_dup_def) (simp add: dupfd_def set_filp_def Let_def split: option.split)
  have opens: "on_done (\<lambda>(r, t). still s t) (sys_open K D p flag mode s)" for p flag mode
    by (rule sys_open_files_ok [OF assms(1) K(1)]) (rule op)
  show ?thesis
    by (cases c)
      (auto simp: sys_creat_def dup sys_fcntl_files_ok [OF assms(1)] intro!: on_done_then [OF opens]
        on_done_then [OF sys_close_files_ok [OF assms(1) K(2)]] on_done_then [OF sys_dup2_files_ok [OF assms(1) K(2)]]
        on_done_then [OF sys_pipe_files_ok [OF assms(1) K(2)]] exit_files_ok [OF assms(1) K(2)] exec_files_ok [OF assms(1) K(2)])
qed

lemma fold_ref: "f \<noteq> NULL \<Longrightarrow> fold ref xs c f = c f + of_nat (count_list xs f)"
  by (induction xs arbitrary: c) (auto simp: ref_def)

lemma fold_ref_nth: "length xs = 20 \<Longrightarrow> fold (\<lambda>i. ref (xs ! i)) [0..<20] c = fold ref xs c"
proof -
  assume len: "length xs = 20"
  have "fold (\<lambda>i. ref (xs ! i)) [0..<length xs] c = fold ref (map ((!) xs) [0..<length xs]) c" by (simp add: fold_map comp_def)
  also have "\<dots> = fold ref xs c" by (simp only: map_nth)
  finally show ?thesis using len by simp
qed

lemma fork_link_filp: "filp (tsk (fork_link p s) q) = filp (tsk s q)" "task (fork_link p s) = task s" "current (fork_link p s) = current s"
  by (simp_all add: fork_link_def Let_def)

lemma files_ok_fork:
  assumes ok: "files_ok s" and p: "p \<noteq> NULL" "p \<notin> all_tasks (sched s)" and nr: "nr \<in> {1..<64}" "task (sched s) ! nr = NULL"
    and u: "task u = task (sched s)" "tsk u = tsk (sched s)" "current u = current (sched s)"
  shows "files_ok (with_counts (fork_refs p (fork_copy nr p u) (counts_of s)) (s\<lparr>sched := fork_link p (fork_copy nr p u)\<rparr>))"
proof -
  let ?sc = "fork_link p (fork_copy nr p u)"
  let ?t = "with_counts (fork_refs p (fork_copy nr p u) (counts_of s)) (s\<lparr>sched := ?sc\<rparr>)"
  have c: "current (sched s) \<noteq> p" using files_okD(2) [OF ok] p(2) by auto
  have filp: "filp (tsk ?sc q) = (if q = p then filp (me s) else filp (tsk (sched s) q))" for q
    using c u by (simp add: fork_link_filp fork_copy_def fork_task_def Let_def cur_def)
  have sct: "sched ?t = ?sc" by (simp add: with_counts_def)
  have task: "task ?sc = (task (sched s))[nr := p]" "current ?sc = current (sched s)"
    using u by (simp_all add: fork_link_filp fork_copy_def Let_def)
  have live: "live ?sc = insert p (live (sched s))" "task_table_ok ?sc"
    using live_fill_slot [OF files_okD(1) [OF ok] nr p] task by (simp_all add: live_def task_table_ok_def)
  have all: "all_tasks ?sc = insert p (all_tasks (sched s))"
    using live(1) task(1) nr(1) by (auto simp: all_tasks_def)
  have refs: "refs ?t f = count_list (filp (me s)) f + refs s f" for f
  proof -
    have "(\<Sum>q \<in> all_tasks (sched s). count_list (filp (tsk ?sc q)) f) = refs s f"
      unfolding refs_def by (rule sum.cong) (use p(2) filp in auto)
    then show ?thesis
      unfolding refs_def [of ?t] sct all sum.insert [OF finite_all_tasks(1) p(2)] by (simp add: filp)
  qed
  have cnt: "unat (f_count (file_table ?t f)) = refs ?t f" if f: "f \<in> {1..64}" for f
  proof -
    let ?k = "count_list (filp (me s)) f"
    have len: "length (filp (me s)) = 20" using files_okD(3) [OF ok] .
    then have "filp (tsk (fork_copy nr p u) p) = filp (me s)"
      using u by (simp add: fork_copy_def fork_task_def Let_def cur_def)
    then have "f_count (file_table ?t f) = f_count (file_table s f) + of_nat ?k"
      using f len by (simp add: with_counts_def fork_refs_def counts_of_def fold_ref_nth fold_ref)
    moreover have "unat (f_count (file_table s f)) = refs s f" "refs s f \<le> 1280" "?k \<le> 20"
      using files_okD(5) [OF ok f] refs_bound [OF ok] count_le_length [of "filp (me s)" f] len by auto
    ultimately show ?thesis unfolding refs by (simp add: unat_word_ariths unat_of_nat take_bit_nat_eq_self)
  qed
  have "\<forall>q \<in> all_tasks ?sc. length (filp (tsk ?sc q)) = 20 \<and> set (filp (tsk ?sc q)) \<subseteq> {0..64}"
    using ok by (auto simp: all filp files_ok_def cur_def)
  with cnt live(2) task(2) files_okD(2) [OF ok] show ?thesis unfolding files_ok_def sct all by simp
qed

lemma file_step_files_ok:
  assumes "file_step K D s t" "files_ok s" "calls_keep K D"
  shows "files_ok t"
  using assms(1)
proof cases
  case (call c)
  then show ?thesis using do_call_files_ok [OF assms(2,3), of c] by simp
next
  case (switch p)
  have "all_tasks ((sched s)\<lparr>current := p\<rparr>) = all_tasks (sched s)" by (simp add: all_tasks_def live_def)
  then show ?thesis using switch assms(2) by (simp add: files_ok_def refs_def task_table_ok_def)
next
  case (fork p fuel mem_ok n sc r pages)
  obtain m u where m: "find_empty_process fuel (sched s) = Some (m, u)"
    using fork(4) fork(2) by (auto simp: sys_fork_def split: option.splits)
  then have "find_pid fuel (sched s) = Some u" by (auto simp: find_empty_process_def split: option.splits)
  then obtain k where k: "u = (sched s)\<lparr>last_pid := k\<rparr>" using find_pid_Some by blast
  then have u: "task u = task (sched s)" "tsk u = tsk (sched s)" "current u = current (sched s)" by simp_all
  have triv: "files_ok (with_counts (counts_of s) (s\<lparr>sched := v\<rparr>))"
    if "task v = task (sched s)" "current v = current (sched s)" "\<And>q. q \<in> all_tasks (sched s) \<Longrightarrow> tsk v q = tsk (sched s) q" for v
  proof -
    have "all_tasks v = all_tasks (sched s)" using that(1) by (simp add: all_tasks_def live_def)
    then show ?thesis using assms(2) that by (simp add: files_ok_def with_counts_def counts_of_def refs_def task_table_ok_def)
  qed
  show ?thesis
  proof (cases "m < 0")
    case True
    then have "sc = u" "r = counts_of s" using fork m by (simp_all add: sys_fork_def)
    then show ?thesis using triv [of u] u fork(1) by simp
  next
    case False
    then obtain nr where nr: "find (\<lambda>i. task u ! i = NULL) [1..<64] = Some nr" "m = int nr"
      using m by (auto simp: find_empty_process_def split: option.splits)
    then have nr': "nr \<in> {1..<64}" "task (sched s) ! nr = NULL" using find_SomeD [OF nr(1)] u(1) by auto
    show ?thesis
    proof (cases mem_ok)
      case True
      then have "sc = fork_link p (fork_copy nr p u)" "r = fork_refs p (fork_copy nr p u) (counts_of s)"
        using fork m nr(2) by (auto simp: sys_fork_def Let_def)
      then show ?thesis using files_ok_fork [OF assms(2) fork(2,3) nr' u] fork(1) by simp
    next
      case no_mem: False
      let ?v = "(fork_copy nr p u)\<lparr>task := (task (fork_copy nr p u))[nr := NULL]\<rparr>"
      have "(task (sched s))[nr := NULL] = task (sched s)" using nr'(2) by (metis list_update_id)
      then have "files_ok (with_counts (counts_of s) (s\<lparr>sched := ?v\<rparr>))"
        using fork(3) u by (intro triv) (auto simp: fork_copy_def Let_def)
      moreover have "sc = ?v" "r = counts_of s" using no_mem fork m nr(2) by (auto simp: sys_fork_def Let_def)
      ultimately show ?thesis using fork(1) by simp
    qed
  qed
qed


section \<open>A pipe shared by descriptors\<close>

definition no_dirs :: directories where
  "no_dirs = \<lparr>find_entry = (\<lambda>dir name s. Done (dir, None, s)), add_entry = (\<lambda>dir name nr s. Done (False, s)), new_inode = (\<lambda>dev s. Done (NULL, s))\<rparr>"

lemma plain_calls_keep: "calls_keep plain_kernel no_dirs"
  by (auto simp: calls_keep_def names_keep_def io_keeps_def plain_kernel_def no_dirs_def files.refl files.rewriting)

lemma one_disk_files_ok: "files_ok one_disk"
proof -
  have "2 \<in> live two_tasks" unfolding live_def by (rule CollectI, rule conjI, simp, rule bexI [of _ 1]) (simp_all add: nth_two_tasks)
  moreover have "3 \<in> live two_tasks" unfolding live_def by (rule CollectI, rule conjI, simp, rule bexI [of _ 2]) (simp_all add: nth_two_tasks)
  moreover have "live two_tasks \<subseteq> {2, 3}" by (auto simp: live_def nth_two_tasks split: if_splits)
  ultimately have live: "live two_tasks = {2, 3}" by blast
  have all: "all_tasks two_tasks = {1, 2, 3}" using live by (auto simp: all_tasks_def nth_two_tasks)
  have "refs one_disk f = 0" if "f \<in> {1..64}" for f
    using that by (simp add: refs_def all init_task_def count_list_0_iff)
  moreover have "f_count (file_table one_disk f) = 0" for f by (simp add: one_disk_def)
  ultimately show ?thesis by (simp add: files_ok_def all two_tasks_ok) (simp add: init_task_def)
qed

lemma pipe_then_dup:
  "case do_call plain_kernel no_dirs Make_Pipe one_disk of Done t \<Rightarrow>
     (case do_call plain_kernel no_dirs (Dup 1) t of Done u \<Rightarrow> f_count (file_table u 2) = 2 | _ \<Rightarrow> False)
   | _ \<Rightarrow> False"
  by code_simp


end
