(* ===== verification/Spec2Isabelle.thy ===== *)
theory Spec2Isabelle
  imports Mktime Timers Vsprintf Pipe Buffer_Cache Memory Minix_Dir Tty_Lines Files
begin

text \<open>
  A verification development for a small Unix-like kernel, a rewrite of Linux 0.12 in C for the i386.  The kernel schedules up to 64 processes in one
  linear address space, delivers signals, pages and swaps, caches disk blocks, reads and writes Minix file systems and drives disks and terminals.
  This theory collects the parts.  All names below are names of the sources under \<^verbatim>\<open>src/\<close>.

  \<^bold>\<open>Shared vocabulary.\<close>  \<open>Kernel_Prelude\<close>: words and wrap-around, error numbers, the result type \<open>outcome\<close> of code that may panic or still be
  asleep, linked lists in a store (\<open>path\<close>, \<open>dpath\<close>) with the lemmas for unlinking and pushing, \<open>find\<close> and \<open>fold\<close> lemmas.

  \<^bold>\<open>Processes.\<close>  \<open>Task_State\<close>: \<^verbatim>\<open>struct task_struct\<close> and the table \<^verbatim>\<open>task[]\<close> as a store of records.
  \<open>Sched\<close>: \<^verbatim>\<open>kernel/sched.c\<close>, \<^verbatim>\<open>schedule\<close>, \<^verbatim>\<open>sleep_on\<close>, \<^verbatim>\<open>wake_up\<close> and the small calls; the lemmas show which task is chosen, that the
  loop ends after one recharge when every priority is positive (fuel 2), and that it need not end otherwise.
  \<open>Signals\<close>: sending in \<^verbatim>\<open>kernel/exit.c\<close>, masks, dispositions and \<^verbatim>\<open>do_signal\<close> in \<^verbatim>\<open>kernel/signal.c\<close>.
  \<open>Process\<close>: \<^verbatim>\<open>fork\<close>, \<^verbatim>\<open>exit\<close>, \<^verbatim>\<open>waitpid\<close>, \<^verbatim>\<open>release\<close> and the audit of the family tree; the invariant is the doubly linked family
  tree, kept by every operation.  \<^verbatim>\<open>find_empty_process\<close> needs at most 129 candidates, the fuel used there.
  \<open>Sys_Calls\<close>: \<^verbatim>\<open>kernel/sys.c\<close>.  \<open>Timers\<close>: \<^verbatim>\<open>add_timer\<close> and \<^verbatim>\<open>do_timer\<close>; the fuel is the number of the 64 timers.
  \<open>Mktime\<close>: the boot clock against the calendar.  \<open>Vsprintf\<close>: the formatter behind \<^verbatim>\<open>printk\<close>.

  \<^bold>\<open>Memory.\<close>  \<open>Swap\<close> (\<^verbatim>\<open>mm/swap.c\<close>) has physical memory as words at addresses, \<^verbatim>\<open>mem_map\<close>, the swap bitmap and the disk; \<open>Memory\<close>
  (\<^verbatim>\<open>mm/memory.c\<close>) the page tables in that memory.  The search for a victim may run for ever when nothing can be
  swapped out, so \<^verbatim>\<open>get_free_page\<close> takes fuel; the properties are about calls that find a page.

  \<^bold>\<open>Files.\<close>  \<open>Pipe\<close>: the ring buffer of \<^verbatim>\<open>fs/pipe.c\<close> refines a bounded queue, stated as a locale and interpreted on the model.
  \<open>Block_Requests\<close>: the request table and the elevator of \<^verbatim>\<open>kernel/blk_drv/ll_rw_blk.c\<close>.  \<open>Buffer_Cache\<close>: \<^verbatim>\<open>fs/buffer.c\<close>, free list
  and hash chains over the buffer heads of the block layer; the locale \<open>cache_env\<close> states what the rest of the system keeps while a caller
  sleeps.  \<open>Minix_Blocks\<close>: zone maps, the block map of a file, inodes on disk and truncation; \<open>Minix_Dir\<close>: directory entries.

  \<^bold>\<open>The file layer above the file systems.\<close>  \<open>Inodes\<close>: \<^verbatim>\<open>fs/inode.c\<close> and the locks of \<^verbatim>\<open>fs/super.c\<close> over the tables of inodes, super blocks and files; the operations
  of a file system, the buffer cache, the page allocator and the sleeps are one argument, the record \<open>kernel\<close>.  The locales \<open>steps\<close>,
  \<open>identity_steps\<close> and \<open>blind_steps\<close> state which small changes a relation between two states must allow; inside them whole operations are shown to keep the relation,
  also over sleeps, and interpretations give the uniqueness of inodes and the counts of files.  \<open>Path_Names\<close>: \<^verbatim>\<open>fs/namei.c\<close>, path walking and the calls on
  directories; the counts of inodes are balanced.  \<open>Files\<close>: descriptors, \<^verbatim>\<open>open\<close>, \<^verbatim>\<open>close\<close>, \<^verbatim>\<open>dup\<close>, \<^verbatim>\<open>pipe\<close>, the parts of \<^verbatim>\<open>exit\<close> and \<^verbatim>\<open>exec\<close> that close files,
  the attribute calls, \<^verbatim>\<open>read\<close>, \<^verbatim>\<open>write\<close>, \<^verbatim>\<open>lseek\<close>, \<^verbatim>\<open>ioctl\<close> up to the device, and mounting; with \<^verbatim>\<open>fork\<close> of \<open>Process\<close> they are the steps of a machine
  in which the counts of open files are exact.  A wait loop has as many rounds as there are sleeps given; the retries of \<^verbatim>\<open>iput\<close> and
  \<^verbatim>\<open>get_empty_inode\<close> are bounded by \<open>rounds\<close>, since each follows a write of an inode that may fail to make it clean; two are enough undisturbed.

  \<^bold>\<open>Terminals.\<close>  \<open>Console\<close>: the terminal emulator of \<^verbatim>\<open>kernel/chr_drv/console.c\<close>, every operation on the screen and every escape
  sequence, over a memory of character cells; each operation is shown to keep its console well-formed and to write to its memory only.
  \<open>Console_Screens\<close>: what scrolling shows, and all consoles together with \<^verbatim>\<open>con_init\<close> and \<^verbatim>\<open>update_screen\<close>.
  \<open>Tty\<close>: the queues, the line discipline, reading, writing and control of terminals (\<^verbatim>\<open>tty_io.c\<close>, \<^verbatim>\<open>tty_ioctl.c\<close>, \<^verbatim>\<open>pty.c\<close>); a driver is an argument, and
  \<open>tty_driver\<close> ties the knot with fuel for the nesting and for the characters of one flush: three is enough for the echo of a console that is never
  stopped, 1024, the size of a queue, for one with flow control.  \<open>Tty_Lines\<close>: the locale
  \<open>quiet_terminal\<close> states what cooking needs of a terminal and is interpreted for consoles, without and with flow control, and for serial lines; a typed line is what is
  read.

  \<^bold>\<open>Conventions.\<close>  Code that sleeps takes a list of state transformers, one for each sleep, standing for what the others do meanwhile; when the list is too
  short the result is \<open>Asleep\<close>.  User memory is an argument where it is read and a result where it is written.  Messages are left out
  except where they are the result.

  \<^bold>\<open>Not modelled.\<close>  Assembly (\<^verbatim>\<open>boot/\<close>, \<^verbatim>\<open>*.S\<close>), port input and output and device timing (\<^verbatim>\<open>hd.c\<close>, \<^verbatim>\<open>serial.c\<close>, \<^verbatim>\<open>keyboard.S\<close>), start-up
  code, the user library \<^verbatim>\<open>lib/\<close>, loading a program and \<^verbatim>\<open>select\<close>, the transfers of device files and of Minix files, and \<^verbatim>\<open>sys_rename\<close> and \<^verbatim>\<open>sys_readlink\<close>, whose text does
  not compile.
\<close>

end
